(* ===== verification/Prelude.thy ===== *)
theory Prelude
  imports Main "HOL-Library.Word" "HOL-Library.Multiset"
begin

text \<open>
  Shared vocabulary of the development: the C integer types of the daemon (C++) and of the
  driver (C) as words of their width, byte buffers as lists of bytes, the C library's byte
  order helpers, and the generic facts on words, lists and multisets that the component
  theories use. The simp collections \<open>le_simps\<close> (byte loads) and \<open>pack_simps\<close>
  (packed bit fields) are filled by the theories that define the encodings.
\<close>

unbundle bit_operations_syntax

named_theorems le_simps \<open>little-endian loads and stores\<close>
named_theorems pack_simps \<open>shifts, masks and packed bit fields\<close>

section \<open>Integer types\<close>

type_synonym u8 = "8 word"
type_synonym u16 = "16 word"
type_synonym u32 = "32 word"
type_synonym u64 = "64 word"

text \<open>A byte buffer: the object a \<open>const void *\<close> and a length describe.\<close>
type_synonym bytes = "u8 list"

section \<open>Little-endian memory\<close>

text \<open>
  The value of the first \<open>n\<close> bytes at a pointer, read on a little-endian machine (x86-64, the
  platform of both sides). \<open>le_load 8\<close> is a \<open>uint64_t\<close> load, \<open>le_load 4\<close> a \<open>uint32_t\<close> load
  widened to 64 bits. Bytes past the end of the buffer read as 0; every caller reads inside.
\<close>

fun le_load :: "nat \<Rightarrow> bytes \<Rightarrow> u64" where
  "le_load 0 bs = 0"
| "le_load (Suc n) [] = 0"
| "le_load (Suc n) (b # bs) = ucast b OR push_bit 8 (le_load n bs)"

text \<open>The bytes of a 64-bit object in memory, and of a 32-bit object.\<close>

definition le_bytes :: "u64 \<Rightarrow> bytes" where
  "le_bytes k = map (\<lambda>i. ucast (drop_bit (8 * i) k)) [0, 1, 2, 3, 4, 5, 6, 7]"

definition le_bytes32 :: "u32 \<Rightarrow> bytes" where
  "le_bytes32 k = map (\<lambda>i. ucast (drop_bit (8 * i) k)) [0, 1, 2, 3]"

text \<open>
  The C library's \<open>htonl\<close> and \<open>ntohl\<close> on a little-endian machine: the four bytes reversed.
\<close>

definition bswap32 :: "u32 \<Rightarrow> u32" where
  "bswap32 v = push_bit 24 (v AND 0xFF) OR push_bit 8 (v AND 0xFF00)
     OR (drop_bit 8 v AND 0xFF00) OR (drop_bit 24 v AND 0xFF)"

definition htonl :: "u32 \<Rightarrow> u32" where
  "htonl v = bswap32 v"

definition ntohl :: "u32 \<Rightarrow> u32" where
  "ntohl v = bswap32 v"

section \<open>Words\<close>

text \<open>Conversions, shifts and products read as natural numbers.\<close>

lemma unat_ucast_mod: "unat (ucast (w :: 'a::len word) :: 'b::len word) = unat w mod 2 ^ LENGTH('b)"
  by (simp add: unsigned_ucast_eq take_bit_eq_mod)

lemma unat_less_exp: "unat (w :: 'a::len word) < 2 ^ LENGTH('a)"
  by (rule unsigned_less)

lemma unat_ucast_up:
  "LENGTH('a) \<le> LENGTH('b) \<Longrightarrow> unat (ucast (w :: 'a::len word) :: 'b::len word) = unat w"
  unfolding unat_ucast_mod
  by (rule mod_less, rule less_le_trans [OF unat_less_exp]) (simp add: power_increasing)

lemma unat_shiftr: "unat (drop_bit n w) = unat w div 2 ^ n"
  unfolding unat_drop_bit_eq by (rule drop_bit_eq_div)

lemma unat_shiftl: "unat (push_bit n (w :: 'a::len word)) = unat w * 2 ^ n mod 2 ^ LENGTH('a)"
  unfolding unsigned_push_bit_eq take_bit_eq_mod by (subst push_bit_eq_mult) (rule refl)

lemma unat_mult_ucast:
  fixes x y :: "'a::len word"
  assumes "2 * LENGTH('a) \<le> LENGTH('b)"
  shows "unat ((ucast x :: 'b::len word) * ucast y) = unat x * unat y"
proof -
  have "unat x * unat y < 2 ^ LENGTH('a) * 2 ^ LENGTH('a)"
    by (intro mult_strict_mono unat_less_exp) simp_all
  also have "\<dots> = 2 ^ (2 * LENGTH('a))" by (simp add: mult_2 power_add)
  also have "\<dots> \<le> 2 ^ LENGTH('b)" using assms by (simp add: power_increasing)
  finally show ?thesis using assms by (simp add: unat_word_ariths unat_ucast_up)
qed

text \<open>Addition with carry, as a comparison with the first summand detects it.\<close>

lemma carry_of_sum:
  fixes x y M :: nat
  assumes "x < M" "y < M"
  shows "x + y = (x + y) mod M + (if (x + y) mod M < x then M else 0)"
proof (cases "x + y < M")
  case True
  then show ?thesis by simp
next
  case False
  then have "(x + y) mod M = x + y - M" using assms by (simp add: mod_if)
  with False assms show ?thesis by auto
qed

lemma byte_masks: "(0xFF :: u32) = mask 8" "(0xFF00 :: u32) = push_bit 8 (mask 8)"
  by (simp_all add: mask_eq_exp_minus_1)

lemma bit_bswap32:
  assumes "b < 8" "a < 4"
  shows "bit (bswap32 v) (8 * a + b) \<longleftrightarrow> bit v (8 * (3 - a) + b)"
proof -
  have bits: "bit (bswap32 v) b = bit v (24 + b)" "bit (bswap32 v) (8 + b) = bit v (16 + b)"
    "bit (bswap32 v) (16 + b) = bit v (8 + b)" "bit (bswap32 v) (24 + b) = bit v b"
    using assms(1) unfolding bswap32_def byte_masks
    by (simp_all only: bit_simps; simp add: add.commute)+
  from assms(2) have "a = 0 \<or> a = 1 \<or> a = 2 \<or> a = 3" by linarith
  then show ?thesis using bits by (elim disjE) simp_all
qed

lemma bswap32_bswap32 [simp]: "bswap32 (bswap32 v) = v"
proof (rule bit_word_eqI)
  fix n assume n: "n < LENGTH(32)"
  define a b where "a = n div 8" and "b = n mod 8"
  have ab: "n = 8 * a + b" "b < 8" "a < 4" using n by (auto simp: a_def b_def)
  then have c: "3 - a < 4" "3 - (3 - a) = a" by auto
  show "bit (bswap32 (bswap32 v)) n = bit v n"
    unfolding ab(1) using bit_bswap32 [OF ab(2,3)] bit_bswap32 [OF ab(2) c(1)] c(2) by simp
qed

lemma ntohl_htonl [simp]: "ntohl (htonl v) = v"
  by (simp add: ntohl_def htonl_def)

lemma bit_le_load:
  "n \<le> 8 \<Longrightarrow> bit (le_load n bs) i \<longleftrightarrow> i < 8 * n \<and> i div 8 < length bs \<and> bit (bs ! (i div 8)) (i mod 8)"
proof (induction n bs arbitrary: i rule: le_load.induct)
  case (3 n b bs)
  then have IH: "bit (le_load n bs) (i - 8) \<longleftrightarrow> i - 8 < 8 * n \<and> (i - 8) div 8 < length bs
      \<and> bit (bs ! ((i - 8) div 8)) ((i - 8) mod 8)" by simp
  show ?case
  proof (cases "i < 8")
    case True
    then show ?thesis by (simp add: bit_simps)
  next
    case False
    then have "i div 8 = Suc ((i - 8) div 8)" and "i mod 8 = (i - 8) mod 8"
      by (simp_all add: le_div_geq mod_if)
    with False IH "3.prems" show ?thesis by (auto simp: bit_simps dest: bit_imp_le_length)
  qed
qed simp_all

lemma length_le_bytes [simp, le_simps]: "length (le_bytes k) = 8"
  by (simp add: le_bytes_def)

lemma nth_le_bytes [le_simps]: "i < 8 \<Longrightarrow> le_bytes k ! i = ucast (drop_bit (8 * i) k)"
proof -
  assume "i < 8"
  then have "i = 0 \<or> i = 1 \<or> i = 2 \<or> i = 3 \<or> i = 4 \<or> i = 5 \<or> i = 6 \<or> i = 7" by linarith
  then show ?thesis by (elim disjE) (simp_all add: le_bytes_def)
qed

lemma le_load_le_bytes [simp, le_simps]: "le_load 8 (le_bytes k) = k"
proof (rule bit_word_eqI)
  fix n assume "n < LENGTH(64)"
  then have n: "n < 64" "n div 8 < 8" by auto
  have "8 * (n div 8) + n mod 8 = n" by simp
  with n show "bit (le_load 8 (le_bytes k)) n = bit k n"
    by (auto simp: bit_le_load nth_le_bytes bit_simps)
qed

text \<open>A word below \<open>2 ^ n\<close> has no bit at or above \<open>n\<close>.\<close>

lemma bit_less_exp:
  assumes "w < 2 ^ n" "bit (w :: 'a::len word) m"
  shows "m < n"
proof -
  have "w AND mask n = w" using assms(1) by (rule less_mask_eq)
  with assms(2) have "bit (w AND mask n) m" by simp
  then show ?thesis by (simp add: bit_simps)
qed

section \<open>Sums over updated lists\<close>

lemma sum_list_update_at:
  fixes g :: "'a \<Rightarrow> 'b::comm_monoid_add"
  assumes "i < length xs"
  shows "sum_list (map g (xs[i := y])) + g (xs ! i) = sum_list (map g xs) + g y"
  using assms
proof (induction xs arbitrary: i)
  case (Cons x xs)
  show ?case
  proof (cases i)
    case 0
    then show ?thesis by (simp add: ac_simps)
  next
    case (Suc j)
    then have "sum_list (map g (xs[j := y])) + g (xs ! j) = sum_list (map g xs) + g y" using Cons by simp
    then show ?thesis using Suc by (simp add: add.assoc)
  qed
qed simp

section \<open>Encodings\<close>

text \<open>
  The interface of a packed encoding: decoding gives back every value that fits its fields.
  Provided by the long keys and by the immediate data of the RDMA messages.
\<close>

locale codec =
  fixes enc :: "'a \<Rightarrow> 'b" and dec :: "'b \<Rightarrow> 'a" and fits :: "'a \<Rightarrow> bool"
  assumes dec_enc: "fits x \<Longrightarrow> dec (enc x) = x"
begin

lemma enc_inj: "inj_on enc {x. fits x}"
  by (rule inj_on_inverseI [where g = dec]) (simp add: dec_enc)

lemma enc_eq_iff: "fits x \<Longrightarrow> fits y \<Longrightarrow> enc x = enc y \<longleftrightarrow> x = y"
  using dec_enc by metis

end

end
