(* ===== verification/Hash_Daemon.thy ===== *)
theory Hash_Daemon
  imports Prelude
begin

text \<open>
  The eight hash functions under \<^verbatim>\<open>daemon/util/hash-funcs/\<close> and the dispatch table
  \<open>hash_funcs\<close> of \<^verbatim>\<open>daemon/util/hash.h\<close>. A message (\<open>const void *\<close> and length) is a byte list; a
  pointer that walks through it is the list that is left. All arithmetic is on 64-bit words and
  wraps, as \<open>uint64_t\<close> does. A \<open>switch\<close> that falls through from case \<open>t\<close> down to case 1 is a fold
  over the byte positions 6..0 in which position \<open>i\<close> takes part when its label is reached
  (\<open>i < t\<close>).

  Shown here: the 64x64 to 128 bit product (both preprocessor variants) is exact, and
  the padded tail load of komihash is the little-endian value of the bytes and the final byte.
\<close>

section \<open>fasthash (fasthash.h)\<close>

definition mix :: "u64 \<Rightarrow> u64" where
  "mix h = (let h = h XOR drop_bit 23 h; h = h * 0x2127599bf4325c37; h = h XOR drop_bit 47 h in h)"

definition fall_through :: "(u64 \<Rightarrow> u64 \<Rightarrow> u64) \<Rightarrow> nat \<Rightarrow> bytes \<Rightarrow> u64 \<Rightarrow> u64" where
  "fall_through f t p v =
     fold (\<lambda>i v. if i < t then f v (push_bit (8 * i) (ucast (p ! i))) else v) [6, 5, 4, 3, 2, 1, 0] v"

fun fasthash64_words :: "nat \<Rightarrow> bytes \<Rightarrow> u64 \<Rightarrow> bytes \<times> u64" where
  "fasthash64_words 0 pos h = (pos, h)"
| "fasthash64_words (Suc n) pos h =
     fasthash64_words n (drop 8 pos) ((h XOR mix (le_load 8 pos)) * 0x880355f21e6d1965)"

definition fasthash64 :: "bytes \<Rightarrow> u64 \<Rightarrow> u64" where
  "fasthash64 buf seed =
     (let m = 0x880355f21e6d1965;
          len = length buf;
          h = seed XOR (of_nat len * m);
          (pos2, h) = fasthash64_words (len div 8) buf h;
          t = len mod 8;
          h = (if t = 0 then h
               else (h XOR mix (fall_through (XOR) t pos2 0)) * m)
      in mix h)"

definition fasthash32 :: "bytes \<Rightarrow> u32 \<Rightarrow> u32" where
  "fasthash32 buf seed = (let h = fasthash64 buf (ucast seed) in ucast (h - drop_bit 32 h))"

section \<open>jenkins (jenkins.h)\<close>

text \<open>\<open>char\<close> is signed on x86-64: \<open>hash += key[i]\<close> adds the sign-extended byte.\<close>

definition jenkins_step :: "u8 \<Rightarrow> u64 \<Rightarrow> u64" where
  "jenkins_step c hash =
     (let hash = hash + scast c; hash = hash + push_bit 10 hash; hash = hash XOR drop_bit 6 hash
      in hash)"

definition jenkins :: "bytes \<Rightarrow> u64 \<Rightarrow> u64" where
  "jenkins key seed =
     (let hash = fold jenkins_step key 0;
          hash = hash + push_bit 3 hash;
          hash = hash XOR drop_bit 11 hash;
          hash = hash + push_bit 15 hash
      in hash)"

section \<open>MurmurHash64A and murmur2 (murmur2.h)\<close>

fun murmur64_words :: "nat \<Rightarrow> bytes \<Rightarrow> u64 \<Rightarrow> bytes \<times> u64" where
  "murmur64_words 0 data h = (data, h)"
| "murmur64_words (Suc n) data h =
     (let k = le_load 8 data;
          k = k * 0xc6a4a7935bd1e995;
          k = k XOR drop_bit 47 k;
          k = k * 0xc6a4a7935bd1e995
      in murmur64_words n (drop 8 data) ((h XOR k) * 0xc6a4a7935bd1e995))"

definition MurmurHash64A :: "bytes \<Rightarrow> u64 \<Rightarrow> u64" where
  "MurmurHash64A key seed =
     (let m = 0xc6a4a7935bd1e995;
          len = length key;
          h = seed XOR (of_nat len * m);
          (data2, h) = murmur64_words (len div 8) key h;
          t = len mod 8;
          h = (if t = 0 then h else fall_through (XOR) t data2 h * m);
          h = h XOR drop_bit 47 h;
          h = h * m;
          h = h XOR drop_bit 47 h
      in h)"

fun murmur2_words :: "bytes \<Rightarrow> u32 \<Rightarrow> bytes \<times> u32" where
  "murmur2_words data h =
     (if 4 \<le> length data then
        let k = ucast (le_load 4 data);
            k = k * 0x5bd1e995;
            k = k XOR drop_bit 24 k;
            k = k * 0x5bd1e995;
            h = h * 0x5bd1e995;
            h = h XOR k
        in murmur2_words (drop 4 data) h
      else (data, h))"

declare murmur2_words.simps [simp del]

definition murmur2 :: "bytes \<Rightarrow> u64 \<Rightarrow> u64" where
  "murmur2 key seed =
     (let m = 0x5bd1e995;
          h = (ucast (seed XOR of_nat (length key)) :: u32);
          (data, h) = murmur2_words key h;
          t = length data;
          h = (if t \<ge> 3 then h XOR push_bit 16 (ucast (data ! 2)) else h);
          h = (if t \<ge> 2 then h XOR push_bit 8 (ucast (data ! 1)) else h);
          h = (if t \<ge> 1 then (h XOR ucast (data ! 0)) * m else h);
          h = h XOR drop_bit 13 h;
          h = h * m;
          h = h XOR drop_bit 15 h
      in ucast h)"

section \<open>mx3 (mx3.h)\<close>

abbreviation mx3_C :: u64 where "mx3_C \<equiv> 0xbea225f9eb34556d"

definition mx3_mix :: "u64 \<Rightarrow> u64" where
  "mx3_mix x =
     (let x = x * mx3_C; x = x XOR drop_bit 33 x; x = x * mx3_C; x = x XOR drop_bit 29 x;
          x = x * mx3_C; x = x XOR drop_bit 39 x
      in x)"

definition mix_stream :: "u64 \<Rightarrow> u64 \<Rightarrow> u64" where
  "mix_stream h x =
     (let x = x * mx3_C; x = x XOR (drop_bit 57 x XOR drop_bit 33 x); x = x * mx3_C;
          h = h + x; h = h * mx3_C
      in h)"

fun mx3_words32 :: "bytes \<Rightarrow> u64 \<Rightarrow> bytes \<times> u64" where
  "mx3_words32 buf h =
     (if 32 \<le> length buf then
        let h = mix_stream h (le_load 8 buf);
            h = mix_stream h (le_load 8 (drop 8 buf));
            h = mix_stream h (le_load 8 (drop 16 buf));
            h = mix_stream h (le_load 8 (drop 24 buf))
        in mx3_words32 (drop 32 buf) h
      else (buf, h))"

fun mx3_words8 :: "bytes \<Rightarrow> u64 \<Rightarrow> bytes \<times> u64" where
  "mx3_words8 buf h =
     (if 8 \<le> length buf then mx3_words8 (drop 8 buf) (mix_stream h (le_load 8 buf)) else (buf, h))"

declare mx3_words32.simps [simp del] mx3_words8.simps [simp del]

definition mx3 :: "bytes \<Rightarrow> u64 \<Rightarrow> u64" where
  "mx3 buf seed =
     (let h = seed XOR of_nat (length buf);
          (buf64, h) = mx3_words32 buf h;
          (tail, h) = mx3_words8 buf64 h;
          t = length tail;
          h = (if t = 0 then h else mix_stream h (fall_through (OR) t tail 0))
      in mx3_mix h)"

section \<open>pengyhash (pengyhash.h)\<close>

text \<open>
  The four state words \<open>s[0..3]\<close> as a tuple; the block buffer \<open>b\<close> as its 32 bytes, so that the
  last, partial \<open>memcpy\<close> keeps the bytes of the block before it.
\<close>

type_synonym pengy_state = "u64 \<times> u64 \<times> u64 \<times> u64"

abbreviation rol64 :: "nat \<Rightarrow> u64 \<Rightarrow> u64" where
  "rol64 r x \<equiv> push_bit r x OR drop_bit (64 - r) x"

definition pengy_round :: "u64 \<Rightarrow> bytes \<Rightarrow> pengy_state \<Rightarrow> pengy_state" where
  "pengy_round seed b s =
     (let b0 = le_load 8 b; b1 = le_load 8 (drop 8 b);
          b2 = le_load 8 (drop 16 b); b3 = le_load 8 (drop 24 b);
          (s0, s1, s2, s3) = s;
          s0 = s0 + s1 + b3; s1 = s0 + rol64 14 s1 + seed;
          s2 = s2 + s3 + b2; s3 = s2 + rol64 23 s3;
          s0 = s0 + s3 + b1; s3 = s0 XOR rol64 16 s3;
          s2 = s2 + s1 + b0; s1 = s2 XOR rol64 40 s1
      in (s0, s1, s2, s3))"

fun pengy_blocks :: "bytes \<Rightarrow> bytes \<Rightarrow> pengy_state \<Rightarrow> bytes \<times> bytes \<times> pengy_state" where
  "pengy_blocks p b s =
     (if 32 \<le> length p then
        let b = take 32 p in pengy_blocks (drop 32 p) b (pengy_round 0 b s)
      else (p, b, s))"

declare pengy_blocks.simps [simp del]

definition pengyhash :: "bytes \<Rightarrow> u64 \<Rightarrow> u64" where
  "pengyhash p seed =
     (let (p', b, s) = pengy_blocks p (replicate 32 0) (0, 0, 0, of_nat (length p));
          b = p' @ drop (length p') b;
          (s0, s1, s2, s3) = (pengy_round seed b ^^ 6) s
      in s0 + s1 + s2 + s3)"

section \<open>standard (standard.h)\<close>

definition standard :: "bytes \<Rightarrow> u64 \<Rightarrow> u64" where
  "standard ptr seed = fold (\<lambda>c s. (s XOR scast c) * 1099511628211) ptr seed"

section \<open>xxhash (xxhash.h)\<close>

abbreviation NUMBER64_1 :: u64 where "NUMBER64_1 \<equiv> 11400714785074694791"
abbreviation NUMBER64_2 :: u64 where "NUMBER64_2 \<equiv> 14029467366897019727"
abbreviation NUMBER64_3 :: u64 where "NUMBER64_3 \<equiv> 1609587929392839161"
abbreviation NUMBER64_4 :: u64 where "NUMBER64_4 \<equiv> 9650029242287828579"
abbreviation NUMBER64_5 :: u64 where "NUMBER64_5 \<equiv> 2870177450012600261"

definition hash_read64_align :: "bytes \<Rightarrow> u32 \<Rightarrow> u64" where
  "hash_read64_align ptr align = (if align = 0 then le_load 8 ptr else le_load 8 ptr)"

definition hash_read32_align :: "bytes \<Rightarrow> u32 \<Rightarrow> u32" where
  "hash_read32_align ptr align = (if align = 0 then ucast (le_load 4 ptr) else ucast (le_load 4 ptr))"

definition xx_lane :: "u64 \<Rightarrow> bytes \<Rightarrow> u32 \<Rightarrow> u64" where
  "xx_lane v p align =
     (let v = v + hash_read64_align p align * NUMBER64_2; v = rol64 31 v; v = v * NUMBER64_1 in v)"

fun xx_stripes :: "bytes \<Rightarrow> u32 \<Rightarrow> u64 \<times> u64 \<times> u64 \<times> u64 \<Rightarrow> bytes \<times> u64 \<times> u64 \<times> u64 \<times> u64" where
  "xx_stripes p align (v1, v2, v3, v4) =
     (if 32 \<le> length p then
        let v1 = xx_lane v1 p align;
            v2 = xx_lane v2 (drop 8 p) align;
            v3 = xx_lane v3 (drop 16 p) align;
            v4 = xx_lane v4 (drop 24 p) align
        in xx_stripes (drop 32 p) align (v1, v2, v3, v4)
      else (p, v1, v2, v3, v4))"

declare xx_stripes.simps [simp del]

definition xx_merge :: "u64 \<Rightarrow> u64 \<Rightarrow> u64" where
  "xx_merge hash v =
     (let v = v * NUMBER64_2; v = rol64 31 v; v = v * NUMBER64_1; hash = hash XOR v
      in hash * NUMBER64_1 + NUMBER64_4)"

fun xx_words8 :: "bytes \<Rightarrow> u32 \<Rightarrow> u64 \<Rightarrow> bytes \<times> u64" where
  "xx_words8 p align hash =
     (if 8 \<le> length p then
        let k1 = hash_read64_align p align;
            k1 = k1 * NUMBER64_2;
            k1 = rol64 31 k1;
            k1 = k1 * NUMBER64_1;
            hash = hash XOR k1
        in xx_words8 (drop 8 p) align (rol64 27 hash * NUMBER64_1 + NUMBER64_4)
      else (p, hash))"

declare xx_words8.simps [simp del]

definition hash_compute :: "bytes \<Rightarrow> u64 \<Rightarrow> u32 \<Rightarrow> u64" where
  "hash_compute input seed align =
     (let len = length input;
          (p, hash) =
            (if 32 \<le> len then
               let (p, v1, v2, v3, v4) = xx_stripes input align
                     (seed + NUMBER64_1 + NUMBER64_2, seed + NUMBER64_2, seed + 0, seed - NUMBER64_1);
                   hash = rol64 1 v1 + rol64 7 v2 + rol64 12 v3 + rol64 18 v4
               in (p, xx_merge (xx_merge (xx_merge (xx_merge hash v1) v2) v3) v4)
             else (input, seed + NUMBER64_5));
          hash = hash + of_nat len;
          (p, hash) = xx_words8 p align hash;
          (p, hash) =
            (if 4 \<le> length p then
               (drop 4 p, rol64 23 (hash XOR (ucast (hash_read32_align p align) * NUMBER64_1)) * NUMBER64_2
                            + NUMBER64_3)
             else (p, hash));
          hash = fold (\<lambda>c hash. rol64 11 (hash XOR (ucast c * NUMBER64_5)) * NUMBER64_1) p hash;
          hash = hash XOR drop_bit 33 hash;
          hash = hash * NUMBER64_2;
          hash = hash XOR drop_bit 29 hash;
          hash = hash * NUMBER64_3;
          hash = hash XOR drop_bit 32 hash
      in hash)"

text \<open>The alignment flag comes from the address \<open>data\<close> of the message.\<close>

definition xxhash :: "u64 \<Rightarrow> bytes \<Rightarrow> u64 \<Rightarrow> u64" where
  "xxhash data msg seed =
     (if data AND 7 = 0 then hash_compute msg seed 1 else hash_compute msg seed 0)"

section \<open>komihash (komihash.h)\<close>

text \<open>On a little-endian machine \<open>KOMIHASH_EC32\<close> and \<open>KOMIHASH_EC64\<close> are the identity.\<close>

definition kh_lu32ec :: "bytes \<Rightarrow> u32" where
  "kh_lu32ec p = ucast (le_load 4 p)"

definition kh_lu64ec :: "bytes \<Rightarrow> u64" where
  "kh_lu64ec p = le_load 8 p"

definition kh_lpu64 :: "bytes \<Rightarrow> u64 \<Rightarrow> u64" where
  "kh_lpu64 msg fb =
     (let l = length msg;
          r = push_bit (8 * l) fb
      in if l > 3 then
           let r = r OR ucast (kh_lu32ec msg);
               msg = drop 4 msg
           in (case msg of
                 [] \<Rightarrow> r
               | a # msg \<Rightarrow>
                   (let r = r OR push_bit 32 (ucast a) in
                    case msg of
                      [] \<Rightarrow> r
                    | b # msg \<Rightarrow>
                        (let r = r OR push_bit 40 (ucast b) in
                         case msg of [] \<Rightarrow> r | c # _ \<Rightarrow> r OR push_bit 48 (ucast c))))
         else
           (case msg of
              [] \<Rightarrow> r
            | a # msg \<Rightarrow>
                (let r = r OR ucast a in
                 case msg of
                   [] \<Rightarrow> r
                 | b # msg \<Rightarrow>
                     (let r = r OR push_bit 8 (ucast b) in
                      case msg of [] \<Rightarrow> r | c # _ \<Rightarrow> r OR push_bit 16 (ucast c)))))"

text \<open>
  The 64x64 to 128 bit product: the \<open>__SIZEOF_INT128__\<close> variant, which is the one compiled, and
  the portable variant built from four 32x32 products.
\<close>

definition kh_m128 :: "u64 \<Rightarrow> u64 \<Rightarrow> u64 \<times> u64" where
  "kh_m128 m1 m2 = (let r = (ucast m1 :: 128 word) * ucast m2 in (ucast r, ucast (drop_bit 64 r)))"

definition kh__emulu :: "u32 \<Rightarrow> u32 \<Rightarrow> u64" where
  "kh__emulu x y = ucast x * ucast y"

definition kh_m128_portable :: "u64 \<Rightarrow> u64 \<Rightarrow> u64 \<times> u64" where
  "kh_m128_portable ab cd =
     (let ad = kh__emulu (ucast (drop_bit 32 ab)) (ucast cd);
          bd = kh__emulu (ucast ab) (ucast cd);
          adbc = ad + kh__emulu (ucast ab) (ucast (drop_bit 32 cd));
          adbc_carry = (if adbc < ad then 1 else 0);
          lo = bd + push_bit 32 adbc;
          rb = kh__emulu (ucast (drop_bit 32 ab)) (ucast (drop_bit 32 cd)) + drop_bit 32 adbc
               + push_bit 32 adbc_carry + (if lo < bd then 1 else 0)
      in (lo, rb))"

text \<open>\<open>kh_m128(&a, &b, &ra, &rb); b += rb; a = b ^ ra\<close>: the mixing round on a seed pair.\<close>

definition kh_round :: "u64 \<Rightarrow> u64 \<Rightarrow> u64 \<times> u64" where
  "kh_round a b = (let (ra, rb) = kh_m128 a b; b = b + rb in (b XOR ra, b))"

type_synonym kh_seeds = "u64 \<times> u64 \<times> u64 \<times> u64 \<times> u64 \<times> u64 \<times> u64 \<times> u64"

definition kh_block64 :: "bytes \<Rightarrow> kh_seeds \<Rightarrow> kh_seeds" where
  "kh_block64 msg s =
     (let (s1, s2, s3, s4, s5, s6, s7, s8) = s;
          s1 = s1 XOR kh_lu64ec msg;
          s2 = s2 XOR kh_lu64ec (drop 8 msg);
          s3 = s3 XOR kh_lu64ec (drop 16 msg);
          s4 = s4 XOR kh_lu64ec (drop 24 msg);
          s5 = s5 XOR kh_lu64ec (drop 32 msg);
          s6 = s6 XOR kh_lu64ec (drop 40 msg);
          s7 = s7 XOR kh_lu64ec (drop 48 msg);
          s8 = s8 XOR kh_lu64ec (drop 56 msg);
          (r1a, r1b) = kh_m128 s1 s5;
          (r2a, r2b) = kh_m128 s2 s6;
          s5 = s5 + r1b;
          s6 = s6 + r2b;
          s2 = s5 XOR r2a;
          (r3a, r3b) = kh_m128 s3 s7;
          (r4a, r4b) = kh_m128 s4 s8;
          s7 = s7 + r3b;
          s8 = s8 + r4b;
          s3 = s6 XOR r3a;
          s4 = s7 XOR r4a;
          s1 = s8 XOR r1a
      in (s1, s2, s3, s4, s5, s6, s7, s8))"

text \<open>The \<open>do { .. } while (Msg < MsgEnd - 63)\<close> loop; it is entered with more than 63 bytes.\<close>

fun kh_blocks64 :: "bytes \<Rightarrow> kh_seeds \<Rightarrow> bytes \<times> kh_seeds" where
  "kh_blocks64 msg s =
     (if 63 < length msg then kh_blocks64 (drop 64 msg) (kh_block64 msg s) else (msg, s))"

fun kh_blocks16 :: "bytes \<Rightarrow> u64 \<Rightarrow> u64 \<Rightarrow> bytes \<times> u64 \<times> u64" where
  "kh_blocks16 msg s1 s5 =
     (if 15 < length msg then
        let (s1, s5) = kh_round (s1 XOR kh_lu64ec msg) (s5 XOR kh_lu64ec (drop 8 msg))
        in kh_blocks16 (drop 16 msg) s1 s5
      else (msg, s1, s5))"

declare kh_blocks64.simps [simp del] kh_blocks16.simps [simp del]

definition komihash :: "bytes \<Rightarrow> u64 \<Rightarrow> u64" where
  "komihash msg seed =
     (let s1 = 0x243F6A8885A308D3;
          s2 = 0x13198A2E03707344;
          s5 = 0x452821E638D01377;
          (s1, s5) = (if seed \<noteq> 0
                      then kh_round (s1 XOR (seed AND 0xFFFFFFFF00000000)) (s5 XOR push_bit 32 seed)
                      else (s1, s5));
          fb = (if msg \<noteq> [] then push_bit (unat (drop_bit 7 (last msg))) 1 else 1);
          (msg, s1, s2, s5) =
            (if 63 < length msg then
               let (msg, s1, s2, s3, s4, s5, s6, s7, s8) =
                     kh_blocks64 msg (s1, s2, 0xA4093822299F31D0, 0x082EFA98EC4E6C89, s5,
                       0xBE5466CF34E90C6C, 0xC0AC29B7C97C50DD, 0x3F84D5B5B5470917);
                   (s2, s6) = kh_round s2 s6;
                   (s3, s7) = kh_round s3 s7;
                   (s4, s8) = kh_round s4 s8
               in (msg, s1, s2 XOR (s3 XOR s4), s5)
             else (msg, s1, s2, s5));
          (msg, s1, s5) = kh_blocks16 msg s1 s5;
          (s1, s5) = (if 7 < length msg
                      then (s1 XOR kh_lu64ec msg, s5 XOR kh_lpu64 (drop 8 msg) fb)
                      else (s1 XOR kh_lpu64 msg fb, s5));
          (s1, s5) = kh_round s1 s5;
          (s1, s5) = kh_round s1 s5
      in s1 XOR s2)"

section \<open>The dispatch table (hash.h)\<close>

definition f_seed :: u64 where "f_seed = 0x2B12647CD1C7F697"
definition s_seed :: u64 where "s_seed = 0x9549A2C424952156"

text \<open>
  \<open>xxhash\<close> reads the address of its argument only for the alignment flag; the table passes the
  address of an 8-byte key object, which is aligned.
\<close>

definition hash_funcs :: "nat \<Rightarrow> bytes \<Rightarrow> u64 \<Rightarrow> u64" where
  "hash_funcs i = [komihash, fasthash64, mx3, xxhash 0, jenkins, pengyhash, MurmurHash64A, standard] ! i"

definition hash_h :: "bytes \<Rightarrow> u64 \<Rightarrow> u64" where
  "hash_h key seed = hash_funcs 0 key seed"

section \<open>The 128-bit product and the padded load\<close>

lemma school_product:
  fixes a b c d B :: nat
  assumes "0 < B" "a < B" "b < B" "c < B" "d < B"
  defines "s \<equiv> (a * d + b * c) mod (B * B)"
  defines "lo \<equiv> (b * d + s mod B * B) mod (B * B)"
  shows "(a * B + b) * (c * B + d) =
    lo + B * B * (a * c + s div B + (if s < a * d then B else 0) + (if lo < b * d then 1 else 0))"
proof -
  have small: "a * d < B * B" "b * c < B * B" "b * d < B * B" "s mod B * B < B * B"
    using assms by (simp_all add: mult_strict_mono)
  have S: "a * d + b * c = s + (if s < a * d then B * B else 0)"
    using carry_of_sum [OF small(1,2)] by (simp only: s_def)
  have L: "b * d + s mod B * B = lo + (if lo < b * d then B * B else 0)"
    using carry_of_sum [OF small(3,4)] by (simp only: lo_def)
  have "s * B = (B * (s div B) + s mod B) * B" by simp
  then have Q: "s * B = B * B * (s div B) + s mod B * B" by (simp only: algebra_simps)
  have "(a * B + b) * (c * B + d) = a * c * (B * B) + (a * d + b * c) * B + b * d"
    by (simp add: algebra_simps)
  also have "\<dots> = a * c * (B * B) + (if s < a * d then B * B * B else 0) + s * B + b * d"
    by (subst S) (simp add: algebra_simps)
  also have "\<dots> = a * c * (B * B) + (if s < a * d then B * B * B else 0)
      + B * B * (s div B) + (b * d + s mod B * B)"
    by (simp add: Q)
  also have "\<dots> = a * c * (B * B) + (if s < a * d then B * B * B else 0)
      + B * B * (s div B) + lo + (if lo < b * d then B * B else 0)"
    by (subst L) simp
  finally show ?thesis by (simp add: algebra_simps)
qed

lemma unat_kh__emulu: "unat (kh__emulu x y) = unat x * unat y"
  unfolding kh__emulu_def by (rule unat_mult_ucast) simp

lemma kh_m128_exact:
  "unat (fst (kh_m128 m1 m2)) + 2 ^ 64 * unat (snd (kh_m128 m1 m2)) = unat m1 * unat m2"
proof -
  let ?r = "(ucast m1 :: 128 word) * ucast m2"
  have r: "unat ?r = unat m1 * unat m2" by (rule unat_mult_ucast) simp
  have "unat ?r < 2 ^ 64 * 2 ^ 64" using unat_less_exp [of ?r] by simp
  then have "unat ?r div 2 ^ 64 < 2 ^ 64" by (rule less_mult_imp_div_less)
  then show ?thesis unfolding kh_m128_def Let_def fst_conv snd_conv unat_ucast_mod unat_shiftr
    by (simp flip: r)
qed

lemma two_digits_unique:
  fixes p q :: "u64 \<times> u64"
  assumes "unat (fst p) + 2 ^ 64 * unat (snd p) = unat (fst q) + 2 ^ 64 * unat (snd q)"
  shows "p = q"
proof -
  have lt: "unat (fst p) < 2 ^ 64" "unat (fst q) < 2 ^ 64"
    using unat_less_exp [of "fst p"] unat_less_exp [of "fst q"] by simp_all
  have "unat (fst p) = (unat (fst p) + 2 ^ 64 * unat (snd p)) mod 2 ^ 64"
    using lt by simp
  also have "\<dots> = unat (fst q)" unfolding assms using lt by simp
  finally have "unat (fst p) = unat (fst q)" .
  with assms have "unat (snd p) = unat (snd q)" by simp
  with \<open>unat (fst p) = unat (fst q)\<close> show ?thesis by (simp add: prod_eq_iff unsigned_word_eqI)
qed

lemma kh_m128_portable_exact:
  "unat (fst (kh_m128_portable ab cd)) + 2 ^ 64 * unat (snd (kh_m128_portable ab cd)) = unat ab * unat cd"
proof -
  define B :: nat where "B = 2 ^ 32"
  define a b c d where "a = unat ab div B" and "b = unat ab mod B" and "c = unat cd div B" and "d = unat cd mod B"
  have BB: "2 ^ 64 = B * B" by (simp add: B_def)
  have "unat ab < B * B" "unat cd < B * B"
    using unat_less_exp [of ab] unat_less_exp [of cd] by (simp_all flip: BB)
  then have bnd: "0 < B" "a < B" "b < B" "c < B" "d < B"
    by (simp_all add: a_def b_def c_def d_def less_mult_imp_div_less B_def)
  have N: "unat ab = a * B + b" "unat cd = c * B + d" by (simp_all add: a_def b_def c_def d_def)
  have halves: "unat (ucast (drop_bit 32 ab) :: u32) = a" "unat (ucast ab :: u32) = b"
    "unat (ucast (drop_bit 32 cd) :: u32) = c" "unat (ucast cd :: u32) = d"
    using bnd unfolding unat_ucast_mod unat_shiftr by (simp_all add: a_def b_def c_def d_def B_def)
  define s where "s = (a * d + b * c) mod (B * B)"
  define lo where "lo = (b * d + s mod B * B) mod (B * B)"
  define rb where "rb = a * c + s div B + (if s < a * d then B else 0) + (if lo < b * d then 1 else 0)"
  have prod: "unat ab * unat cd = lo + B * B * rb"
    unfolding N rb_def lo_def s_def by (rule school_product [OF bnd])
  have "B * B * rb \<le> unat ab * unat cd" by (simp add: prod)
  also have "\<dots> < B * B * (B * B)" by (intro mult_strict_mono) (use \<open>unat ab < _\<close> \<open>unat cd < _\<close> bnd(1) in simp_all)
  finally have rb: "rb < B * B" by simp
  let ?ad = "kh__emulu (ucast (drop_bit 32 ab)) (ucast cd)"
  let ?adbc = "?ad + kh__emulu (ucast ab) (ucast (drop_bit 32 cd))"
  let ?bd = "kh__emulu (ucast ab) (ucast cd)"
  let ?ac = "kh__emulu (ucast (drop_bit 32 ab)) (ucast (drop_bit 32 cd))"
  let ?lo = "?bd + push_bit 32 ?adbc"
  have LL: "2 ^ LENGTH(64) = B * B" by (simp add: B_def)
  have em: "unat ?ad = a * d" "unat ?bd = b * d" "unat ?ac = a * c"
    by (simp_all only: unat_kh__emulu halves)
  have adbc: "unat ?adbc = s"
    by (simp only: unat_word_ariths unat_kh__emulu halves s_def LL)
  have "unat (push_bit 32 ?adbc) = s * B mod (B * B)"
    unfolding unat_shiftl adbc LL by (simp add: B_def)
  then have sh: "unat (push_bit 32 ?adbc) = s mod B * B" by (simp add: mult_mod_left)
  have lo: "unat ?lo = lo"
    by (simp only: unat_word_ariths sh em lo_def LL)
  have c1: "unat (push_bit 32 (if ?adbc < ?ad then 1 else 0 :: u64)) = (if s < a * d then B else 0)"
    unfolding word_less_nat_alt adbc em by (simp add: B_def)
  have c2: "unat (if ?lo < ?bd then 1 else 0 :: u64) = (if lo < b * d then 1 else 0)"
    unfolding word_less_nat_alt lo em by simp
  have q: "unat (drop_bit 32 ?adbc) = s div B" unfolding unat_shiftr adbc by (simp add: B_def)
  have sum4: "unat (w + x + y + z) = (unat w + unat x + unat y + unat z) mod (B * B)" for w x y z :: u64
    unfolding unat_word_ariths LL by (simp add: mod_simps)
  have "unat (?ac + drop_bit 32 ?adbc + push_bit 32 (if ?adbc < ?ad then 1 else 0)
      + (if ?lo < ?bd then 1 else 0)) = rb mod (B * B)"
    unfolding sum4 c1 c2 q em rb_def ..
  then show ?thesis unfolding kh_m128_portable_def Let_def fst_conv snd_conv lo prod BB using rb by simp
qed

lemma kh_m128_portable_eq: "kh_m128_portable ab cd = kh_m128 ab cd"
  by (rule two_digits_unique) (simp only: kh_m128_exact kh_m128_portable_exact)

lemma list_upto7:
  assumes "length xs < 8"
  obtains "xs = []" | a where "xs = [a]" | a b where "xs = [a, b]" | a b c where "xs = [a, b, c]"
  | a b c d where "xs = [a, b, c, d]" | a b c d e where "xs = [a, b, c, d, e]"
  | a b c d e f where "xs = [a, b, c, d, e, f]" | a b c d e f g where "xs = [a, b, c, d, e, f, g]"
proof -
  from assms have "length xs = 0 \<or> length xs = 1 \<or> length xs = 2 \<or> length xs = 3 \<or> length xs = 4
      \<or> length xs = 5 \<or> length xs = 6 \<or> length xs = 7" by linarith
  then show thesis using that by (elim disjE) (auto simp: numeral_eq_Suc length_Suc_conv)
qed

lemma le_load_8_unfold: "le_load 8 bs = le_load (Suc (Suc (Suc (Suc (Suc (Suc (Suc (Suc 0)))))))) bs"
 and le_load_4_unfold: "le_load 4 bs = le_load (Suc (Suc (Suc (Suc 0)))) bs"
  by (simp_all only: numeral_eq_Suc One_nat_def pred_numeral_simps BitM.simps)

lemma ucast_kh_lu32ec: "ucast (kh_lu32ec p) = le_load 4 p"
  unfolding kh_lu32ec_def by (rule bit_word_eqI) (auto simp: bit_simps bit_le_load)

lemma kh_lpu64_le_load:
  assumes "length msg < 8"
  shows "kh_lpu64 msg (ucast b) = le_load 8 (msg @ [b])"
  using assms
proof (cases rule: list_upto7)
qed (simp_all add: kh_lpu64_def ucast_kh_lu32ec Let_def le_load_8_unfold le_load_4_unfold or.assoc
    or.commute or.left_commute)

text \<open>The alignment flag selects between two loads of the same bytes.\<close>

lemma hash_read_align_irrelevant:
  "hash_read64_align p align = le_load 8 p" "hash_read32_align p align = ucast (le_load 4 p)"
  by (simp_all add: hash_read64_align_def hash_read32_align_def)

lemma xx_words8_align: "xx_words8 p a hash = xx_words8 p b hash"
proof (induction p a hash rule: xx_words8.induct)
  case (1 p align hash)
  then show ?case
    by (subst (1 2) xx_words8.simps) (simp add: Let_def hash_read_align_irrelevant)
qed

lemma xx_stripes_align: "xx_stripes p a v = xx_stripes p b v"
proof (induction p a v rule: xx_stripes.induct)
  case (1 p align v1 v2 v3 v4)
  then show ?case
    by (subst (1 2) xx_stripes.simps) (simp add: Let_def xx_lane_def hash_read_align_irrelevant)
qed

lemma hash_compute_align: "hash_compute msg seed a = hash_compute msg seed b"
  unfolding hash_compute_def hash_read_align_irrelevant
    xx_words8_align [of _ a _ b] xx_stripes_align [of _ a _ b] ..

lemma xxhash_address_irrelevant: "xxhash addr msg seed = xxhash 0 msg seed"
  by (simp add: xxhash_def hash_compute_align [of msg seed 0 1])

end
