(* ===== verification/Hash_Driver.thy ===== *)
theory Hash_Driver
  imports Hash_Daemon
begin

text \<open>
  The driver's own copies of the eight hash functions (\<^verbatim>\<open>driver/util/hash-funcs/\<close>) and of the dispatch
  table (\<^verbatim>\<open>driver/util/hash.h\<close>), translated from the driver's files under the prefix
  \<open>drv_\<close>. The client's Bloom filter and the daemon's counting Bloom filter must put a key at the
  same positions, so the two copies have to compute the same values: \<open>drv_hash_funcs_eq\<close>.
  The constants, rotations and tuple types are those of \<^theory_text>\<open>Hash_Daemon\<close>.
\<close>

section \<open>fasthash (fasthash.h)\<close>

definition drv_mix :: "u64 \<Rightarrow> u64" where
  "drv_mix h = (let h = h XOR drop_bit 23 h; h = h * 0x2127599bf4325c37; h = h XOR drop_bit 47 h in h)"

fun drv_fasthash64_words :: "nat \<Rightarrow> bytes \<Rightarrow> u64 \<Rightarrow> bytes \<times> u64" where
  "drv_fasthash64_words 0 pos h = (pos, h)"
| "drv_fasthash64_words (Suc n) pos h =
     drv_fasthash64_words n (drop 8 pos) ((h XOR drv_mix (le_load 8 pos)) * 0x880355f21e6d1965)"

definition drv_fasthash64 :: "bytes \<Rightarrow> u64 \<Rightarrow> u64" where
  "drv_fasthash64 buf seed =
     (let m = 0x880355f21e6d1965;
          len = length buf;
          h = seed XOR (of_nat len * m);
          (pos2, h) = drv_fasthash64_words (len div 8) buf h;
          t = len mod 8;
          h = (if t = 0 then h
               else (h XOR drv_mix (fall_through (XOR) t pos2 0)) * m)
      in drv_mix h)"

definition drv_fasthash32 :: "bytes \<Rightarrow> u32 \<Rightarrow> u32" where
  "drv_fasthash32 buf seed = (let h = drv_fasthash64 buf (ucast seed) in ucast (h - drop_bit 32 h))"

section \<open>jenkins (jenkins.h)\<close>

text \<open>\<open>char\<close> is signed on x86-64: \<open>hash += key[i]\<close> adds the sign-extended byte.\<close>

definition drv_jenkins_step :: "u8 \<Rightarrow> u64 \<Rightarrow> u64" where
  "drv_jenkins_step c hash =
     (let hash = hash + scast c; hash = hash + push_bit 10 hash; hash = hash XOR drop_bit 6 hash
      in hash)"

definition drv_jenkins :: "bytes \<Rightarrow> u64 \<Rightarrow> u64" where
  "drv_jenkins key seed =
     (let hash = fold drv_jenkins_step key 0;
          hash = hash + push_bit 3 hash;
          hash = hash XOR drop_bit 11 hash;
          hash = hash + push_bit 15 hash
      in hash)"

section \<open>MurmurHash64A and murmur2 (murmur2.h)\<close>

fun drv_murmur64_words :: "nat \<Rightarrow> bytes \<Rightarrow> u64 \<Rightarrow> bytes \<times> u64" where
  "drv_murmur64_words 0 data h = (data, h)"
| "drv_murmur64_words (Suc n) data h =
     (let k = le_load 8 data;
          k = k * 0xc6a4a7935bd1e995;
          k = k XOR drop_bit 47 k;
          k = k * 0xc6a4a7935bd1e995
      in drv_murmur64_words n (drop 8 data) ((h XOR k) * 0xc6a4a7935bd1e995))"

definition drv_MurmurHash64A :: "bytes \<Rightarrow> u64 \<Rightarrow> u64" where
  "drv_MurmurHash64A key seed =
     (let m = 0xc6a4a7935bd1e995;
          len = length key;
          h = seed XOR (of_nat len * m);
          (data2, h) = drv_murmur64_words (len div 8) key h;
          t = len mod 8;
          h = (if t = 0 then h else fall_through (XOR) t data2 h * m);
          h = h XOR drop_bit 47 h;
          h = h * m;
          h = h XOR drop_bit 47 h
      in h)"

fun drv_murmur2_words :: "bytes \<Rightarrow> u32 \<Rightarrow> bytes \<times> u32" where
  "drv_murmur2_words data h =
     (if 4 \<le> length data then
        let k = ucast (le_load 4 data);
            k = k * 0x5bd1e995;
            k = k XOR drop_bit 24 k;
            k = k * 0x5bd1e995;
            h = h * 0x5bd1e995;
            h = h XOR k
        in drv_murmur2_words (drop 4 data) h
      else (data, h))"

declare drv_murmur2_words.simps [simp del]

definition drv_murmur2 :: "bytes \<Rightarrow> u64 \<Rightarrow> u64" where
  "drv_murmur2 key seed =
     (let m = 0x5bd1e995;
          h = (ucast (seed XOR of_nat (length key)) :: u32);
          (data, h) = drv_murmur2_words key h;
          t = length data;
          h = (if t \<ge> 3 then h XOR push_bit 16 (ucast (data ! 2)) else h);
          h = (if t \<ge> 2 then h XOR push_bit 8 (ucast (data ! 1)) else h);
          h = (if t \<ge> 1 then (h XOR ucast (data ! 0)) * m else h);
          h = h XOR drop_bit 13 h;
          h = h * m;
          h = h XOR drop_bit 15 h
      in ucast h)"

section \<open>mx3 (mx3.h)\<close>

definition drv_mx3_mix :: "u64 \<Rightarrow> u64" where
  "drv_mx3_mix x =
     (let x = x * mx3_C; x = x XOR drop_bit 33 x; x = x * mx3_C; x = x XOR drop_bit 29 x;
          x = x * mx3_C; x = x XOR drop_bit 39 x
      in x)"

definition drv_mix_stream :: "u64 \<Rightarrow> u64 \<Rightarrow> u64" where
  "drv_mix_stream h x =
     (let x = x * mx3_C; x = x XOR (drop_bit 57 x XOR drop_bit 33 x); x = x * mx3_C;
          h = h + x; h = h * mx3_C
      in h)"

fun drv_mx3_words32 :: "bytes \<Rightarrow> u64 \<Rightarrow> bytes \<times> u64" where
  "drv_mx3_words32 buf h =
     (if 32 \<le> length buf then
        let h = drv_mix_stream h (le_load 8 buf);
            h = drv_mix_stream h (le_load 8 (drop 8 buf));
            h = drv_mix_stream h (le_load 8 (drop 16 buf));
            h = drv_mix_stream h (le_load 8 (drop 24 buf))
        in drv_mx3_words32 (drop 32 buf) h
      else (buf, h))"

fun drv_mx3_words8 :: "bytes \<Rightarrow> u64 \<Rightarrow> bytes \<times> u64" where
  "drv_mx3_words8 buf h =
     (if 8 \<le> length buf then drv_mx3_words8 (drop 8 buf) (drv_mix_stream h (le_load 8 buf)) else (buf, h))"

declare drv_mx3_words32.simps [simp del] drv_mx3_words8.simps [simp del]

definition drv_mx3 :: "bytes \<Rightarrow> u64 \<Rightarrow> u64" where
  "drv_mx3 buf seed =
     (let h = seed XOR of_nat (length buf);
          (buf64, h) = drv_mx3_words32 buf h;
          (tail, h) = drv_mx3_words8 buf64 h;
          t = length tail;
          h = (if t = 0 then h else drv_mix_stream h (fall_through (OR) t tail 0))
      in drv_mx3_mix h)"

section \<open>pengyhash (pengyhash.h)\<close>

definition drv_pengy_round :: "u64 \<Rightarrow> bytes \<Rightarrow> pengy_state \<Rightarrow> pengy_state" where
  "drv_pengy_round seed b s =
     (let b0 = le_load 8 b; b1 = le_load 8 (drop 8 b);
          b2 = le_load 8 (drop 16 b); b3 = le_load 8 (drop 24 b);
          (s0, s1, s2, s3) = s;
          s0 = s0 + s1 + b3; s1 = s0 + rol64 14 s1 + seed;
          s2 = s2 + s3 + b2; s3 = s2 + rol64 23 s3;
          s0 = s0 + s3 + b1; s3 = s0 XOR rol64 16 s3;
          s2 = s2 + s1 + b0; s1 = s2 XOR rol64 40 s1
      in (s0, s1, s2, s3))"

fun drv_pengy_blocks :: "bytes \<Rightarrow> bytes \<Rightarrow> pengy_state \<Rightarrow> bytes \<times> bytes \<times> pengy_state" where
  "drv_pengy_blocks p b s =
     (if 32 \<le> length p then
        let b = take 32 p in drv_pengy_blocks (drop 32 p) b (drv_pengy_round 0 b s)
      else (p, b, s))"

declare drv_pengy_blocks.simps [simp del]

definition drv_pengyhash :: "bytes \<Rightarrow> u64 \<Rightarrow> u64" where
  "drv_pengyhash p seed =
     (let (p', b, s) = drv_pengy_blocks p (replicate 32 0) (0, 0, 0, of_nat (length p));
          b = p' @ drop (length p') b;
          (s0, s1, s2, s3) = (drv_pengy_round seed b ^^ 6) s
      in s0 + s1 + s2 + s3)"

section \<open>standard (standard.h)\<close>

definition drv_standard :: "bytes \<Rightarrow> u64 \<Rightarrow> u64" where
  "drv_standard ptr seed = fold (\<lambda>c s. (s XOR scast c) * 1099511628211) ptr seed"

section \<open>xxhash (xxhash.h)\<close>

definition drv_hash_read64_align :: "bytes \<Rightarrow> u32 \<Rightarrow> u64" where
  "drv_hash_read64_align ptr align = (if align = 0 then le_load 8 ptr else le_load 8 ptr)"

definition drv_hash_read32_align :: "bytes \<Rightarrow> u32 \<Rightarrow> u32" where
  "drv_hash_read32_align ptr align = (if align = 0 then ucast (le_load 4 ptr) else ucast (le_load 4 ptr))"

definition drv_xx_lane :: "u64 \<Rightarrow> bytes \<Rightarrow> u32 \<Rightarrow> u64" where
  "drv_xx_lane v p align =
     (let v = v + drv_hash_read64_align p align * NUMBER64_2; v = rol64 31 v; v = v * NUMBER64_1 in v)"

fun drv_xx_stripes :: "bytes \<Rightarrow> u32 \<Rightarrow> u64 \<times> u64 \<times> u64 \<times> u64 \<Rightarrow> bytes \<times> u64 \<times> u64 \<times> u64 \<times> u64" where
  "drv_xx_stripes p align (v1, v2, v3, v4) =
     (if 32 \<le> length p then
        let v1 = drv_xx_lane v1 p align;
            v2 = drv_xx_lane v2 (drop 8 p) align;
            v3 = drv_xx_lane v3 (drop 16 p) align;
            v4 = drv_xx_lane v4 (drop 24 p) align
        in drv_xx_stripes (drop 32 p) align (v1, v2, v3, v4)
      else (p, v1, v2, v3, v4))"

declare drv_xx_stripes.simps [simp del]

definition drv_xx_merge :: "u64 \<Rightarrow> u64 \<Rightarrow> u64" where
  "drv_xx_merge hash v =
     (let v = v * NUMBER64_2; v = rol64 31 v; v = v * NUMBER64_1; hash = hash XOR v
      in hash * NUMBER64_1 + NUMBER64_4)"

fun drv_xx_words8 :: "bytes \<Rightarrow> u32 \<Rightarrow> u64 \<Rightarrow> bytes \<times> u64" where
  "drv_xx_words8 p align hash =
     (if 8 \<le> length p then
        let k1 = drv_hash_read64_align p align;
            k1 = k1 * NUMBER64_2;
            k1 = rol64 31 k1;
            k1 = k1 * NUMBER64_1;
            hash = hash XOR k1
        in drv_xx_words8 (drop 8 p) align (rol64 27 hash * NUMBER64_1 + NUMBER64_4)
      else (p, hash))"

declare drv_xx_words8.simps [simp del]

definition drv_hash_compute :: "bytes \<Rightarrow> u64 \<Rightarrow> u32 \<Rightarrow> u64" where
  "drv_hash_compute input seed align =
     (let len = length input;
          (p, hash) =
            (if 32 \<le> len then
               let (p, v1, v2, v3, v4) = drv_xx_stripes input align
                     (seed + NUMBER64_1 + NUMBER64_2, seed + NUMBER64_2, seed + 0, seed - NUMBER64_1);
                   hash = rol64 1 v1 + rol64 7 v2 + rol64 12 v3 + rol64 18 v4
               in (p, drv_xx_merge (drv_xx_merge (drv_xx_merge (drv_xx_merge hash v1) v2) v3) v4)
             else (input, seed + NUMBER64_5));
          hash = hash + of_nat len;
          (p, hash) = drv_xx_words8 p align hash;
          (p, hash) =
            (if 4 \<le> length p then
               (drop 4 p, rol64 23 (hash XOR (ucast (drv_hash_read32_align p align) * NUMBER64_1)) * NUMBER64_2
                            + NUMBER64_3)
             else (p, hash));
          hash = fold (\<lambda>c hash. rol64 11 (hash XOR (ucast c * NUMBER64_5)) * NUMBER64_1) p hash;
          hash = hash XOR drop_bit 33 hash;
          hash = hash * NUMBER64_2;
          hash = hash XOR drop_bit 29 hash;
          hash = hash * NUMBER64_3;
          hash = hash XOR drop_bit 32 hash
      in hash)"

text \<open>The alignment flag comes from the address \<open>data\<close> of the message.\<close>

definition drv_xxhash :: "u64 \<Rightarrow> bytes \<Rightarrow> u64 \<Rightarrow> u64" where
  "drv_xxhash data msg seed =
     (if data AND 7 = 0 then drv_hash_compute msg seed 1 else drv_hash_compute msg seed 0)"

section \<open>komihash (komihash.h)\<close>

text \<open>On a little-endian machine \<open>KOMIHASH_EC32\<close> and \<open>KOMIHASH_EC64\<close> are the identity.\<close>

definition drv_kh_lu32ec :: "bytes \<Rightarrow> u32" where
  "drv_kh_lu32ec p = ucast (le_load 4 p)"

definition drv_kh_lu64ec :: "bytes \<Rightarrow> u64" where
  "drv_kh_lu64ec p = le_load 8 p"

definition drv_kh_lpu64 :: "bytes \<Rightarrow> u64 \<Rightarrow> u64" where
  "drv_kh_lpu64 msg fb =
     (let l = length msg;
          r = push_bit (8 * l) fb
      in if l > 3 then
           let r = r OR ucast (drv_kh_lu32ec msg);
               msg = drop 4 msg
           in (case msg of
                 [] \<Rightarrow> r
               | a # msg \<Rightarrow>
                   (let r = r OR push_bit 32 (ucast a) in
                    case msg of
                      [] \<Rightarrow> r
                    | b # msg \<Rightarrow>
                        (let r = r OR push_bit 40 (ucast b) in
                         case msg of [] \<Rightarrow> r | c # _ \<Rightarrow> r OR push_bit 48 (ucast c))))
         else
           (case msg of
              [] \<Rightarrow> r
            | a # msg \<Rightarrow>
                (let r = r OR ucast a in
                 case msg of
                   [] \<Rightarrow> r
                 | b # msg \<Rightarrow>
                     (let r = r OR push_bit 8 (ucast b) in
                      case msg of [] \<Rightarrow> r | c # _ \<Rightarrow> r OR push_bit 16 (ucast c)))))"

text \<open>The 64x64 to 128 bit product, \<open>__SIZEOF_INT128__\<close> variant.\<close>

definition drv_kh_m128 :: "u64 \<Rightarrow> u64 \<Rightarrow> u64 \<times> u64" where
  "drv_kh_m128 m1 m2 = (let r = (ucast m1 :: 128 word) * ucast m2 in (ucast r, ucast (drop_bit 64 r)))"

text \<open>\<open>kh_m128(&a, &b, &ra, &rb); b += rb; a = b ^ ra\<close>: the mixing round on a seed pair.\<close>

definition drv_kh_round :: "u64 \<Rightarrow> u64 \<Rightarrow> u64 \<times> u64" where
  "drv_kh_round a b = (let (ra, rb) = drv_kh_m128 a b; b = b + rb in (b XOR ra, b))"

definition drv_kh_block64 :: "bytes \<Rightarrow> kh_seeds \<Rightarrow> kh_seeds" where
  "drv_kh_block64 msg s =
     (let (s1, s2, s3, s4, s5, s6, s7, s8) = s;
          s1 = s1 XOR drv_kh_lu64ec msg;
          s2 = s2 XOR drv_kh_lu64ec (drop 8 msg);
          s3 = s3 XOR drv_kh_lu64ec (drop 16 msg);
          s4 = s4 XOR drv_kh_lu64ec (drop 24 msg);
          s5 = s5 XOR drv_kh_lu64ec (drop 32 msg);
          s6 = s6 XOR drv_kh_lu64ec (drop 40 msg);
          s7 = s7 XOR drv_kh_lu64ec (drop 48 msg);
          s8 = s8 XOR drv_kh_lu64ec (drop 56 msg);
          (r1a, r1b) = drv_kh_m128 s1 s5;
          (r2a, r2b) = drv_kh_m128 s2 s6;
          s5 = s5 + r1b;
          s6 = s6 + r2b;
          s2 = s5 XOR r2a;
          (r3a, r3b) = drv_kh_m128 s3 s7;
          (r4a, r4b) = drv_kh_m128 s4 s8;
          s7 = s7 + r3b;
          s8 = s8 + r4b;
          s3 = s6 XOR r3a;
          s4 = s7 XOR r4a;
          s1 = s8 XOR r1a
      in (s1, s2, s3, s4, s5, s6, s7, s8))"

text \<open>The \<open>do { .. } while (Msg < MsgEnd - 63)\<close> loop; it is entered with more than 63 bytes.\<close>

fun drv_kh_blocks64 :: "bytes \<Rightarrow> kh_seeds \<Rightarrow> bytes \<times> kh_seeds" where
  "drv_kh_blocks64 msg s =
     (if 63 < length msg then drv_kh_blocks64 (drop 64 msg) (drv_kh_block64 msg s) else (msg, s))"

fun drv_kh_blocks16 :: "bytes \<Rightarrow> u64 \<Rightarrow> u64 \<Rightarrow> bytes \<times> u64 \<times> u64" where
  "drv_kh_blocks16 msg s1 s5 =
     (if 15 < length msg then
        let (s1, s5) = drv_kh_round (s1 XOR drv_kh_lu64ec msg) (s5 XOR drv_kh_lu64ec (drop 8 msg))
        in drv_kh_blocks16 (drop 16 msg) s1 s5
      else (msg, s1, s5))"

declare drv_kh_blocks64.simps [simp del] drv_kh_blocks16.simps [simp del]

definition drv_komihash :: "bytes \<Rightarrow> u64 \<Rightarrow> u64" where
  "drv_komihash msg seed =
     (let s1 = 0x243F6A8885A308D3;
          s2 = 0x13198A2E03707344;
          s5 = 0x452821E638D01377;
          (s1, s5) = (if seed \<noteq> 0
                      then drv_kh_round (s1 XOR (seed AND 0xFFFFFFFF00000000)) (s5 XOR push_bit 32 seed)
                      else (s1, s5));
          fb = (if msg \<noteq> [] then push_bit (unat (drop_bit 7 (last msg))) 1 else 1);
          (msg, s1, s2, s5) =
            (if 63 < length msg then
               let (msg, s1, s2, s3, s4, s5, s6, s7, s8) =
                     drv_kh_blocks64 msg (s1, s2, 0xA4093822299F31D0, 0x082EFA98EC4E6C89, s5,
                       0xBE5466CF34E90C6C, 0xC0AC29B7C97C50DD, 0x3F84D5B5B5470917);
                   (s2, s6) = drv_kh_round s2 s6;
                   (s3, s7) = drv_kh_round s3 s7;
                   (s4, s8) = drv_kh_round s4 s8
               in (msg, s1, s2 XOR (s3 XOR s4), s5)
             else (msg, s1, s2, s5));
          (msg, s1, s5) = drv_kh_blocks16 msg s1 s5;
          (s1, s5) = (if 7 < length msg
                      then (s1 XOR drv_kh_lu64ec msg, s5 XOR drv_kh_lpu64 (drop 8 msg) fb)
                      else (s1 XOR drv_kh_lpu64 msg fb, s5));
          (s1, s5) = drv_kh_round s1 s5;
          (s1, s5) = drv_kh_round s1 s5
      in s1 XOR s2)"

section \<open>The dispatch table (hash.h)\<close>

definition drv_f_seed :: u64 where "drv_f_seed = 0x2B12647CD1C7F697"
definition drv_s_seed :: u64 where "drv_s_seed = 0x9549A2C424952156"

definition drv_hash_funcs :: "nat \<Rightarrow> bytes \<Rightarrow> u64 \<Rightarrow> u64" where
  "drv_hash_funcs i = [drv_komihash, drv_fasthash64, drv_mx3, drv_xxhash 0, drv_jenkins, drv_pengyhash, drv_MurmurHash64A, drv_standard] ! i"

definition drv_hash_h :: "bytes \<Rightarrow> u64 \<Rightarrow> u64" where
  "drv_hash_h key seed = drv_hash_funcs 0 key seed"

section \<open>The two copies agree\<close>

named_theorems drv_eq \<open>driver hash function = daemon hash function\<close>

lemma drv_fasthash_eq [drv_eq]:
  "drv_mix = mix" "drv_fasthash64_words n p h = fasthash64_words n p h"
  "drv_fasthash64 = fasthash64"
proof -
  show m [simp]: "drv_mix = mix" by (simp add: fun_eq_iff drv_mix_def mix_def)
  show w [simp]: "drv_fasthash64_words n p h = fasthash64_words n p h" for n p h
    by (induction n arbitrary: p h) simp_all
  show "drv_fasthash64 = fasthash64"
    unfolding fun_eq_iff drv_fasthash64_def fasthash64_def m w by blast
qed

lemma drv_fasthash32_eq [drv_eq]: "drv_fasthash32 = fasthash32"
  by (simp add: fun_eq_iff drv_fasthash32_def fasthash32_def drv_eq)

lemma drv_jenkins_eq [drv_eq]: "drv_jenkins = jenkins"
proof -
  have s: "drv_jenkins_step = jenkins_step"
    by (simp add: fun_eq_iff drv_jenkins_step_def jenkins_step_def)
  show ?thesis unfolding fun_eq_iff drv_jenkins_def jenkins_def s by blast
qed

lemma drv_murmur_eq [drv_eq]: "drv_MurmurHash64A = MurmurHash64A"
proof -
  have "drv_murmur64_words n p h = murmur64_words n p h" for n p h
    by (induction n arbitrary: p h) (simp_all add: Let_def)
  then show ?thesis by (simp add: fun_eq_iff drv_MurmurHash64A_def MurmurHash64A_def)
qed

lemma drv_murmur2_eq [drv_eq]: "drv_murmur2 = murmur2"
proof -
  have "drv_murmur2_words p h = murmur2_words p h" for p h
  proof (induction p h rule: murmur2_words.induct)
    case (1 p h)
    then show ?case
      by (subst drv_murmur2_words.simps, subst murmur2_words.simps) (simp add: Let_def)
  qed
  then show ?thesis by (simp add: fun_eq_iff drv_murmur2_def murmur2_def)
qed

lemma drv_mx3_eq [drv_eq]: "drv_mx3 = mx3"
proof -
  have m: "drv_mx3_mix = mx3_mix" "drv_mix_stream = mix_stream"
    by (simp_all add: fun_eq_iff drv_mx3_mix_def mx3_mix_def drv_mix_stream_def mix_stream_def)
  have w: "drv_mx3_words32 p h = mx3_words32 p h" for p h
  proof (induction p h rule: mx3_words32.induct)
    case (1 p h)
    then show ?case
      by (subst drv_mx3_words32.simps, subst mx3_words32.simps) (simp add: Let_def m)
  qed
  have w': "drv_mx3_words8 p h = mx3_words8 p h" for p h
  proof (induction p h rule: mx3_words8.induct)
    case (1 p h)
    then show ?case by (subst drv_mx3_words8.simps, subst mx3_words8.simps) (simp add: m)
  qed
  show ?thesis unfolding fun_eq_iff drv_mx3_def mx3_def m w w' by blast
qed

lemma drv_pengyhash_eq [drv_eq]: "drv_pengyhash = pengyhash"
proof -
  have r: "drv_pengy_round = pengy_round"
    by (simp add: fun_eq_iff drv_pengy_round_def pengy_round_def)
  have "drv_pengy_blocks p b s = pengy_blocks p b s" for p b s
  proof (induction p b s rule: pengy_blocks.induct)
    case (1 p b s)
    then show ?case
      by (subst drv_pengy_blocks.simps, subst pengy_blocks.simps) (simp add: Let_def r)
  qed
  then show ?thesis by (simp add: fun_eq_iff drv_pengyhash_def pengyhash_def r)
qed

lemma drv_standard_eq [drv_eq]: "drv_standard = standard"
  by (simp add: fun_eq_iff drv_standard_def standard_def)

lemma drv_xxhash_eq [drv_eq]: "drv_xxhash = xxhash"
proof -
  have r: "drv_hash_read64_align = hash_read64_align" "drv_hash_read32_align = hash_read32_align"
    by (simp_all add: fun_eq_iff drv_hash_read64_align_def hash_read64_align_def
        drv_hash_read32_align_def hash_read32_align_def)
  have l: "drv_xx_lane = xx_lane" "drv_xx_merge = xx_merge"
    by (simp_all add: fun_eq_iff drv_xx_lane_def xx_lane_def drv_xx_merge_def xx_merge_def r)
  have s: "drv_xx_stripes p a v = xx_stripes p a v" for p a v
  proof (induction p a v rule: xx_stripes.induct)
    case (1 p a v1 v2 v3 v4)
    then show ?case
      by (subst drv_xx_stripes.simps, subst xx_stripes.simps) (simp add: Let_def l)
  qed
  have w: "drv_xx_words8 p a hash = xx_words8 p a hash" for p a hash
  proof (induction p a hash rule: xx_words8.induct)
    case (1 p a hash)
    then show ?case
      by (subst drv_xx_words8.simps, subst xx_words8.simps) (simp add: Let_def r)
  qed
  have "drv_hash_compute = hash_compute"
    unfolding fun_eq_iff drv_hash_compute_def hash_compute_def r l s w by blast
  then show ?thesis by (simp add: fun_eq_iff drv_xxhash_def xxhash_def)
qed

lemma drv_komihash_eq [drv_eq]: "drv_komihash = komihash"
proof -
  have l: "drv_kh_lu32ec = kh_lu32ec" "drv_kh_lu64ec = kh_lu64ec" "drv_kh_m128 = kh_m128"
    by (simp_all add: fun_eq_iff drv_kh_lu32ec_def kh_lu32ec_def drv_kh_lu64ec_def kh_lu64ec_def
        drv_kh_m128_def kh_m128_def)
  have r: "drv_kh_lpu64 = kh_lpu64" "drv_kh_round = kh_round" "drv_kh_block64 = kh_block64"
    unfolding fun_eq_iff drv_kh_lpu64_def kh_lpu64_def drv_kh_round_def kh_round_def
      drv_kh_block64_def kh_block64_def l by blast+
  have b: "drv_kh_blocks64 m s = kh_blocks64 m s" for m s
  proof (induction m s rule: kh_blocks64.induct)
    case (1 m s)
    then show ?case by (subst drv_kh_blocks64.simps, subst kh_blocks64.simps) (simp add: r)
  qed
  have c: "drv_kh_blocks16 m s1 s5 = kh_blocks16 m s1 s5" for m s1 s5
  proof (induction m s1 s5 rule: kh_blocks16.induct)
    case (1 m s1 s5)
    then show ?case
      by (subst drv_kh_blocks16.simps, subst kh_blocks16.simps) (simp add: r l split: prod.splits)
  qed
  show ?thesis unfolding fun_eq_iff drv_komihash_def komihash_def r l b c by blast
qed

lemma drv_hash_funcs_eq: "drv_hash_funcs = hash_funcs"
  by (simp add: fun_eq_iff drv_hash_funcs_def hash_funcs_def drv_eq)

lemma drv_seed_eq: "drv_f_seed = f_seed" "drv_s_seed = s_seed"
  by (simp_all add: drv_f_seed_def f_seed_def drv_s_seed_def s_seed_def)

end
