(* ===== verification/Crc.thy ===== *)
theory Crc
  imports Prelude
begin

text \<open>
  The page checksums: \<^verbatim>\<open>daemon/util/crc8.{hpp,cpp}\<close> and \<^verbatim>\<open>daemon/util/crc16.{hpp,cpp}\<close>, with the driver's
  copies under the prefix \<open>drv_\<close>. A page is a list of 4096 bytes, and both checksums sample one
  byte in 256. \<open>DCC_CRC_CHECK\<close> is a preprocessor switch and an argument here: it is off for
  CRC8 in the sources as they stand, so that CRC8 is 0.

  Shown: every table entry is the remainder that the bitwise algorithm computes (polynomials
  0x07 and 0x1021), so the table-driven loops are the CRC of the sampled bytes, and CRC8 tells apart
  two pages that differ in exactly one sampled byte.
\<close>

section \<open>Tables and loops\<close>

definition crc8tab :: "u8 list" where
  "crc8tab = [
     0x00, 0x07, 0x0e, 0x09, 0x1c, 0x1b, 0x12, 0x15, 0x38, 0x3f, 0x36, 0x31, 0x24, 0x23, 0x2a, 0x2d,
     0x70, 0x77, 0x7e, 0x79, 0x6c, 0x6b, 0x62, 0x65, 0x48, 0x4f, 0x46, 0x41, 0x54, 0x53, 0x5a, 0x5d,
     0xe0, 0xe7, 0xee, 0xe9, 0xfc, 0xfb, 0xf2, 0xf5, 0xd8, 0xdf, 0xd6, 0xd1, 0xc4, 0xc3, 0xca, 0xcd,
     0x90, 0x97, 0x9e, 0x99, 0x8c, 0x8b, 0x82, 0x85, 0xa8, 0xaf, 0xa6, 0xa1, 0xb4, 0xb3, 0xba, 0xbd,
     0xc7, 0xc0, 0xc9, 0xce, 0xdb, 0xdc, 0xd5, 0xd2, 0xff, 0xf8, 0xf1, 0xf6, 0xe3, 0xe4, 0xed, 0xea,
     0xb7, 0xb0, 0xb9, 0xbe, 0xab, 0xac, 0xa5, 0xa2, 0x8f, 0x88, 0x81, 0x86, 0x93, 0x94, 0x9d, 0x9a,
     0x27, 0x20, 0x29, 0x2e, 0x3b, 0x3c, 0x35, 0x32, 0x1f, 0x18, 0x11, 0x16, 0x03, 0x04, 0x0d, 0x0a,
     0x57, 0x50, 0x59, 0x5e, 0x4b, 0x4c, 0x45, 0x42, 0x6f, 0x68, 0x61, 0x66, 0x73, 0x74, 0x7d, 0x7a,
     0x89, 0x8e, 0x87, 0x80, 0x95, 0x92, 0x9b, 0x9c, 0xb1, 0xb6, 0xbf, 0xb8, 0xad, 0xaa, 0xa3, 0xa4,
     0xf9, 0xfe, 0xf7, 0xf0, 0xe5, 0xe2, 0xeb, 0xec, 0xc1, 0xc6, 0xcf, 0xc8, 0xdd, 0xda, 0xd3, 0xd4,
     0x69, 0x6e, 0x67, 0x60, 0x75, 0x72, 0x7b, 0x7c, 0x51, 0x56, 0x5f, 0x58, 0x4d, 0x4a, 0x43, 0x44,
     0x19, 0x1e, 0x17, 0x10, 0x05, 0x02, 0x0b, 0x0c, 0x21, 0x26, 0x2f, 0x28, 0x3d, 0x3a, 0x33, 0x34,
     0x4e, 0x49, 0x40, 0x47, 0x52, 0x55, 0x5c, 0x5b, 0x76, 0x71, 0x78, 0x7f, 0x6a, 0x6d, 0x64, 0x63,
     0x3e, 0x39, 0x30, 0x37, 0x22, 0x25, 0x2c, 0x2b, 0x06, 0x01, 0x08, 0x0f, 0x1a, 0x1d, 0x14, 0x13,
     0xae, 0xa9, 0xa0, 0xa7, 0xb2, 0xb5, 0xbc, 0xbb, 0x96, 0x91, 0x98, 0x9f, 0x8a, 0x8d, 0x84, 0x83,
     0xde, 0xd9, 0xd0, 0xd7, 0xc2, 0xc5, 0xcc, 0xcb, 0xe6, 0xe1, 0xe8, 0xef, 0xfa, 0xfd, 0xf4, 0xf3]"

definition drv_crc8tab :: "u8 list" where
  "drv_crc8tab = [
     0x00, 0x07, 0x0e, 0x09, 0x1c, 0x1b, 0x12, 0x15, 0x38, 0x3f, 0x36, 0x31, 0x24, 0x23, 0x2a, 0x2d,
     0x70, 0x77, 0x7e, 0x79, 0x6c, 0x6b, 0x62, 0x65, 0x48, 0x4f, 0x46, 0x41, 0x54, 0x53, 0x5a, 0x5d,
     0xe0, 0xe7, 0xee, 0xe9, 0xfc, 0xfb, 0xf2, 0xf5, 0xd8, 0xdf, 0xd6, 0xd1, 0xc4, 0xc3, 0xca, 0xcd,
     0x90, 0x97, 0x9e, 0x99, 0x8c, 0x8b, 0x82, 0x85, 0xa8, 0xaf, 0xa6, 0xa1, 0xb4, 0xb3, 0xba, 0xbd,
     0xc7, 0xc0, 0xc9, 0xce, 0xdb, 0xdc, 0xd5, 0xd2, 0xff, 0xf8, 0xf1, 0xf6, 0xe3, 0xe4, 0xed, 0xea,
     0xb7, 0xb0, 0xb9, 0xbe, 0xab, 0xac, 0xa5, 0xa2, 0x8f, 0x88, 0x81, 0x86, 0x93, 0x94, 0x9d, 0x9a,
     0x27, 0x20, 0x29, 0x2e, 0x3b, 0x3c, 0x35, 0x32, 0x1f, 0x18, 0x11, 0x16, 0x03, 0x04, 0x0d, 0x0a,
     0x57, 0x50, 0x59, 0x5e, 0x4b, 0x4c, 0x45, 0x42, 0x6f, 0x68, 0x61, 0x66, 0x73, 0x74, 0x7d, 0x7a,
     0x89, 0x8e, 0x87, 0x80, 0x95, 0x92, 0x9b, 0x9c, 0xb1, 0xb6, 0xbf, 0xb8, 0xad, 0xaa, 0xa3, 0xa4,
     0xf9, 0xfe, 0xf7, 0xf0, 0xe5, 0xe2, 0xeb, 0xec, 0xc1, 0xc6, 0xcf, 0xc8, 0xdd, 0xda, 0xd3, 0xd4,
     0x69, 0x6e, 0x67, 0x60, 0x75, 0x72, 0x7b, 0x7c, 0x51, 0x56, 0x5f, 0x58, 0x4d, 0x4a, 0x43, 0x44,
     0x19, 0x1e, 0x17, 0x10, 0x05, 0x02, 0x0b, 0x0c, 0x21, 0x26, 0x2f, 0x28, 0x3d, 0x3a, 0x33, 0x34,
     0x4e, 0x49, 0x40, 0x47, 0x52, 0x55, 0x5c, 0x5b, 0x76, 0x71, 0x78, 0x7f, 0x6a, 0x6d, 0x64, 0x63,
     0x3e, 0x39, 0x30, 0x37, 0x22, 0x25, 0x2c, 0x2b, 0x06, 0x01, 0x08, 0x0f, 0x1a, 0x1d, 0x14, 0x13,
     0xae, 0xa9, 0xa0, 0xa7, 0xb2, 0xb5, 0xbc, 0xbb, 0x96, 0x91, 0x98, 0x9f, 0x8a, 0x8d, 0x84, 0x83,
     0xde, 0xd9, 0xd0, 0xd7, 0xc2, 0xc5, 0xcc, 0xcb, 0xe6, 0xe1, 0xe8, 0xef, 0xfa, 0xfd, 0xf4, 0xf3]"

definition crc16tab :: "u16 list" where
  "crc16tab = [
     0x0000, 0x1021, 0x2042, 0x3063, 0x4084, 0x50a5, 0x60c6, 0x70e7,
     0x8108, 0x9129, 0xa14a, 0xb16b, 0xc18c, 0xd1ad, 0xe1ce, 0xf1ef,
     0x1231, 0x0210, 0x3273, 0x2252, 0x52b5, 0x4294, 0x72f7, 0x62d6,
     0x9339, 0x8318, 0xb37b, 0xa35a, 0xd3bd, 0xc39c, 0xf3ff, 0xe3de,
     0x2462, 0x3443, 0x0420, 0x1401, 0x64e6, 0x74c7, 0x44a4, 0x5485,
     0xa56a, 0xb54b, 0x8528, 0x9509, 0xe5ee, 0xf5cf, 0xc5ac, 0xd58d,
     0x3653, 0x2672, 0x1611, 0x0630, 0x76d7, 0x66f6, 0x5695, 0x46b4,
     0xb75b, 0xa77a, 0x9719, 0x8738, 0xf7df, 0xe7fe, 0xd79d, 0xc7bc,
     0x48c4, 0x58e5, 0x6886, 0x78a7, 0x0840, 0x1861, 0x2802, 0x3823,
     0xc9cc, 0xd9ed, 0xe98e, 0xf9af, 0x8948, 0x9969, 0xa90a, 0xb92b,
     0x5af5, 0x4ad4, 0x7ab7, 0x6a96, 0x1a71, 0x0a50, 0x3a33, 0x2a12,
     0xdbfd, 0xcbdc, 0xfbbf, 0xeb9e, 0x9b79, 0x8b58, 0xbb3b, 0xab1a,
     0x6ca6, 0x7c87, 0x4ce4, 0x5cc5, 0x2c22, 0x3c03, 0x0c60, 0x1c41,
     0xedae, 0xfd8f, 0xcdec, 0xddcd, 0xad2a, 0xbd0b, 0x8d68, 0x9d49,
     0x7e97, 0x6eb6, 0x5ed5, 0x4ef4, 0x3e13, 0x2e32, 0x1e51, 0x0e70,
     0xff9f, 0xefbe, 0xdfdd, 0xcffc, 0xbf1b, 0xaf3a, 0x9f59, 0x8f78,
     0x9188, 0x81a9, 0xb1ca, 0xa1eb, 0xd10c, 0xc12d, 0xf14e, 0xe16f,
     0x1080, 0x00a1, 0x30c2, 0x20e3, 0x5004, 0x4025, 0x7046, 0x6067,
     0x83b9, 0x9398, 0xa3fb, 0xb3da, 0xc33d, 0xd31c, 0xe37f, 0xf35e,
     0x02b1, 0x1290, 0x22f3, 0x32d2, 0x4235, 0x5214, 0x6277, 0x7256,
     0xb5ea, 0xa5cb, 0x95a8, 0x8589, 0xf56e, 0xe54f, 0xd52c, 0xc50d,
     0x34e2, 0x24c3, 0x14a0, 0x0481, 0x7466, 0x6447, 0x5424, 0x4405,
     0xa7db, 0xb7fa, 0x8799, 0x97b8, 0xe75f, 0xf77e, 0xc71d, 0xd73c,
     0x26d3, 0x36f2, 0x0691, 0x16b0, 0x6657, 0x7676, 0x4615, 0x5634,
     0xd94c, 0xc96d, 0xf90e, 0xe92f, 0x99c8, 0x89e9, 0xb98a, 0xa9ab,
     0x5844, 0x4865, 0x7806, 0x6827, 0x18c0, 0x08e1, 0x3882, 0x28a3,
     0xcb7d, 0xdb5c, 0xeb3f, 0xfb1e, 0x8bf9, 0x9bd8, 0xabbb, 0xbb9a,
     0x4a75, 0x5a54, 0x6a37, 0x7a16, 0x0af1, 0x1ad0, 0x2ab3, 0x3a92,
     0xfd2e, 0xed0f, 0xdd6c, 0xcd4d, 0xbdaa, 0xad8b, 0x9de8, 0x8dc9,
     0x7c26, 0x6c07, 0x5c64, 0x4c45, 0x3ca2, 0x2c83, 0x1ce0, 0x0cc1,
     0xef1f, 0xff3e, 0xcf5d, 0xdf7c, 0xaf9b, 0xbfba, 0x8fd9, 0x9ff8,
     0x6e17, 0x7e36, 0x4e55, 0x5e74, 0x2e93, 0x3eb2, 0x0ed1, 0x1ef0]"

definition drv_crc16tab :: "u16 list" where
  "drv_crc16tab = [
     0x0000, 0x1021, 0x2042, 0x3063, 0x4084, 0x50a5, 0x60c6, 0x70e7,
     0x8108, 0x9129, 0xa14a, 0xb16b, 0xc18c, 0xd1ad, 0xe1ce, 0xf1ef,
     0x1231, 0x0210, 0x3273, 0x2252, 0x52b5, 0x4294, 0x72f7, 0x62d6,
     0x9339, 0x8318, 0xb37b, 0xa35a, 0xd3bd, 0xc39c, 0xf3ff, 0xe3de,
     0x2462, 0x3443, 0x0420, 0x1401, 0x64e6, 0x74c7, 0x44a4, 0x5485,
     0xa56a, 0xb54b, 0x8528, 0x9509, 0xe5ee, 0xf5cf, 0xc5ac, 0xd58d,
     0x3653, 0x2672, 0x1611, 0x0630, 0x76d7, 0x66f6, 0x5695, 0x46b4,
     0xb75b, 0xa77a, 0x9719, 0x8738, 0xf7df, 0xe7fe, 0xd79d, 0xc7bc,
     0x48c4, 0x58e5, 0x6886, 0x78a7, 0x0840, 0x1861, 0x2802, 0x3823,
     0xc9cc, 0xd9ed, 0xe98e, 0xf9af, 0x8948, 0x9969, 0xa90a, 0xb92b,
     0x5af5, 0x4ad4, 0x7ab7, 0x6a96, 0x1a71, 0x0a50, 0x3a33, 0x2a12,
     0xdbfd, 0xcbdc, 0xfbbf, 0xeb9e, 0x9b79, 0x8b58, 0xbb3b, 0xab1a,
     0x6ca6, 0x7c87, 0x4ce4, 0x5cc5, 0x2c22, 0x3c03, 0x0c60, 0x1c41,
     0xedae, 0xfd8f, 0xcdec, 0xddcd, 0xad2a, 0xbd0b, 0x8d68, 0x9d49,
     0x7e97, 0x6eb6, 0x5ed5, 0x4ef4, 0x3e13, 0x2e32, 0x1e51, 0x0e70,
     0xff9f, 0xefbe, 0xdfdd, 0xcffc, 0xbf1b, 0xaf3a, 0x9f59, 0x8f78,
     0x9188, 0x81a9, 0xb1ca, 0xa1eb, 0xd10c, 0xc12d, 0xf14e, 0xe16f,
     0x1080, 0x00a1, 0x30c2, 0x20e3, 0x5004, 0x4025, 0x7046, 0x6067,
     0x83b9, 0x9398, 0xa3fb, 0xb3da, 0xc33d, 0xd31c, 0xe37f, 0xf35e,
     0x02b1, 0x1290, 0x22f3, 0x32d2, 0x4235, 0x5214, 0x6277, 0x7256,
     0xb5ea, 0xa5cb, 0x95a8, 0x8589, 0xf56e, 0xe54f, 0xd52c, 0xc50d,
     0x34e2, 0x24c3, 0x14a0, 0x0481, 0x7466, 0x6447, 0x5424, 0x4405,
     0xa7db, 0xb7fa, 0x8799, 0x97b8, 0xe75f, 0xf77e, 0xc71d, 0xd73c,
     0x26d3, 0x36f2, 0x0691, 0x16b0, 0x6657, 0x7676, 0x4615, 0x5634,
     0xd94c, 0xc96d, 0xf90e, 0xe92f, 0x99c8, 0x89e9, 0xb98a, 0xa9ab,
     0x5844, 0x4865, 0x7806, 0x6827, 0x18c0, 0x08e1, 0x3882, 0x28a3,
     0xcb7d, 0xdb5c, 0xeb3f, 0xfb1e, 0x8bf9, 0x9bd8, 0xabbb, 0xbb9a,
     0x4a75, 0x5a54, 0x6a37, 0x7a16, 0x0af1, 0x1ad0, 0x2ab3, 0x3a92,
     0xfd2e, 0xed0f, 0xdd6c, 0xcd4d, 0xbdaa, 0xad8b, 0x9de8, 0x8dc9,
     0x7c26, 0x6c07, 0x5c64, 0x4c45, 0x3ca2, 0x2c83, 0x1ce0, 0x0cc1,
     0xef1f, 0xff3e, 0xcf5d, 0xdf7c, 0xaf9b, 0xbfba, 0x8fd9, 0x9ff8,
     0x6e17, 0x7e36, 0x4e55, 0x5e74, 0x2e93, 0x3eb2, 0x0ed1, 0x1ef0]"

abbreviation (input) CRC8_NUM_CHECK :: nat where "CRC8_NUM_CHECK \<equiv> 16"
abbreviation (input) CRC16_NUM_CHECK :: nat where "CRC16_NUM_CHECK \<equiv> 16"

text \<open>
  The loop of \<open>CRC8\<close>: \<open>i\<close> counts to 16 and the pointer advances by the stride 256. \<open>*buf\<close> is a signed
  \<open>char\<close>; the mask \<open>& 0xff\<close> undoes the sign extension.
\<close>

fun crc8_loop :: "u8 list \<Rightarrow> nat \<Rightarrow> bytes \<Rightarrow> u8 \<Rightarrow> u8" where
  "crc8_loop tab 0 buf crc = crc"
| "crc8_loop tab (Suc n) buf crc =
     crc8_loop tab n (drop (4096 div CRC8_NUM_CHECK) buf)
       (tab ! unat ((ucast crc XOR scast (buf ! 0) :: u32) AND 0xff))"

definition CRC8 :: "bool \<Rightarrow> bytes \<Rightarrow> u8" where
  "CRC8 DCC_CRC_CHECK buff = (if DCC_CRC_CHECK then crc8_loop crc8tab CRC8_NUM_CHECK buff 0 else 0)"

definition drv_CRC8 :: "bool \<Rightarrow> bytes \<Rightarrow> u8" where
  "drv_CRC8 DCC_CRC_CHECK buff =
     (if DCC_CRC_CHECK then crc8_loop drv_crc8tab CRC8_NUM_CHECK buff 0 else 0)"

fun crc16_loop :: "u16 list \<Rightarrow> nat \<Rightarrow> bytes \<Rightarrow> u16 \<Rightarrow> u16" where
  "crc16_loop tab 0 buf crc = crc"
| "crc16_loop tab (Suc n) buf crc =
     crc16_loop tab n (drop (4096 div CRC16_NUM_CHECK) buf)
       (push_bit 8 crc XOR tab ! unat ((ucast (drop_bit 8 crc) XOR scast (buf ! 0) :: u32) AND 0x00FF))"

definition CRC16 :: "bool \<Rightarrow> bytes \<Rightarrow> u16" where
  "CRC16 DCC_CRC_CHECK buff = (if DCC_CRC_CHECK then crc16_loop crc16tab CRC16_NUM_CHECK buff 0 else 0)"

definition drv_CRC16 :: "bytes \<Rightarrow> u16" where
  "drv_CRC16 buff = crc16_loop drv_crc16tab CRC16_NUM_CHECK buff 0"

definition CRC16_CHECK :: "bool \<Rightarrow> u16 \<Rightarrow> bytes \<Rightarrow> u16" where
  "CRC16_CHECK DCC_CRC_CHECK crc16 buff =
     (if DCC_CRC_CHECK then (if crc16 \<noteq> drv_CRC16 buff then 1 else 0) else 0)"

section \<open>The bitwise reference\<close>

text \<open>One shift of the CRC register: the polynomial is added when the top bit falls out.\<close>

definition crc8_shift :: "u8 \<Rightarrow> u8" where
  "crc8_shift r = (if bit r 7 then push_bit 1 r XOR 0x07 else push_bit 1 r)"

definition crc16_shift :: "u16 \<Rightarrow> u16" where
  "crc16_shift r = (if bit r 15 then push_bit 1 r XOR 0x1021 else push_bit 1 r)"

definition crc8_byte :: "u8 \<Rightarrow> u8" where
  "crc8_byte b = crc8_shift (crc8_shift (crc8_shift (crc8_shift
                  (crc8_shift (crc8_shift (crc8_shift (crc8_shift b)))))))"

definition crc16_byte :: "u16 \<Rightarrow> u16" where
  "crc16_byte r = crc16_shift (crc16_shift (crc16_shift (crc16_shift
                  (crc16_shift (crc16_shift (crc16_shift (crc16_shift r)))))))"

definition crc8_bitwise :: "bytes \<Rightarrow> u8" where
  "crc8_bitwise bs = fold (\<lambda>b crc. crc8_byte (crc XOR b)) bs 0"

definition crc16_bitwise :: "bytes \<Rightarrow> u16" where
  "crc16_bitwise bs = fold (\<lambda>b crc. crc16_byte (crc XOR push_bit 8 (ucast b))) bs 0"

text \<open>The 16 sampled bytes of a page.\<close>

definition sampled :: "bytes \<Rightarrow> bytes" where
  "sampled page = map (\<lambda>i. page ! (256 * i)) [0..<16]"

section \<open>The tables are the bitwise remainders\<close>

text \<open>A table checked entry by entry against a function of its index.\<close>

fun tab_ok :: "('a::len word \<Rightarrow> 'a word) \<Rightarrow> 'a word \<Rightarrow> 'a word \<Rightarrow> 'a word list \<Rightarrow> bool" where
  "tab_ok f d i [] = True"
| "tab_ok f d i (x # xs) = (x = f i \<and> tab_ok f d (i + d) xs)"

lemma tab_ok_nth: "tab_ok f d i tab \<Longrightarrow> k < length tab \<Longrightarrow> tab ! k = f (i + of_nat k * d)"
proof (induction tab arbitrary: i k)
  case (Cons x xs)
  show ?case
  proof (cases k)
    case (Suc m)
    with Cons have "xs ! m = f (i + d + of_nat m * d)" by simp
    with Suc show ?thesis by (simp add: algebra_simps)
  qed (use Cons.prems in simp)
qed simp

lemma crc8tab_checked: "tab_ok crc8_byte 1 0 crc8tab" "length crc8tab = 256"
  by (simp_all add: crc8tab_def crc8_byte_def crc8_shift_def)

lemma crc16tab_checked: "tab_ok crc16_byte 256 0 crc16tab" "length crc16tab = 256"
  by (simp_all add: crc16tab_def crc16_byte_def crc16_shift_def)

lemma drv_tables_eq: "drv_crc8tab = crc8tab" "drv_crc16tab = crc16tab"
  by (simp_all only: drv_crc8tab_def crc8tab_def drv_crc16tab_def crc16tab_def)

lemma nth_crc8tab: "crc8tab ! unat w = crc8_byte w"
  using tab_ok_nth [OF crc8tab_checked(1), of "unat w"] unat_less_exp [of w]
  by (simp add: crc8tab_checked(2))

lemma nth_crc16tab: "crc16tab ! unat (w :: u8) = crc16_byte (push_bit 8 (ucast w))"
proof -
  have "of_nat (unat w) * 256 = push_bit 8 (ucast w :: u16)"
    by (simp add: push_bit_eq_mult)
  then show ?thesis
    using tab_ok_nth [OF crc16tab_checked(1), of "unat w"] unat_less_exp [of w]
    by (simp add: crc16tab_checked(2))
qed

text \<open>\<open>(crc ^ *buf) & 0xff\<close> on promoted integers is the exclusive or of the two bytes.\<close>

lemma crc_index: "unat ((ucast c XOR scast (b :: u8) :: u32) AND 0xff) = unat (c XOR b)" for c :: u8
proof -
  have "(ucast c XOR scast b :: u32) AND mask 8 = ucast (c XOR b)"
  proof (rule bit_word_eqI)
    fix n :: nat
    have "n < 8 \<Longrightarrow> min 7 n = n" by simp
    then show "bit ((ucast c XOR scast b :: u32) AND mask 8) n = bit (ucast (c XOR b) :: u32) n"
      by (cases "n < 8") (auto simp: bit_simps dest: bit_imp_le_length)
  qed
  then show ?thesis by (simp add: byte_masks unat_ucast_up)
qed

lemma crc8_loop_fold:
  "256 * n \<le> length buf \<Longrightarrow>
   crc8_loop crc8tab n buf crc = fold (\<lambda>b crc. crc8_byte (crc XOR b)) (map (\<lambda>i. buf ! (256 * i)) [0..<n]) crc"
proof (induction n arbitrary: buf crc)
  case (Suc n)
  then have "256 * n \<le> length (drop 256 buf)" by simp
  note IH = Suc.IH [OF this]
  have "map (\<lambda>i. buf ! (256 * i)) [0..<Suc n] = buf ! 0 # map (\<lambda>i. drop 256 buf ! (256 * i)) [0..<n]"
    using Suc.prems by (simp add: upt_conv_Cons map_Suc_upt [symmetric] del: upt_Suc)
  then show ?case by (simp add: IH crc_index nth_crc8tab del: upt_Suc)
qed simp

lemma crc16_loop_fold:
  "256 * n \<le> length buf \<Longrightarrow>
   crc16_loop crc16tab n buf crc =
     fold (\<lambda>b crc. push_bit 8 crc XOR crc16_byte (push_bit 8 (ucast ((ucast (drop_bit 8 crc) :: u8) XOR b))))
       (map (\<lambda>i. buf ! (256 * i)) [0..<n]) crc"
proof (induction n arbitrary: buf crc)
  case (Suc n)
  then have "256 * n \<le> length (drop 256 buf)" by simp
  note IH = Suc.IH [OF this]
  have "map (\<lambda>i. buf ! (256 * i)) [0..<Suc n] = buf ! 0 # map (\<lambda>i. drop 256 buf ! (256 * i)) [0..<n]"
    using Suc.prems by (simp add: upt_conv_Cons map_Suc_upt [symmetric] del: upt_Suc)
  moreover have "unat ((ucast (drop_bit 8 crc) XOR scast (buf ! 0) :: u32) AND 0x00FF)
      = unat (ucast (drop_bit 8 crc) XOR buf ! 0)"
  proof -
    have "ucast (drop_bit 8 crc) = (ucast (ucast (drop_bit 8 crc) :: u8) :: u32)"
      by (rule bit_word_eqI) (auto simp: bit_simps dest: bit_imp_le_length)
    then show ?thesis using crc_index [of "ucast (drop_bit 8 crc)" "buf ! 0"] by simp
  qed
  ultimately show ?case by (simp only: crc16_loop.simps fold_simps IH nth_crc16tab) (simp add: IH)
qed simp

text \<open>Linearity of the CRC register, and its effect on a byte in the low half.\<close>

lemma crc16_shift_xor: "crc16_shift (x XOR y) = crc16_shift x XOR crc16_shift y"
  by (rule bit_word_eqI) (auto simp: crc16_shift_def bit_simps)

lemma crc16_byte_xor: "crc16_byte (x XOR y) = crc16_byte x XOR crc16_byte y"
  by (simp only: crc16_byte_def crc16_shift_xor)

lemma crc16_shift_clear: "\<not> bit r 15 \<Longrightarrow> crc16_shift r = push_bit 1 r"
  by (simp only: crc16_shift_def if_False)

lemma crc16_byte_low: "crc16_byte (x AND mask 8) = push_bit 8 x"
proof -
  define y where "y = x AND mask 8"
  have sh: "crc16_shift (push_bit k y) = push_bit k' y" if "k < 8" "k' = 1 + k" for k k'
  proof -
    have "\<not> bit (push_bit k y) 15"
      unfolding y_def using that(1) by (simp only: bit_simps) auto
    then show ?thesis unfolding that(2) by (subst crc16_shift_clear) (assumption, rule push_bit_push_bit)
  qed
  have "crc16_shift (push_bit 0 y) = push_bit 1 y" "crc16_shift (push_bit 1 y) = push_bit 2 y"
    "crc16_shift (push_bit 2 y) = push_bit 3 y" "crc16_shift (push_bit 3 y) = push_bit 4 y"
    "crc16_shift (push_bit 4 y) = push_bit 5 y" "crc16_shift (push_bit 5 y) = push_bit 6 y"
    "crc16_shift (push_bit 6 y) = push_bit 7 y" "crc16_shift (push_bit 7 y) = push_bit 8 y"
    by (rule sh; simp)+
  then have "crc16_byte y = push_bit 8 y" by (simp only: crc16_byte_def push_bit_0_id id_apply)
  also have "\<dots> = push_bit 8 x" unfolding y_def by (rule bit_word_eqI) (simp only: bit_simps, auto)
  finally show ?thesis unfolding y_def .
qed

lemma crc16_step:
  "push_bit 8 crc XOR crc16_byte (push_bit 8 (ucast ((ucast (drop_bit 8 crc) :: u8) XOR b)))
   = crc16_byte (crc XOR push_bit 8 (ucast b))"
proof -
  have "crc XOR push_bit 8 (ucast b) = (crc AND mask 8) XOR push_bit 8 (ucast ((ucast (drop_bit 8 crc) :: u8) XOR b))"
    by (rule bit_word_eqI) (auto simp: bit_simps)
  then show ?thesis by (simp only: crc16_byte_xor crc16_byte_low)
qed

lemma bit_crc8_shift:
  assumes "n < 8"
  shows "bit (crc8_shift r) n = ((n \<noteq> 0 \<and> bit r (n - 1)) \<noteq> (bit r 7 \<and> n < 3))"
proof -
  have m: "(0x07 :: u8) = mask 3" by (simp add: mask_eq_exp_minus_1)
  show ?thesis
    unfolding crc8_shift_def m using assms
    by (cases "bit r 7"; simp only: if_True if_False bit_simps; auto)
qed

lemma inj_crc8_shift: "inj crc8_shift"
proof (rule injI, rule bit_word_eqI)
  fix x y :: u8 and n
  assume eq: "crc8_shift x = crc8_shift y" and n: "n < LENGTH(8)"
  have 7: "bit x 7 = bit y 7"
    using bit_crc8_shift [of 0 x] bit_crc8_shift [of 0 y] eq by simp
  show "bit x n = bit y n"
  proof (cases "n = 7")
    case False
    then have "Suc n < 8" using n by simp
    then show ?thesis using bit_crc8_shift [of "Suc n" x] bit_crc8_shift [of "Suc n" y] eq 7 by auto
  qed (simp add: 7)
qed

lemma xor_cancel: "x XOR a = y XOR a \<longleftrightarrow> x = y" "a XOR x = a XOR y \<longleftrightarrow> x = (y :: 'a::len word)"
  by (metis xor.assoc xor_self_eq xor.right_neutral, metis xor.assoc xor_self_eq xor.left_neutral)

lemma inj_crc8_byte: "inj crc8_byte"
  by (rule injI) (simp only: crc8_byte_def inj_eq [OF inj_crc8_shift])

section \<open>Properties\<close>

text \<open>
  C38. Table-driven checksums: on a page of 4096 bytes, CRC8 (when compiled in) and CRC16 of the
  daemon and of the driver all equal the bitwise CRC, with polynomials 0x07 and 0x1021, of the page's
  16 sampled bytes.
\<close>

theorem crc_tables_match_bitwise_crc:
  assumes "length page = 4096"
  shows "CRC8 True page = crc8_bitwise (sampled page) \<and> drv_CRC8 True page = crc8_bitwise (sampled page)
    \<and> CRC16 True page = crc16_bitwise (sampled page) \<and> drv_CRC16 page = crc16_bitwise (sampled page)"
  using assms
  by (simp add: CRC8_def drv_CRC8_def CRC16_def drv_CRC16_def drv_tables_eq crc8_loop_fold
      crc16_loop_fold crc8_bitwise_def crc16_bitwise_def crc16_step sampled_def del: upt_Suc push_bit_numeral)

theorem crc_tables_match_bitwise_crc_witness:
  "length (replicate 4096 (7 :: u8)) = 4096 \<and>
   CRC8 True (replicate 4096 7) = crc8_bitwise (sampled (replicate 4096 7))"
  by (intro conjI length_replicate crc_tables_match_bitwise_crc [OF length_replicate, THEN conjunct1])

text \<open>
  What the sampled CRC8 detects: two pages that differ in exactly one of the sampled bytes
  have different checksums, in the daemon's and in the driver's code.
\<close>

theorem crc8_detects_one_sampled_byte:
  assumes "length p = 4096" "length q = 4096"
    and "i < 16" "p ! (256 * i) \<noteq> q ! (256 * i)"
    and "\<forall>j < 16. j \<noteq> i \<longrightarrow> p ! (256 * j) = q ! (256 * j)"
  shows "CRC8 True p \<noteq> drv_CRC8 True q"
proof -
  let ?f = "\<lambda>b crc. crc8_byte (crc XOR b)"
  define xs where "xs = map (\<lambda>j. p ! (256 * j)) [0..<i]"
  define ys where "ys = map (\<lambda>j. p ! (256 * j)) [Suc i..<16]"
  have split: "[0..<16] = [0..<i] @ i # [Suc i..<16]"
    using \<open>i < 16\<close> by (metis le0 less_imp_le_nat upt_add_eq_append upt_conv_Cons le_add_diff_inverse)
  have sp: "sampled p = xs @ p ! (256 * i) # ys"
    by (simp only: sampled_def split xs_def ys_def map_append list.map)
  have "map (\<lambda>j. q ! (256 * j)) [0..<i] = xs" "map (\<lambda>j. q ! (256 * j)) [Suc i..<16] = ys"
    unfolding xs_def ys_def using assms(3,5) by auto
  then have sq: "sampled q = xs @ q ! (256 * i) # ys"
    by (simp only: sampled_def split map_append list.map)
  have inj: "inj (fold ?f ys)" for ys
    by (induction ys) (auto intro!: injI simp: inj_eq inj_eq [OF inj_crc8_byte] xor_cancel)
  have "CRC8 True p = fold ?f ys (?f (p ! (256 * i)) (fold ?f xs 0))"
    "drv_CRC8 True q = fold ?f ys (?f (q ! (256 * i)) (fold ?f xs 0))"
    using crc8_loop_fold assms(1,2)
    by (simp_all add: CRC8_def drv_CRC8_def drv_tables_eq flip: sampled_def del: upt_Suc) (simp_all add: sp sq)
  then show ?thesis using assms(4)
    by (simp add: inj_eq [OF inj] inj_eq [OF inj_crc8_byte] xor_cancel)
qed

theorem crc8_detects_one_sampled_byte_witness:
  "CRC8 True (replicate 4096 0) \<noteq> drv_CRC8 True ((replicate 4096 0)[256 := 1])"
  by (rule crc8_detects_one_sampled_byte [where i = 1]) (simp_all add: nth_list_update)

end
