(* ===== verification/Longkey.thy ===== *)
theory Longkey
  imports Prelude
begin

text \<open>
  Keys: \<^verbatim>\<open>daemon/util/pair.h\<close> (the key and value types and the reserved keys), the long key packing of
  \<^verbatim>\<open>daemon/Ihash.hpp\<close> and its copy in \<^verbatim>\<open>driver/backend.h\<close>. A long key packs a client id (4 bits), an
  inode number (32 bits) and a page offset (28 bits).

  Shown: the client id and the inode survive the round trip, long keys are injective on
  their field ranges and, below client 15, never a reserved key; driver and daemon build the same
  key; \<open>longkey_to_offset\<close> reads one bit of the inode beside the offset.
\<close>

section \<open>Keys and values\<close>

type_synonym Key_t = u64
type_synonym Value_t = u64

definition INVALID :: Key_t where "INVALID = 0xffffffffffffffff"
definition SENTINEL :: Key_t where "SENTINEL = 0xfffffffffffffffe"
definition TOMBSTONE :: Key_t where "TOMBSTONE = 0xfffffffffffffffc"
definition INVALID32 :: u32 where "INVALID32 = 0xffffffff"
definition NONE :: Value_t where "NONE = 0x0"

record Pair =
  pr_key :: Key_t
  pr_value :: Value_t

definition Pair_default :: Pair where
  "Pair_default = \<lparr>pr_key = INVALID, pr_value = NONE\<rparr>"

section \<open>Long keys of the daemon\<close>

definition make_longkey :: "u64 \<Rightarrow> u64 \<Rightarrow> u32 \<Rightarrow> u64" where
  "make_longkey cli_id inode index =
     (let longkey = push_bit (32 - 4) inode;
          longkey = longkey OR ucast index;
          longkey = longkey OR push_bit 60 cli_id
      in longkey)"

definition longkey_to_cid :: "u64 \<Rightarrow> u32" where
  "longkey_to_cid longkey = ucast (drop_bit 60 longkey)"

definition longkey_to_inode :: "u64 \<Rightarrow> u32" where
  "longkey_to_inode longkey = ucast (drop_bit (32 - 4) longkey AND (push_bit 32 1 - 1))"

definition longkey_to_offset :: "u64 \<Rightarrow> u32" where
  "longkey_to_offset longkey = ucast (longkey AND (push_bit (28 + 1) 1 - 1))"

section \<open>Long keys of the driver\<close>

definition drv_make_longkey :: "u64 \<Rightarrow> u64 \<Rightarrow> u64 \<Rightarrow> u64" where
  "drv_make_longkey cli_id inode index =
     (let longkey = push_bit (32 - 4) inode;
          longkey = longkey OR index;
          longkey = longkey OR push_bit 60 cli_id
      in longkey)"

definition drv_longkey_to_cid :: "u64 \<Rightarrow> u32" where
  "drv_longkey_to_cid longkey = ucast (drop_bit 60 longkey)"

definition drv_longkey_to_inode :: "u64 \<Rightarrow> u32" where
  "drv_longkey_to_inode longkey = ucast (drop_bit (32 - 4) longkey AND (push_bit 32 1 - 1))"

definition drv_longkey_to_offset :: "u64 \<Rightarrow> u32" where
  "drv_longkey_to_offset longkey = ucast (longkey AND (push_bit (28 + 1) 1 - 1))"

section \<open>Bits of a long key\<close>

lemma mask32_29: "push_bit 32 1 - 1 = (mask 32 :: u64)" "push_bit (28 + 1) 1 - 1 = (mask 29 :: u64)"
  by (simp_all add: mask_eq_exp_minus_1)

definition longkey_fits :: "u64 \<times> u64 \<times> u32 \<Rightarrow> bool" where
  "longkey_fits = (\<lambda>(cid, ino, idx). cid < 2 ^ 4 \<and> ino < 2 ^ 32 \<and> idx < 2 ^ 28)"

lemma bit_make_longkey:
  assumes "longkey_fits (cid, ino, idx)"
  shows "bit (make_longkey cid ino idx) n \<longleftrightarrow>
    (if n < 28 then bit idx n else if n < 60 then bit ino (n - 28) else n < 64 \<and> bit cid (n - 60))"
proof -
  have "bit ino m \<Longrightarrow> m < 32" "bit idx m \<Longrightarrow> m < 28" for m
    using assms by (auto simp only: longkey_fits_def prod.case intro: bit_less_exp)
  from this(1) [of "n - 28"] this(2) [of n] show ?thesis
    unfolding make_longkey_def Let_def by (simp only: bit_simps) auto
qed

lemma bit_longkey_cid: "longkey_fits (cid, ino, idx) \<Longrightarrow> bit cid n \<Longrightarrow> n < 4"
  by (auto simp only: longkey_fits_def prod.case intro: bit_less_exp)

lemma bit_longkey_ino: "longkey_fits (cid, ino, idx) \<Longrightarrow> bit ino n \<Longrightarrow> n < 32"
  by (auto simp only: longkey_fits_def prod.case intro: bit_less_exp)

lemma bit_longkey_idx: "longkey_fits (cid, ino, idx) \<Longrightarrow> bit idx n \<Longrightarrow> n < 28"
  by (auto simp only: longkey_fits_def prod.case intro: bit_less_exp)

lemma longkey_to_cid_make:
  assumes "longkey_fits (cid, ino, idx)"
  shows "longkey_to_cid (make_longkey cid ino idx) = ucast cid"
proof (rule bit_word_eqI)
  fix n
  show "bit (longkey_to_cid (make_longkey cid ino idx)) n = bit (ucast cid :: u32) n"
    using bit_longkey_cid [OF assms, of n] unfolding longkey_to_cid_def
    by (simp only: bit_simps) (auto simp: bit_make_longkey [OF assms])
qed

lemma longkey_to_inode_make:
  assumes "longkey_fits (cid, ino, idx)"
  shows "longkey_to_inode (make_longkey cid ino idx) = ucast ino"
proof (rule bit_word_eqI)
  fix n
  show "bit (longkey_to_inode (make_longkey cid ino idx)) n = bit (ucast ino :: u32) n"
    using bit_longkey_ino [OF assms, of n] unfolding longkey_to_inode_def mask32_29
    by (simp only: bit_simps) (auto simp: bit_make_longkey [OF assms])
qed

text \<open>The inode bit that the 29-bit mask lets through.\<close>

lemma bit_stray_inode: "bit (if odd (ino :: u64) then 2 ^ 28 else 0 :: u32) n \<longleftrightarrow> n = 28 \<and> odd ino"
proof -
  have "bit (2 ^ 28 :: u32) n \<longleftrightarrow> n = 28" by (subst bit_exp_iff) auto
  then show ?thesis by (cases "odd ino") (simp_all only: if_True if_False bit_0_eq, simp_all)
qed

lemma longkey_to_offset_make:
  assumes "longkey_fits (cid, ino, idx)"
  shows "longkey_to_offset (make_longkey cid ino idx) = idx OR (if odd ino then 2 ^ 28 else 0)"
proof (rule bit_word_eqI)
  fix n assume n: "n < LENGTH(32)"
  have "n < 29 \<Longrightarrow> \<not> n < 28 \<Longrightarrow> n = 28" by simp
  then show "bit (longkey_to_offset (make_longkey cid ino idx)) n = bit (idx OR (if odd ino then 2 ^ 28 else 0)) n"
    using n bit_longkey_idx [OF assms, of n] unfolding longkey_to_offset_def mask32_29 bit_or_iff bit_stray_inode
    by (simp only: bit_simps) (auto simp: bit_make_longkey [OF assms] bit_0)
qed

lemma drv_make_longkey_eq: "drv_make_longkey cid ino (ucast idx) = make_longkey cid ino idx"
  by (simp only: drv_make_longkey_def make_longkey_def)

lemma drv_longkey_accessors_eq:
  "drv_longkey_to_cid = longkey_to_cid" "drv_longkey_to_inode = longkey_to_inode"
  "drv_longkey_to_offset = longkey_to_offset"
  by (rule ext, simp only: drv_longkey_to_cid_def longkey_to_cid_def drv_longkey_to_inode_def
      longkey_to_inode_def drv_longkey_to_offset_def longkey_to_offset_def)+

text \<open>
  Long keys are a codec once the stray inode bit is masked off the offset.
\<close>

definition longkey_enc :: "u64 \<times> u64 \<times> u32 \<Rightarrow> u64" where
  "longkey_enc = (\<lambda>(cid, ino, idx). make_longkey cid ino idx)"

definition longkey_dec :: "u64 \<Rightarrow> u64 \<times> u64 \<times> u32" where
  "longkey_dec k = (ucast (longkey_to_cid k), ucast (longkey_to_inode k), longkey_to_offset k AND mask 28)"

lemma ucast_ucast_fits: "w < 2 ^ 32 \<Longrightarrow> ucast (ucast w :: u32) = (w :: u64)"
  by (rule bit_word_eqI) (auto simp: bit_ucast_iff dest: bit_less_exp [where n = 32, simplified])

interpretation longkey: codec longkey_enc longkey_dec longkey_fits
proof
  fix x assume fits: "longkey_fits x"
  obtain cid ino idx where x: "x = (cid, ino, idx)" by (cases x) auto
  note f = fits [unfolded x]
  have lt: "cid < 2 ^ 32" "ino < 2 ^ 32"
    using f by (auto simp: longkey_fits_def elim!: order.strict_trans)
  have "(idx OR (if odd ino then 2 ^ 28 else 0)) AND mask 28 = idx"
  proof (rule bit_word_eqI)
    fix n
    show "bit ((idx OR (if odd ino then 2 ^ 28 else 0)) AND mask 28) n = bit idx n"
      using bit_longkey_idx [OF f, of n]
      by (simp only: bit_and_iff bit_or_iff bit_mask_iff bit_stray_inode) auto
  qed
  then show "longkey_dec (longkey_enc x) = x"
    using longkey_to_cid_make [OF f] longkey_to_inode_make [OF f] longkey_to_offset_make [OF f]
    by (simp only: x longkey_dec_def longkey_enc_def prod.case ucast_ucast_fits [OF lt(1)] ucast_ucast_fits [OF lt(2)])
qed

section \<open>Properties\<close>

text \<open>
  Long keys keep client and inode: for a client id of 4 bits, an inode of 32 bits and a page
  index of 28 bits, the client id and the inode are read back from the key, by the daemon's and by
  the driver's accessors, from the key that either side builds.
\<close>

theorem longkey_roundtrip:
  assumes "longkey_fits (cid, ino, idx)"
  shows "drv_make_longkey cid ino (ucast idx) = make_longkey cid ino idx
    \<and> longkey_to_cid (make_longkey cid ino idx) = ucast cid
    \<and> longkey_to_inode (make_longkey cid ino idx) = ucast ino
    \<and> drv_longkey_to_cid (make_longkey cid ino idx) = ucast cid
    \<and> drv_longkey_to_inode (make_longkey cid ino idx) = ucast ino"
  using longkey_to_cid_make [OF assms] longkey_to_inode_make [OF assms]
  by (simp add: drv_make_longkey_eq drv_longkey_accessors_eq)

theorem longkey_roundtrip_witness:
  "longkey_fits (3, 0x12345, 77) \<and> longkey_to_cid (make_longkey 3 0x12345 77) = ucast (3 :: u64)"
proof -
  have h: "longkey_fits (3, 0x12345, 77)" by (simp add: longkey_fits_def)
  show ?thesis using h longkey_roundtrip [OF h] by blast
qed

text \<open>
  C34. Distinct pages have distinct keys, and no key of a client below 15 is one of the reserved
  values INVALID, SENTINEL and TOMBSTONE, which mark free and deleted buckets of the hash table.
\<close>

theorem longkey_injective_and_unreserved:
  assumes "longkey_fits (cid, ino, idx)" "longkey_fits (cid', ino', idx')"
  shows "(make_longkey cid ino idx = make_longkey cid' ino' idx' \<longrightarrow> (cid, ino, idx) = (cid', ino', idx'))
    \<and> (cid < 15 \<longrightarrow> make_longkey cid ino idx \<notin> {INVALID, SENTINEL, TOMBSTONE})"
proof (intro conjI impI)
  assume "make_longkey cid ino idx = make_longkey cid' ino' idx'"
  then have "longkey_enc (cid, ino, idx) = longkey_enc (cid', ino', idx')" by (simp add: longkey_enc_def)
  then show "(cid, ino, idx) = (cid', ino', idx')"
    using longkey.enc_eq_iff [OF assms] by blast
next
  assume c: "cid < 15"
  have "longkey_to_cid k = 15" if "k \<in> {INVALID, SENTINEL, TOMBSTONE}" for k
    using that by (auto simp: longkey_to_cid_def INVALID_def SENTINEL_def TOMBSTONE_def)
  moreover have "ucast cid \<noteq> (15 :: u32)"
  proof
    assume "ucast cid = (15 :: u32)"
    moreover have "cid < 2 ^ 32" using c by (auto elim!: order.strict_trans)
    ultimately have "cid = ucast (15 :: u32)" using ucast_ucast_fits [of cid] by simp
    then show False using c by simp
  qed
  ultimately show "make_longkey cid ino idx \<notin> {INVALID, SENTINEL, TOMBSTONE}"
    using longkey_to_cid_make [OF assms(1)] by metis
qed

theorem longkey_injective_and_unreserved_witness:
  "longkey_fits (3, 5, 77) \<and> longkey_fits (3, 5, 78) \<and> make_longkey 3 5 77 \<notin> {INVALID, SENTINEL, TOMBSTONE}"
proof -
  have h: "longkey_fits (3, 5, 77)" "longkey_fits (3, 5, 78)" by (simp_all add: longkey_fits_def)
  have "(3 :: u64) < 15" by simp
  then show ?thesis using h longkey_injective_and_unreserved [OF h] by blast
qed

text \<open>
  The offset accessor returns more than the offset: its mask has 29 bits where the offset field
  has 28, so for every inode with an odd number the result is the page index plus 2 to the 28.
\<close>

theorem longkey_offset_leaks_inode_bit:
  assumes "longkey_fits (cid, ino, idx)"
  shows "longkey_to_offset (make_longkey cid ino idx) = (if odd ino then idx + 2 ^ 28 else idx)"
proof -
  have "idx AND 2 ^ 28 = 0"
  proof (rule bit_word_eqI)
    fix n
    have "bit (2 ^ 28 :: u32) n \<Longrightarrow> n = 28" by (simp only: bit_exp_iff)
    then show "bit (idx AND 2 ^ 28) n = bit (0 :: u32) n"
      using bit_longkey_idx [OF assms, of n] by (auto simp only: bit_and_iff bit_0_eq)
  qed
  then have "idx OR 2 ^ 28 = idx + 2 ^ 28" by (simp only: disjunctive_add_eq_or)
  then show ?thesis unfolding longkey_to_offset_make [OF assms] by (simp only: or.right_neutral split: if_split) simp
qed

theorem longkey_offset_leaks_inode_bit_witness:
  "longkey_fits (1, 3, 9) \<and> longkey_to_offset (make_longkey 1 3 9) = 9 + 2 ^ 28"
proof -
  have h: "longkey_fits (1, 3, 9)" by (simp add: longkey_fits_def)
  have "odd (3 :: u64)" by simp
  then show ?thesis using h longkey_offset_leaks_inode_bit [OF h] by (simp only: if_True simp_thms)
qed

end
