(* ===== verification/Rdma_Proto.thy ===== *)
theory Rdma_Proto
  imports Prelude
begin

text \<open>
  What driver and daemon agree on (\<^verbatim>\<open>daemon/rdma.hpp\<close>, \<^verbatim>\<open>driver/rdma.h\<close>, \<^verbatim>\<open>daemon/config.hpp\<close> and the two
  \<^verbatim>\<open>dcc_rdma_set_default_config\<close>): message and transaction numbers, the 32 bits of immediate data of
  every message, the layout of the metadata region through which keys and addresses are passed, and
  the configuration records.  Counts that the code keeps as \<^verbatim>\<open>int\<close> are natural numbers here; what goes
  over the wire are words.
\<close>

section \<open>Configuration\<close>

datatype poller_t = PER_QP_POLLER | GLOBAL_QP_POLLER

datatype wc_mode_t = WC_BUSY_WAITING | WC_EVENT | WC_ADAPTIVE | WC_ADAPTIVE_BO

datatype ht_type_t = HT_CH | HT_CH_APPROX | HT_LP | HT_LP_APPROX

record daemon_config_t =
  tcp_port :: nat
  num_clients :: nat
  exclusive_policy :: bool
  mem_pool_size :: nat
  ht_type :: ht_type_t
  num_ht_shards :: nat
  cbf_on :: bool
  wc_mode :: wc_mode_t
  poller_type :: poller_t

definition wc_mode_names :: "(string \<times> wc_mode_t) list" where
  "wc_mode_names = [(''busy_waiting'', WC_BUSY_WAITING), (''event'', WC_EVENT), (''adaptive'', WC_ADAPTIVE), (''adaptive_bo'', WC_ADAPTIVE_BO)]"

text \<open>The parser of the mode name; the exception for an unknown name is \<^const>\<open>None\<close>.\<close>

definition wc_mode_of_string :: "string \<Rightarrow> wc_mode_t option" where
  "wc_mode_of_string str = map_of wc_mode_names str"

record dcc_rdma_config_t =
  num_get_qps :: nat
  num_data_qps :: nat
  num_filter_qps :: nat
  num_qps :: nat
  num_msgs :: nat
  get_metadata_size :: nat
  inv_metadata_size :: nat
  metadata_size :: nat
  metadata_mr_size :: nat

definition dcc_rdma_set_default_config :: dcc_rdma_config_t where
  "dcc_rdma_set_default_config =
     (let get_qps = 6; data_qps = 2 + get_qps; filter_qps = 1; qps = data_qps + filter_qps; msgs = 512;
          get_md = 8 * 2; inv_md = 8 * msgs; md = get_md + inv_md; mr = data_qps * md
      in \<lparr>num_get_qps = get_qps, num_data_qps = data_qps, num_filter_qps = filter_qps, num_qps = qps, num_msgs = msgs,
          get_metadata_size = get_md, inv_metadata_size = inv_md, metadata_size = md, metadata_mr_size = mr\<rparr>)"

record drv_rdma_config_t = dcc_rdma_config_t +
  num_put_batch :: nat

definition drv_rdma_set_default_config :: drv_rdma_config_t where
  "drv_rdma_set_default_config =
     (let get_qps = 6; data_qps = 2 + get_qps; filter_qps = 1; qps = data_qps + filter_qps; msgs = 512; put_batch = 32;
          get_md = 8 * 2; inv_md = 8 * msgs; md = get_md + inv_md; mr = data_qps * md
      in \<lparr>num_get_qps = get_qps, num_data_qps = data_qps, num_filter_qps = filter_qps, num_qps = qps, num_msgs = msgs,
          get_metadata_size = get_md, inv_metadata_size = inv_md, metadata_size = md, metadata_mr_size = mr,
          num_put_batch = put_batch\<rparr>)"

text \<open>The queue pair attributes.\<close>

abbreviation (input) QP_MAX_RECV_WR :: nat where
  "QP_MAX_RECV_WR \<equiv> 4096"

definition MAX_QPS_RECVS :: nat where
  "MAX_QPS_RECVS = QP_MAX_RECV_WR - 1"

definition MAX_POLL_WC :: nat where
  "MAX_POLL_WC = QP_MAX_RECV_WR div 2"


section \<open>Message types and transaction states\<close>

datatype msg_type =
    MSG_WRITE_REQUEST | MSG_WRITE_REQUEST_REPLY | MSG_WRITE | MSG_WRITE_REPLY
  | MSG_READ_REQUEST | MSG_READ_REQUEST_REPLY | MSG_READ | MSG_READ_REPLY
  | MSG_INV_PAGE | MSG_INV_PAGE_REPLY

fun msg_num :: "msg_type \<Rightarrow> u32" where
  "msg_num MSG_WRITE_REQUEST = 1"
| "msg_num MSG_WRITE_REQUEST_REPLY = 2"
| "msg_num MSG_WRITE = 3"
| "msg_num MSG_WRITE_REPLY = 4"
| "msg_num MSG_READ_REQUEST = 5"
| "msg_num MSG_READ_REQUEST_REPLY = 6"
| "msg_num MSG_READ = 7"
| "msg_num MSG_READ_REPLY = 8"
| "msg_num MSG_INV_PAGE = 9"
| "msg_num MSG_INV_PAGE_REPLY = 10"

datatype tx_state =
    TX_WRITE_BEGIN | TX_WRITE_READY | TX_WRITE_COMMITTED | TX_WRITE_ABORTED
  | TX_READ_BEGIN | TX_READ_READY | TX_READ_COMMITTED | TX_READ_ABORTED
  | TX_INV_PAGE_BEGIN | TX_INV_PAGE_COMMITED | TX_INV_PAGE_ABORTED

fun tx_num :: "tx_state \<Rightarrow> u32" where
  "tx_num TX_WRITE_BEGIN = 1"
| "tx_num TX_WRITE_READY = 2"
| "tx_num TX_WRITE_COMMITTED = 3"
| "tx_num TX_WRITE_ABORTED = 4"
| "tx_num TX_READ_BEGIN = 5"
| "tx_num TX_READ_READY = 6"
| "tx_num TX_READ_COMMITTED = 7"
| "tx_num TX_READ_ABORTED = 8"
| "tx_num TX_INV_PAGE_BEGIN = 9"
| "tx_num TX_INV_PAGE_COMMITED = 10"
| "tx_num TX_INV_PAGE_ABORTED = 11"

definition FILTER_UPDATE_BEGIN :: u32 where
  "FILTER_UPDATE_BEGIN = 100"

definition FILTER_UPDATE_END :: u32 where
  "FILTER_UPDATE_END = 101"


section \<open>Immediate data\<close>

text \<open>Twelve bits of message id, four of message type, of transaction state and of extra flags, eight of checksum.\<close>

definition bit_mask :: "u32 \<Rightarrow> u32 \<Rightarrow> u32 \<Rightarrow> u32 \<Rightarrow> u32 \<Rightarrow> u32" where
  "bit_mask mid msg tx etc crc =
     (push_bit 20 mid OR push_bit 16 msg OR push_bit 12 tx OR push_bit 8 etc OR crc)"

definition bit_unmask :: "u32 \<Rightarrow> u32 \<times> u32 \<times> u32 \<times> u32 \<times> u32" where
  "bit_unmask target =
     (drop_bit 20 target AND (push_bit 12 1 - 1), drop_bit 16 target AND (push_bit 4 1 - 1),
      drop_bit 12 target AND (push_bit 4 1 - 1), drop_bit 8 target AND (push_bit 4 1 - 1),
      target AND (push_bit 8 1 - 1))"

definition drv_bit_mask :: "u32 \<Rightarrow> u32 \<Rightarrow> u32 \<Rightarrow> u32 \<Rightarrow> u32 \<Rightarrow> u32" where
  "drv_bit_mask mid msg tx etc crc =
     (push_bit 20 mid OR push_bit 16 msg OR push_bit 12 tx OR push_bit 8 etc OR crc)"

definition drv_bit_unmask :: "u32 \<Rightarrow> u32 \<times> u32 \<times> u32 \<times> u32 \<times> u32" where
  "drv_bit_unmask target =
     (drop_bit 20 target AND (push_bit 12 1 - 1), drop_bit 16 target AND (push_bit 4 1 - 1),
      drop_bit 12 target AND (push_bit 4 1 - 1), drop_bit 8 target AND (push_bit 4 1 - 1),
      target AND (push_bit 8 1 - 1))"


section \<open>Metadata region\<close>

text \<open>Where the key of a request lies, and next to the key of a read the address the page goes to.\<close>

definition KEY_META_REGION :: "dcc_rdma_config_t \<Rightarrow> u64 \<Rightarrow> nat \<Rightarrow> nat \<Rightarrow> u32 \<Rightarrow> u64" where
  "KEY_META_REGION c addr qid mid type =
     (if type = msg_num MSG_READ then addr + of_nat (metadata_size c * qid)
      else if type = msg_num MSG_INV_PAGE then addr + of_nat (metadata_size c * qid + get_metadata_size c + mid * 8)
      else - 1)"

definition ADDR_META_REGION :: "dcc_rdma_config_t \<Rightarrow> u64 \<Rightarrow> nat \<Rightarrow> nat \<Rightarrow> u64" where
  "ADDR_META_REGION c addr qid mid = KEY_META_REGION c addr qid mid (msg_num MSG_READ) + 8"

definition GET_METADATA_OFFSET :: "drv_rdma_config_t \<Rightarrow> nat \<Rightarrow> nat \<Rightarrow> u32 \<Rightarrow> u64" where
  "GET_METADATA_OFFSET c qid mid type =
     (if type = msg_num MSG_READ then of_nat (metadata_size c * qid)
      else if type = msg_num MSG_INV_PAGE then of_nat (metadata_size c * qid + get_metadata_size c + mid * 8)
      else - 1)"


section \<open>Immediate data as a codec\<close>

definition imm_fits :: "u32 \<times> u32 \<times> u32 \<times> u32 \<times> u32 \<Rightarrow> bool" where
  "imm_fits = (\<lambda>(mid, msg, tx, etc, crc). mid < 2 ^ 12 \<and> msg < 2 ^ 4 \<and> tx < 2 ^ 4 \<and> etc < 2 ^ 4 \<and> crc < 2 ^ 8)"

definition imm_enc :: "u32 \<times> u32 \<times> u32 \<times> u32 \<times> u32 \<Rightarrow> u32" where
  "imm_enc = (\<lambda>(mid, msg, tx, etc, crc). bit_mask mid msg tx etc crc)"

lemma imm_masks:
  "push_bit 12 1 - 1 = (mask 12 :: u32)" "push_bit 4 1 - 1 = (mask 4 :: u32)" "push_bit 8 1 - 1 = (mask 8 :: u32)"
  by (simp_all add: mask_eq_exp_minus_1)

lemma imm_bits:
  assumes "imm_fits (mid, msg, tx, etc, crc)"
  shows "bit mid m \<Longrightarrow> m < 12" "bit msg m \<Longrightarrow> m < 4" "bit tx m \<Longrightarrow> m < 4" "bit etc m \<Longrightarrow> m < 4" "bit crc m \<Longrightarrow> m < 8"
  using assms by (auto simp only: imm_fits_def prod.case intro: bit_less_exp)

lemma bit_bit_mask:
  assumes "imm_fits (mid, msg, tx, etc, crc)"
  shows "bit (bit_mask mid msg tx etc crc) n \<longleftrightarrow>
    (if n < 8 then bit crc n else if n < 12 then bit etc (n - 8) else if n < 16 then bit tx (n - 12)
     else if n < 20 then bit msg (n - 16) else n < 32 \<and> bit mid (n - 20))"
  using imm_bits(2) [OF assms, of "n - 16"] imm_bits(3) [OF assms, of "n - 12"]
    imm_bits(4) [OF assms, of "n - 8"] imm_bits(5) [OF assms, of n]
  unfolding bit_mask_def by (simp only: bit_simps) auto

lemma unmask_field:
  assumes "\<And>n. bit w n = (n < k \<and> bit t (m + n))"
  shows "drop_bit m t AND mask k = (w :: u32)"
  by (rule bit_word_eqI) (simp only: bit_simps assms, auto)

lemma bit_unmask_mask:
  assumes "imm_fits (mid, msg, tx, etc, crc)"
  shows "bit_unmask (bit_mask mid msg tx etc crc) = (mid, msg, tx, etc, crc)"
proof -
  let ?t = "bit_mask mid msg tx etc crc"
  note b = bit_bit_mask [OF assms] and lt = imm_bits [OF assms]
  have "drop_bit 20 ?t AND mask 12 = mid" using lt(1) by (intro unmask_field) (auto simp: b dest: lt)
  moreover have "drop_bit 16 ?t AND mask 4 = msg" using lt(2) by (intro unmask_field) (auto simp: b)
  moreover have "drop_bit 12 ?t AND mask 4 = tx" using lt(3) by (intro unmask_field) (auto simp: b)
  moreover have "drop_bit 8 ?t AND mask 4 = etc" using lt(4) by (intro unmask_field) (auto simp: b)
  moreover have "drop_bit 0 ?t AND mask 8 = crc" using lt(5) by (intro unmask_field) (auto simp: b)
  ultimately show ?thesis unfolding bit_unmask_def imm_masks by (simp only: drop_bit_0 id_apply)
qed

interpretation imm: codec imm_enc bit_unmask imm_fits
proof
  fix x assume "imm_fits x"
  then show "bit_unmask (imm_enc x) = x" by (cases x) (simp only: imm_enc_def prod.case bit_unmask_mask)
qed

lemma drv_bit_mask_eq: "drv_bit_mask = bit_mask" "drv_bit_unmask = bit_unmask"
  by (simp_all only: fun_eq_iff drv_bit_mask_def bit_mask_def drv_bit_unmask_def bit_unmask_def simp_thms)

lemma msg_num_less: "msg_num m < 2 ^ 4"
  by (cases m) simp_all

lemma tx_num_less: "tx_num t < 2 ^ 4"
  by (cases t) simp_all

lemma msg_num_inj: "msg_num m = msg_num m' \<longleftrightarrow> m = m'"
  by (cases m; cases m') simp_all

lemma tx_num_inj: "tx_num t = tx_num t' \<longleftrightarrow> t = t'"
  by (cases t; cases t') simp_all


section \<open>Properties of the protocol\<close>

text \<open>
  C30. Whatever one side packs into the immediate data, in network byte order, the other side unpacks:
  message id, message type, transaction state, flags and checksum arrive unchanged, in both
  directions, for every type and state of the protocol.
\<close>

theorem immediate_data_roundtrip:
  assumes "mid < 2 ^ 12" "etc < 2 ^ 4" "crc < 2 ^ 8"
  shows "drv_bit_unmask (ntohl (htonl (bit_mask mid (msg_num m) (tx_num t) etc crc))) = (mid, msg_num m, tx_num t, etc, crc)
    \<and> bit_unmask (ntohl (htonl (drv_bit_mask mid (msg_num m) (tx_num t) etc crc))) = (mid, msg_num m, tx_num t, etc, crc)"
proof -
  have "imm_fits (mid, msg_num m, tx_num t, etc, crc)"
    using assms msg_num_less [of m] tx_num_less [of t] by (simp only: imm_fits_def prod.case simp_thms)
  then show ?thesis by (simp only: drv_bit_mask_eq ntohl_htonl bit_unmask_mask simp_thms)
qed

theorem immediate_data_roundtrip_witness:
  "drv_bit_unmask (ntohl (htonl (bit_mask 511 (msg_num MSG_READ_REPLY) (tx_num TX_READ_COMMITTED) 0 0x5A))) = (511, 8, 7, 0, 0x5A)"
proof -
  have h: "(511 :: u32) < 2 ^ 12" "(0 :: u32) < 2 ^ 4" "(0x5A :: u32) < 2 ^ 8" by simp_all
  show ?thesis using immediate_data_roundtrip [OF h, of MSG_READ_REPLY TX_READ_COMMITTED] by simp
qed

text \<open>
  C31. Driver and daemon compute the same place of the metadata region for every request, and with the
  default configuration the key of a read, its address and the keys of the 512 invalidations of every
  data queue occupy disjoint 8-byte cells inside the region.
\<close>

definition meta_cell :: "nat \<Rightarrow> nat \<Rightarrow> nat" where
  "meta_cell qid cell = 4112 * qid + 8 * cell"

lemma metadata_default: "metadata_size dcc_rdma_set_default_config = 4112" "metadata_size drv_rdma_set_default_config = 4112"
  "get_metadata_size dcc_rdma_set_default_config = 16" "get_metadata_size drv_rdma_set_default_config = 16"
  "metadata_mr_size dcc_rdma_set_default_config = 32896" "num_data_qps dcc_rdma_set_default_config = 8" "num_msgs dcc_rdma_set_default_config = 512"
  by (simp_all add: dcc_rdma_set_default_config_def drv_rdma_set_default_config_def)

theorem metadata_cells_agree_and_disjoint:
  assumes "qid < num_data_qps dcc_rdma_set_default_config" "mid < num_msgs dcc_rdma_set_default_config"
  shows "KEY_META_REGION dcc_rdma_set_default_config base qid mid (msg_num MSG_READ) = base + GET_METADATA_OFFSET drv_rdma_set_default_config qid mid (msg_num MSG_READ)
    \<and> KEY_META_REGION dcc_rdma_set_default_config base qid mid (msg_num MSG_INV_PAGE) = base + GET_METADATA_OFFSET drv_rdma_set_default_config qid mid (msg_num MSG_INV_PAGE)
    \<and> KEY_META_REGION dcc_rdma_set_default_config base qid mid (msg_num MSG_READ) = base + of_nat (meta_cell qid 0)
    \<and> ADDR_META_REGION dcc_rdma_set_default_config base qid mid = base + of_nat (meta_cell qid 1)
    \<and> KEY_META_REGION dcc_rdma_set_default_config base qid mid (msg_num MSG_INV_PAGE) = base + of_nat (meta_cell qid (2 + mid))
    \<and> meta_cell qid (2 + mid) + 8 \<le> metadata_mr_size dcc_rdma_set_default_config
    \<and> (\<forall>qid' c c'. c < 514 \<and> c' < 514 \<and> (qid, c) \<noteq> (qid', c') \<longrightarrow> meta_cell qid c + 8 \<le> meta_cell qid' c' \<or> meta_cell qid' c' + 8 \<le> meta_cell qid c)"
proof -
  have disj: "meta_cell qid c + 8 \<le> meta_cell qid' c' \<or> meta_cell qid' c' + 8 \<le> meta_cell qid c"
    if c: "c < 514" "c' < 514" and ne: "(qid, c) \<noteq> (qid', c')" for qid' c c'
  proof -
    consider "qid < qid'" | "qid' < qid" | "qid = qid'" "c < c'" | "qid = qid'" "c' < c" using ne by fastforce
    then show ?thesis using c unfolding meta_cell_def by cases arith+
  qed
  show ?thesis
    using assms disj unfolding metadata_default
    by (auto simp: KEY_META_REGION_def ADDR_META_REGION_def GET_METADATA_OFFSET_def metadata_default meta_cell_def ac_simps)
qed

theorem metadata_cells_agree_and_disjoint_witness:
  "KEY_META_REGION dcc_rdma_set_default_config 4096 7 511 (msg_num MSG_INV_PAGE) = 4096 + of_nat (meta_cell 7 (2 + 511))
   \<and> meta_cell 7 (2 + 511) + 8 \<le> metadata_mr_size dcc_rdma_set_default_config"
proof -
  have h: "7 < num_data_qps dcc_rdma_set_default_config" "511 < num_msgs dcc_rdma_set_default_config" by (simp_all add: metadata_default)
  show ?thesis using metadata_cells_agree_and_disjoint [OF h, of 4096] by blast
qed

end
