(* ===== verification/Linear_Probing.thy ===== *)
theory Linear_Probing
  imports Longkey Hash_Daemon
begin

text \<open>
  The index of the daemon (\<^verbatim>\<open>daemon/hash-table/linear_probing_approx.cpp\<close>): an open-addressing table
  from page keys to page addresses.  A key lives within 16 buckets of its hash, deletion leaves a
  tombstone, an insertion into a full window evicts the bucket with the oldest time stamp, and a
  background evictor takes the oldest of a random window.

  The locks, the clock and the random generator are arguments: \<open>try_lock\<close> says which lock a
  \<^verbatim>\<open>try_lock\<close> finds free, \<open>now\<close> is the clock in seconds and \<open>rs\<close> the random numbers an eviction draws.
  Slots and capacities are natural numbers: a bucket takes 24 bytes, so that \<^verbatim>\<open>loc + i\<close> stays far below
  the range of \<^verbatim>\<open>size_t\<close>.  The value -1 of a slot variable is \<^const>\<open>None\<close>.
\<close>

section \<open>Buckets\<close>

record LPA_Bkt_t =
  bkt_key :: Key_t
  bkt_value :: Value_t
  timestamp :: u32
  busy :: bool

definition LPA_Bkt_default :: LPA_Bkt_t where
  "LPA_Bkt_default = \<lparr>bkt_key = INVALID, bkt_value = NONE, timestamp = INVALID32, busy = False\<rparr>"

abbreviation (input) MAX_PROBING_LEN :: nat where
  "MAX_PROBING_LEN \<equiv> 15"

record LinearProbingApprox =
  capacity :: nat
  buckets :: "LPA_Bkt_t list"
  lock_size :: nat
  num_locks :: nat

definition LinearProbingApprox_new :: "nat \<Rightarrow> LinearProbingApprox" where
  "LinearProbingApprox_new cap = \<lparr>capacity = cap, buckets = replicate cap LPA_Bkt_default,
     lock_size = MAX_PROBING_LEN + 1, num_locks = cap div (MAX_PROBING_LEN + 1) + 1\<rparr>"

definition SetBucket :: "u32 \<Rightarrow> nat \<Rightarrow> Key_t \<Rightarrow> Value_t \<Rightarrow> LinearProbingApprox \<Rightarrow> LinearProbingApprox" where
  "SetBucket now slot key value t = t\<lparr>buckets := (buckets t)[slot :=
     (buckets t ! slot)\<lparr>bkt_key := key, bkt_value := value, timestamp := now\<rparr>]\<rparr>"

definition IsVacantBucket :: "LinearProbingApprox \<Rightarrow> nat \<Rightarrow> bool" where
  "IsVacantBucket t slot \<longleftrightarrow> bkt_key (buckets t ! slot) = INVALID \<or> bkt_key (buckets t ! slot) = TOMBSTONE"

definition IsValidBucket :: "LinearProbingApprox \<Rightarrow> nat \<Rightarrow> bool" where
  "IsValidBucket t slot \<longleftrightarrow> bkt_key (buckets t ! slot) \<noteq> INVALID \<and> bkt_key (buckets t ! slot) \<noteq> TOMBSTONE"

definition GetHashedKey :: "LinearProbingApprox \<Rightarrow> Key_t \<Rightarrow> nat" where
  "GetHashedKey t key = unat (hash_funcs 0 (le_bytes key) f_seed) mod capacity t"

text \<open>The exceptions; nothing catches them, so that each ends the daemon.\<close>

datatype lpa_error = KeyDuplicated | WrongVictim | EvictKeyReserved | EvictValueNone

type_synonym insert_result = "lpa_error + LinearProbingApprox \<times> int \<times> Key_t \<times> Value_t"

definition CollEvict :: "u32 \<Rightarrow> nat \<Rightarrow> Key_t \<Rightarrow> Value_t \<Rightarrow> LinearProbingApprox \<Rightarrow> insert_result" where
  "CollEvict now victim_slot key value t =
     (let ev_key = bkt_key (buckets t ! victim_slot); ev_value = bkt_value (buckets t ! victim_slot);
          t' = SetBucket now victim_slot key value t
      in if ev_key = INVALID then Inl WrongVictim else Inr (t', 0, ev_key, ev_value))"


section \<open>Lookup and deletion\<close>

text \<open>
  \<^verbatim>\<open>Delete\<close> walks the window in two nested loops, the inner one over the buckets of one lock; the
  flattened loop visits the same buckets in the same order.
\<close>

function Delete_loop :: "Key_t \<Rightarrow> nat \<Rightarrow> nat \<Rightarrow> LinearProbingApprox \<Rightarrow> LinearProbingApprox \<times> Value_t" where
  "Delete_loop key loc i t =
     (if i < capacity t then
        let slot = (loc + i) mod capacity t in
        if bkt_key (buckets t ! slot) = key then
          (t\<lparr>buckets := (buckets t)[slot := (buckets t ! slot)\<lparr>bkt_key := TOMBSTONE\<rparr>]\<rparr>, bkt_value (buckets t ! slot))
        else if bkt_key (buckets t ! slot) = INVALID then (t, NONE)
        else if i \<ge> MAX_PROBING_LEN then (t, NONE)
        else Delete_loop key loc (i + 1) t
      else (t, NONE))"
  by pat_completeness auto
termination by (relation "measure (\<lambda>(key, loc, i, t). capacity t - i)") auto

definition lpa_Delete :: "Key_t \<Rightarrow> LinearProbingApprox \<Rightarrow> LinearProbingApprox \<times> Value_t" where
  "lpa_Delete key t = Delete_loop key (GetHashedKey t key) 0 t"

function Get_loop :: "u32 \<Rightarrow> Key_t \<Rightarrow> nat \<Rightarrow> nat \<Rightarrow> LinearProbingApprox \<Rightarrow> LinearProbingApprox \<times> Value_t" where
  "Get_loop now key loc i t =
     (if i < capacity t then
        let slot = (loc + i) mod capacity t in
        if bkt_key (buckets t ! slot) = key then
          (t\<lparr>buckets := (buckets t)[slot := (buckets t ! slot)\<lparr>timestamp := now\<rparr>]\<rparr>, bkt_value (buckets t ! slot))
        else if bkt_key (buckets t ! slot) = INVALID then (t, NONE)
        else if i \<ge> MAX_PROBING_LEN then (t, NONE)
        else Get_loop now key loc (i + 1) t
      else (t, NONE))"
  by pat_completeness auto
termination by (relation "measure (\<lambda>(now, key, loc, i, t). capacity t - i)") auto

definition lpa_Get :: "u32 \<Rightarrow> Key_t \<Rightarrow> LinearProbingApprox \<Rightarrow> LinearProbingApprox \<times> Value_t" where
  "lpa_Get now key t = Get_loop now key (GetHashedKey t key) 0 t"

function GetWithFlag_loop :: "u32 \<Rightarrow> Key_t \<Rightarrow> bool \<Rightarrow> nat \<Rightarrow> nat \<Rightarrow> LinearProbingApprox \<Rightarrow> LinearProbingApprox \<times> Value_t" where
  "GetWithFlag_loop now key fl loc i t =
     (if i < capacity t then
        let slot = (loc + i) mod capacity t in
        if bkt_key (buckets t ! slot) = key then
          (if fl
           then (t\<lparr>buckets := (buckets t)[slot := (buckets t ! slot)\<lparr>busy := fl, timestamp := now\<rparr>]\<rparr>, bkt_value (buckets t ! slot))
           else (t\<lparr>buckets := (buckets t)[slot := (buckets t ! slot)\<lparr>busy := fl\<rparr>]\<rparr>, NONE))
        else if bkt_key (buckets t ! slot) = INVALID then (t, NONE)
        else if i \<ge> MAX_PROBING_LEN then (t, NONE)
        else GetWithFlag_loop now key fl loc (i + 1) t
      else (t, NONE))"
  by pat_completeness auto
termination by (relation "measure (\<lambda>(now, key, fl, loc, i, t). capacity t - i)") auto

definition lpa_GetWithFlag :: "u32 \<Rightarrow> Key_t \<Rightarrow> bool \<Rightarrow> LinearProbingApprox \<Rightarrow> LinearProbingApprox \<times> Value_t" where
  "lpa_GetWithFlag now key fl t = GetWithFlag_loop now key fl (GetHashedKey t key) 0 t"


section \<open>Insertion\<close>

text \<open>The local variables of the search for a victim, kept for the current and the previous lock range.\<close>

record victim_scan =
  min_timestamp :: u32
  victim_slot :: "nat option"
  prev_min_timestamp :: u32
  prev_victim_slot :: "nat option"
  prev_lock_idx :: "nat option"

definition scan_init :: victim_scan where
  "scan_init = \<lparr>min_timestamp = - 1, victim_slot = None, prev_min_timestamp = - 1,
     prev_victim_slot = None, prev_lock_idx = None\<rparr>"

definition note_victim :: "LinearProbingApprox \<Rightarrow> nat \<Rightarrow> victim_scan \<Rightarrow> victim_scan" where
  "note_victim t slot sc =
     (if timestamp (buckets t ! slot) \<le> min_timestamp sc
      then sc\<lparr>min_timestamp := timestamp (buckets t ! slot), victim_slot := Some slot\<rparr> else sc)"

definition next_range :: "nat \<Rightarrow> victim_scan \<Rightarrow> victim_scan" where
  "next_range lock_idx sc = \<lparr>min_timestamp = - 1, victim_slot = None, prev_min_timestamp = min_timestamp sc,
     prev_victim_slot = victim_slot sc, prev_lock_idx = Some lock_idx\<rparr>"

definition prev_is_older :: "(nat \<Rightarrow> bool) \<Rightarrow> victim_scan \<Rightarrow> bool" where
  "prev_is_older try_lock sc \<longleftrightarrow> prev_victim_slot sc \<noteq> None \<and> prev_min_timestamp sc < min_timestamp sc
     \<and> (case prev_lock_idx sc of None \<Rightarrow> False | Some l \<Rightarrow> try_lock l)"

text \<open>The end of a full window: evict from the previous range, from the current one, or give up.\<close>

definition Insert_collide ::
  "u32 \<Rightarrow> (nat \<Rightarrow> bool) \<Rightarrow> Key_t \<Rightarrow> Value_t \<Rightarrow> Key_t \<Rightarrow> victim_scan \<Rightarrow> LinearProbingApprox \<Rightarrow> insert_result" where
  "Insert_collide now try_lock key value ev_key sc t =
     (if prev_is_older try_lock sc then
        (let p = the (prev_victim_slot sc) in
         if IsVacantBucket t p then Inr (SetBucket now p key value t, 0, ev_key, NONE)
         else if busy (buckets t ! p) then Inr (t, - 1, key, value)
         else CollEvict now p key value t)
      else (case victim_slot sc of
          None \<Rightarrow> Inr (t, - 1, key, value)
        | Some v \<Rightarrow> if busy (buckets t ! v) then Inr (t, - 1, key, value) else CollEvict now v key value t))"

function Insert_loop ::
  "u32 \<Rightarrow> (nat \<Rightarrow> bool) \<Rightarrow> Key_t \<Rightarrow> Value_t \<Rightarrow> Key_t \<Rightarrow> nat \<Rightarrow> nat \<Rightarrow> victim_scan \<Rightarrow> LinearProbingApprox \<Rightarrow> insert_result" where
  "Insert_loop now try_lock key value ev_key loc i sc t =
     (if i < capacity t then
        let slot = (loc + i) mod capacity t in
        if IsVacantBucket t slot then
          (if bkt_key (buckets t ! slot) = key then Inl KeyDuplicated
           else Inr (SetBucket now slot key value t, 0, ev_key, NONE))
        else
          let sc1 = note_victim t slot sc in
          if i \<ge> MAX_PROBING_LEN then Insert_collide now try_lock key value ev_key sc1 t
          else
            let slot' = (loc + (i + 1)) mod capacity t in
            Insert_loop now try_lock key value ev_key loc (i + 1)
              (if i + 1 < capacity t \<and> slot' mod lock_size t \<noteq> 0 then sc1 else next_range (slot div lock_size t) sc1) t
      else Inr (t, 0, ev_key, NONE))"
  by pat_completeness auto
termination by (relation "measure (\<lambda>(now, tl, key, value, ek, loc, i, sc, t). capacity t - i)") auto

definition lpa_Insert ::
  "u32 \<Rightarrow> (nat \<Rightarrow> bool) \<Rightarrow> Key_t \<Rightarrow> Value_t \<Rightarrow> Key_t \<Rightarrow> LinearProbingApprox \<Rightarrow> insert_result" where
  "lpa_Insert now try_lock key value ev_key t =
     (case lpa_Delete key t of
        (t', ev_value) \<Rightarrow>
          if ev_value \<noteq> NONE then Inr (t', 0, ev_key, ev_value)
          else Insert_loop now try_lock key value ev_key (GetHashedKey t' key) 0 scan_init t')"


section \<open>Eviction\<close>

text \<open>
  One attempt of \<^verbatim>\<open>ApproxLRUEvict\<close> either evicts a bucket, jumps to RETRY (with the victim it had,
  which the code does not reset) or runs past the end of a small table.
\<close>

datatype evict_outcome =
    EvictRetry victim_scan
  | Evicted LinearProbingApprox Key_t Value_t
  | EvictEnd

definition evict_slot :: "LinearProbingApprox \<Rightarrow> nat \<Rightarrow> evict_outcome" where
  "evict_slot t s = Evicted (t\<lparr>buckets := (buckets t)[s := (buckets t ! s)\<lparr>bkt_key := TOMBSTONE\<rparr>]\<rparr>)
     (bkt_key (buckets t ! s)) (bkt_value (buckets t ! s))"

definition Evict_direct :: "(nat \<Rightarrow> bool) \<Rightarrow> victim_scan \<Rightarrow> LinearProbingApprox \<Rightarrow> evict_outcome" where
  "Evict_direct try_lock sc t = (case victim_slot sc of
       None \<Rightarrow> EvictRetry sc
     | Some v \<Rightarrow>
         if prev_is_older try_lock sc \<and> \<not> IsVacantBucket t (the (prev_victim_slot sc))
         then evict_slot t (the (prev_victim_slot sc)) else evict_slot t v)"

text \<open>\<open>locked\<close> says that the lock of the current range is held; it is taken on entry to each range.\<close>

function Evict_scan ::
  "(nat \<Rightarrow> bool) \<Rightarrow> int \<Rightarrow> nat \<Rightarrow> nat \<Rightarrow> bool \<Rightarrow> victim_scan \<Rightarrow> LinearProbingApprox \<Rightarrow> evict_outcome" where
  "Evict_scan try_lock retry_cnt loc i locked sc t =
     (if i < capacity t then
        let slot = (loc + i) mod capacity t in
        if \<not> locked \<and> \<not> try_lock (slot div lock_size t) then EvictRetry sc
        else if IsValidBucket t slot \<and> busy (buckets t ! slot) then EvictRetry sc
        else if IsValidBucket t slot \<and> retry_cnt > 2 then
          Evict_direct try_lock (sc\<lparr>prev_victim_slot := None, victim_slot := Some slot\<rparr>) t
        else
          let sc1 = (if IsValidBucket t slot then note_victim t slot sc else sc) in
          if i \<ge> MAX_PROBING_LEN then Evict_direct try_lock sc1 t
          else
            let slot' = (loc + (i + 1)) mod capacity t in
            if i + 1 < capacity t \<and> slot' mod lock_size t \<noteq> 0
            then Evict_scan try_lock retry_cnt loc (i + 1) True sc1 t
            else Evict_scan try_lock retry_cnt loc (i + 1) False (next_range (slot div lock_size t) sc1) t
      else EvictEnd)"
  by pat_completeness auto
termination by (relation "measure (\<lambda>(tl, r, loc, i, l, sc, t). capacity t - i)") auto

text \<open>
  The retry loop draws one random number per attempt; it has no bound in the code.  \<^const>\<open>None\<close> means
  that it is still retrying when the given numbers are used up.
\<close>

fun Evict_retry ::
  "(nat \<Rightarrow> nat \<Rightarrow> bool) \<Rightarrow> nat list \<Rightarrow> nat \<Rightarrow> victim_scan \<Rightarrow> LinearProbingApprox
     \<Rightarrow> (lpa_error + LinearProbingApprox \<times> Key_t \<times> Value_t) option" where
  "Evict_retry try_lock [] n sc t = None"
| "Evict_retry try_lock (r # rs) n sc t =
     (case Evict_scan (try_lock n) (int n) (r mod capacity t) 0 False
             (sc\<lparr>prev_min_timestamp := - 1, prev_lock_idx := None, prev_victim_slot := None\<rparr>) t of
        EvictRetry sc' \<Rightarrow> Evict_retry try_lock rs (n + 1) sc' t
      | EvictEnd \<Rightarrow> Some (Inl EvictKeyReserved)
      | Evicted t' key value \<Rightarrow>
          Some (if key = INVALID \<or> key = TOMBSTONE then Inl EvictKeyReserved
                else if value = NONE then Inl EvictValueNone
                else Inr (t', key, value)))"

definition ApproxLRUEvict ::
  "(nat \<Rightarrow> nat \<Rightarrow> bool) \<Rightarrow> nat list \<Rightarrow> LinearProbingApprox
     \<Rightarrow> (lpa_error + LinearProbingApprox \<times> Key_t \<times> Value_t) option" where
  "ApproxLRUEvict try_lock rs t = Evict_retry try_lock rs 0 scan_init t"

definition lpa_Evict ::
  "(nat \<Rightarrow> nat \<Rightarrow> bool) \<Rightarrow> nat list \<Rightarrow> LinearProbingApprox
     \<Rightarrow> (lpa_error + LinearProbingApprox \<times> Key_t \<times> Value_t) option" where
  "lpa_Evict try_lock rs t = ApproxLRUEvict try_lock rs t"


declare Delete_loop.simps [simp del] Get_loop.simps [simp del] GetWithFlag_loop.simps [simp del]
  Insert_loop.simps [simp del] Evict_scan.simps [simp del]


section \<open>The invariant\<close>

abbreviation lpa_key :: "LinearProbingApprox \<Rightarrow> nat \<Rightarrow> Key_t" where
  "lpa_key t s \<equiv> bkt_key (buckets t ! s)"

definition slot_of :: "LinearProbingApprox \<Rightarrow> Key_t \<Rightarrow> nat \<Rightarrow> nat" where
  "slot_of t k i = (GetHashedKey t k + i) mod capacity t"

definition unreserved :: "Key_t \<Rightarrow> bool" where
  "unreserved k \<longleftrightarrow> k \<noteq> INVALID \<and> k \<noteq> TOMBSTONE"

text \<open>A probe for \<open>k\<close> that reaches slot \<open>s\<close> before it meets a bucket that was never used.\<close>

definition reaches :: "LinearProbingApprox \<Rightarrow> Key_t \<Rightarrow> nat \<Rightarrow> bool" where
  "reaches t k s \<longleftrightarrow> (\<exists>i < min 16 (capacity t). s = slot_of t k i \<and> (\<forall>j < i. lpa_key t (slot_of t k j) \<noteq> INVALID))"

definition lpa_inv :: "LinearProbingApprox \<Rightarrow> bool" where
  "lpa_inv t \<longleftrightarrow> length (buckets t) = capacity t \<and> 0 < capacity t \<and> lock_size t = 16
     \<and> (\<forall>s < capacity t. IsValidBucket t s \<longrightarrow> bkt_value (buckets t ! s) \<noteq> NONE \<and> reaches t (lpa_key t s) s)
     \<and> (\<forall>s < capacity t. \<forall>s' < capacity t. IsValidBucket t s \<longrightarrow> lpa_key t s = lpa_key t s' \<longrightarrow> s = s')"

definition lpa_find :: "LinearProbingApprox \<Rightarrow> Key_t \<Rightarrow> nat option" where
  "lpa_find t k = (case List.find (\<lambda>i. lpa_key t (slot_of t k i) = k \<or> lpa_key t (slot_of t k i) = INVALID) [0..<min 16 (capacity t)] of
       None \<Rightarrow> None
     | Some i \<Rightarrow> if lpa_key t (slot_of t k i) = k then Some (slot_of t k i) else None)"

text \<open>The abstract state: the finite map from the keys in valid buckets to their values.\<close>

definition lpa_map :: "LinearProbingApprox \<Rightarrow> Key_t \<rightharpoonup> Value_t" where
  "lpa_map t k = (if unreserved k then map_option (\<lambda>s. bkt_value (buckets t ! s)) (lpa_find t k) else None)"

lemma IsValidBucket_iff [simp]: "IsValidBucket t s \<longleftrightarrow> unreserved (lpa_key t s)"
  by (simp add: IsValidBucket_def unreserved_def)

lemma IsVacantBucket_iff [simp]: "IsVacantBucket t s \<longleftrightarrow> \<not> unreserved (lpa_key t s)"
  by (auto simp: IsVacantBucket_def unreserved_def)

lemma unreserved_simps [simp]: "\<not> unreserved INVALID" "\<not> unreserved TOMBSTONE" "TOMBSTONE \<noteq> INVALID"
  by (auto simp: unreserved_def TOMBSTONE_def INVALID_def)

lemma slot_of_less [simp]: "0 < capacity t \<Longrightarrow> slot_of t k i < capacity t"
  by (simp add: slot_of_def)

lemma lpa_inv_facts:
  assumes "lpa_inv t"
  shows "0 < capacity t" "length (buckets t) = capacity t" "lock_size t = 16"
  using assms by (auto simp: lpa_inv_def)

lemma lpa_inv_uniq:
  "lpa_inv t \<Longrightarrow> s < capacity t \<Longrightarrow> s' < capacity t \<Longrightarrow> unreserved (lpa_key t s) \<Longrightarrow> lpa_key t s' = lpa_key t s \<Longrightarrow> s' = s"
  unfolding lpa_inv_def IsValidBucket_iff by metis

lemma lpa_inv_valid:
  "lpa_inv t \<Longrightarrow> s < capacity t \<Longrightarrow> unreserved (lpa_key t s) \<Longrightarrow> bkt_value (buckets t ! s) \<noteq> NONE \<and> reaches t (lpa_key t s) s"
  unfolding lpa_inv_def IsValidBucket_iff by blast

lemma upt_split: "i \<le> 15 \<Longrightarrow> i < c \<Longrightarrow> [i..<min 16 c] = i # [Suc i..<min 16 c]"
  by (simp add: upt_conv_Cons)

lemma lpa_find_iff:
  assumes inv: "lpa_inv t" and k: "unreserved k"
  shows "lpa_find t k = Some s \<longleftrightarrow> s < capacity t \<and> lpa_key t s = k"
proof
  note c = lpa_inv_facts(1) [OF inv]
  show "lpa_find t k = Some s \<Longrightarrow> s < capacity t \<and> lpa_key t s = k"
    using c by (auto simp: lpa_find_def split: option.splits if_splits) (metis slot_of_less)
  assume s: "s < capacity t \<and> lpa_key t s = k"
  then obtain i where i: "i < min 16 (capacity t)" "s = slot_of t k i" "\<forall>j<i. lpa_key t (slot_of t k j) \<noteq> INVALID"
    using lpa_inv_valid [OF inv, of s] k by (auto simp: reaches_def)
  let ?P = "\<lambda>i. lpa_key t (slot_of t k i) = k \<or> lpa_key t (slot_of t k i) = INVALID"
  obtain j where j: "List.find ?P [0..<min 16 (capacity t)] = Some j"
    using i s by (cases "List.find ?P [0..<min 16 (capacity t)]") (auto simp: find_None_iff simp del: upt_Suc)
  then have j': "?P j" "\<forall>j' < j. \<not> ?P j'" "j < min 16 (capacity t)"
    by (auto simp: find_Some_iff)
  then have "j \<le> i" using i s by (meson not_le_imp_less)
  moreover have "lpa_key t (slot_of t k i) \<noteq> INVALID" using s i k by auto
  ultimately have "lpa_key t (slot_of t k j) = k" using j'(1) i(3) by (metis le_neq_implies_less)
  moreover have "slot_of t k j = s"
    using lpa_inv_uniq [OF inv, of s] s k c \<open>lpa_key t (slot_of t k j) = k\<close> by simp
  ultimately show "lpa_find t k = Some s" using j by (simp add: lpa_find_def)
qed

lemma lpa_map_iff:
  assumes "lpa_inv t"
  shows "lpa_map t k = Some v \<longleftrightarrow> unreserved k \<and> (\<exists>s < capacity t. lpa_key t s = k \<and> bkt_value (buckets t ! s) = v)"
  using lpa_find_iff [OF assms] by (auto simp: lpa_map_def)

lemma lpa_map_None:
  assumes "lpa_inv t" "unreserved k"
  shows "lpa_map t k = None \<longleftrightarrow> (\<forall>s < capacity t. lpa_key t s \<noteq> k)"
  using lpa_map_iff [OF assms(1), of k] assms(2) by (metis not_None_eq)

text \<open>Every operation changes at most one bucket, by a step of one shape.\<close>

definition put_bucket :: "LinearProbingApprox \<Rightarrow> nat \<Rightarrow> LPA_Bkt_t \<Rightarrow> LinearProbingApprox" where
  "put_bucket t s b = t\<lparr>buckets := (buckets t)[s := b]\<rparr>"

lemma put_bucket_simps [simp]:
  "capacity (put_bucket t s b) = capacity t" "lock_size (put_bucket t s b) = lock_size t"
  "GetHashedKey (put_bucket t s b) k = GetHashedKey t k" "slot_of (put_bucket t s b) k i = slot_of t k i"
  "length (buckets (put_bucket t s b)) = length (buckets t)"
  by (simp_all add: put_bucket_def GetHashedKey_def slot_of_def)

lemma put_bucket_nth:
  "s < length (buckets t) \<Longrightarrow> buckets (put_bucket t s b) ! s' = (if s' = s then b else buckets t ! s')"
  by (simp add: put_bucket_def nth_list_update)

definition bucket_fits :: "LinearProbingApprox \<Rightarrow> nat \<Rightarrow> LPA_Bkt_t \<Rightarrow> bool" where
  "bucket_fits t s b \<longleftrightarrow> bkt_key b = TOMBSTONE \<or>
     unreserved (bkt_key b) \<and> bkt_value b \<noteq> NONE \<and> reaches t (bkt_key b) s
     \<and> (\<forall>s' < capacity t. s' \<noteq> s \<longrightarrow> lpa_key t s' \<noteq> bkt_key b)"

lemma put_bucket_inv:
  assumes inv: "lpa_inv t" and s: "s < capacity t" and b: "bucket_fits t s b"
  shows "lpa_inv (put_bucket t s b)"
proof -
  let ?t = "put_bucket t s b"
  note nth [simp] = put_bucket_nth [of s t b, unfolded lpa_inv_facts(2) [OF inv], OF s]
  have bk: "bkt_key b \<noteq> INVALID" using b by (auto simp: bucket_fits_def)
  have mono: "reaches t k s' \<Longrightarrow> reaches ?t k s'" for k s'
    using bk unfolding reaches_def by auto
  have 1: "bkt_value (buckets ?t ! s') \<noteq> NONE \<and> reaches ?t (lpa_key ?t s') s'"
    if "s' < capacity t" "unreserved (lpa_key ?t s')" for s'
    using that b mono lpa_inv_valid [OF inv, of s'] by (cases "s' = s") (auto simp: bucket_fits_def)
  have 2: "s1 = s2" if "s1 < capacity t" "s2 < capacity t" "unreserved (lpa_key ?t s1)" "lpa_key ?t s1 = lpa_key ?t s2" for s1 s2
  proof (cases "s1 = s \<or> s2 = s")
    case True
    then show ?thesis using that b by (auto simp: bucket_fits_def split: if_splits)
  next
    case False
    then have "unreserved (lpa_key t s1)" "lpa_key t s1 = lpa_key t s2" using that by auto
    then show ?thesis using lpa_inv_uniq [OF inv that(2,1)] by simp
  qed
  show ?thesis unfolding lpa_inv_def IsValidBucket_iff put_bucket_simps
    using lpa_inv_facts [OF inv] 1 2 by blast
qed

lemma put_bucket_map:
  assumes inv: "lpa_inv t" and s: "s < capacity t" and b: "bucket_fits t s b"
  shows "lpa_map (put_bucket t s b) =
    (let m = (lpa_map t)(lpa_key t s := None) in if unreserved (bkt_key b) then m(bkt_key b \<mapsto> bkt_value b) else m)"
proof
  fix k
  let ?t = "put_bucket t s b"
  note nth [simp] = put_bucket_nth [of s t b, unfolded lpa_inv_facts(2) [OF inv], OF s]
  note iff = lpa_map_iff [OF put_bucket_inv [OF inv s b], of k]
  have uniq: "s' = s" if "s' < capacity t" "lpa_key t s' = lpa_key t s" "unreserved (lpa_key t s)" for s'
    using lpa_inv_uniq [OF inv s that(1)] that by simp
  show "lpa_map ?t k = (let m = (lpa_map t)(lpa_key t s := None) in if unreserved (bkt_key b) then m(bkt_key b \<mapsto> bkt_value b) else m) k"
  proof (cases "unreserved k")
    case False
    then show ?thesis by (auto simp: lpa_map_def Let_def)
  next
    case k: True
    consider "k = bkt_key b" | "k \<noteq> bkt_key b" "k = lpa_key t s" | "k \<noteq> bkt_key b" "k \<noteq> lpa_key t s" by blast
    then show ?thesis
    proof cases
      case 1
      then have "lpa_map ?t k = Some (bkt_value b)" using iff s k by auto
      then show ?thesis using 1 k by (simp add: Let_def)
    next
      case 2
      then have "lpa_map ?t k = None"
        using lpa_map_None [OF put_bucket_inv [OF inv s b] k] uniq k by auto
      then show ?thesis using 2 by (simp add: Let_def)
    next
      case 3
      then have "lpa_map ?t k = Some v \<longleftrightarrow> lpa_map t k = Some v" for v
        using lpa_map_iff [OF put_bucket_inv [OF inv s b], of k v] lpa_map_iff [OF inv, of k v] by auto
      then have "lpa_map ?t k = lpa_map t k" by (metis option.exhaust)
      then show ?thesis using 3 by (simp add: Let_def)
    qed
  qed
qed

lemma put_bucket_same_key:
  assumes "lpa_inv t" "s < capacity t" "bkt_key b = lpa_key t s" "bkt_value b = bkt_value (buckets t ! s)" "unreserved (lpa_key t s)"
  shows "lpa_inv (put_bucket t s b) \<and> lpa_map (put_bucket t s b) = lpa_map t"
proof -
  have f: "bucket_fits t s b" using assms lpa_inv_valid [OF assms(1,2)] lpa_inv_uniq [OF assms(1,2)] by (auto simp: bucket_fits_def)
  have "lpa_map t (lpa_key t s) = Some (bkt_value (buckets t ! s))" using assms lpa_map_iff [OF assms(1)] by auto
  then show ?thesis using put_bucket_inv [OF assms(1,2) f] put_bucket_map [OF assms(1,2) f] assms
    by (auto simp: Let_def fun_eq_iff)
qed

lemma put_bucket_tombstone:
  assumes "lpa_inv t" "s < capacity t" "bkt_key b = TOMBSTONE"
  shows "lpa_inv (put_bucket t s b) \<and> lpa_map (put_bucket t s b) = (lpa_map t)(lpa_key t s := None)"
  using put_bucket_inv [OF assms(1,2)] put_bucket_map [OF assms(1,2)] assms(3) by (simp add: bucket_fits_def)

lemma LinearProbingApprox_new_inv:
  assumes "0 < cap"
  shows "lpa_inv (LinearProbingApprox_new cap) \<and> lpa_map (LinearProbingApprox_new cap) = Map.empty"
proof -
  have i: "lpa_inv (LinearProbingApprox_new cap)"
    using assms by (simp add: lpa_inv_def LinearProbingApprox_new_def LPA_Bkt_default_def)
  have "lpa_map (LinearProbingApprox_new cap) k = None" for k
    using lpa_map_None [OF i, of k]
    by (cases "unreserved k") (auto simp: LinearProbingApprox_new_def LPA_Bkt_default_def lpa_map_def)
  then show ?thesis using i by auto
qed



section \<open>Lookups and deletion against the map\<close>

text \<open>The three probing loops make the same search; each is its case distinction on the slot found.\<close>

abbreviation stops :: "LinearProbingApprox \<Rightarrow> Key_t \<Rightarrow> nat \<Rightarrow> nat \<Rightarrow> bool" where
  "stops t k loc i \<equiv> lpa_key t ((loc + i) mod capacity t) = k \<or> lpa_key t ((loc + i) mod capacity t) = INVALID"

lemma Delete_loop_find:
  "i \<le> 15 \<Longrightarrow> Delete_loop k loc i t = (case List.find (stops t k loc) [i..<min 16 (capacity t)] of
      None \<Rightarrow> (t, NONE)
    | Some j \<Rightarrow> let s = (loc + j) mod capacity t in
        if lpa_key t s = k then (put_bucket t s ((buckets t ! s)\<lparr>bkt_key := TOMBSTONE\<rparr>), bkt_value (buckets t ! s)) else (t, NONE))"
proof (induction k loc i t rule: Delete_loop.induct)
  case (1 k loc i t)
  show ?case
  proof (cases "i < capacity t")
    case True
    then show ?thesis using "1.IH" [OF True refl] "1.prems"
      by (subst Delete_loop.simps) (auto simp: upt_split Let_def put_bucket_def)
  qed (subst Delete_loop.simps, simp)
qed

lemma Get_loop_find:
  "i \<le> 15 \<Longrightarrow> Get_loop now k loc i t = (case List.find (stops t k loc) [i..<min 16 (capacity t)] of
      None \<Rightarrow> (t, NONE)
    | Some j \<Rightarrow> let s = (loc + j) mod capacity t in
        if lpa_key t s = k then (put_bucket t s ((buckets t ! s)\<lparr>timestamp := now\<rparr>), bkt_value (buckets t ! s)) else (t, NONE))"
proof (induction now k loc i t rule: Get_loop.induct)
  case (1 now k loc i t)
  show ?case
  proof (cases "i < capacity t")
    case True
    then show ?thesis using "1.IH" [OF True refl] "1.prems"
      by (subst Get_loop.simps) (auto simp: upt_split Let_def put_bucket_def)
  qed (subst Get_loop.simps, simp)
qed

lemma GetWithFlag_loop_find:
  "i \<le> 15 \<Longrightarrow> GetWithFlag_loop now k fl loc i t = (case List.find (stops t k loc) [i..<min 16 (capacity t)] of
      None \<Rightarrow> (t, NONE)
    | Some j \<Rightarrow> let s = (loc + j) mod capacity t in
        if lpa_key t s = k then
          (put_bucket t s (if fl then (buckets t ! s)\<lparr>busy := fl, timestamp := now\<rparr> else (buckets t ! s)\<lparr>busy := fl\<rparr>),
           if fl then bkt_value (buckets t ! s) else NONE)
        else (t, NONE))"
proof (induction now k fl loc i t rule: GetWithFlag_loop.induct)
  case (1 now k fl loc i t)
  show ?case
  proof (cases "i < capacity t")
    case True
    then show ?thesis using "1.IH" [OF True refl] "1.prems"
      by (subst GetWithFlag_loop.simps) (auto simp: upt_split Let_def put_bucket_def)
  qed (subst GetWithFlag_loop.simps, simp)
qed

lemma lpa_Delete_find:
  "lpa_Delete k t = (case lpa_find t k of
      None \<Rightarrow> (t, NONE)
    | Some s \<Rightarrow> (put_bucket t s ((buckets t ! s)\<lparr>bkt_key := TOMBSTONE\<rparr>), bkt_value (buckets t ! s)))"
  by (simp add: lpa_Delete_def Delete_loop_find lpa_find_def slot_of_def Let_def split: option.split)

lemma lpa_Get_find:
  "lpa_Get now k t = (case lpa_find t k of
      None \<Rightarrow> (t, NONE)
    | Some s \<Rightarrow> (put_bucket t s ((buckets t ! s)\<lparr>timestamp := now\<rparr>), bkt_value (buckets t ! s)))"
  by (simp add: lpa_Get_def Get_loop_find lpa_find_def slot_of_def Let_def split: option.split)

lemma lpa_GetWithFlag_find:
  "lpa_GetWithFlag now k fl t = (case lpa_find t k of
      None \<Rightarrow> (t, NONE)
    | Some s \<Rightarrow>
        (put_bucket t s (if fl then (buckets t ! s)\<lparr>busy := fl, timestamp := now\<rparr> else (buckets t ! s)\<lparr>busy := fl\<rparr>),
         if fl then bkt_value (buckets t ! s) else NONE))"
  by (simp add: lpa_GetWithFlag_def GetWithFlag_loop_find lpa_find_def slot_of_def Let_def split: option.split)

definition value_or_none :: "Value_t option \<Rightarrow> Value_t" where
  "value_or_none x = (case x of None \<Rightarrow> NONE | Some v \<Rightarrow> v)"

lemma lpa_map_find: "unreserved k \<Longrightarrow> lpa_map t k = map_option (\<lambda>s. bkt_value (buckets t ! s)) (lpa_find t k)"
  by (simp add: lpa_map_def)

lemma lpa_Delete_spec:
  assumes "lpa_inv t" "unreserved k" "lpa_Delete k t = (t', v)"
  shows "lpa_inv t' \<and> lpa_map t' = (lpa_map t)(k := None) \<and> v = value_or_none (lpa_map t k) \<and> capacity t' = capacity t"
proof (cases "lpa_find t k")
  case None
  then show ?thesis using assms by (auto simp: lpa_Delete_find lpa_map_find value_or_none_def)
next
  case (Some s)
  then have "s < capacity t" "lpa_key t s = k" using lpa_find_iff [OF assms(1,2)] by auto
  then show ?thesis
    using Some assms put_bucket_tombstone [OF assms(1), of s "(buckets t ! s)\<lparr>bkt_key := TOMBSTONE\<rparr>"]
    by (auto simp: lpa_Delete_find lpa_map_find value_or_none_def)
qed

lemma lpa_Get_spec:
  assumes "lpa_inv t" "unreserved k" "lpa_Get now k t = (t', v)"
  shows "lpa_inv t' \<and> lpa_map t' = lpa_map t \<and> v = value_or_none (lpa_map t k) \<and> capacity t' = capacity t"
proof (cases "lpa_find t k")
  case None
  then show ?thesis using assms by (auto simp: lpa_Get_find lpa_map_find value_or_none_def)
next
  case (Some s)
  then have "s < capacity t" "lpa_key t s = k" using lpa_find_iff [OF assms(1,2)] by auto
  then show ?thesis
    using Some assms put_bucket_same_key [OF assms(1), of s "(buckets t ! s)\<lparr>timestamp := now\<rparr>"]
    by (auto simp: lpa_Get_find lpa_map_find value_or_none_def)
qed

lemma lpa_GetWithFlag_spec:
  assumes "lpa_inv t" "unreserved k" "lpa_GetWithFlag now k fl t = (t', v)"
  shows "lpa_inv t' \<and> lpa_map t' = lpa_map t \<and> v = (if fl then value_or_none (lpa_map t k) else NONE) \<and> capacity t' = capacity t"
proof (cases "lpa_find t k")
  case None
  then show ?thesis using assms by (auto simp: lpa_GetWithFlag_find lpa_map_find value_or_none_def)
next
  case (Some s)
  let ?b = "if fl then (buckets t ! s)\<lparr>busy := fl, timestamp := now\<rparr> else (buckets t ! s)\<lparr>busy := fl\<rparr>"
  have "s < capacity t" "lpa_key t s = k" using Some lpa_find_iff [OF assms(1,2)] by auto
  then have "lpa_inv (put_bucket t s ?b) \<and> lpa_map (put_bucket t s ?b) = lpa_map t"
    using assms(1,2) by (intro put_bucket_same_key) auto
  then show ?thesis
    using Some assms by (auto simp: lpa_GetWithFlag_find lpa_map_find value_or_none_def)
qed



section \<open>Insertion against the map\<close>

text \<open>
  What an insertion may do to the map: replace nothing and report the duplicate, add the key, add it
  in place of another one, or give the pair back.
\<close>

definition insert_spec ::
  "(Key_t \<rightharpoonup> Value_t) \<Rightarrow> Key_t \<Rightarrow> Value_t \<Rightarrow> Key_t \<Rightarrow> (Key_t \<rightharpoonup> Value_t) \<Rightarrow> int \<Rightarrow> Key_t \<Rightarrow> Value_t \<Rightarrow> bool" where
  "insert_spec m k v ek0 m' ret ek ev = (case m k of
       Some w \<Rightarrow> m' = m(k := None) \<and> ret = 0 \<and> ek = ek0 \<and> ev = w
     | None \<Rightarrow> (m' = m(k \<mapsto> v) \<and> ret = 0 \<and> ek = ek0 \<and> ev = NONE)
         \<or> (ek \<noteq> k \<and> m ek = Some ev \<and> m' = m(ek := None, k \<mapsto> v) \<and> ret = 0)
         \<or> (m' = m \<and> ret = - 1 \<and> ek = k \<and> ev = v))"

definition scan_step :: "LinearProbingApprox \<Rightarrow> nat \<Rightarrow> nat \<Rightarrow> victim_scan \<Rightarrow> victim_scan" where
  "scan_step t loc i sc =
     (let slot = (loc + i) mod capacity t; sc1 = note_victim t slot sc
      in if i + 1 < capacity t \<and> (loc + (i + 1)) mod capacity t mod lock_size t \<noteq> 0 then sc1 else next_range (slot div lock_size t) sc1)"

text \<open>The loop in closed form: the first vacant bucket of the window takes the key, or the window is full.\<close>

lemma Insert_loop_closed:
  assumes "i \<le> 15" "16 \<le> capacity t" "unreserved k"
  shows "Insert_loop now lck k v ek loc i sc t =
    (case List.find (\<lambda>j. \<not> unreserved (lpa_key t ((loc + j) mod capacity t))) [i..<16] of
       Some j \<Rightarrow> Inr (SetBucket now ((loc + j) mod capacity t) k v t, 0, ek, NONE)
     | None \<Rightarrow> Insert_collide now lck k v ek (note_victim t ((loc + 15) mod capacity t) (fold (scan_step t loc) [i..<15] sc)) t)"
  using assms(1)
proof (induction "15 - i" arbitrary: i sc)
  case 0
  then have i: "i = 15" by simp
  have "[15..<16::nat] = [15]" by (simp add: upt_rec)
  then show ?case using assms(2,3) unfolding i
    by (subst Insert_loop.simps) (auto simp: Let_def)
next
  case (Suc n)
  then have i: "i < 15" "i < capacity t" using assms(2) by auto
  have u: "[i..<16] = i # [i + 1..<16]" "[i..<15] = i # [i + 1..<15]" using i by (simp_all add: upt_conv_Cons)
  have n: "n = 15 - (i + 1)" "i + 1 \<le> 15" using Suc.hyps(2) i by auto
  note IH = Suc.hyps(1) [OF n, unfolded Suc_eq_plus1 [symmetric]]
  show ?case
  proof (cases "unreserved (lpa_key t ((loc + i) mod capacity t))")
    case True
    have "Insert_loop now lck k v ek loc i sc t = Insert_loop now lck k v ek loc (i + 1) (scan_step t loc i sc) t"
      using True i by (subst Insert_loop.simps) (simp add: Let_def scan_step_def)
    then show ?thesis using True by (simp add: IH u split: option.split)
  next
    case False
    then show ?thesis using i assms(3) unfolding u by (subst Insert_loop.simps) (auto simp: Let_def)
  qed
qed

lemma SetBucket_put: "SetBucket now s k v t = put_bucket t s ((buckets t ! s)\<lparr>bkt_key := k, bkt_value := v, timestamp := now\<rparr>)"
  by (simp add: SetBucket_def put_bucket_def)

lemma SetBucket_spec:
  assumes inv: "lpa_inv t" and k: "unreserved k" "v \<noteq> NONE" "lpa_map t k = None"
    and s: "i < min 16 (capacity t)" "s = slot_of t k i" "\<forall>j<i. lpa_key t (slot_of t k j) \<noteq> INVALID"
  shows "lpa_inv (SetBucket now s k v t) \<and> lpa_map (SetBucket now s k v t) = (lpa_map t)(lpa_key t s := None, k \<mapsto> v)
     \<and> capacity (SetBucket now s k v t) = capacity t"
proof -
  let ?b = "(buckets t ! s)\<lparr>bkt_key := k, bkt_value := v, timestamp := now\<rparr>"
  have sl: "s < capacity t" using s lpa_inv_facts(1) [OF inv] by simp
  have "reaches t k s" using s unfolding reaches_def by blast
  moreover have "\<forall>s' < capacity t. lpa_key t s' \<noteq> k" using lpa_map_None [OF inv k(1)] k(3) by simp
  ultimately have f: "bucket_fits t s ?b" using k by (simp add: bucket_fits_def)
  show ?thesis unfolding SetBucket_put
    using put_bucket_inv [OF inv sl f] put_bucket_map [OF inv sl f] k(1) by (simp add: Let_def)
qed

text \<open>The candidates of the scan are buckets of the window that the scan has passed.\<close>

definition in_window :: "LinearProbingApprox \<Rightarrow> nat \<Rightarrow> nat \<Rightarrow> nat option \<Rightarrow> bool" where
  "in_window t loc n v = (\<forall>s. v = Some s \<longrightarrow> (\<exists>j < n. s = (loc + j) mod capacity t))"

lemma fold_upt_induct:
  assumes "P a x" "\<And>i y. a \<le> i \<Longrightarrow> i < b \<Longrightarrow> P i y \<Longrightarrow> P (Suc i) (f i y)" "a \<le> b"
  shows "P b (fold f [a..<b] x)"
  using assms(3,2)
proof (induction b rule: dec_induct)
  case base
  then show ?case using assms(1) by simp
next
  case (step n)
  then show ?case by simp
qed

lemma in_window_mono: "in_window t loc n v \<Longrightarrow> n \<le> m \<Longrightarrow> in_window t loc m v"
  by (cases v; force simp: in_window_def)

lemma note_victim_window:
  "in_window t loc i (victim_slot sc) \<Longrightarrow> in_window t loc (Suc i) (victim_slot (note_victim t ((loc + i) mod capacity t) sc))"
  using in_window_mono [of t loc i "victim_slot sc" "Suc i"] by (auto simp: note_victim_def in_window_def)

lemma note_victim_prev [simp]:
  "prev_victim_slot (note_victim t s sc) = prev_victim_slot sc" "prev_min_timestamp (note_victim t s sc) = prev_min_timestamp sc"
  "prev_lock_idx (note_victim t s sc) = prev_lock_idx sc"
  by (simp_all add: note_victim_def)

lemma scan_step_window:
  assumes "in_window t loc i (victim_slot sc)" "in_window t loc i (prev_victim_slot sc)"
  shows "in_window t loc (Suc i) (victim_slot (scan_step t loc i sc)) \<and> in_window t loc (Suc i) (prev_victim_slot (scan_step t loc i sc))"
  using note_victim_window [OF assms(1)] in_window_mono [OF assms(2), of "Suc i"]
  by (simp add: scan_step_def Let_def next_range_def in_window_def)

lemma scan_window:
  assumes sc_def: "sc = note_victim t ((loc + 15) mod capacity t) (fold (scan_step t loc) [0..<15] scan_init)"
  shows "in_window t loc 16 (victim_slot sc) \<and> in_window t loc 16 (prev_victim_slot sc)"
proof -
  let ?sc = "fold (scan_step t loc) [0..<15] scan_init"
  have "in_window t loc 15 (victim_slot ?sc) \<and> in_window t loc 15 (prev_victim_slot ?sc)"
    by (rule fold_upt_induct [where P = "\<lambda>i sc. in_window t loc i (victim_slot sc) \<and> in_window t loc i (prev_victim_slot sc)"])
      (auto simp: scan_init_def in_window_def scan_step_window [unfolded in_window_def])
  then show ?thesis unfolding sc_def
    using note_victim_window [of t loc 15 ?sc] in_window_mono [of t loc 15 "prev_victim_slot ?sc" 16] by simp
qed

lemma CollEvict_spec:
  assumes inv: "lpa_inv t" and k: "unreserved k" "v \<noteq> NONE" "lpa_map t k = None"
    and full: "\<forall>j<16. unreserved (lpa_key t (slot_of t k j))" and c: "16 \<le> capacity t"
    and j: "j < 16" "s = slot_of t k j"
  shows "\<exists>t' ek ev. CollEvict now s k v t = Inr (t', 0, ek, ev) \<and> lpa_inv t' \<and> capacity t' = capacity t
    \<and> insert_spec (lpa_map t) k v ek0 (lpa_map t') 0 ek ev"
proof -
  have u: "unreserved (lpa_key t s)" and sl: "s < capacity t" using full j c by auto
  have "\<forall>j'<j. lpa_key t (slot_of t k j') \<noteq> INVALID" using full j(1) by (auto simp: unreserved_def)
  then have S: "lpa_inv (SetBucket now s k v t) \<and> lpa_map (SetBucket now s k v t) = (lpa_map t)(lpa_key t s := None, k \<mapsto> v)
     \<and> capacity (SetBucket now s k v t) = capacity t"
    using j c by (intro SetBucket_spec [OF inv k, of j]) auto
  have m: "lpa_map t (lpa_key t s) = Some (bkt_value (buckets t ! s))" using lpa_map_iff [OF inv] u sl by auto
  have "lpa_key t s \<noteq> INVALID" using u by auto
  then show ?thesis using S m k(3) by (auto simp: CollEvict_def Let_def insert_spec_def)
qed

lemma Insert_collide_spec:
  assumes inv: "lpa_inv t" and k: "unreserved k" "v \<noteq> NONE" "lpa_map t k = None"
    and full: "\<forall>j<16. unreserved (lpa_key t (slot_of t k j))" and c: "16 \<le> capacity t"
    and w: "in_window t (GetHashedKey t k) 16 (victim_slot sc)" "in_window t (GetHashedKey t k) 16 (prev_victim_slot sc)"
  shows "\<exists>t' ret ek ev. Insert_collide now lck k v ek0 sc t = Inr (t', ret, ek, ev) \<and> lpa_inv t' \<and> capacity t' = capacity t
    \<and> insert_spec (lpa_map t) k v ek0 (lpa_map t') ret ek ev"
proof -
  have gb: "insert_spec (lpa_map t) k v ek0 (lpa_map t) (- 1) k v" using k(3) by (simp add: insert_spec_def)
  have win: "\<exists>j<16. s = slot_of t k j" if "victim_slot sc = Some s \<or> prev_victim_slot sc = Some s" for s
    using w that by (auto simp: in_window_def slot_of_def)
  have coll: "\<exists>t' ek ev. CollEvict now s k v t = Inr (t', 0, ek, ev) \<and> lpa_inv t' \<and> capacity t' = capacity t
      \<and> insert_spec (lpa_map t) k v ek0 (lpa_map t') 0 ek ev" if "victim_slot sc = Some s \<or> prev_victim_slot sc = Some s" for s
    using win [OF that] CollEvict_spec [OF inv k full c] by blast
  show ?thesis
  proof (cases "prev_is_older lck sc")
    case True
    then obtain p where p: "prev_victim_slot sc = Some p" by (auto simp: prev_is_older_def)
    have "unreserved (lpa_key t p)" using win [of p] p full by auto
    then show ?thesis using True p gb inv coll [of p] by (auto simp: Insert_collide_def)
  next
    case False
    then show ?thesis using gb inv coll by (cases "victim_slot sc") (fastforce simp: Insert_collide_def)+
  qed
qed

lemma Insert_loop_spec:
  assumes inv: "lpa_inv t" and k: "unreserved k" "v \<noteq> NONE" "lpa_map t k = None" and c: "16 \<le> capacity t"
  shows "\<exists>t' ret ek ev. Insert_loop now lck k v ek0 (GetHashedKey t k) 0 scan_init t = Inr (t', ret, ek, ev)
    \<and> lpa_inv t' \<and> capacity t' = capacity t \<and> insert_spec (lpa_map t) k v ek0 (lpa_map t') ret ek ev"
proof (cases "List.find (\<lambda>j. \<not> unreserved (lpa_key t (slot_of t k j))) [0..<16]")
  case None
  then have full: "\<forall>j<16. unreserved (lpa_key t (slot_of t k j))" by (auto simp: find_None_iff)
  show ?thesis
    using Insert_collide_spec [OF inv k full c] scan_window [OF refl, of t "GetHashedKey t k"] None
    by (simp add: Insert_loop_closed [OF _ c k(1)] slot_of_def)
next
  case (Some j)
  then have j: "j < 16" "\<not> unreserved (lpa_key t (slot_of t k j))" "\<forall>j'<j. unreserved (lpa_key t (slot_of t k j'))"
    by (auto simp: find_Some_iff)
  have "\<forall>j'<j. lpa_key t (slot_of t k j') \<noteq> INVALID" using j(3) by (auto simp: unreserved_def)
  note S = SetBucket_spec [OF inv k _ refl this, of now]
  have "lpa_map t (lpa_key t (slot_of t k j)) = None" using j(2) by (simp add: lpa_map_def)
  then have m: "(lpa_map t)(lpa_key t (slot_of t k j) := None) = lpa_map t" by auto
  have e: "Insert_loop now lck k v ek0 (GetHashedKey t k) 0 scan_init t = Inr (SetBucket now (slot_of t k j) k v t, 0, ek0, NONE)"
    using Some by (simp add: Insert_loop_closed [OF _ c k(1)] slot_of_def)
  show ?thesis unfolding e using S j(1) c m k(3) by (simp add: insert_spec_def)
qed

lemma lpa_Insert_spec:
  assumes inv: "lpa_inv t" and k: "unreserved k" "v \<noteq> NONE" and c: "16 \<le> capacity t"
  shows "\<exists>t' ret ek ev. lpa_Insert now lck k v ek0 t = Inr (t', ret, ek, ev)
    \<and> lpa_inv t' \<and> capacity t' = capacity t \<and> insert_spec (lpa_map t) k v ek0 (lpa_map t') ret ek ev"
proof -
  obtain t1 w where d: "lpa_Delete k t = (t1, w)" by fastforce
  note D = lpa_Delete_spec [OF inv k(1) d]
  show ?thesis
  proof (cases "lpa_map t k")
    case None
    then have "w = NONE" "lpa_map t1 = lpa_map t" using D by (auto simp: value_or_none_def)
    then show ?thesis using Insert_loop_spec [of t1 k v now lck ek0] D k c None d
      by (simp add: lpa_Insert_def)
  next
    case (Some u)
    then have "w = u" using D by (simp add: value_or_none_def)
    moreover have "u \<noteq> NONE" using Some lpa_map_iff [OF inv, of k u] lpa_inv_valid [OF inv] by auto
    ultimately show ?thesis using D d Some by (simp add: lpa_Insert_def insert_spec_def)
  qed
qed



section \<open>Which bucket an insertion evicts\<close>

text \<open>\<open>oldest t loc a b m v\<close>: among the buckets \<open>a\<close> to \<open>b - 1\<close> of the window, \<open>v\<close> has the smallest time stamp \<open>m\<close>.\<close>

definition oldest :: "LinearProbingApprox \<Rightarrow> nat \<Rightarrow> nat \<Rightarrow> nat \<Rightarrow> u32 \<Rightarrow> nat option \<Rightarrow> bool" where
  "oldest t loc a b m v = (if b \<le> a then m = - 1 \<and> v = None
     else (\<exists>j. a \<le> j \<and> j < b \<and> v = Some ((loc + j) mod capacity t) \<and> m = timestamp (buckets t ! ((loc + j) mod capacity t))
            \<and> (\<forall>j'. a \<le> j' \<longrightarrow> j' < b \<longrightarrow> m \<le> timestamp (buckets t ! ((loc + j') mod capacity t)))))"

lemma note_victim_oldest:
  assumes "oldest t loc a i (min_timestamp sc) (victim_slot sc)" "a \<le> i"
  shows "oldest t loc a (Suc i) (min_timestamp (note_victim t ((loc + i) mod capacity t) sc)) (victim_slot (note_victim t ((loc + i) mod capacity t) sc))"
proof (cases "a = i")
  case True
  then have "min_timestamp sc = - 1" using assms(1) by (simp add: oldest_def)
  then show ?thesis using True by (auto simp: oldest_def note_victim_def less_Suc_eq intro!: exI [of _ i])
next
  case False
  then obtain j where j: "a \<le> j" "j < i" "victim_slot sc = Some ((loc + j) mod capacity t)"
      "min_timestamp sc = timestamp (buckets t ! ((loc + j) mod capacity t))"
      "\<forall>j'. a \<le> j' \<longrightarrow> j' < i \<longrightarrow> min_timestamp sc \<le> timestamp (buckets t ! ((loc + j') mod capacity t))"
    using assms by (auto simp: oldest_def)
  show ?thesis
  proof (cases "timestamp (buckets t ! ((loc + i) mod capacity t)) \<le> min_timestamp sc")
    case True
    then show ?thesis using j assms(2) by (auto simp: oldest_def note_victim_def less_Suc_eq intro!: exI [of _ i])
  next
    case F: False
    then show ?thesis using j assms(2) False by (auto simp: oldest_def note_victim_def less_Suc_eq intro!: exI [of _ j])
  qed
qed

text \<open>In a table whose capacity is a multiple of 16 a window meets one border between lock ranges, at index \<open>16 - loc mod 16\<close>.\<close>

definition two_ranges :: "LinearProbingApprox \<Rightarrow> nat \<Rightarrow> nat \<Rightarrow> victim_scan \<Rightarrow> bool" where
  "two_ranges t loc i sc = (let b = 16 - loc mod 16 in
     if i < b then oldest t loc 0 i (min_timestamp sc) (victim_slot sc) \<and> prev_victim_slot sc = None
     else oldest t loc 0 b (prev_min_timestamp sc) (prev_victim_slot sc) \<and> oldest t loc b i (min_timestamp sc) (victim_slot sc)
        \<and> prev_lock_idx sc \<noteq> None)"

lemma border_iff:
  assumes "16 dvd (c::nat)" "i < 15"
  shows "(loc + (i + 1)) mod c mod 16 = 0 \<longleftrightarrow> i + 1 = 16 - loc mod 16"
proof -
  have "(loc + (i + 1)) mod c mod 16 = (loc mod 16 + (i + 1)) mod 16"
    by (simp only: mod_mod_cancel [OF assms(1)] mod_add_left_eq)
  moreover have r: "loc mod 16 < 16" by simp
  moreover have "(r + (i + 1)) mod 16 = (if r + (i + 1) < 16 then r + (i + 1) else r + (i + 1) - 16)" if "r < 16" for r :: nat
    using that assms(2) by (simp add: mod_if)
  ultimately show ?thesis using assms(2) by auto
qed

lemma scan_step_ranges:
  assumes "16 dvd capacity t" "16 \<le> capacity t" "lock_size t = 16" "i < 15" "two_ranges t loc i sc"
  shows "two_ranges t loc (Suc i) (scan_step t loc i sc)"
proof -
  let ?b = "16 - loc mod 16" and ?n = "note_victim t ((loc + i) mod capacity t) sc"
  have e: "scan_step t loc i sc = (if i + 1 = ?b then next_range ((loc + i) mod capacity t div 16) ?n else ?n)"
    using assms border_iff [OF assms(1,4), of loc] by (simp add: scan_step_def Let_def)
  consider "i + 1 < ?b" | "i + 1 = ?b" | "?b \<le> i" by linarith
  then show ?thesis
  proof cases
    case 1
    then show ?thesis using assms(5) note_victim_oldest [of t loc 0 i sc] unfolding e
      by (simp add: two_ranges_def Let_def)
  next
    case 2
    then have "oldest t loc 0 (Suc i) (min_timestamp ?n) (victim_slot ?n)"
      using assms(5) note_victim_oldest [of t loc 0 i sc] by (simp add: two_ranges_def Let_def)
    then show ?thesis using 2 unfolding e by (simp add: two_ranges_def Let_def next_range_def) (simp add: oldest_def)
  next
    case 3
    then show ?thesis using assms(5) note_victim_oldest [of t loc ?b i sc] unfolding e
      by (simp add: two_ranges_def Let_def)
  qed
qed

lemma full_scan_ranges:
  assumes "16 dvd capacity t" "16 \<le> capacity t" "lock_size t = 16"
  shows "two_ranges t loc 15 (fold (scan_step t loc) [0..<15] scan_init)"
proof (rule fold_upt_induct)
  show "two_ranges t loc 0 scan_init" by (simp add: two_ranges_def scan_init_def oldest_def Let_def)
  show "\<And>i y. 0 \<le> i \<Longrightarrow> i < 15 \<Longrightarrow> two_ranges t loc i y \<Longrightarrow> two_ranges t loc (Suc i) (scan_step t loc i y)"
    using scan_step_ranges [OF assms] by blast
qed simp

lemma oldest_join:
  assumes "oldest t loc 0 b m1 v1" "oldest t loc b n m2 v2" "0 < b" "b < n" "v = (if m1 < m2 then v1 else v2)"
  shows "\<exists>j<n. v = Some ((loc + j) mod capacity t) \<and>
    (\<forall>j'<n. timestamp (buckets t ! ((loc + j) mod capacity t)) \<le> timestamp (buckets t ! ((loc + j') mod capacity t)))"
proof -
  obtain j1 where j1: "j1 < b" "v1 = Some ((loc + j1) mod capacity t)" "m1 = timestamp (buckets t ! ((loc + j1) mod capacity t))"
      "\<forall>j'<b. m1 \<le> timestamp (buckets t ! ((loc + j') mod capacity t))" using assms(1,3) by (auto simp: oldest_def)
  obtain j2 where j2: "j2 < n" "v2 = Some ((loc + j2) mod capacity t)" "m2 = timestamp (buckets t ! ((loc + j2) mod capacity t))"
      "\<forall>j'. b \<le> j' \<longrightarrow> j' < n \<longrightarrow> m2 \<le> timestamp (buckets t ! ((loc + j') mod capacity t))" using assms(2,4) by (auto simp: oldest_def)
  have "\<forall>j'<n. min m1 m2 \<le> timestamp (buckets t ! ((loc + j') mod capacity t))"
    using j1(4) j2(4) by (metis min.coboundedI1 min.coboundedI2 not_le)
  then have "m1 < m2 \<Longrightarrow> \<forall>j'<n. m1 \<le> timestamp (buckets t ! ((loc + j') mod capacity t))"
      "\<not> m1 < m2 \<Longrightarrow> \<forall>j'<n. m2 \<le> timestamp (buckets t ! ((loc + j') mod capacity t))"
    by (simp_all add: min_def not_less split: if_splits)
  moreover have "j1 < n" using j1(1) assms(4) by simp
  ultimately show ?thesis using j1(2,3) j2(1-3) assms(5) by (cases "m1 < m2") auto
qed

lemma Insert_collide_oldest:
  assumes c: "16 dvd capacity t" "16 \<le> capacity t" "lock_size t = 16" and k: "unreserved k"
    and full: "\<forall>j<16. unreserved (lpa_key t ((loc + j) mod capacity t))" and l: "\<forall>x. lck x"
    and sc: "sc = note_victim t ((loc + 15) mod capacity t) (fold (scan_step t loc) [0..<15] scan_init)"
  shows "\<exists>j<16. (\<forall>j'<16. timestamp (buckets t ! ((loc + j) mod capacity t)) \<le> timestamp (buckets t ! ((loc + j') mod capacity t)))
    \<and> Insert_collide now lck k v ek sc t = (if busy (buckets t ! ((loc + j) mod capacity t)) then Inr (t, - 1, k, v)
         else Inr (SetBucket now ((loc + j) mod capacity t) k v t, 0, lpa_key t ((loc + j) mod capacity t), bkt_value (buckets t ! ((loc + j) mod capacity t))))"
proof -
  let ?b = "16 - loc mod 16"
  define w where "w = (if prev_is_older lck sc then prev_victim_slot sc else victim_slot sc)"
  note R = full_scan_ranges [OF c, of loc]
  have W: "\<exists>j<16. w = Some ((loc + j) mod capacity t) \<and>
    (\<forall>j'<16. timestamp (buckets t ! ((loc + j) mod capacity t)) \<le> timestamp (buckets t ! ((loc + j') mod capacity t)))"
  proof (cases "15 < ?b")
    case True
    then have "oldest t loc 0 16 (min_timestamp sc) (victim_slot sc)" "prev_victim_slot sc = None"
      using R note_victim_oldest [of t loc 0 15] unfolding sc by (simp_all add: two_ranges_def Let_def)
    then show ?thesis by (auto simp: w_def prev_is_older_def oldest_def)
  next
    case False
    then have o: "oldest t loc 0 ?b (prev_min_timestamp sc) (prev_victim_slot sc)" "oldest t loc ?b 16 (min_timestamp sc) (victim_slot sc)"
        "prev_lock_idx sc \<noteq> None"
      using R note_victim_oldest [of t loc ?b 15] unfolding sc by (simp_all add: two_ranges_def Let_def)
    have p: "0 < ?b" "?b < 16" using False by simp_all
    then have "prev_victim_slot sc \<noteq> None" using o(1) unfolding oldest_def by (auto split: if_splits)
    then have "w = (if prev_min_timestamp sc < min_timestamp sc then prev_victim_slot sc else victim_slot sc)"
      using o(3) l by (auto simp: w_def prev_is_older_def split: option.split)
    then show ?thesis by (rule oldest_join [OF o(1,2) p])
  qed
  then obtain j where j: "j < 16" "w = Some ((loc + j) mod capacity t)"
      "\<forall>j'<16. timestamp (buckets t ! ((loc + j) mod capacity t)) \<le> timestamp (buckets t ! ((loc + j') mod capacity t))" by blast
  have u: "unreserved (lpa_key t ((loc + j) mod capacity t))" using full j(1) by simp
  then have "lpa_key t ((loc + j) mod capacity t) \<noteq> INVALID" by auto
  then have "Insert_collide now lck k v ek sc t = (if busy (buckets t ! ((loc + j) mod capacity t)) then Inr (t, - 1, k, v)
         else Inr (SetBucket now ((loc + j) mod capacity t) k v t, 0, lpa_key t ((loc + j) mod capacity t), bkt_value (buckets t ! ((loc + j) mod capacity t))))"
    using j(2) u by (auto simp: w_def Insert_collide_def CollEvict_def Let_def split: if_splits)
  then show ?thesis using j by blast
qed


section \<open>Eviction against the map\<close>

definition evictable :: "LinearProbingApprox \<Rightarrow> nat \<Rightarrow> bool" where
  "evictable t s \<longleftrightarrow> s < capacity t \<and> unreserved (lpa_key t s) \<and> \<not> busy (buckets t ! s)"

definition scan_good :: "LinearProbingApprox \<Rightarrow> victim_scan \<Rightarrow> bool" where
  "scan_good t sc \<longleftrightarrow> (\<forall>s. victim_slot sc = Some s \<or> prev_victim_slot sc = Some s \<longrightarrow> evictable t s)"

definition outcome_ok :: "LinearProbingApprox \<Rightarrow> evict_outcome \<Rightarrow> bool" where
  "outcome_ok t r = (case r of EvictRetry sc \<Rightarrow> scan_good t sc | EvictEnd \<Rightarrow> False
     | Evicted _ _ _ \<Rightarrow> \<exists>s. evictable t s \<and> r = evict_slot t s)"

lemma evict_slot_ok: "evictable t s \<Longrightarrow> outcome_ok t (evict_slot t s)"
  by (auto simp: outcome_ok_def evict_slot_def)

lemma Evict_direct_ok: "scan_good t sc \<Longrightarrow> outcome_ok t (Evict_direct lck sc t)"
  using evict_slot_ok by (auto simp: Evict_direct_def scan_good_def outcome_ok_def prev_is_older_def split: option.split)

lemma scan_good_moves:
  assumes "scan_good t sc"
  shows "scan_good t (next_range l sc)" "evictable t s \<Longrightarrow> scan_good t (note_victim t s sc)"
    "evictable t s \<Longrightarrow> scan_good t (sc\<lparr>prev_victim_slot := None, victim_slot := Some s\<rparr>)"
  using assms by (auto simp: scan_good_def next_range_def note_victim_def)

lemma Evict_scan_ok:
  "scan_good t sc \<Longrightarrow> i \<le> 15 \<Longrightarrow> 16 \<le> capacity t \<Longrightarrow> outcome_ok t (Evict_scan lck n loc i h sc t)"
proof (induction lck n loc i h sc t rule: Evict_scan.induct)
  case (1 lck n loc i h sc t)
  let ?s = "(loc + i) mod capacity t"
  let ?sc = "if unreserved (lpa_key t ?s) then note_victim t ?s sc else sc"
  have i: "i < capacity t" "?s < capacity t" using "1.prems" by auto
  consider "(\<not> h \<and> \<not> lck (?s div lock_size t)) \<or> (unreserved (lpa_key t ?s) \<and> busy (buckets t ! ?s))"
    | "h \<or> lck (?s div lock_size t)" "unreserved (lpa_key t ?s) \<longrightarrow> \<not> busy (buckets t ! ?s)" by blast
  then show ?case
  proof cases
    case 1
    then have "Evict_scan lck n loc i h sc t = EvictRetry sc"
      using i by (subst Evict_scan.simps) (auto simp: Let_def)
    then show ?thesis using "1.prems" by (simp add: outcome_ok_def)
  next
    case 2
    have ev: "unreserved (lpa_key t ?s) \<longrightarrow> evictable t ?s" using 2 i by (simp add: evictable_def)
    have good: "scan_good t ?sc" using "1.prems"(1) ev scan_good_moves(2) by auto
    show ?thesis
    proof (cases "unreserved (lpa_key t ?s) \<and> n > 2")
      case True
      then have "outcome_ok t (Evict_direct lck (sc\<lparr>prev_victim_slot := None, victim_slot := Some ?s\<rparr>) t)"
        using ev "1.prems"(1) by (intro Evict_direct_ok scan_good_moves(3)) auto
      then show ?thesis using True 2 i by (subst Evict_scan.simps) (auto simp: Let_def)
    next
      case False
      have g: "(\<not> h \<and> \<not> lck (?s div lock_size t)) = False" "(unreserved (lpa_key t ?s) \<and> busy (buckets t ! ?s)) = False"
          "(unreserved (lpa_key t ?s) \<and> n > 2) = False" using 2 False by blast+
      have e: "Evict_scan lck n loc i h sc t = (if i \<ge> 15 then Evict_direct lck ?sc t
          else if i + 1 < capacity t \<and> (loc + (i + 1)) mod capacity t mod lock_size t \<noteq> 0 then Evict_scan lck n loc (i + 1) True ?sc t
          else Evict_scan lck n loc (i + 1) False (next_range (?s div lock_size t) ?sc) t)"
        by (subst Evict_scan.simps) (simp only: Let_def IsValidBucket_iff g i if_True if_False)
      show ?thesis
      proof (cases "i \<ge> 15")
        case True
        then show ?thesis unfolding e using Evict_direct_ok [OF good] by simp
      next
        case lt: False
        have "outcome_ok t (Evict_scan lck n loc (i + 1) True ?sc t)"
          if "i + 1 < capacity t \<and> (loc + (i + 1)) mod capacity t mod lock_size t \<noteq> 0"
          using lt i 2 False that good "1.prems" by (intro "1.IH"(1) [OF i(1) refl]) auto
        moreover have "outcome_ok t (Evict_scan lck n loc (i + 1) False (next_range (?s div lock_size t) ?sc) t)"
          if "\<not> (i + 1 < capacity t \<and> (loc + (i + 1)) mod capacity t mod lock_size t \<noteq> 0)"
          using lt i 2 False that scan_good_moves(1) [OF good] "1.prems" by (intro "1.IH"(2) [OF i(1) refl]) auto
        ultimately show ?thesis unfolding e using lt by auto
      qed
    qed
  qed
qed


lemma Evict_retry_ok:
  assumes inv: "lpa_inv t" and c: "16 \<le> capacity t"
  shows "scan_good t sc \<Longrightarrow> Evict_retry lck rs n sc t = Some r \<Longrightarrow>
    \<exists>s. evictable t s \<and> r = Inr (put_bucket t s ((buckets t ! s)\<lparr>bkt_key := TOMBSTONE\<rparr>), lpa_key t s, bkt_value (buckets t ! s))"
proof (induction rs arbitrary: n sc)
  case (Cons a rs)
  let ?sc = "sc\<lparr>prev_min_timestamp := - 1, prev_lock_idx := None, prev_victim_slot := None\<rparr>"
  define out where "out = Evict_scan (lck n) (int n) (a mod capacity t) 0 False ?sc t"
  have "scan_good t ?sc" using Cons.prems(1) by (simp add: scan_good_def)
  then have ok: "outcome_ok t out" unfolding out_def using c by (intro Evict_scan_ok) auto
  have e: "Evict_retry lck (a # rs) n sc t = (case out of
        EvictRetry sc' \<Rightarrow> Evict_retry lck rs (n + 1) sc' t
      | EvictEnd \<Rightarrow> Some (Inl EvictKeyReserved)
      | Evicted t' key value \<Rightarrow> Some (if key = INVALID \<or> key = TOMBSTONE then Inl EvictKeyReserved
                else if value = NONE then Inl EvictValueNone else Inr (t', key, value)))"
    unfolding out_def by simp
  show ?case
  proof (cases out)
    case (EvictRetry sc')
    then show ?thesis using Cons.IH [of sc' "n + 1"] Cons.prems ok e by (simp add: outcome_ok_def)
  next
    case (Evicted t' k v)
    then obtain s where s: "evictable t s" "out = evict_slot t s" using ok by (auto simp: outcome_ok_def)
    then have "lpa_key t s \<noteq> INVALID" "lpa_key t s \<noteq> TOMBSTONE" "bkt_value (buckets t ! s) \<noteq> NONE"
      using lpa_inv_valid [OF inv, of s] by (auto simp: evictable_def)
    then show ?thesis using s Cons.prems(2) unfolding e by (auto simp: evict_slot_def put_bucket_def)
  next
    case EvictEnd
    then show ?thesis using ok by (simp add: outcome_ok_def)
  qed
qed simp

lemma lpa_Evict_spec:
  assumes inv: "lpa_inv t" and c: "16 \<le> capacity t" and r: "lpa_Evict lck rs t = Some r"
  shows "\<exists>t' k v. r = Inr (t', k, v) \<and> lpa_inv t' \<and> capacity t' = capacity t \<and> lpa_map t k = Some v
    \<and> lpa_map t' = (lpa_map t)(k := None) \<and> (\<exists>s. evictable t s \<and> lpa_key t s = k)"
proof -
  have "scan_good t scan_init" by (simp add: scan_good_def scan_init_def)
  then obtain s where s: "evictable t s"
      "r = Inr (put_bucket t s ((buckets t ! s)\<lparr>bkt_key := TOMBSTONE\<rparr>), lpa_key t s, bkt_value (buckets t ! s))"
    using Evict_retry_ok [OF inv c _ r [unfolded lpa_Evict_def ApproxLRUEvict_def]] by blast
  then have "lpa_map t (lpa_key t s) = Some (bkt_value (buckets t ! s))"
    using lpa_map_iff [OF inv] by (auto simp: evictable_def)
  then show ?thesis
    using s put_bucket_tombstone [OF inv, of s "(buckets t ! s)\<lparr>bkt_key := TOMBSTONE\<rparr>"] by (auto simp: evictable_def)
qed

lemma Evict_retry_live:
  assumes s: "evictable t s" "lock_size t = 16" "0 < capacity t"
    and m: "m < length rs" "rs ! m mod capacity t = s" "3 \<le> n + m" "lck (n + m) (s div 16)"
  shows "Evict_retry lck rs n sc t \<noteq> None"
  using m
proof (induction rs arbitrary: n m sc)
  case (Cons a rs)
  let ?sc = "sc\<lparr>prev_min_timestamp := - 1, prev_lock_idx := None, prev_victim_slot := None\<rparr>"
  show ?case
  proof (cases m)
    case 0
    then have "a mod capacity t = s" "3 \<le> n" "lck n (s div 16)" using Cons.prems by auto
    then have "Evict_scan (lck n) (int n) (a mod capacity t) 0 False ?sc t = evict_slot t s"
      using s by (subst Evict_scan.simps) (simp add: Let_def evictable_def Evict_direct_def prev_is_older_def)
    then show ?thesis by (simp add: evict_slot_def)
  next
    case (Suc m')
    then have "Evict_retry lck rs (n + 1) sc' t \<noteq> None" for sc'
      using Cons.prems by (intro Cons.IH [of m']) auto
    then show ?thesis by (simp split: evict_outcome.split)
  qed
qed simp


section \<open>The contract of a page index\<close>

text \<open>What the key-value layer relies on (the interface \<^verbatim>\<open>IHash\<close> of \<^verbatim>\<open>daemon/Ihash.hpp\<close>), over an environment
  \<open>'e\<close> (clock, locks) and a source \<open>'r\<close> of random draws.\<close>

locale page_index =
  fixes pmap :: "'t \<Rightarrow> Key_t \<rightharpoonup> Value_t" and inv :: "'t \<Rightarrow> bool" and good :: "Key_t \<Rightarrow> bool"
    and ins :: "'e \<Rightarrow> Key_t \<Rightarrow> Value_t \<Rightarrow> Key_t \<Rightarrow> 't \<Rightarrow> 'x + 't \<times> int \<times> Key_t \<times> Value_t"
    and del :: "Key_t \<Rightarrow> 't \<Rightarrow> 't \<times> Value_t"
    and get :: "'e \<Rightarrow> Key_t \<Rightarrow> 't \<Rightarrow> 't \<times> Value_t"
    and getf :: "'e \<Rightarrow> Key_t \<Rightarrow> bool \<Rightarrow> 't \<Rightarrow> 't \<times> Value_t"
    and evict :: "'r \<Rightarrow> 't \<Rightarrow> ('x + 't \<times> Key_t \<times> Value_t) option"
  assumes good_dom: "inv t \<Longrightarrow> pmap t k = Some v \<Longrightarrow> good k \<and> v \<noteq> NONE"
    and ins_spec: "inv t \<Longrightarrow> good k \<Longrightarrow> v \<noteq> NONE \<Longrightarrow>
      \<exists>t' ret ek ev. ins e k v ek0 t = Inr (t', ret, ek, ev) \<and> inv t' \<and> insert_spec (pmap t) k v ek0 (pmap t') ret ek ev"
    and del_spec: "inv t \<Longrightarrow> good k \<Longrightarrow> del k t = (t', v) \<Longrightarrow>
      inv t' \<and> pmap t' = (pmap t)(k := None) \<and> v = value_or_none (pmap t k)"
    and get_spec: "inv t \<Longrightarrow> good k \<Longrightarrow> get e k t = (t', v) \<Longrightarrow>
      inv t' \<and> pmap t' = pmap t \<and> v = value_or_none (pmap t k)"
    and getf_spec: "inv t \<Longrightarrow> good k \<Longrightarrow> getf e k fl t = (t', v) \<Longrightarrow>
      inv t' \<and> pmap t' = pmap t \<and> v = (if fl then value_or_none (pmap t k) else NONE)"
    and evict_spec: "inv t \<Longrightarrow> evict r t = Some x \<Longrightarrow>
      \<exists>t' k v. x = Inr (t', k, v) \<and> inv t' \<and> pmap t k = Some v \<and> pmap t' = (pmap t)(k := None)"
begin

lemma ins_inv: "inv t \<Longrightarrow> good k \<Longrightarrow> v \<noteq> NONE \<Longrightarrow> ins e k v ek0 t = Inr (t', ret, ek, ev) \<Longrightarrow>
    inv t' \<and> insert_spec (pmap t) k v ek0 (pmap t') ret ek ev"
  using ins_spec [of t k v e ek0] by auto

text \<open>A second insertion, after the first has reported and removed a duplicate, meets none.\<close>

lemma ins_twice:
  assumes "inv t" "good k" "v \<noteq> NONE" "ins e k v ek0 t = Inr (t1, r1, ek1, ev1)" "pmap t k \<noteq> None"
  shows "pmap t1 k = None \<and> inv t1 \<and> r1 = 0 \<and> ek1 = ek0 \<and> pmap t k = Some ev1"
  using ins_inv [OF assms(1-4)] assms(5) by (auto simp: insert_spec_def)

lemma get_after_ins:
  assumes "inv t" "good k" "v \<noteq> NONE" "pmap t k = None" "ins e k v ek0 t = Inr (t1, 0, ek1, ev1)"
  shows "snd (get e' k t1) = v"
proof -
  obtain t2 w where g: "get e' k t1 = (t2, w)" by fastforce
  have "inv t1" "pmap t1 k = Some v" using ins_inv [OF assms(1-3,5)] assms(4) by (auto simp: insert_spec_def)
  then show ?thesis using get_spec [OF _ assms(2) g] g by (simp add: value_or_none_def)
qed

end

definition lpa_ok :: "LinearProbingApprox \<Rightarrow> bool" where
  "lpa_ok t \<longleftrightarrow> lpa_inv t \<and> 16 \<le> capacity t"

interpretation lpa: page_index lpa_map lpa_ok unreserved
  "\<lambda>(now, lck). lpa_Insert now lck" lpa_Delete "\<lambda>(now, lck). lpa_Get now" "\<lambda>(now, lck). lpa_GetWithFlag now" "\<lambda>(lck, rs). lpa_Evict lck rs"
proof
  fix t :: LinearProbingApprox and k v
  assume i: "lpa_ok t"
  then show "lpa_map t k = Some v \<Longrightarrow> unreserved k \<and> v \<noteq> NONE"
    using lpa_map_iff [of t k v] lpa_inv_valid [of t] by (auto simp: lpa_ok_def)
next
  fix t k v and e :: "u32 \<times> (nat \<Rightarrow> bool)" and ek0
  assume "lpa_ok t" "unreserved k" "v \<noteq> NONE"
  then show "\<exists>t' ret ek ev. (case e of (now, lck) \<Rightarrow> lpa_Insert now lck) k v ek0 t = Inr (t', ret, ek, ev) \<and> lpa_ok t'
      \<and> insert_spec (lpa_map t) k v ek0 (lpa_map t') ret ek ev"
    using lpa_Insert_spec [of t k v "fst e" "snd e" ek0] by (cases e) (fastforce simp: lpa_ok_def)
next
  fix t k t' v
  assume "lpa_ok t" "unreserved k" "lpa_Delete k t = (t', v)"
  then show "lpa_ok t' \<and> lpa_map t' = (lpa_map t)(k := None) \<and> v = value_or_none (lpa_map t k)"
    using lpa_Delete_spec [of t k t' v] by (simp add: lpa_ok_def)
next
  fix t k and e :: "u32 \<times> (nat \<Rightarrow> bool)" and t' v
  assume "lpa_ok t" "unreserved k" "(case e of (now, lck) \<Rightarrow> lpa_Get now) k t = (t', v)"
  then show "lpa_ok t' \<and> lpa_map t' = lpa_map t \<and> v = value_or_none (lpa_map t k)"
    using lpa_Get_spec [of t k "fst e" t' v] by (cases e) (simp add: lpa_ok_def)
next
  fix t k and e :: "u32 \<times> (nat \<Rightarrow> bool)" and fl t' v
  assume "lpa_ok t" "unreserved k" "(case e of (now, lck) \<Rightarrow> lpa_GetWithFlag now) k fl t = (t', v)"
  then show "lpa_ok t' \<and> lpa_map t' = lpa_map t \<and> v = (if fl then value_or_none (lpa_map t k) else NONE)"
    using lpa_GetWithFlag_spec [of t k "fst e" fl t' v] by (cases e) (simp add: lpa_ok_def)
next
  fix t x and r :: "(nat \<Rightarrow> nat \<Rightarrow> bool) \<times> nat list"
  assume "lpa_ok t" "(case r of (lck, rs) \<Rightarrow> lpa_Evict lck rs) t = Some x"
  then show "\<exists>t' k v. x = Inr (t', k, v) \<and> lpa_ok t' \<and> lpa_map t k = Some v \<and> lpa_map t' = (lpa_map t)(k := None)"
    using lpa_Evict_spec [of t "fst r" "snd r" x] by (cases r) (auto simp: lpa_ok_def)
qed



text \<open>A table with fewer than 16 pages has a vacant bucket in every window, so that nothing is evicted or refused.\<close>

lemma full_window_pages:
  assumes "lpa_ok t" "\<forall>j<16. unreserved (lpa_key t (slot_of t k j))"
  shows "16 \<le> card (dom (lpa_map t))"
proof -
  let ?f = "\<lambda>j. lpa_key t (slot_of t k j)"
  have i: "lpa_inv t" "16 \<le> capacity t" "0 < capacity t" using assms(1) lpa_inv_facts(1) by (auto simp: lpa_ok_def)
  have "inj_on ?f {..<16}"
  proof (rule inj_onI)
    fix a b :: nat assume ab: "a \<in> {..<16}" "b \<in> {..<16}" "?f a = ?f b"
    have "slot_of t k a = slot_of t k b"
      using lpa_inv_uniq [OF i(1), of "slot_of t k b" "slot_of t k a"] assms(2) ab i(3) by simp
    then have "(GetHashedKey t k + a) mod capacity t = (GetHashedKey t k + b) mod capacity t" by (simp add: slot_of_def)
    then have "x = y" if "x \<le> y" "{x, y} = {a, b}" for x y
      using that ab(1,2) i(2) mod_eq_dvd_iff_nat [of "GetHashedKey t k + x" "GetHashedKey t k + y" "capacity t"]
      by (auto simp: doubleton_eq_iff dest: dvd_imp_le)
    then show "a = b" by (metis insert_commute nat_le_linear)
  qed
  then have "card (?f ` {..<16}) = 16" by (simp add: card_image)
  moreover have "?f ` {..<16} \<subseteq> dom (lpa_map t)"
    using lpa_map_iff [OF i(1)] assms(2) i(3) by fastforce
  ultimately show ?thesis by (metis card_mono finite_code)
qed

lemma lpa_Insert_with_room:
  assumes "lpa_ok t" "unreserved k" "v \<noteq> NONE" "lpa_map t k = None" "card (dom (lpa_map t)) < 16"
  shows "\<exists>t'. lpa_Insert now lck k v ek0 t = Inr (t', 0, ek0, NONE) \<and> lpa_map t' = (lpa_map t)(k \<mapsto> v)"
proof -
  obtain j where "j < 16" "\<not> unreserved (lpa_key t (slot_of t k j))" using full_window_pages [OF assms(1), of k] assms(5) by force
  then have "List.find (\<lambda>j. \<not> unreserved (lpa_key t ((GetHashedKey t k + j) mod capacity t))) [0..<16] \<noteq> None"
    by (auto simp: find_None_iff slot_of_def)
  moreover have "lpa_Delete k t = (t, NONE)"
    using assms(2,4) by (simp add: lpa_map_find lpa_Delete_find)
  moreover have "16 \<le> capacity t" using assms(1) by (simp add: lpa_ok_def)
  ultimately obtain t' where e: "lpa_Insert now lck k v ek0 t = Inr (t', 0, ek0, NONE)"
    by (auto simp: lpa_Insert_def Insert_loop_closed [OF _ _ assms(2)])
  then have "insert_spec (lpa_map t) k v ek0 (lpa_map t') 0 ek0 NONE"
    using lpa.ins_inv [OF assms(1-3), of "(now, lck)" ek0] by simp
  then show ?thesis using e assms(4) lpa.good_dom [OF assms(1), of ek0 NONE] by (auto simp: insert_spec_def)
qed


section \<open>Properties of the index\<close>

text \<open>
  C24. In a consistent table of at least 16 buckets an insertion never throws, keeps the table
  consistent and does to the map of stored pages exactly one of: remove and report the old page of a
  duplicate key, add the page, add it in place of one evicted page that it reports, or give the page
  back with result -1.
\<close>

theorem lpa_insert_refines_map:
  assumes "lpa_ok t" "unreserved k" "v \<noteq> NONE"
  shows "\<exists>t' ret ek ev. lpa_Insert now lck k v ek0 t = Inr (t', ret, ek, ev) \<and> lpa_ok t'
    \<and> insert_spec (lpa_map t) k v ek0 (lpa_map t') ret ek ev"
  using lpa.ins_spec [OF assms, of "(now, lck)" ek0] by simp

lemma new_table_ok: "16 \<le> cap \<Longrightarrow> lpa_ok (LinearProbingApprox_new cap)"
  using LinearProbingApprox_new_inv [of cap] by (simp add: lpa_ok_def LinearProbingApprox_new_def)

lemma small_unreserved: "unreserved 77"
  by (simp add: unreserved_def INVALID_def TOMBSTONE_def)

theorem lpa_insert_refines_map_witness:
  "lpa_ok (LinearProbingApprox_new 16) \<and> unreserved 77 \<and> (\<exists>t' ret ek ev.
     lpa_Insert 5 (\<lambda>_. True) 77 4096 INVALID (LinearProbingApprox_new 16) = Inr (t', ret, ek, ev) \<and> lpa_ok t')"
proof -
  have v: "(4096 :: Value_t) \<noteq> NONE" by (simp add: NONE_def)
  show ?thesis
    using lpa_insert_refines_map [OF new_table_ok small_unreserved v, of 16 5 "\<lambda>_. True" INVALID] new_table_ok [of 16] small_unreserved
    by auto
qed

text \<open>
  C25. In a consistent table deletion removes exactly the given key and returns its page, or NONE and
  no change when it is absent; both lookups return the stored page and leave the stored pages as
  they are; the table stays consistent.
\<close>

theorem lpa_delete_and_lookup_refine_map:
  assumes "lpa_ok t" "unreserved k"
  shows "lpa_ok (fst (lpa_Delete k t)) \<and> lpa_map (fst (lpa_Delete k t)) = (lpa_map t)(k := None)
      \<and> snd (lpa_Delete k t) = value_or_none (lpa_map t k)
    \<and> lpa_ok (fst (lpa_Get now k t)) \<and> lpa_map (fst (lpa_Get now k t)) = lpa_map t
      \<and> snd (lpa_Get now k t) = value_or_none (lpa_map t k)
    \<and> lpa_ok (fst (lpa_GetWithFlag now k fl t)) \<and> lpa_map (fst (lpa_GetWithFlag now k fl t)) = lpa_map t
      \<and> snd (lpa_GetWithFlag now k fl t) = (if fl then value_or_none (lpa_map t k) else NONE)"
  using lpa.del_spec [OF assms prod.collapse [symmetric]] lpa.get_spec [OF assms, of "(now, undefined)", simplified, OF prod.collapse [symmetric]]
    lpa.getf_spec [OF assms, of "(now, undefined)" fl, simplified, OF prod.collapse [symmetric]]
  by blast

theorem lpa_delete_and_lookup_refine_map_witness:
  "lpa_ok (LinearProbingApprox_new 16) \<and> unreserved 77 \<and> snd (lpa_Get 5 77 (LinearProbingApprox_new 16)) = NONE"
  using lpa_delete_and_lookup_refine_map [OF new_table_ok small_unreserved, of 16 5 True] new_table_ok [of 16] small_unreserved
    LinearProbingApprox_new_inv [of 16]
  by (simp add: value_or_none_def)

text \<open>
  A page inserted under an absent key with result 0 is the page the next lookup of that key
  returns.
\<close>

theorem lpa_get_after_insert:
  assumes "lpa_ok t" "unreserved k" "v \<noteq> NONE" "lpa_map t k = None" "lpa_Insert now lck k v ek0 t = Inr (t', 0, ek, ev)"
  shows "snd (lpa_Get now' k t') = v"
  using lpa.get_after_ins [OF assms(1-4), of "(now, lck)" ek0 t' ek ev "(now', lck)"] assms(5) by simp

theorem lpa_get_after_insert_witness:
  "\<exists>t' ek ev. lpa_Insert 5 (\<lambda>_. True) 77 4096 INVALID (LinearProbingApprox_new 16) = Inr (t', 0, ek, ev)
     \<and> snd (lpa_Get 6 77 t') = 4096"
proof -
  let ?t = "LinearProbingApprox_new 16"
  have m: "lpa_map ?t 77 = None" and v: "(4096 :: Value_t) \<noteq> NONE" and i: "lpa_inv ?t" and c: "capacity ?t = 16"
    using LinearProbingApprox_new_inv [of 16] by (simp_all add: NONE_def LinearProbingApprox_new_def)
  have "lpa_find ?t 77 = None" using m small_unreserved by (simp add: lpa_map_find)
  then have d: "lpa_Delete 77 ?t = (?t, NONE)" by (simp add: lpa_Delete_find)
  have "\<not> unreserved (lpa_key ?t ((GetHashedKey ?t 77 + 0) mod 16))"
    by (simp add: LinearProbingApprox_new_def LPA_Bkt_default_def)
  then have e: "lpa_Insert 5 (\<lambda>_. True) 77 4096 INVALID ?t = Inr (SetBucket 5 (slot_of ?t 77 0) 77 4096 ?t, 0, INVALID, NONE)"
    using d c by (simp add: lpa_Insert_def Insert_loop_closed [OF _ _ small_unreserved] slot_of_def upt_conv_Cons)
  show ?thesis using lpa_get_after_insert [OF new_table_ok small_unreserved v m e] e by blast
qed


text \<open>
  C26. The victim of a full window: in a table whose capacity is a multiple of 16, with the locks
  free, an insertion of an absent key into a window without vacant bucket picks a bucket whose time
  stamp is the smallest of all 16; it takes that bucket over and reports the old page, unless the
  bucket is busy, when it changes nothing and reports its own page with -1.
\<close>

theorem lpa_insert_evicts_oldest:
  assumes "16 dvd capacity t" "0 < capacity t" "lock_size t = 16" "unreserved k" "\<forall>s < capacity t. lpa_key t s \<noteq> k"
    and "\<forall>j<16. unreserved (lpa_key t (slot_of t k j))" "\<forall>x. lck x"
  shows "\<exists>j<16. (\<forall>j'<16. timestamp (buckets t ! slot_of t k j) \<le> timestamp (buckets t ! slot_of t k j'))
    \<and> lpa_Insert now lck k v ek0 t =
        (if busy (buckets t ! slot_of t k j) then Inr (t, - 1, k, v)
         else Inr (SetBucket now (slot_of t k j) k v t, 0, lpa_key t (slot_of t k j), bkt_value (buckets t ! slot_of t k j)))"
proof -
  have c: "16 \<le> capacity t" using assms(1,2) by (simp add: dvd_imp_le)
  have "lpa_find t k = None"
    using assms(2,5) by (auto simp: lpa_find_def split: option.split)
  then have d: "lpa_Delete k t = (t, NONE)" by (simp add: lpa_Delete_find)
  have "List.find (\<lambda>j. \<not> unreserved (lpa_key t ((GetHashedKey t k + j) mod capacity t))) [0..<16] = None"
    using assms(6) by (auto simp: find_None_iff slot_of_def)
  then have e: "lpa_Insert now lck k v ek0 t = Insert_collide now lck k v ek0
      (note_victim t ((GetHashedKey t k + 15) mod capacity t) (fold (scan_step t (GetHashedKey t k)) [0..<15] scan_init)) t"
    by (simp add: lpa_Insert_def d Insert_loop_closed [OF _ c assms(4)])
  show ?thesis unfolding e slot_of_def
    by (rule Insert_collide_oldest [OF assms(1) c assms(3,4) assms(6) [unfolded slot_of_def] assms(7) refl])
qed

definition full_table :: LinearProbingApprox where
  "full_table = \<lparr>capacity = 16, buckets = map (\<lambda>i. \<lparr>bkt_key = of_nat i + 1, bkt_value = 4096, timestamp = of_nat i, busy = False\<rparr>) [0..<16],
     lock_size = 16, num_locks = 2\<rparr>"

lemma full_table_keys: "s < 16 \<Longrightarrow> unreserved (lpa_key full_table s) \<and> lpa_key full_table s \<noteq> 77 \<and> \<not> busy (buckets full_table ! s)"
proof -
  assume "s < 16"
  then have k: "lpa_key full_table s = of_nat (s + 1)" "\<not> busy (buckets full_table ! s)" by (simp_all add: full_table_def)
  moreover have "unat (of_nat (s + 1) :: u64) = s + 1" using \<open>s < 16\<close> by (simp add: unat_of_nat del: of_nat_Suc of_nat_add)
  ultimately have "unat (lpa_key full_table s) \<le> 16" using \<open>s < 16\<close> by simp
  then show ?thesis using k(2) by (auto simp: unreserved_def INVALID_def TOMBSTONE_def)
qed

theorem lpa_insert_evicts_oldest_witness:
  "\<exists>j<16. lpa_Insert 20 (\<lambda>_. True) 77 8192 INVALID full_table =
     Inr (SetBucket 20 (slot_of full_table 77 j) 77 8192 full_table, 0, lpa_key full_table (slot_of full_table 77 j), bkt_value (buckets full_table ! slot_of full_table 77 j))"
proof -
  have c: "capacity full_table = 16" "lock_size full_table = 16" by (simp_all add: full_table_def)
  have sl: "slot_of full_table 77 j < 16" for j using slot_of_less [of full_table 77 j] c by simp
  show ?thesis
    using lpa_insert_evicts_oldest [of full_table 77 "\<lambda>_. True" 20 8192 INVALID] c sl full_table_keys small_unreserved by auto
qed

text \<open>
  C27. Whenever the evictor returns, on a consistent table of at least 16 buckets, it has not thrown:
  it has removed exactly one stored page, reports that page, and its bucket was not busy.
\<close>

theorem lpa_evict_removes_one_page:
  assumes "lpa_ok t" "lpa_Evict lck rs t = Some r"
  shows "\<exists>t' k v. r = Inr (t', k, v) \<and> lpa_ok t' \<and> lpa_map t k = Some v \<and> lpa_map t' = (lpa_map t)(k := None)
    \<and> (\<exists>s. evictable t s \<and> lpa_key t s = k)"
  using lpa_Evict_spec [of t lck rs r] assms by (auto simp: lpa_ok_def)

text \<open>
  C28. The retry loop of the evictor ends: once it is past its third attempt, the first draw that lands
  on a valid bucket that is not busy, with the lock of that bucket free, evicts.
\<close>

theorem lpa_evict_terminates:
  assumes "lpa_ok t" "evictable t s" "3 \<le> m" "m < length rs" "rs ! m mod capacity t = s" "lck m (s div 16)"
  shows "\<exists>r. lpa_Evict lck rs t = Some r"
  using Evict_retry_live [of t s m rs 0 lck scan_init] assms lpa_inv_facts [of t]
  by (auto simp: lpa_ok_def lpa_Evict_def ApproxLRUEvict_def)

definition one_page :: LinearProbingApprox where
  "one_page = SetBucket 5 (slot_of (LinearProbingApprox_new 16) 77 0) 77 4096 (LinearProbingApprox_new 16)"

lemma one_page_ok:
  "lpa_ok one_page \<and> capacity one_page = 16 \<and> evictable one_page (slot_of one_page 77 0)"
proof -
  let ?t = "LinearProbingApprox_new 16"
  have i: "lpa_inv ?t" "lpa_map ?t 77 = None" "capacity ?t = 16" using LinearProbingApprox_new_inv [of 16] by (simp_all add: LinearProbingApprox_new_def)
  have v: "(4096 :: Value_t) \<noteq> NONE" by (simp add: NONE_def)
  have S: "lpa_inv one_page \<and> capacity one_page = 16"
    using SetBucket_spec [OF i(1) small_unreserved v i(2) _ refl, of 0 5] i(3) by (simp add: one_page_def)
  have sl: "slot_of one_page 77 0 = slot_of ?t 77 0" by (simp add: one_page_def SetBucket_put)
  have "slot_of ?t 77 0 < 16" using slot_of_less [of ?t 77 0] i(3) by simp
  then have "buckets one_page ! slot_of ?t 77 0 = \<lparr>bkt_key = 77, bkt_value = 4096, timestamp = 5, busy = False\<rparr>"
    by (simp add: one_page_def SetBucket_put put_bucket_nth LinearProbingApprox_new_def LPA_Bkt_default_def)
  then show ?thesis using S sl small_unreserved slot_of_less [of ?t 77 0] i(3) by (simp add: evictable_def lpa_ok_def)
qed

theorem lpa_evict_removes_one_page_witness:
  "\<exists>r t' k v. lpa_Evict (\<lambda>_ _. True) [0, 0, 0, slot_of one_page 77 0] one_page = Some r \<and> r = Inr (t', k, v) \<and> lpa_map one_page k = Some v"
proof -
  have "Evict_retry (\<lambda>_ _. True) [0, 0, 0, slot_of one_page 77 0] 0 scan_init one_page \<noteq> None"
    using one_page_ok by (intro Evict_retry_live [where m = 3 and s = "slot_of one_page 77 0"]) (auto simp: lpa_ok_def lpa_inv_def evictable_def)
  then obtain r where r: "lpa_Evict (\<lambda>_ _. True) [0, 0, 0, slot_of one_page 77 0] one_page = Some r"
    by (auto simp: lpa_Evict_def ApproxLRUEvict_def)
  show ?thesis using lpa_evict_removes_one_page [OF conjunct1 [OF one_page_ok] r] r by blast
qed

theorem lpa_evict_terminates_witness:
  "\<exists>r. lpa_Evict (\<lambda>_ _. True) [3, 1, 4, slot_of one_page 77 0] one_page = Some r"
  using one_page_ok slot_of_less [of one_page 77 0]
  by (intro lpa_evict_terminates [where m = 3 and s = "slot_of one_page 77 0"]) auto

text \<open>
  A table with fewer than 16 buckets that is full of other keys: the insertion reports success
  (result 0, nothing evicted) and does not store the page.
\<close>

theorem lpa_insert_lost_in_small_table:
  assumes "capacity t < 16" "0 < capacity t" "lock_size t = 16"
    and "\<forall>s < capacity t. unreserved (lpa_key t s) \<and> lpa_key t s \<noteq> k"
  shows "lpa_Insert now lck k v ek0 t = Inr (t, 0, ek0, NONE)"
proof -
  have "lpa_find t k = None" using assms(2,4) by (auto simp: lpa_find_def split: option.split)
  then have d: "lpa_Delete k t = (t, NONE)" by (simp add: lpa_Delete_find)
  have "Insert_loop now lck k v ek0 loc i sc t = Inr (t, 0, ek0, NONE)" for loc i sc
  proof (induction "capacity t - i" arbitrary: i sc)
    case (Suc n)
    then have "Insert_loop now lck k v ek0 loc (i + 1) sc' t = Inr (t, 0, ek0, NONE)" for sc' by (intro Suc.hyps(1)) simp
    then show ?case using Suc.hyps(2) assms by (subst Insert_loop.simps) (simp add: Let_def)
  qed (subst Insert_loop.simps, simp)
  then show ?thesis by (simp add: lpa_Insert_def d)
qed

theorem lpa_insert_lost_in_small_table_witness:
  "lpa_Insert 20 (\<lambda>_. True) 77 8192 INVALID
     \<lparr>capacity = 1, buckets = [\<lparr>bkt_key = 5, bkt_value = 4096, timestamp = 1, busy = False\<rparr>], lock_size = 16, num_locks = 1\<rparr>
   = Inr (\<lparr>capacity = 1, buckets = [\<lparr>bkt_key = 5, bkt_value = 4096, timestamp = 1, busy = False\<rparr>], lock_size = 16, num_locks = 1\<rparr>, 0, INVALID, NONE)"
  by (rule lpa_insert_lost_in_small_table) (simp_all add: unreserved_def INVALID_def TOMBSTONE_def)

text \<open>
  The busy flag of a bucket outlives its page: after a lookup that sets the flag and a deletion
  of the same key, the bucket is a tombstone whose flag is still set, clearing the flag by key finds
  nothing, and the page that is put there next is busy from the start.
\<close>

theorem lpa_busy_flag_outlives_page:
  assumes "lpa_inv t" "unreserved k" "lpa_find t k = Some s"
    and "lpa_GetWithFlag now k True t = (t1, v1)" "lpa_Delete k t1 = (t2, v2)"
  shows "lpa_key t2 s = TOMBSTONE \<and> busy (buckets t2 ! s) \<and> lpa_GetWithFlag now' k False t2 = (t2, NONE)
    \<and> busy (buckets (SetBucket now' s k' v' t2) ! s)"
proof -
  let ?b = "(buckets t ! s)\<lparr>busy := True, timestamp := now\<rparr>"
  have s: "s < capacity t" "lpa_key t s = k" using lpa_find_iff [OF assms(1,2)] assms(3) by auto
  have t1: "t1 = put_bucket t s ?b" using assms(3,4) by (simp add: lpa_GetWithFlag_find)
  have i1: "lpa_inv t1" unfolding t1 using put_bucket_same_key [OF assms(1) s(1), of ?b] s assms(2) by simp
  note nth = put_bucket_nth [of s, unfolded lpa_inv_facts(2) [OF assms(1)]]
  have b1: "buckets t1 ! s = ?b" using s lpa_inv_facts(2) [OF assms(1)] by (simp add: t1 put_bucket_nth)
  have f1: "lpa_find t1 k = Some s" using lpa_find_iff [OF i1 assms(2)] s b1 by (simp add: t1)
  have t2: "t2 = put_bucket t1 s ((buckets t1 ! s)\<lparr>bkt_key := TOMBSTONE\<rparr>)" using assms(5) f1 by (simp add: lpa_Delete_find)
  have len: "s < length (buckets t1)" using s lpa_inv_facts(2) [OF assms(1)] by (simp add: t1)
  have b2: "buckets t2 ! s = ?b\<lparr>bkt_key := TOMBSTONE\<rparr>" unfolding t2 using b1 len by (simp add: put_bucket_nth)
  have "lpa_map t2 k = None" using lpa_Delete_spec [OF i1 assms(2,5)] by simp
  then have "lpa_find t2 k = None" using assms(2) by (simp add: lpa_map_find)
  then have "lpa_GetWithFlag now' k False t2 = (t2, NONE)" by (simp add: lpa_GetWithFlag_find)
  moreover have "s < length (buckets t2)" using len by (simp add: t2)
  ultimately show ?thesis using b2 by (simp add: SetBucket_put put_bucket_nth)
qed

theorem lpa_busy_flag_outlives_page_witness:
  "\<exists>s t2 v2. lpa_Delete 77 (fst (lpa_GetWithFlag 9 77 True one_page)) = (t2, v2) \<and> lpa_key t2 s = TOMBSTONE \<and> busy (buckets t2 ! s)"
proof -
  have i: "lpa_inv one_page" and e: "evictable one_page (slot_of one_page 77 0)" using one_page_ok by (auto simp: lpa_ok_def)
  obtain t1 v1 t2 v2 where r: "lpa_GetWithFlag 9 77 True one_page = (t1, v1)" "lpa_Delete 77 t1 = (t2, v2)" by (metis surj_pair)
  have "lpa_key one_page (slot_of one_page 77 0) = 77"
    using slot_of_less [of "LinearProbingApprox_new 16" 77 0]
    by (simp add: one_page_def SetBucket_put put_bucket_nth LinearProbingApprox_new_def)
  then have "lpa_find one_page 77 = Some (slot_of one_page 77 0)"
    using lpa_find_iff [OF i small_unreserved] e by (simp add: evictable_def)
  from lpa_busy_flag_outlives_page [OF i small_unreserved this r, of 0 0 0] show ?thesis using r by auto
qed

end
