(* ===== verification/Counting_Bloom.thy ===== *)
theory Counting_Bloom
  imports Longkey Hash_Daemon "HOL-Library.Multiset"
begin

text \<open>
  The counting Bloom filter the daemon keeps per client (\<^verbatim>\<open>daemon/counting_bloom_filter.hpp\<close>): one byte
  per index, incremented and decremented at the hashes of a key, and the bit array that is sent to
  the client.  Counters are 8-bit words; indices and lengths are natural numbers below the 32-bit
  range of \<^verbatim>\<open>num_bits\<close>.  The sizing of the filter uses floating point and is a parameter, the
  search for a prime size is modelled.
\<close>

section \<open>State and operations\<close>

record CountingBloomFilter =
  num_hash :: nat
  num_bits :: nat
  num_longs :: nat
  cbf_byte_bitarr :: "u8 list"
  bf_long_bitarr :: "u64 list"

definition BITS_TO_LONGS :: "nat \<Rightarrow> nat" where
  "BITS_TO_LONGS nr = (nr + 64 - 1) div 64"

definition CountingBloomFilter_new :: "nat \<Rightarrow> nat \<Rightarrow> CountingBloomFilter" where
  "CountingBloomFilter_new nh nb = \<lparr>num_hash = nh, num_bits = nb, num_longs = BITS_TO_LONGS nb,
     cbf_byte_bitarr = replicate nb 0, bf_long_bitarr = replicate (BITS_TO_LONGS nb) 0\<rparr>"

definition computeHash :: "CountingBloomFilter \<Rightarrow> Key_t \<Rightarrow> nat \<Rightarrow> nat" where
  "computeHash f key salt = unat (hash_funcs salt (le_bytes key) f_seed) mod num_bits f"

definition cbf_inc :: "u8 \<Rightarrow> u8" where
  "cbf_inc b = (if b < 255 then b + 1 else 1)"

definition cbf_Insert :: "Key_t \<Rightarrow> CountingBloomFilter \<Rightarrow> CountingBloomFilter" where
  "cbf_Insert key f = f\<lparr>cbf_byte_bitarr :=
     fold (\<lambda>i arr. let idx = computeHash f key i in arr[idx := cbf_inc (arr ! idx)]) [0..<num_hash f] (cbf_byte_bitarr f)\<rparr>"

text \<open>The lookup that also fills the array of indices; it stops at the first zero counter.\<close>

fun MightContain_idx_loop :: "CountingBloomFilter \<Rightarrow> Key_t \<Rightarrow> nat list \<Rightarrow> nat option list \<Rightarrow> bool \<times> nat option list" where
  "MightContain_idx_loop f key [] idx_res = (True, idx_res)"
| "MightContain_idx_loop f key (i # is) idx_res =
     (let idx = computeHash f key i; idx_res' = idx_res[i := Some idx]
      in if cbf_byte_bitarr f ! idx = 0 then (False, idx_res') else MightContain_idx_loop f key is idx_res')"

definition MightContain_idx :: "CountingBloomFilter \<Rightarrow> Key_t \<Rightarrow> nat option list \<Rightarrow> bool \<times> nat option list" where
  "MightContain_idx f key idx_res = MightContain_idx_loop f key [0..<num_hash f] idx_res"

definition cbf_Remove :: "Key_t \<Rightarrow> CountingBloomFilter \<Rightarrow> CountingBloomFilter \<times> bool" where
  "cbf_Remove key f = (case MightContain_idx f key (replicate (num_hash f) None) of
       (True, idx_res) \<Rightarrow>
         (f\<lparr>cbf_byte_bitarr := fold (\<lambda>i arr. let idx = (case idx_res ! i of Some j \<Rightarrow> j | None \<Rightarrow> computeHash f key i)
                                         in arr[idx := arr ! idx - 1]) [0..<num_hash f] (cbf_byte_bitarr f)\<rparr>, True)
     | (False, _) \<Rightarrow> (f, False))"

fun MightContain_loop :: "CountingBloomFilter \<Rightarrow> Key_t \<Rightarrow> nat list \<Rightarrow> bool" where
  "MightContain_loop f key [] = True"
| "MightContain_loop f key (i # is) =
     (if cbf_byte_bitarr f ! computeHash f key i = 0 then False else MightContain_loop f key is)"

definition MightContain :: "Key_t \<Rightarrow> CountingBloomFilter \<Rightarrow> bool" where
  "MightContain key f = MightContain_loop f key [0..<num_hash f]"

definition set_bit_at :: "nat \<Rightarrow> u64 list \<Rightarrow> u64 list" where
  "set_bit_at idx arr = arr[idx div 64 := (arr ! (idx div 64)) OR push_bit (idx mod 64) 1]"

definition test_bit_at :: "nat \<Rightarrow> u64 list \<Rightarrow> bool" where
  "test_bit_at idx arr \<longleftrightarrow> (arr ! (idx div 64)) AND push_bit (idx mod 64) 1 \<noteq> 0"

definition BFInsert :: "Key_t \<Rightarrow> CountingBloomFilter \<Rightarrow> CountingBloomFilter" where
  "BFInsert key f = f\<lparr>bf_long_bitarr := fold (\<lambda>i. set_bit_at (computeHash f key i)) [0..<num_hash f] (bf_long_bitarr f)\<rparr>"

fun BFMightContain_loop :: "CountingBloomFilter \<Rightarrow> Key_t \<Rightarrow> nat list \<Rightarrow> bool" where
  "BFMightContain_loop f key [] = True"
| "BFMightContain_loop f key (i # is) =
     (if \<not> test_bit_at (computeHash f key i) (bf_long_bitarr f) then False else BFMightContain_loop f key is)"

definition BFMightContain :: "Key_t \<Rightarrow> CountingBloomFilter \<Rightarrow> bool" where
  "BFMightContain key f = BFMightContain_loop f key [0..<num_hash f]"

definition ToOrdinaryBF :: "CountingBloomFilter \<Rightarrow> CountingBloomFilter \<times> bool" where
  "ToOrdinaryBF f =
     (let arr0 = fold (\<lambda>i arr. arr[i := 0]) [0..<num_longs f] (bf_long_bitarr f);
          arr1 = fold (\<lambda>i arr. if cbf_byte_bitarr f ! i > 0 then set_bit_at i arr else arr) [0..<num_bits f] arr0
      in (f\<lparr>bf_long_bitarr := arr1\<rparr>, True))"

text \<open>The search for a prime number of bits.\<close>

function generate_prime_divides :: "nat \<Rightarrow> nat \<Rightarrow> bool" where
  "generate_prime_divides low i = (if i \<le> low div 2 then (if low mod i = 0 then True else generate_prime_divides low (i + 1)) else False)"
  by pat_completeness auto
termination by (relation "measure (\<lambda>(low, i). low div 2 + 1 - i)") auto

function generate_prime :: "nat \<Rightarrow> nat \<Rightarrow> nat" where
  "generate_prime low high =
     (if low < high then
        (if low \<noteq> 0 \<and> low \<noteq> 1 \<and> \<not> generate_prime_divides low 2 then low else generate_prime (low + 1) high)
      else low)"
  by pat_completeness auto
termination by (relation "measure (\<lambda>(low, high). high - low)") auto

declare generate_prime_divides.simps [simp del] generate_prime.simps [simp del]


section \<open>The contract of an approximate filter\<close>

text \<open>
  \<open>rep f M\<close>: the filter \<open>f\<close> represents the multiset \<open>M\<close> of keys, with \<open>room\<close> for one more key.  What a
  client of such a filter relies on is that a negative answer is never wrong.
\<close>

locale approx_filter =
  fixes rep :: "'f \<Rightarrow> Key_t multiset \<Rightarrow> bool" and mem :: "Key_t \<Rightarrow> 'f \<Rightarrow> bool"
    and add :: "Key_t \<Rightarrow> 'f \<Rightarrow> 'f" and room :: "'f \<Rightarrow> Key_t multiset \<Rightarrow> Key_t \<Rightarrow> bool"
  assumes no_false_negative: "rep f M \<Longrightarrow> k \<in># M \<Longrightarrow> mem k f"
    and add_rep: "rep f M \<Longrightarrow> room f M k \<Longrightarrow> rep (add k f) (add_mset k M)"
begin

lemma negative_is_sound: "rep f M \<Longrightarrow> \<not> mem k f \<Longrightarrow> k \<notin># M"
  using no_false_negative by blast

lemma mem_after_add: "rep f M \<Longrightarrow> room f M k \<Longrightarrow> mem k (add k f)"
  using no_false_negative [OF add_rep, of f M k k] by simp

lemma add_keeps_members: "rep f M \<Longrightarrow> room f M k \<Longrightarrow> k' \<in># M \<Longrightarrow> mem k' (add k f)"
  using no_false_negative [OF add_rep, of f M k k'] by simp

end

text \<open>A filter that supports deletion of what it contains.\<close>

locale deletable_filter = approx_filter +
  fixes del :: "Key_t \<Rightarrow> 'a \<Rightarrow> 'a \<times> bool"
  assumes del_rep: "rep f M \<Longrightarrow> k \<in># M \<Longrightarrow> snd (del k f) \<and> rep (fst (del k f)) (M - {#k#})"
begin

lemma del_keeps_others: "rep f M \<Longrightarrow> k \<in># M \<Longrightarrow> k' \<noteq> k \<Longrightarrow> k' \<in># M \<Longrightarrow> mem k' (fst (del k f))"
  using del_rep [of f M k] no_false_negative [of "fst (del k f)" "M - {#k#}" k'] by (simp add: in_diff_count)

lemma del_add: "rep f M \<Longrightarrow> room f M k \<Longrightarrow> rep (fst (del k (add k f))) M"
  using del_rep [OF add_rep, of f M k k] by simp

end


section \<open>Counters against the multiset of keys\<close>

definition cbf_indices :: "CountingBloomFilter \<Rightarrow> Key_t \<Rightarrow> nat list" where
  "cbf_indices f k = map (computeHash f k) [0..<num_hash f]"

definition key_hits :: "CountingBloomFilter \<Rightarrow> Key_t \<Rightarrow> nat \<Rightarrow> nat" where
  "key_hits f k j = count_list (cbf_indices f k) j"

definition hits :: "CountingBloomFilter \<Rightarrow> Key_t multiset \<Rightarrow> nat \<Rightarrow> nat" where
  "hits f M j = (\<Sum>k\<in>#M. key_hits f k j)"

definition cbf_shape :: "CountingBloomFilter \<Rightarrow> bool" where
  "cbf_shape f \<longleftrightarrow> 0 < num_bits f \<and> length (cbf_byte_bitarr f) = num_bits f
     \<and> num_longs f = BITS_TO_LONGS (num_bits f) \<and> length (bf_long_bitarr f) = num_longs f"

definition cbf_rep :: "CountingBloomFilter \<Rightarrow> Key_t multiset \<Rightarrow> bool" where
  "cbf_rep f M \<longleftrightarrow> cbf_shape f \<and> (\<forall>j < num_bits f. unat (cbf_byte_bitarr f ! j) = hits f M j)"

definition cbf_room :: "CountingBloomFilter \<Rightarrow> Key_t multiset \<Rightarrow> Key_t \<Rightarrow> bool" where
  "cbf_room f M k \<longleftrightarrow> (\<forall>j < num_bits f. hits f (add_mset k M) j \<le> 255)"

lemma computeHash_less [simp]: "cbf_shape f \<Longrightarrow> computeHash f k i < num_bits f"
  by (simp add: computeHash_def cbf_shape_def)

lemma fold_map_at: "fold (\<lambda>i arr. let idx = h i in arr[idx := g (arr ! idx)]) is b = fold (\<lambda>idx arr. arr[idx := g (arr ! idx)]) (map h is) b"
  by (induction "is" arbitrary: b) (auto simp: Let_def)

lemma cbf_inc_unat: "unat b < 255 \<Longrightarrow> unat (cbf_inc b) = unat b + 1"
  by (simp add: cbf_inc_def word_less_nat_alt unat_word_ariths)

lemma dec_unat: "0 < unat (b :: u8) \<Longrightarrow> unat (b - 1) = unat b - 1"
  by (simp add: unat_minus_one unat_gt_0)

lemma fold_inc:
  assumes "\<forall>j < length b. unat (b ! j) + count_list is j \<le> 255" "set is \<subseteq> {..<length b}" "j < length b"
  shows "unat (fold (\<lambda>idx arr. arr[idx := cbf_inc (arr ! idx)]) is b ! j) = unat (b ! j) + count_list is j"
  using assms
proof (induction "is" arbitrary: b)
  case (Cons i "is")
  have i: "i < length b" using Cons.prems(2) by simp
  then have "unat (b ! i) < 255" using Cons.prems(1) by (auto dest!: spec [of _ i])
  note inc = cbf_inc_unat [OF this]
  let ?b = "b[i := cbf_inc (b ! i)]"
  have "\<forall>j < length ?b. unat (?b ! j) + count_list is j \<le> 255"
  proof (intro allI impI)
    fix j assume "j < length ?b"
    then show "unat (?b ! j) + count_list is j \<le> 255"
      using Cons.prems(1) [rule_format, of j] i inc by (auto simp: nth_list_update split: if_splits)
  qed
  then have "unat (fold (\<lambda>idx arr. arr[idx := cbf_inc (arr ! idx)]) is ?b ! j) = unat (?b ! j) + count_list is j"
    using Cons.prems(2,3) by (intro Cons.IH) auto
  then show ?case using inc i by (cases "i = j") auto
qed simp

lemma fold_dec:
  assumes "\<forall>j < length b. count_list is j \<le> unat (b ! j)" "set is \<subseteq> {..<length b}" "j < length b"
  shows "unat (fold (\<lambda>idx arr. arr[idx := arr ! idx - (1::u8)]) is b ! j) = unat (b ! j) - count_list is j"
  using assms
proof (induction "is" arbitrary: b)
  case (Cons i "is")
  have i: "i < length b" using Cons.prems(2) by simp
  then have "0 < unat (b ! i)" using Cons.prems(1) by (auto dest!: spec [of _ i])
  note dec = dec_unat [OF this]
  let ?b = "b[i := b ! i - 1]"
  have "\<forall>j < length ?b. count_list is j \<le> unat (?b ! j)"
  proof (intro allI impI)
    fix j assume "j < length ?b"
    then show "count_list is j \<le> unat (?b ! j)"
      using Cons.prems(1) [rule_format, of j] i dec by (auto simp: nth_list_update split: if_splits)
  qed
  then have "unat (fold (\<lambda>idx arr. arr[idx := arr ! idx - (1::u8)]) is ?b ! j) = unat (?b ! j) - count_list is j"
    using Cons.prems(2,3) by (intro Cons.IH) auto
  then show ?case using dec i by (cases "i = j") auto
qed simp

lemma length_fold_at [simp]: "length (fold (\<lambda>idx arr. arr[idx := g (arr ! idx)]) is b) = length b"
  by (induction "is" arbitrary: b) auto

lemma cbf_Insert_fold:
  "cbf_Insert k f = f\<lparr>cbf_byte_bitarr := fold (\<lambda>idx arr. arr[idx := cbf_inc (arr ! idx)]) (cbf_indices f k) (cbf_byte_bitarr f)\<rparr>"
  by (simp add: cbf_Insert_def fold_map_at cbf_indices_def)

lemmas length_fold_dec [simp] = length_fold_at [where g = "\<lambda>x. x - 1"]

lemma computeHash_update [simp]:
  "computeHash (f\<lparr>cbf_byte_bitarr := b\<rparr>) = computeHash f" "computeHash (f\<lparr>bf_long_bitarr := l\<rparr>) = computeHash f"
  by (simp_all add: computeHash_def fun_eq_iff)

lemma cbf_params_update [simp]:
  "cbf_indices (f\<lparr>cbf_byte_bitarr := b\<rparr>) = cbf_indices f" "hits (f\<lparr>cbf_byte_bitarr := b\<rparr>) = hits f"
  "cbf_indices (f\<lparr>bf_long_bitarr := l\<rparr>) = cbf_indices f" "hits (f\<lparr>bf_long_bitarr := l\<rparr>) = hits f"
  by (simp_all add: cbf_indices_def hits_def key_hits_def fun_eq_iff)

lemma cbf_indices_bounded: "cbf_shape f \<Longrightarrow> set (cbf_indices f k) \<subseteq> {..<num_bits f}"
  by (auto simp: cbf_indices_def)

lemma MightContain_loop_all: "MightContain_loop f k is \<longleftrightarrow> (\<forall>i \<in> set is. cbf_byte_bitarr f ! computeHash f k i \<noteq> 0)"
  by (induction "is") auto

lemma MightContain_all: "MightContain k f \<longleftrightarrow> (\<forall>j \<in> set (cbf_indices f k). cbf_byte_bitarr f ! j \<noteq> 0)"
  by (simp add: MightContain_def MightContain_loop_all cbf_indices_def)

lemma MightContain_idx_loop_result:
  "fst (MightContain_idx_loop f k is res) = MightContain_loop f k is"
  "MightContain_loop f k is \<Longrightarrow> snd (MightContain_idx_loop f k is res) = fold (\<lambda>i r. r[i := Some (computeHash f k i)]) is res"
  by (induction "is" arbitrary: res) (auto simp: Let_def)

lemma fold_set_nth:
  "i \<in> set is \<Longrightarrow> set is \<subseteq> {..<length r} \<Longrightarrow> fold (\<lambda>i r. r[i := g i]) is r ! i = g i"
proof (induction "is" arbitrary: r rule: rev_induct)
  case (snoc x xs)
  have "length (fold (\<lambda>i r. r[i := g i]) xs r) = length r" for r :: "'a list" by (induction xs arbitrary: r) auto
  then show ?case using snoc by (cases "i = x") (auto simp: nth_list_update)
qed simp

lemma cbf_Remove_fold:
  "cbf_Remove k f = (if MightContain k f
     then (f\<lparr>cbf_byte_bitarr := fold (\<lambda>idx arr. arr[idx := arr ! idx - 1]) (cbf_indices f k) (cbf_byte_bitarr f)\<rparr>, True) else (f, False))"
proof -
  let ?r = "MightContain_idx f k (replicate (num_hash f) None)"
  have m: "fst ?r = MightContain k f" by (simp add: MightContain_idx_def MightContain_idx_loop_result MightContain_def)
  show ?thesis
  proof (cases "MightContain k f")
    case True
    then have "snd ?r = fold (\<lambda>i r. r[i := Some (computeHash f k i)]) [0..<num_hash f] (replicate (num_hash f) None)"
      by (simp add: MightContain_idx_def MightContain_def MightContain_idx_loop_result)
    then have idx: "snd ?r ! i = Some (computeHash f k i)" if "i \<in> set [0..<num_hash f]" for i
      using fold_set_nth [OF that, of "replicate (num_hash f) None" "\<lambda>i. Some (computeHash f k i)"] by (auto simp: lessThan_atLeast0)
    have "fold (\<lambda>i arr. let idx = (case snd ?r ! i of Some j \<Rightarrow> j | None \<Rightarrow> computeHash f k i) in arr[idx := arr ! idx - 1]) [0..<num_hash f] (cbf_byte_bitarr f)
        = fold (\<lambda>i arr. let idx = computeHash f k i in arr[idx := arr ! idx - 1]) [0..<num_hash f] (cbf_byte_bitarr f)"
      using idx by (intro fold_cong) auto
    then show ?thesis using True m
      by (cases ?r) (auto simp: cbf_Remove_def fold_map_at [where g = "\<lambda>x. x - 1"] cbf_indices_def)
  next
    case False
    then show ?thesis using m by (cases ?r) (auto simp: cbf_Remove_def)
  qed
qed

lemma key_hits_pos: "key_hits f k j \<noteq> 0 \<longleftrightarrow> j \<in> set (cbf_indices f k)"
  by (simp add: key_hits_def count_list_0_iff)

lemma hits_member: "k \<in># M \<Longrightarrow> hits f M j = key_hits f k j + hits f (M - {#k#}) j"
  using insert_DiffM [of k M] by (metis (no_types, lifting) hits_def image_mset_add_mset sum_mset.add_mset)

interpretation cbf: deletable_filter cbf_rep MightContain cbf_Insert cbf_room cbf_Remove
proof
  fix f M k
  assume r: "cbf_rep f M"
  have sh: "cbf_shape f" and len: "length (cbf_byte_bitarr f) = num_bits f" using r by (auto simp: cbf_rep_def cbf_shape_def)
  show mem: "MightContain k f" if "k \<in># M"
    unfolding MightContain_all
  proof
    fix j assume j: "j \<in> set (cbf_indices f k)"
    then have "j < num_bits f" using cbf_indices_bounded [OF sh] by auto
    moreover have "hits f M j \<noteq> 0" using hits_member [OF that] key_hits_pos [of f k j] j by simp
    ultimately show "cbf_byte_bitarr f ! j \<noteq> 0" using r by (auto simp: cbf_rep_def)
  qed
  show "cbf_rep (cbf_Insert k f) (add_mset k M)" if room: "cbf_room f M k"
  proof -
    have "unat (fold (\<lambda>idx arr. arr[idx := cbf_inc (arr ! idx)]) (cbf_indices f k) (cbf_byte_bitarr f) ! j) = hits f (add_mset k M) j"
      if "j < num_bits f" for j
      using r room that cbf_indices_bounded [OF sh] len
      by (subst fold_inc) (auto simp: cbf_rep_def cbf_room_def hits_def key_hits_def add.commute)
    then show ?thesis using sh len by (simp add: cbf_Insert_fold cbf_rep_def cbf_shape_def)
  qed
  show "snd (cbf_Remove k f) \<and> cbf_rep (fst (cbf_Remove k f)) (M - {#k#})" if k: "k \<in># M"
  proof -
    have "unat (fold (\<lambda>idx arr. arr[idx := arr ! idx - 1]) (cbf_indices f k) (cbf_byte_bitarr f) ! j) = hits f (M - {#k#}) j"
      if "j < num_bits f" for j
      using r that cbf_indices_bounded [OF sh] len hits_member [OF k, of f]
      by (subst fold_dec) (auto simp: cbf_rep_def key_hits_def)
    then show ?thesis using sh len mem [OF k] by (simp add: cbf_Remove_fold cbf_rep_def cbf_shape_def)
  qed
qed

lemma CountingBloomFilter_new_rep:
  "0 < nb \<Longrightarrow> cbf_rep (CountingBloomFilter_new nh nb) {#}"
  by (simp add: cbf_rep_def cbf_shape_def CountingBloomFilter_new_def hits_def)



section \<open>The bit array sent to the client\<close>

lemma test_bit_at_bit: "test_bit_at i arr \<longleftrightarrow> bit (arr ! (i div 64)) (i mod 64)"
proof -
  have "x AND push_bit n 1 = 0 \<longleftrightarrow> \<not> bit x n" if "n < 64" for x :: u64 and n
    by (simp add: and_exp_eq_0_iff_not_bit)
  then show ?thesis by (simp add: test_bit_at_def)
qed

lemma length_set_bit_at [simp]: "length (set_bit_at i arr) = length arr"
  by (simp add: set_bit_at_def)

lemma test_set_bit_at:
  assumes "i div 64 < length arr"
  shows "test_bit_at j (set_bit_at i arr) \<longleftrightarrow> i = j \<or> test_bit_at j arr"
proof (cases "j div 64 = i div 64")
  case True
  have "i mod 64 = j mod 64 \<longleftrightarrow> i = j" using True by (metis div_mult_mod_eq)
  then show ?thesis using assms True unfolding test_bit_at_bit set_bit_at_def
    by (simp add: bit_or_iff bit_exp_iff) auto
next
  case False
  then show ?thesis using assms by (auto simp: test_bit_at_bit set_bit_at_def)
qed

lemma long_index: "j < nb \<Longrightarrow> j div 64 < BITS_TO_LONGS nb"
  unfolding BITS_TO_LONGS_def by (simp add: less_eq_div_iff_mult_less_eq div_less_iff_less_mult)

lemma fold_zero: "fold (\<lambda>i arr. arr[i := 0]) [0..<length arr] arr = replicate (length arr) (0::'a::zero)"
proof -
  have "n \<le> length arr \<Longrightarrow> fold (\<lambda>i arr. arr[i := 0]) [0..<n] arr = replicate n 0 @ drop n arr" for n
  proof (induction n)
    case (Suc n)
    then show ?case by (simp add: list_update_append Cons_nth_drop_Suc [symmetric] replicate_append_same)
  qed simp
  then show ?thesis by simp
qed

lemma fold_set_bits:
  assumes "n div 64 \<le> length arr" "\<And>i. i < n \<Longrightarrow> i div 64 < length arr"
  shows "length (fold (\<lambda>i arr. if P i then set_bit_at i arr else arr) [0..<n] arr) = length arr
    \<and> (test_bit_at j (fold (\<lambda>i arr. if P i then set_bit_at i arr else arr) [0..<n] arr) \<longleftrightarrow> j < n \<and> P j \<or> test_bit_at j arr)"
  using assms(2)
proof (induction n)
  case (Suc n)
  then have IH: "length (fold (\<lambda>i arr. if P i then set_bit_at i arr else arr) [0..<n] arr) = length arr"
    "test_bit_at j (fold (\<lambda>i arr. if P i then set_bit_at i arr else arr) [0..<n] arr) \<longleftrightarrow> j < n \<and> P j \<or> test_bit_at j arr" by auto
  have "n div 64 < length arr" using Suc.prems by simp
  then show ?case using IH by (auto simp: test_set_bit_at less_Suc_eq)
qed simp

lemma ToOrdinaryBF_bits:
  assumes "cbf_shape f" "j < num_bits f"
  shows "test_bit_at j (bf_long_bitarr (fst (ToOrdinaryBF f))) \<longleftrightarrow> cbf_byte_bitarr f ! j \<noteq> 0"
proof -
  let ?z = "replicate (num_longs f) (0 :: u64)"
  have z: "fold (\<lambda>i arr. arr[i := 0]) [0..<num_longs f] (bf_long_bitarr f) = ?z"
    using fold_zero [of "bf_long_bitarr f"] assms(1) by (simp add: cbf_shape_def)
  have "test_bit_at j (fold (\<lambda>i arr. if cbf_byte_bitarr f ! i > 0 then set_bit_at i arr else arr) [0..<num_bits f] ?z)
      \<longleftrightarrow> j < num_bits f \<and> cbf_byte_bitarr f ! j > 0 \<or> test_bit_at j ?z"
    using fold_set_bits [of "num_bits f" ?z "\<lambda>i. cbf_byte_bitarr f ! i > 0" j] long_index [of _ "num_bits f"] assms(1)
    by (simp add: cbf_shape_def) (simp add: BITS_TO_LONGS_def div_le_mono)
  moreover have "\<not> test_bit_at j ?z" using assms long_index [of j "num_bits f"] by (simp add: test_bit_at_bit cbf_shape_def)
  ultimately show ?thesis using assms(2) by (simp add: ToOrdinaryBF_def z word_gt_0)
qed

lemma BFMightContain_all:
  "BFMightContain k f \<longleftrightarrow> (\<forall>j \<in> set (cbf_indices f k). test_bit_at j (bf_long_bitarr f))"
proof -
  have "BFMightContain_loop f k is \<longleftrightarrow> (\<forall>i \<in> set is. test_bit_at (computeHash f k i) (bf_long_bitarr f))" for "is"
    by (induction "is") auto
  then show ?thesis by (simp add: BFMightContain_def cbf_indices_def)
qed

lemma ToOrdinaryBF_fields [simp]:
  "cbf_byte_bitarr (fst (ToOrdinaryBF f)) = cbf_byte_bitarr f" "cbf_indices (fst (ToOrdinaryBF f)) = cbf_indices f"
  "num_bits (fst (ToOrdinaryBF f)) = num_bits f" "num_hash (fst (ToOrdinaryBF f)) = num_hash f"
  by (simp_all add: ToOrdinaryBF_def Let_def)

lemma BF_after_conversion:
  assumes "cbf_shape f"
  shows "BFMightContain k (fst (ToOrdinaryBF f)) = MightContain k f"
  using cbf_indices_bounded [OF assms, of k] ToOrdinaryBF_bits [OF assms]
  by (auto simp: BFMightContain_all MightContain_all subset_iff)

lemma fold_set_bit_list:
  assumes "\<forall>i \<in> set is. i div 64 < length arr"
  shows "test_bit_at j (fold set_bit_at is arr) \<longleftrightarrow> j \<in> set is \<or> test_bit_at j arr"
  using assms by (induction "is" arbitrary: arr) (auto simp: test_set_bit_at)

lemma BFInsert_bits:
  assumes "cbf_shape f"
  shows "test_bit_at j (bf_long_bitarr (BFInsert k f)) \<longleftrightarrow> j \<in> set (cbf_indices f k) \<or> test_bit_at j (bf_long_bitarr f)"
proof -
  have "fold (\<lambda>i. set_bit_at (computeHash f k i)) [0..<num_hash f] (bf_long_bitarr f) = fold set_bit_at (cbf_indices f k) (bf_long_bitarr f)"
    by (simp add: cbf_indices_def fold_map comp_def)
  moreover have "\<forall>i \<in> set (cbf_indices f k). i div 64 < length (bf_long_bitarr f)"
    using cbf_indices_bounded [OF assms, of k] long_index [of _ "num_bits f"] assms by (auto simp: cbf_shape_def)
  ultimately show ?thesis using fold_set_bit_list by (simp add: BFInsert_def)
qed

lemma length_fold_set_bit [simp]: "length (fold (\<lambda>i. set_bit_at (h i)) is arr) = length arr"
  by (induction "is" arbitrary: arr) auto

text \<open>The plain bit filter of the daemon is an approximate filter too, without bound on its contents.\<close>

definition bf_rep :: "CountingBloomFilter \<Rightarrow> Key_t multiset \<Rightarrow> bool" where
  "bf_rep f M \<longleftrightarrow> cbf_shape f \<and> (\<forall>k \<in># M. BFMightContain k f)"

interpretation dbf: approx_filter bf_rep BFMightContain BFInsert "\<lambda>_ _ _. True"
proof
  fix f M k
  assume r: "bf_rep f M"
  then show "k \<in># M \<Longrightarrow> BFMightContain k f" by (simp add: bf_rep_def)
  have sh: "cbf_shape f" using r by (simp add: bf_rep_def)
  have "cbf_shape (BFInsert k f)" "cbf_indices (BFInsert k f) = cbf_indices f" using sh by (simp_all add: cbf_shape_def BFInsert_def)
  then show "bf_rep (BFInsert k f) (add_mset k M)"
    using r BFInsert_bits [OF sh] by (auto simp: bf_rep_def BFMightContain_all)
qed


section \<open>Prime sizes\<close>

definition is_prime :: "nat \<Rightarrow> bool" where
  "is_prime p \<longleftrightarrow> 1 < p \<and> (\<forall>d. d dvd p \<longrightarrow> d = 1 \<or> d = p)"

lemma generate_prime_divides_iff:
  "generate_prime_divides n i \<longleftrightarrow> (\<exists>d. i \<le> d \<and> d \<le> n div 2 \<and> d dvd n)"
proof (induction n i rule: generate_prime_divides.induct)
  case (1 n i)
  show ?case
  proof (cases "i \<le> n div 2 \<and> \<not> i dvd n")
    case True
    then have "(\<exists>d. i \<le> d \<and> d \<le> n div 2 \<and> d dvd n) \<longleftrightarrow> (\<exists>d. i + 1 \<le> d \<and> d \<le> n div 2 \<and> d dvd n)"
      by (metis Suc_eq_plus1 Suc_leD le_antisym not_less_eq_eq)
    then show ?thesis using 1 True by (subst generate_prime_divides.simps) (simp add: dvd_eq_mod_eq_0)
  next
    case False
    then show ?thesis by (subst generate_prime_divides.simps) (auto simp: dvd_eq_mod_eq_0)
  qed
qed

lemma prime_test: "n \<noteq> 0 \<and> n \<noteq> 1 \<and> \<not> generate_prime_divides n 2 \<longleftrightarrow> is_prime n"
proof
  assume n: "n \<noteq> 0 \<and> n \<noteq> 1 \<and> \<not> generate_prime_divides n 2"
  have "d = 1 \<or> d = n" if d: "d dvd n" for d
  proof (rule ccontr)
    assume ne: "\<not> (d = 1 \<or> d = n)"
    obtain e where e: "n = d * e" using d by blast
    then have "d \<noteq> 0" "e \<noteq> 0" "e \<noteq> 1" using n ne by auto
    then have "2 \<le> d" "d \<le> n div 2" using ne e by (auto simp: less_eq_div_iff_mult_less_eq)
    then show False using n d by (auto simp: generate_prime_divides_iff)
  qed
  then show "is_prime n" using n by (auto simp: is_prime_def)
next
  assume p: "is_prime n"
  then have "\<not> (2 \<le> d \<and> d \<le> n div 2 \<and> d dvd n)" for d by (auto simp: is_prime_def)
  then show "n \<noteq> 0 \<and> n \<noteq> 1 \<and> \<not> generate_prime_divides n 2" using p by (auto simp: is_prime_def generate_prime_divides_iff)
qed

lemma generate_prime_spec:
  "low \<le> generate_prime low high \<and> (\<forall>p. low \<le> p \<and> p < generate_prime low high \<longrightarrow> \<not> is_prime p)
    \<and> (low < high \<longrightarrow> generate_prime low high \<le> high \<and> (generate_prime low high < high \<longrightarrow> is_prime (generate_prime low high)))"
proof (induction low high rule: generate_prime.induct)
  case (1 low high)
  show ?case
  proof (cases "low < high \<and> \<not> is_prime low")
    case True
    then have e: "generate_prime low high = generate_prime (low + 1) high"
      using prime_test [of low] by (subst generate_prime.simps) auto
    have IH: "low + 1 \<le> generate_prime (low + 1) high \<and> (\<forall>p. low + 1 \<le> p \<and> p < generate_prime (low + 1) high \<longrightarrow> \<not> is_prime p)
      \<and> (low + 1 < high \<longrightarrow> generate_prime (low + 1) high \<le> high \<and> (generate_prime (low + 1) high < high \<longrightarrow> is_prime (generate_prime (low + 1) high)))"
      using 1 True prime_test [of low] by blast
    have "generate_prime (low + 1) high = high" if "low + 1 = high"
      using that by (subst generate_prime.simps) simp
    moreover have "\<not> is_prime p" if "low \<le> p" "p < generate_prime (low + 1) high" for p
      using IH True that by (cases "p = low") auto
    ultimately show ?thesis unfolding e using IH True by (cases "low + 1 = high") auto
  next
    case False
    then have "generate_prime low high = low" using prime_test [of low] by (subst generate_prime.simps) auto
    then show ?thesis using False by auto
  qed
qed



section \<open>Properties of the filters\<close>

datatype cbf_op = CInsert Key_t | CRemove Key_t

fun cbf_run :: "cbf_op list \<Rightarrow> CountingBloomFilter \<Rightarrow> CountingBloomFilter" where
  "cbf_run [] f = f"
| "cbf_run (CInsert k # ops) f = cbf_run ops (cbf_Insert k f)"
| "cbf_run (CRemove k # ops) f = cbf_run ops (fst (cbf_Remove k f))"

text \<open>The multiset a sequence leaves behind, and the discipline under which the counters are exact:
  only present keys are removed and no counter passes 255.\<close>

fun ops_contents :: "cbf_op list \<Rightarrow> Key_t multiset \<Rightarrow> Key_t multiset" where
  "ops_contents [] M = M"
| "ops_contents (CInsert k # ops) M = ops_contents ops (add_mset k M)"
| "ops_contents (CRemove k # ops) M = ops_contents ops (M - {#k#})"

fun ops_legal :: "CountingBloomFilter \<Rightarrow> cbf_op list \<Rightarrow> Key_t multiset \<Rightarrow> bool" where
  "ops_legal f [] M = True"
| "ops_legal f (CInsert k # ops) M = (cbf_room f M k \<and> ops_legal f ops (add_mset k M))"
| "ops_legal f (CRemove k # ops) M = (k \<in># M \<and> ops_legal f ops (M - {#k#}))"

lemma ops_legal_cong:
  "num_hash f = num_hash g \<Longrightarrow> num_bits f = num_bits g \<Longrightarrow> ops_legal f ops M = ops_legal g ops M"
proof (induction f ops M rule: ops_legal.induct)
  case (2 f k ops M)
  have "computeHash f = computeHash g" using "2.prems" by (simp add: computeHash_def fun_eq_iff)
  then have "cbf_indices f = cbf_indices g" using "2.prems" by (intro ext) (simp add: cbf_indices_def)
  then have "hits f M j = hits g M j" for M j by (simp add: hits_def key_hits_def)
  then show ?case using 2 by (simp add: cbf_room_def)
qed simp_all

lemma cbf_run_rep:
  "cbf_rep f M \<Longrightarrow> ops_legal f ops M \<Longrightarrow> cbf_rep (cbf_run ops f) (ops_contents ops M)"
proof (induction ops f arbitrary: M rule: cbf_run.induct)
  case (2 k ops f)
  then show ?case using cbf.add_rep [of f M k] ops_legal_cong [of f "cbf_Insert k f" ops "add_mset k M"]
    by (simp add: cbf_Insert_def)
next
  case (3 k ops f)
  have "num_hash (fst (cbf_Remove k f)) = num_hash f" "num_bits (fst (cbf_Remove k f)) = num_bits f"
    by (simp_all add: cbf_Remove_fold)
  then show ?case using 3 cbf.del_rep [of f M k] ops_legal_cong [of f "fst (cbf_Remove k f)" ops "M - {#k#}"] by simp
qed simp

text \<open>
  C32. No false negatives: after any sequence of insertions and removals from a new filter that
  removes only keys present and keeps every counter at most 255, each counter is exactly the number
  of hash hits of the keys still present, and the filter answers yes for all of them.
\<close>

theorem cbf_no_false_negatives:
  assumes "0 < nb" "f = CountingBloomFilter_new nh nb" "ops_legal f ops {#}"
  shows "cbf_rep (cbf_run ops f) (ops_contents ops {#}) \<and> (\<forall>k. k \<in># ops_contents ops {#} \<longrightarrow> MightContain k (cbf_run ops f))"
  using cbf_run_rep [OF CountingBloomFilter_new_rep [OF assms(1)], of nh ops] assms(2,3) cbf.no_false_negative by blast

theorem cbf_no_false_negatives_witness:
  "ops_legal (CountingBloomFilter_new 1 1) [CInsert 5, CInsert 7, CRemove 5] {#}
   \<and> MightContain 7 (cbf_run [CInsert 5, CInsert 7, CRemove 5] (CountingBloomFilter_new 1 1))"
proof -
  have "hits (CountingBloomFilter_new 1 1) M j \<le> size M" for M j
    by (induction M) (auto simp: hits_def key_hits_def cbf_indices_def CountingBloomFilter_new_def)
  then have "hits (CountingBloomFilter_new 1 1) M j \<le> 255" if "size M \<le> 255" for M j using that order_trans by blast
  then have l: "ops_legal (CountingBloomFilter_new 1 1) [CInsert 5, CInsert 7, CRemove 5] {#}" by (simp add: cbf_room_def)
  have "7 \<in># ops_contents [CInsert 5, CInsert 7, CRemove 5] {#}" by simp
  then show ?thesis using cbf_no_false_negatives [OF zero_less_one refl l] l by blast
qed

text \<open>
  The bit array built for the client answers every lookup as the counters do.
\<close>

theorem to_ordinary_bf_exact:
  assumes "cbf_shape f"
  shows "BFMightContain k (fst (ToOrdinaryBF f)) = MightContain k f
    \<and> cbf_byte_bitarr (fst (ToOrdinaryBF f)) = cbf_byte_bitarr f"
  using BF_after_conversion [OF assms] by simp

theorem to_ordinary_bf_exact_witness:
  "cbf_shape (CountingBloomFilter_new 4 101) \<and> BFMightContain 9 (fst (ToOrdinaryBF (CountingBloomFilter_new 4 101))) = MightContain 9 (CountingBloomFilter_new 4 101)"
proof -
  have "cbf_shape (CountingBloomFilter_new 4 101)" by (simp add: cbf_shape_def CountingBloomFilter_new_def)
  then show ?thesis using to_ordinary_bf_exact by blast
qed

text \<open>
  The counters do not saturate: an insertion that finds the counters of its key at 255 resets
  them to 1, and one removal later the filter denies the key although 255 insertions of it remain.
\<close>

theorem cbf_overflow_causes_false_negative:
  assumes "cbf_shape f" "0 < num_hash f" "distinct (cbf_indices f k)" "\<forall>j \<in> set (cbf_indices f k). cbf_byte_bitarr f ! j = 255"
  shows "\<not> MightContain k (fst (cbf_Remove k (cbf_Insert k f)))"
proof -
  have upd: "j \<in> set is \<Longrightarrow> set is \<subseteq> {..<length b} \<Longrightarrow> distinct is \<Longrightarrow> fold (\<lambda>idx arr. arr[idx := g (arr ! idx)]) is b ! j = g (b ! j)"
    for "is" and b :: "u8 list" and g j
  proof (induction "is" arbitrary: b)
    case (Cons i "is")
    have keep: "j \<notin> set is \<Longrightarrow> fold (\<lambda>idx arr. arr[idx := g (arr ! idx)]) is b ! j = b ! j" for b :: "u8 list"
      by (induction "is" arbitrary: b) auto
    show ?case using Cons keep [of "b[i := g (b ! i)]"] by (cases "j = i") auto
  qed simp
  let ?is = "cbf_indices f k" and ?f = "cbf_Insert k f"
  have len: "length (cbf_byte_bitarr f) = num_bits f" using assms(1) by (simp add: cbf_shape_def)
  have one: "cbf_byte_bitarr ?f ! j = 1" if "j \<in> set ?is" for j
    using upd [OF that _ assms(3), of "cbf_byte_bitarr f" cbf_inc] cbf_indices_bounded [OF assms(1), of k] len assms(4) that
    by (simp add: cbf_Insert_fold cbf_inc_def)
  have f: "cbf_indices ?f = cbf_indices f" "length (cbf_byte_bitarr ?f) = num_bits f" using len by (simp_all add: cbf_Insert_fold)
  have "MightContain k ?f" using one f by (simp add: MightContain_all)
  moreover have "fold (\<lambda>idx arr. arr[idx := arr ! idx - 1]) ?is (cbf_byte_bitarr ?f) ! j = 0" if "j \<in> set ?is" for j
    using upd [OF that _ assms(3), of "cbf_byte_bitarr ?f" "\<lambda>x. x - 1"] cbf_indices_bounded [OF assms(1), of k] f(2) one [OF that] by simp
  moreover have "cbf_indices f k \<noteq> []" using assms(2) by (simp add: cbf_indices_def)
  ultimately show ?thesis using f by (auto simp: cbf_Remove_fold MightContain_all neq_Nil_conv)
qed

theorem cbf_overflow_causes_false_negative_witness:
  "\<not> MightContain 7 (fst (cbf_Remove 7 (cbf_Insert 7
      \<lparr>num_hash = 1, num_bits = 1, num_longs = 1, cbf_byte_bitarr = [255], bf_long_bitarr = [0]\<rparr>)))"
  by (rule cbf_overflow_causes_false_negative)
    (simp_all add: cbf_shape_def BITS_TO_LONGS_def cbf_indices_def computeHash_def)

text \<open>
  The size search terminates and returns the least prime from \<open>low\<close> on when there is one below
  \<open>high\<close>, and \<open>high\<close> otherwise.
\<close>

theorem generate_prime_least:
  assumes "low < high"
  shows "(\<forall>p. low \<le> p \<and> p < generate_prime low high \<longrightarrow> \<not> is_prime p)
    \<and> low \<le> generate_prime low high \<and> (generate_prime low high = high \<or> generate_prime low high < high \<and> is_prime (generate_prime low high))"
  using generate_prime_spec [of low high] assms by auto

theorem generate_prime_least_witness: "generate_prime 24 74 = 29 \<and> is_prime 29 \<and> \<not> is_prime 28"
proof -
  have e: "generate_prime 24 74 = 29" by code_simp
  have "(24::nat) < 74" by simp
  then show ?thesis using generate_prime_least [of 24 74] unfolding e by simp
qed

end
