(* ===== verification/Lfstack.thy ===== *)
theory Lfstack
  imports Prelude "HOL-Library.Multiset"
begin

text \<open>
  The stack of addresses that every free list of the daemon is made of
  (\<^verbatim>\<open>daemon/util/lfstack.cpp\<close>, \<^verbatim>\<open>daemon/freelist.hpp\<close>): a fixed buffer of nodes threaded into two
  chains, the stack itself (\<^verbatim>\<open>head\<close>) and the spare nodes (\<^verbatim>\<open>free\<close>), each behind a head word with a tag
  that grows on every change.  A node pointer is an index into the buffer, NULL is \<^const>\<open>None\<close>.

  The operations here are those of a caller that meets no contention, so that each compare-exchange
  loop runs once; the theory \<^verbatim>\<open>Lfstack_Steps\<close> has the steps of contending threads and shows that a thread
  running alone does what these operations do.  The contract, a stack of bounded
  capacity, is the locale \<^verbatim>\<open>bounded_stack\<close>.
\<close>

section \<open>Nodes, heads and the two pointer operations\<close>

record lfstack_node =
  nvalue :: u64
  nnext :: "nat option"

record lfstack_head =
  aba :: u64
  hnode :: "nat option"

record LockFreeStack =
  node_buffer :: "lfstack_node list"
  head :: lfstack_head
  free :: lfstack_head

definition lf_push :: "lfstack_node list \<Rightarrow> lfstack_head \<Rightarrow> nat \<Rightarrow> lfstack_node list \<times> lfstack_head" where
  "lf_push nb orig node =
     (nb[node := (nb ! node)\<lparr>nnext := hnode orig\<rparr>], \<lparr>aba = aba orig + 1, hnode = Some node\<rparr>)"

definition lf_pop :: "lfstack_node list \<Rightarrow> lfstack_head \<Rightarrow> lfstack_head \<times> nat option" where
  "lf_pop nb orig = (case hnode orig of
       None \<Rightarrow> (orig, None)
     | Some n \<Rightarrow> (\<lparr>aba = aba orig + 1, hnode = nnext (nb ! n)\<rparr>, Some n))"

text \<open>
  The constructor threads every node of the freshly allocated buffer, whose contents are arbitrary,
  into the chain of spare nodes.  For zero elements the loop bound \<^verbatim>\<open>num_elems - 1\<close> wraps and the code
  writes outside of the buffer: the model has no result.
\<close>

definition LockFreeStack_new :: "lfstack_node list \<Rightarrow> LockFreeStack option" where
  "LockFreeStack_new raw = (if raw = [] then None else
     Some \<lparr>node_buffer = map (\<lambda>i. (raw ! i)\<lparr>nnext := if i < length raw - 1 then Some (i + 1) else None\<rparr>) [0..<length raw],
           head = \<lparr>aba = 0, hnode = None\<rparr>,
           free = \<lparr>aba = 0, hnode = Some 0\<rparr>\<rparr>)"

definition stack_push :: "u64 \<Rightarrow> LockFreeStack \<Rightarrow> LockFreeStack \<times> int" where
  "stack_push value s = (case lf_pop (node_buffer s) (free s) of
       (_, None) \<Rightarrow> (s, - 1)
     | (fr, Some node) \<Rightarrow>
         (let nb = (node_buffer s)[node := (node_buffer s ! node)\<lparr>nvalue := value\<rparr>];
              (nb', hd') = lf_push nb (head s) node
          in (s\<lparr>node_buffer := nb', head := hd', free := fr\<rparr>, 0)))"

definition stack_pop :: "LockFreeStack \<Rightarrow> LockFreeStack \<times> u64" where
  "stack_pop s = (case lf_pop (node_buffer s) (head s) of
       (_, None) \<Rightarrow> (s, - 1)
     | (hd', Some node) \<Rightarrow>
         (let value = nvalue (node_buffer s ! node);
              (nb', fr) = lf_push (node_buffer s) (free s) node
          in (s\<lparr>node_buffer := nb', head := hd', free := fr\<rparr>, value)))"


section \<open>Chains\<close>

text \<open>\<open>chain nb p is\<close>: following \<^verbatim>\<open>next\<close> from \<open>p\<close> visits exactly the nodes \<open>is\<close> and ends in NULL.\<close>

fun chain :: "lfstack_node list \<Rightarrow> nat option \<Rightarrow> nat list \<Rightarrow> bool" where
  "chain nb p [] = (p = None)"
| "chain nb p (i # is) = (p = Some i \<and> i < length nb \<and> chain nb (nnext (nb ! i)) is)"

lemma chain_update_other [simp]:
  "i \<notin> set is \<Longrightarrow> chain (nb[i := x]) p is = chain nb p is"
  by (induction "is" arbitrary: p) auto

lemma nnext_update_value [simp]: "nnext (nb[i := (nb ! i)\<lparr>nvalue := v\<rparr>] ! j) = nnext (nb ! j)"
  by (cases "i < length nb"; cases "i = j"; simp add: list_update_beyond)

lemma chain_update_value [simp]:
  "chain (nb[i := (nb ! i)\<lparr>nvalue := v\<rparr>]) p is = chain nb p is"
proof (induction "is" arbitrary: p)
  case (Cons j js)
  show ?case by (simp add: Cons.IH)
qed simp

lemma map_update_other [simp]:
  "n \<notin> set is \<Longrightarrow> map (\<lambda>i. g (nb[n := x] ! i)) is = map (\<lambda>i. g (nb ! i)) is"
  by (induction "is") auto

lemma chain_unique: "chain nb p is \<Longrightarrow> chain nb p js \<Longrightarrow> is = js"
proof (induction "is" arbitrary: p js)
  case Nil
  then show ?case by (cases js) auto
next
  case (Cons i "is")
  then show ?case by (cases js) auto
qed

lemma chain_bounded: "chain nb p is \<Longrightarrow> set is \<subseteq> {..<length nb}"
  by (induction "is" arbitrary: p) auto

text \<open>The nodes reached within a number of steps: the executable reading of a chain.\<close>

fun walk :: "lfstack_node list \<Rightarrow> nat \<Rightarrow> nat option \<Rightarrow> nat list" where
  "walk nb (Suc k) (Some i) = i # walk nb k (nnext (nb ! i))"
| "walk nb k p = []"

lemma walk_chain: "chain nb p is \<Longrightarrow> length is \<le> k \<Longrightarrow> walk nb k p = is"
proof (induction "is" arbitrary: p k)
  case Nil
  then show ?case by (cases k) auto
next
  case (Cons i "is")
  then show ?case by (cases k) auto
qed

definition lf_cap :: "LockFreeStack \<Rightarrow> nat" where
  "lf_cap s = length (node_buffer s)"

definition lf_nodes :: "LockFreeStack \<Rightarrow> nat list" where
  "lf_nodes s = walk (node_buffer s) (lf_cap s) (hnode (head s))"

definition lf_spare :: "LockFreeStack \<Rightarrow> nat list" where
  "lf_spare s = walk (node_buffer s) (lf_cap s) (hnode (free s))"

definition lf_abs :: "LockFreeStack \<Rightarrow> u64 list" where
  "lf_abs s = map (\<lambda>i. nvalue (node_buffer s ! i)) (lf_nodes s)"

text \<open>The invariant: the two chains partition the buffer.\<close>

definition lf_inv :: "LockFreeStack \<Rightarrow> bool" where
  "lf_inv s \<longleftrightarrow> chain (node_buffer s) (hnode (head s)) (lf_nodes s)
     \<and> chain (node_buffer s) (hnode (free s)) (lf_spare s)
     \<and> distinct (lf_nodes s @ lf_spare s)
     \<and> set (lf_nodes s @ lf_spare s) = {..<lf_cap s}"

lemma distinct_below_length:
  "distinct is \<Longrightarrow> set is \<subseteq> {..<n} \<Longrightarrow> length is \<le> n"
  using card_mono [of "{..<n}" "set is"] by (simp add: distinct_card)

lemma lf_invI:
  assumes "chain nb (hnode h1) is" "chain nb (hnode f1) js" "distinct (is @ js)" "set (is @ js) = {..<length nb}"
  shows "lf_inv \<lparr>node_buffer = nb, head = h1, free = f1\<rparr> \<and> lf_nodes \<lparr>node_buffer = nb, head = h1, free = f1\<rparr> = is
    \<and> lf_spare \<lparr>node_buffer = nb, head = h1, free = f1\<rparr> = js"
proof -
  have "length is \<le> length nb" "length js \<le> length nb"
    using assms(3,4) by (auto intro!: distinct_below_length)
  then show ?thesis using assms by (simp add: lf_inv_def lf_nodes_def lf_spare_def lf_cap_def walk_chain)
qed

lemma lf_inv_length:
  assumes "lf_inv s"
  shows "length (lf_abs s) + length (lf_spare s) = lf_cap s"
proof -
  have "card (set (lf_nodes s @ lf_spare s)) = lf_cap s" using assms by (simp add: lf_inv_def)
  moreover have "card (set (lf_nodes s @ lf_spare s)) = length (lf_nodes s @ lf_spare s)"
    using assms unfolding lf_inv_def by (intro distinct_card) blast
  ultimately show ?thesis by (simp add: lf_abs_def)
qed

lemma stack_push_spare:
  assumes "lf_inv s" "lf_spare s = n # js"
  shows "\<exists>s'. stack_push v s = (s', 0) \<and> lf_inv s' \<and> lf_abs s' = v # lf_abs s \<and> lf_cap s' = lf_cap s"
proof -
  let ?nb = "node_buffer s" and ?is = "lf_nodes s"
  have c: "chain ?nb (hnode (head s)) ?is" "hnode (free s) = Some n" "n < length ?nb"
      "chain ?nb (nnext (?nb ! n)) js" "distinct (?is @ n # js)" "set (?is @ n # js) = {..<length ?nb}"
    using assms by (simp_all add: lf_inv_def lf_cap_def)
  let ?nb' = "?nb[n := (?nb ! n)\<lparr>nvalue := v, nnext := hnode (head s)\<rparr>]"
  have eq: "stack_push v s = (\<lparr>node_buffer = ?nb', head = \<lparr>aba = aba (head s) + 1, hnode = Some n\<rparr>,
      free = \<lparr>aba = aba (free s) + 1, hnode = nnext (?nb ! n)\<rparr>\<rparr>, 0)"
    using c(2,3) by (cases s) (simp add: stack_push_def lf_pop_def lf_push_def)
  have "n \<notin> set ?is" "n \<notin> set js" using c(5) by auto
  then have "chain ?nb' (Some n) (n # ?is)" "chain ?nb' (nnext (?nb ! n)) js"
    using c by simp_all
  moreover have "distinct ((n # ?is) @ js)" "set ((n # ?is) @ js) = {..<length ?nb'}" using c(5,6) by auto
  ultimately have "lf_inv (fst (stack_push v s)) \<and> lf_nodes (fst (stack_push v s)) = n # ?is"
    using lf_invI [of ?nb' "\<lparr>aba = aba (head s) + 1, hnode = Some n\<rparr>" "n # ?is" "\<lparr>aba = aba (free s) + 1, hnode = nnext (?nb ! n)\<rparr>" js] eq c(1,3)
    by simp
  moreover have "map (\<lambda>i. nvalue (?nb' ! i)) ?is = map (\<lambda>i. nvalue (?nb ! i)) ?is"
    using \<open>n \<notin> set ?is\<close> by simp
  ultimately show ?thesis using eq c(3) by (simp add: lf_abs_def lf_cap_def)
qed

lemma stack_push_full:
  assumes "lf_inv s" "lf_spare s = []"
  shows "stack_push v s = (s, - 1)"
  using assms by (simp add: lf_inv_def stack_push_def lf_pop_def)

lemma stack_pop_nodes:
  assumes "lf_inv s" "lf_nodes s = n # is"
  shows "\<exists>s'. stack_pop s = (s', nvalue (node_buffer s ! n)) \<and> lf_inv s' \<and> lf_abs s' = tl (lf_abs s) \<and> lf_cap s' = lf_cap s"
proof -
  let ?nb = "node_buffer s" and ?js = "lf_spare s"
  have c: "chain ?nb (hnode (free s)) ?js" "hnode (head s) = Some n" "n < length ?nb"
      "chain ?nb (nnext (?nb ! n)) is" "distinct (n # is @ ?js)" "set (n # is @ ?js) = {..<length ?nb}"
    using assms by (simp_all add: lf_inv_def lf_cap_def)
  let ?nb' = "?nb[n := (?nb ! n)\<lparr>nnext := hnode (free s)\<rparr>]"
  have eq: "stack_pop s = (\<lparr>node_buffer = ?nb', head = \<lparr>aba = aba (head s) + 1, hnode = nnext (?nb ! n)\<rparr>,
      free = \<lparr>aba = aba (free s) + 1, hnode = Some n\<rparr>\<rparr>, nvalue (?nb ! n))"
    using c(2,3) by (cases s) (simp add: stack_pop_def lf_pop_def lf_push_def)
  have "n \<notin> set is" "n \<notin> set ?js" using c(5) by auto
  then have "chain ?nb' (Some n) (n # ?js)" "chain ?nb' (nnext (?nb ! n)) is"
    using c by simp_all
  moreover have "distinct (is @ n # ?js)" "set (is @ n # ?js) = {..<length ?nb'}" using c(5,6) by auto
  ultimately have "lf_inv (fst (stack_pop s)) \<and> lf_nodes (fst (stack_pop s)) = is"
    using lf_invI [of ?nb' "\<lparr>aba = aba (head s) + 1, hnode = nnext (?nb ! n)\<rparr>" "is" "\<lparr>aba = aba (free s) + 1, hnode = Some n\<rparr>" "n # ?js"] eq c(1,3)
    by simp
  moreover have "map (\<lambda>i. nvalue (?nb' ! i)) is = map (\<lambda>i. nvalue (?nb ! i)) is"
    using \<open>n \<notin> set is\<close> by simp
  ultimately show ?thesis using eq assms(2) by (simp add: lf_abs_def lf_cap_def)
qed

lemma stack_pop_empty:
  assumes "lf_inv s" "lf_nodes s = []"
  shows "stack_pop s = (s, - 1)"
  using assms by (simp add: lf_inv_def stack_pop_def lf_pop_def)


section \<open>The contract of a bounded stack\<close>

text \<open>
  A sequence of operations with the results each returns, over any stack, and the same over the
  abstract one: a list with a capacity, on which a push to a full stack and a pop from an empty one
  return -1 and change nothing.
\<close>

datatype stack_op = SPush u64 | SPop

datatype stack_res = RPush int | RPop u64

fun stack_run :: "(u64 \<Rightarrow> 's \<Rightarrow> 's \<times> int) \<Rightarrow> ('s \<Rightarrow> 's \<times> u64) \<Rightarrow> stack_op list \<Rightarrow> 's \<Rightarrow> 's \<times> stack_res list" where
  "stack_run push pop [] s = (s, [])"
| "stack_run push pop (SPush v # ops) s =
     (case push v s of (s1, r) \<Rightarrow> case stack_run push pop ops s1 of (s2, rs) \<Rightarrow> (s2, RPush r # rs))"
| "stack_run push pop (SPop # ops) s =
     (case pop s of (s1, r) \<Rightarrow> case stack_run push pop ops s1 of (s2, rs) \<Rightarrow> (s2, RPop r # rs))"

definition spec_push :: "nat \<Rightarrow> u64 \<Rightarrow> u64 list \<Rightarrow> u64 list \<times> int" where
  "spec_push n v vs = (if length vs < n then (v # vs, 0) else (vs, - 1))"

definition spec_pop :: "u64 list \<Rightarrow> u64 list \<times> u64" where
  "spec_pop vs = (case vs of [] \<Rightarrow> ([], - 1) | v # vs \<Rightarrow> (vs, v))"

locale bounded_stack =
  fixes abs :: "'s \<Rightarrow> u64 list" and inv :: "'s \<Rightarrow> bool" and cap :: "'s \<Rightarrow> nat"
    and push :: "u64 \<Rightarrow> 's \<Rightarrow> 's \<times> int" and pop :: "'s \<Rightarrow> 's \<times> u64"
  assumes inv_cap: "inv s \<Longrightarrow> length (abs s) \<le> cap s"
    and push_room: "inv s \<Longrightarrow> length (abs s) < cap s \<Longrightarrow>
          \<exists>s'. push v s = (s', 0) \<and> inv s' \<and> abs s' = v # abs s \<and> cap s' = cap s"
    and push_full: "inv s \<Longrightarrow> length (abs s) = cap s \<Longrightarrow> push v s = (s, - 1)"
    and pop_some: "inv s \<Longrightarrow> abs s = v # vs \<Longrightarrow>
          \<exists>s'. pop s = (s', v) \<and> inv s' \<and> abs s' = vs \<and> cap s' = cap s"
    and pop_none: "inv s \<Longrightarrow> abs s = [] \<Longrightarrow> pop s = (s, - 1)"
begin

lemma push_inv: "inv s \<Longrightarrow> inv (fst (push v s)) \<and> cap (fst (push v s)) = cap s"
  using inv_cap [of s] push_room [of s v] push_full [of s v] by (cases "length (abs s) < cap s") auto

lemma push_abs: "inv s \<Longrightarrow> abs (fst (push v s)) = (if length (abs s) < cap s then v # abs s else abs s)"
  using inv_cap [of s] push_room [of s v] push_full [of s v] by (cases "length (abs s) < cap s") auto

lemma push_result: "inv s \<Longrightarrow> snd (push v s) = (if length (abs s) < cap s then 0 else - 1)"
  using inv_cap [of s] push_room [of s v] push_full [of s v] by (cases "length (abs s) < cap s") auto

lemma pop_inv: "inv s \<Longrightarrow> inv (fst (pop s)) \<and> cap (fst (pop s)) = cap s"
  using pop_some [of s] pop_none [of s] by (cases "abs s") auto

lemma pop_abs: "inv s \<Longrightarrow> abs (fst (pop s)) = tl (abs s)"
  using pop_some [of s] pop_none [of s] by (cases "abs s") auto

lemma pop_result: "inv s \<Longrightarrow> snd (pop s) = (case abs s of [] \<Rightarrow> - 1 | v # _ \<Rightarrow> v)"
  using pop_some [of s] pop_none [of s] by (cases "abs s") auto

lemma pop_push: "inv s \<Longrightarrow> length (abs s) < cap s \<Longrightarrow>
    snd (pop (fst (push v s))) = v \<and> abs (fst (pop (fst (push v s)))) = abs s"
  using push_room [of s v] pop_result [of "fst (push v s)"] pop_abs [of "fst (push v s)"] by auto

lemma pop_conserves: "inv s \<Longrightarrow> - 1 \<notin> set (abs s) \<Longrightarrow> snd (pop s) \<noteq> - 1 \<Longrightarrow>
    mset (abs s) = add_mset (snd (pop s)) (mset (abs (fst (pop s))))"
  using pop_some [of s] pop_none [of s] by (cases "abs s") auto

lemma run_refines:
  assumes "inv s" "stack_run push pop ops s = (s', rs)"
  shows "inv s' \<and> cap s' = cap s \<and> stack_run (spec_push (cap s)) spec_pop ops (abs s) = (abs s', rs)"
  using assms
proof (induction ops arbitrary: s s' rs)
  case (Cons p ops)
  show ?case
  proof (cases p)
    case (SPush v)
    obtain s1 r s2 rs2 where e: "push v s = (s1, r)" "stack_run push pop ops s1 = (s2, rs2)" "s' = s2" "rs = RPush r # rs2"
      using Cons.prems(2) SPush by (auto split: prod.splits)
    have "spec_push (cap s) v (abs s) = (abs s1, r)" "inv s1 \<and> cap s1 = cap s"
      using push_abs [OF Cons.prems(1), of v] push_result [OF Cons.prems(1), of v] push_inv [OF Cons.prems(1), of v] e(1)
      by (auto simp: spec_push_def)
    then show ?thesis using Cons.IH [OF _ e(2)] e(3,4) SPush by simp
  next
    case SPop
    obtain s1 r s2 rs2 where e: "pop s = (s1, r)" "stack_run push pop ops s1 = (s2, rs2)" "s' = s2" "rs = RPop r # rs2"
      using Cons.prems(2) SPop by (auto split: prod.splits)
    have "spec_pop (abs s) = (abs s1, r)" "inv s1 \<and> cap s1 = cap s"
      using pop_abs [OF Cons.prems(1)] pop_result [OF Cons.prems(1)] pop_inv [OF Cons.prems(1)] e(1)
      by (auto simp: spec_pop_def split: list.splits)
    then show ?thesis using Cons.IH [OF _ e(2)] e(3,4) SPop by simp
  qed
qed simp

lemma pop_minus_one: "inv s \<Longrightarrow> - 1 \<notin> set (abs s) \<Longrightarrow> (snd (pop s) = - 1) = (abs s = [])"
  using pop_some [of s] pop_none [of s] by (cases "abs s") auto

end

interpretation lf: bounded_stack lf_abs lf_inv lf_cap stack_push stack_pop
proof
  fix s v vs
  assume i: "lf_inv s"
  show "length (lf_abs s) \<le> lf_cap s" using lf_inv_length [OF i] by simp
  show "length (lf_abs s) < lf_cap s \<Longrightarrow>
      \<exists>s'. stack_push v s = (s', 0) \<and> lf_inv s' \<and> lf_abs s' = v # lf_abs s \<and> lf_cap s' = lf_cap s"
    using lf_inv_length [OF i] stack_push_spare [OF i] by (cases "lf_spare s") auto
  show "length (lf_abs s) = lf_cap s \<Longrightarrow> stack_push v s = (s, - 1)"
    using lf_inv_length [OF i] stack_push_full [OF i] by simp
  show "lf_abs s = v # vs \<Longrightarrow>
      \<exists>s'. stack_pop s = (s', v) \<and> lf_inv s' \<and> lf_abs s' = vs \<and> lf_cap s' = lf_cap s"
    using stack_pop_nodes [OF i] by (cases "lf_nodes s") (auto simp: lf_abs_def)
  show "lf_abs s = [] \<Longrightarrow> stack_pop s = (s, - 1)"
    using stack_pop_empty [OF i] by (simp add: lf_abs_def)
qed

lemma chain_upt:
  assumes "\<And>i. k \<le> i \<Longrightarrow> i < n \<Longrightarrow> nnext (nb ! i) = (if i < n - 1 then Some (i + 1) else None)" "length nb = n" "k < n"
  shows "chain nb (Some k) [k..<n]"
  using assms
proof (induction "n - k" arbitrary: k)
  case (Suc m)
  show ?case
  proof (cases "k = n - 1")
    case True
    then show ?thesis using Suc.prems by (auto simp: upt_conv_Cons)
  next
    case False
    then have "chain nb (Some (Suc k)) [Suc k..<n]" using Suc by (intro Suc.hyps(1)) auto
    then show ?thesis using Suc.prems False by (auto simp: upt_conv_Cons)
  qed
qed simp

lemma LockFreeStack_new_inv:
  assumes "LockFreeStack_new raw = Some s"
  shows "lf_inv s \<and> lf_abs s = [] \<and> lf_cap s = length raw"
proof -
  have r: "raw \<noteq> []" using assms by (auto simp: LockFreeStack_new_def)
  let ?nb = "map (\<lambda>i. (raw ! i)\<lparr>nnext := if i < length raw - 1 then Some (i + 1) else None\<rparr>) [0..<length raw]"
  have "chain ?nb (Some 0) [0..<length raw]" using r by (intro chain_upt) auto
  then have "lf_inv s \<and> lf_nodes s = []"
    using lf_invI [of ?nb "\<lparr>aba = 0, hnode = None\<rparr>" "[]" "\<lparr>aba = 0, hnode = Some 0\<rparr>" "[0..<length raw]"] assms r
    by (auto simp: LockFreeStack_new_def lessThan_atLeast0)
  then show ?thesis using assms r by (auto simp: LockFreeStack_new_def lf_abs_def lf_cap_def)
qed


text \<open>
  From construction on, every sequence of pushes and pops of the address stack returns the same
  results as a list with the capacity of the node buffer: last in first out, -1 from a push exactly
  when all nodes are in use and from a pop of an empty stack, and the two node chains always
  partition the buffer.
\<close>

theorem lfstack_refines_bounded_stack:
  assumes "LockFreeStack_new raw = Some s" "stack_run stack_push stack_pop ops s = (s', rs)"
  shows "lf_inv s' \<and> stack_run (spec_push (length raw)) spec_pop ops [] = (lf_abs s', rs)"
  using lf.run_refines [OF _ assms(2)] LockFreeStack_new_inv [OF assms(1)] by simp

theorem lfstack_refines_bounded_stack_witness:
  "\<exists>s s' rs. LockFreeStack_new [\<lparr>nvalue = 7, nnext = None\<rparr>] = Some s
     \<and> stack_run stack_push stack_pop [SPush 4096, SPush 8200, SPop, SPop] s = (s', rs)
     \<and> rs = [RPush 0, RPush (- 1), RPop 4096, RPop (- 1)]"
proof -
  obtain s where s: "LockFreeStack_new [\<lparr>nvalue = 7, nnext = None\<rparr>] = Some s"
    by (simp add: LockFreeStack_new_def)
  obtain s' rs where r: "stack_run stack_push stack_pop [SPush 4096, SPush 8200, SPop, SPop] s = (s', rs)"
    by (metis surj_pair)
  have "rs = [RPush 0, RPush (- 1), RPop 4096, RPop (- 1)]"
    using lfstack_refines_bounded_stack [OF s r] by (simp add: spec_push_def spec_pop_def)
  then show ?thesis using s r by blast
qed


section \<open>Free lists of page addresses\<close>

record FreeList =
  fl_start_addr :: u64
  freelist :: LockFreeStack

definition FreeList_new :: "u64 \<Rightarrow> lfstack_node list \<Rightarrow> FreeList option" where
  "FreeList_new addr raw = map_option (\<lambda>s. \<lparr>fl_start_addr = addr, freelist = s\<rparr>) (LockFreeStack_new raw)"

definition GetFreeAddr :: "FreeList \<Rightarrow> FreeList \<times> u64" where
  "GetFreeAddr f = (case stack_pop (freelist f) of (s, v) \<Rightarrow> (f\<lparr>freelist := s\<rparr>, v))"

text \<open>\<^verbatim>\<open>PutFreeAddr\<close> aborts on the address -1 and drops the result of the push.\<close>

definition PutFreeAddr :: "FreeList \<Rightarrow> u64 \<Rightarrow> FreeList option" where
  "PutFreeAddr f addr = (if addr = - 1 then None else Some (f\<lparr>freelist := fst (stack_push addr (freelist f))\<rparr>))"

definition fl_abs :: "FreeList \<Rightarrow> u64 list" where
  "fl_abs f = lf_abs (freelist f)"

definition fl_cap :: "FreeList \<Rightarrow> nat" where
  "fl_cap f = lf_cap (freelist f)"

definition fl_inv :: "FreeList \<Rightarrow> bool" where
  "fl_inv f \<longleftrightarrow> lf_inv (freelist f) \<and> - 1 \<notin> set (lf_abs (freelist f))"

text \<open>The contract the page pool relies on: a bag of addresses, none of them the error value -1.\<close>

locale free_list =
  fixes abs :: "'f \<Rightarrow> u64 list" and inv :: "'f \<Rightarrow> bool" and cap :: "'f \<Rightarrow> nat"
    and get :: "'f \<Rightarrow> 'f \<times> u64" and put :: "'f \<Rightarrow> u64 \<Rightarrow> 'f option"
  assumes get_empty: "inv f \<Longrightarrow> abs f = [] \<Longrightarrow> get f = (f, - 1)"
    and get_cons: "inv f \<Longrightarrow> abs f = a # as \<Longrightarrow>
          a \<noteq> - 1 \<and> (\<exists>f'. get f = (f', a) \<and> inv f' \<and> abs f' = as \<and> cap f' = cap f)"
    and put_bad: "put f (- 1) = None"
    and put_room: "inv f \<Longrightarrow> a \<noteq> - 1 \<Longrightarrow> length (abs f) < cap f \<Longrightarrow>
          \<exists>f'. put f a = Some f' \<and> inv f' \<and> abs f' = a # abs f \<and> cap f' = cap f"
begin

lemma get_facts:
  assumes "inv f" "get f = (f', a)"
  shows "inv f' \<and> cap f' = cap f \<and> (if a = - 1 then abs f = [] \<and> f' = f else abs f = a # abs f')"
  using assms get_empty [of f] get_cons [of f] by (cases "abs f") auto

lemma get_mset:
  assumes "inv f" "get f = (f', a)" "a \<noteq> - 1"
  shows "mset (abs f) = add_mset a (mset (abs f'))"
  using get_facts [OF assms(1,2)] assms(3) by simp

lemma put_facts:
  assumes "inv f" "length (abs f) < cap f" "put f a = Some f'"
  shows "a \<noteq> - 1 \<and> inv f' \<and> cap f' = cap f \<and> abs f' = a # abs f"
proof -
  have "a \<noteq> - 1" using assms(3) put_bad by auto
  then show ?thesis using put_room [OF assms(1) _ assms(2)] assms(3) by fastforce
qed

end

interpretation fl: free_list fl_abs fl_inv fl_cap GetFreeAddr PutFreeAddr
proof
  fix f :: FreeList and a as
  show "PutFreeAddr f (- 1) = None" by (simp add: PutFreeAddr_def)
  assume i: "fl_inv f"
  show "fl_abs f = [] \<Longrightarrow> GetFreeAddr f = (f, - 1)"
    using i lf.pop_none by (simp add: fl_abs_def fl_inv_def GetFreeAddr_def)
  show "fl_abs f = a # as \<Longrightarrow> a \<noteq> - 1 \<and> (\<exists>f'. GetFreeAddr f = (f', a) \<and> fl_inv f' \<and> fl_abs f' = as \<and> fl_cap f' = fl_cap f)"
    using i lf.pop_some [of "freelist f" a as]
    by (auto simp: fl_abs_def fl_inv_def fl_cap_def GetFreeAddr_def)
  show "a \<noteq> - 1 \<Longrightarrow> length (fl_abs f) < fl_cap f \<Longrightarrow>
      \<exists>f'. PutFreeAddr f a = Some f' \<and> fl_inv f' \<and> fl_abs f' = a # fl_abs f \<and> fl_cap f' = fl_cap f"
    using i lf.push_room [of "freelist f" a]
    by (auto simp: fl_abs_def fl_inv_def fl_cap_def PutFreeAddr_def)
qed

lemma FreeList_new_inv:
  assumes "FreeList_new addr raw = Some f"
  shows "fl_inv f \<and> fl_abs f = [] \<and> fl_cap f = length raw"
  using assms LockFreeStack_new_inv [of raw]
  by (cases "LockFreeStack_new raw") (auto simp: FreeList_new_def fl_inv_def fl_abs_def fl_cap_def)

end
