(* ===== verification/Percpu_Pool.thy ===== *)
theory Percpu_Pool
  imports Lfstack Rdma_Proto
begin

text \<open>
  The page pool of the daemon (\<^verbatim>\<open>daemon/percpu_pool.hpp\<close>, \<^verbatim>\<open>daemon/percpu_pool.cpp\<close>): one free list per
  client and data queue, byte counters of what each list owns and has given out, and the borrowing
  of pages between clients.  Sizes are 64-bit words as in the code; ids of lists and clients are natural
  numbers, the queue id -1 ("any list of the client") is \<^const>\<open>None\<close> and \<open>r\<close> is the random number drawn
  then.  A failing assert of the free list is a missing result.
\<close>

section \<open>State\<close>

definition SLOT_SIZE :: u64 where
  "SLOT_SIZE = 4104"

record PerCPUPool =
  total_fl :: nat
  per_cli_fl :: nat
  pool_num_clients :: nat
  pool_size :: u64
  start_addr :: u64
  allocs :: "u64 list"
  useds :: "u64 list"
  interval :: nat
  alloc_thold_perc :: u64
  free_thold_perc :: u64
  min_fl_alloc :: u64
  min_fl_free :: u64
  freelists :: "FreeList list"

definition MB :: "u64 \<Rightarrow> u64" where
  "MB x = x div 2 ^ 20"

definition pool_get :: "nat \<Rightarrow> PerCPUPool \<Rightarrow> PerCPUPool \<times> u64" where
  "pool_get i p = (case GetFreeAddr (freelists p ! i) of (f, a) \<Rightarrow> (p\<lparr>freelists := (freelists p)[i := f]\<rparr>, a))"

definition pool_put :: "nat \<Rightarrow> u64 \<Rightarrow> PerCPUPool \<Rightarrow> PerCPUPool option" where
  "pool_put i a p = map_option (\<lambda>f. p\<lparr>freelists := (freelists p)[i := f]\<rparr>) (PutFreeAddr (freelists p ! i) a)"

definition add_alloc :: "nat \<Rightarrow> u64 \<Rightarrow> PerCPUPool \<Rightarrow> PerCPUPool" where
  "add_alloc i n p = p\<lparr>allocs := (allocs p)[i := allocs p ! i + n]\<rparr>"

definition add_used :: "nat \<Rightarrow> u64 \<Rightarrow> PerCPUPool \<Rightarrow> PerCPUPool" where
  "add_used i n p = p\<lparr>useds := (useds p)[i := useds p ! i + n]\<rparr>"


section \<open>Construction\<close>

text \<open>Filling list \<open>i\<close> with the chunks \<open>j - 1\<close> down to 0 from \<open>addr\<close> on.\<close>

fun fill_list :: "nat \<Rightarrow> u64 \<Rightarrow> nat \<Rightarrow> PerCPUPool \<Rightarrow> PerCPUPool option" where
  "fill_list i addr 0 p = Some p"
| "fill_list i addr (Suc j) p =
     (case pool_put i (addr + of_nat j * SLOT_SIZE) p of
        None \<Rightarrow> None
      | Some p' \<Rightarrow> fill_list i addr j (add_alloc i SLOT_SIZE p'))"

text \<open>\<open>mem\<close> stands for the uninitialised contents of the node buffers.\<close>

fun make_lists :: "nat \<Rightarrow> nat \<Rightarrow> (nat \<Rightarrow> lfstack_node) \<Rightarrow> nat \<Rightarrow> nat \<Rightarrow> u64 \<Rightarrow> PerCPUPool \<Rightarrow> PerCPUPool option" where
  "make_lists max_chunks init_chunks mem i 0 addr p = Some p"
| "make_lists max_chunks init_chunks mem i (Suc n) addr p =
     (case FreeList_new addr (map mem [0..<max_chunks]) of
        None \<Rightarrow> None
      | Some f \<Rightarrow>
          (case fill_list i addr init_chunks (p\<lparr>freelists := freelists p @ [f]\<rparr>) of
             None \<Rightarrow> None
           | Some p' \<Rightarrow> make_lists max_chunks init_chunks mem (i + 1) n (addr + of_nat init_chunks * SLOT_SIZE) p'))"

definition PerCPUPool_new :: "daemon_config_t \<Rightarrow> dcc_rdma_config_t \<Rightarrow> (nat \<Rightarrow> lfstack_node) \<Rightarrow> u64 \<Rightarrow> PerCPUPool option" where
  "PerCPUPool_new config rdma_config mem start =
     (let total = num_clients config * num_data_qps rdma_config;
          max_chunks = mem_pool_size config div unat SLOT_SIZE;
          init_chunks = mem_pool_size config div unat SLOT_SIZE div total;
          bytes = of_nat init_chunks * SLOT_SIZE
      in make_lists max_chunks init_chunks mem 0 total start
           \<lparr>total_fl = total, per_cli_fl = num_data_qps rdma_config, pool_num_clients = num_clients config,
            pool_size = of_nat (mem_pool_size config), start_addr = start,
            allocs = replicate total 0, useds = replicate total 0,
            interval = 100, alloc_thold_perc = 10, free_thold_perc = 5,
            min_fl_alloc = bytes * 10 div 100, min_fl_free = bytes * 5 div 100, freelists = []\<rparr>)"


section \<open>Accounting\<close>

text \<open>The free threshold is computed in a 32-bit \<^verbatim>\<open>int\<close> and then compared and returned as \<^verbatim>\<open>size_t\<close>.\<close>

definition GetThldFree :: "PerCPUPool \<Rightarrow> nat \<Rightarrow> u64" where
  "GetThldFree p fl_id =
     (let cur_thold = (ucast (allocs p ! fl_id * free_thold_perc p div 100) :: u32)
      in if (scast cur_thold :: u64) > min_fl_free p then scast cur_thold else min_fl_free p)"

definition GetEvictInterval :: "PerCPUPool \<Rightarrow> nat" where
  "GetEvictInterval p = interval p"

definition GetAlloc :: "PerCPUPool \<Rightarrow> nat \<Rightarrow> u64" where
  "GetAlloc p fl_id = allocs p ! fl_id"

definition GetUsed :: "PerCPUPool \<Rightarrow> nat \<Rightarrow> u64" where
  "GetUsed p fl_id = useds p ! fl_id"

definition client_lists :: "PerCPUPool \<Rightarrow> nat \<Rightarrow> nat list" where
  "client_lists p cli_id = [cli_id * per_cli_fl p..<cli_id * per_cli_fl p + per_cli_fl p]"

definition GetClientAlloc :: "PerCPUPool \<Rightarrow> nat \<Rightarrow> u64" where
  "GetClientAlloc p cli_id = sum_list (map (\<lambda>i. allocs p ! i) (client_lists p cli_id))"

definition GetClientUsed :: "PerCPUPool \<Rightarrow> nat \<Rightarrow> u64" where
  "GetClientUsed p cli_id = sum_list (map (\<lambda>i. useds p ! i) (client_lists p cli_id))"

definition GetTotalUsed :: "PerCPUPool \<Rightarrow> u64" where
  "GetTotalUsed p = sum_list (map (\<lambda>i. useds p ! i) [0..<total_fl p])"

definition GetFree :: "PerCPUPool \<Rightarrow> nat \<Rightarrow> u64" where
  "GetFree p fl_id = allocs p ! fl_id - GetUsed p fl_id"

definition GetClientFree :: "PerCPUPool \<Rightarrow> nat \<Rightarrow> u64" where
  "GetClientFree p cli_id = GetClientAlloc p cli_id - GetClientUsed p cli_id"

definition GetTotalFree :: "PerCPUPool \<Rightarrow> u64" where
  "GetTotalFree p = pool_size p - GetTotalUsed p"


section \<open>Choosing a peer\<close>

fun SelectByFreeMem_loop :: "PerCPUPool \<Rightarrow> nat \<Rightarrow> nat \<Rightarrow> nat \<Rightarrow> u64 \<Rightarrow> nat" where
  "SelectByFreeMem_loop p 0 next_cli_id tgt_cli_id max_free = tgt_cli_id"
| "SelectByFreeMem_loop p (Suc n) next_cli_id tgt_cli_id max_free =
     (let cli_alloc = GetClientAlloc p next_cli_id;
          cli_free = GetClientFree p next_cli_id;
          cli_thld_alloc = min_fl_alloc p * of_nat (per_cli_fl p);
          cli_thld_free = GetThldFree p (next_cli_id * per_cli_fl p) * of_nat (per_cli_fl p);
          alloc_cond = MB cli_alloc > MB cli_thld_alloc;
          free_cond = MB cli_free > MB cli_thld_free;
          cli_avail_free = cli_free - cli_thld_free;
          better = (alloc_cond \<and> free_cond \<and> MB cli_avail_free > MB max_free)
      in SelectByFreeMem_loop p n ((next_cli_id + 1) mod pool_num_clients p)
           (if better then next_cli_id else tgt_cli_id) (if better then cli_avail_free else max_free))"

definition SelectByFreeMem :: "PerCPUPool \<Rightarrow> nat \<Rightarrow> nat" where
  "SelectByFreeMem p cur_cli_id =
     SelectByFreeMem_loop p (pool_num_clients p - 1) ((cur_cli_id + 1) mod pool_num_clients p) cur_cli_id 0"

fun SelectByGreedy_loop :: "PerCPUPool \<Rightarrow> nat \<Rightarrow> nat \<Rightarrow> nat" where
  "SelectByGreedy_loop p 0 next_cli_id = next_cli_id"
| "SelectByGreedy_loop p (Suc n) next_cli_id =
     (if MB (GetClientAlloc p next_cli_id) > MB (min_fl_alloc p * of_nat (per_cli_fl p))
         \<and> MB (GetClientFree p next_cli_id) > MB (min_fl_free p * of_nat (per_cli_fl p))
      then next_cli_id else SelectByGreedy_loop p n ((next_cli_id + 1) mod pool_num_clients p))"

definition SelectByGreedy :: "PerCPUPool \<Rightarrow> nat \<Rightarrow> nat" where
  "SelectByGreedy p cur_cli_id = SelectByGreedy_loop p (pool_num_clients p - 1) ((cur_cli_id + 1) mod pool_num_clients p)"

definition num_iter :: "PerCPUPool \<Rightarrow> nat" where
  "num_iter p = (if per_cli_fl p = 1 then 1 else per_cli_fl p div 2)"

definition next_list :: "nat \<Rightarrow> nat \<Rightarrow> nat \<Rightarrow> nat" where
  "next_list base max_fl_id fl_id = (if fl_id = max_fl_id - 1 then base else fl_id + 1)"

text \<open>Borrowing: note that the list to borrow from moves on only when its two conditions hold.\<close>

fun AllocateFromPeer_loop :: "nat \<Rightarrow> nat \<Rightarrow> nat \<Rightarrow> nat \<Rightarrow> nat \<Rightarrow> PerCPUPool \<Rightarrow> (PerCPUPool \<times> u64) option" where
  "AllocateFromPeer_loop 0 base max_fl_id cur_fl_id peer_fl_id p = Some (p, - 1)"
| "AllocateFromPeer_loop (Suc n) base max_fl_id cur_fl_id peer_fl_id p =
     (if MB (GetAlloc p peer_fl_id) > MB (min_fl_alloc p) \<and> MB (GetFree p peer_fl_id) > MB (min_fl_free p) then
        (case pool_get peer_fl_id p of
           (p', free_addr) \<Rightarrow>
             if free_addr \<noteq> - 1 then
               map_option (\<lambda>q. (q, free_addr))
                 (pool_put cur_fl_id free_addr (add_alloc cur_fl_id SLOT_SIZE (add_alloc peer_fl_id (- SLOT_SIZE) p')))
             else AllocateFromPeer_loop n base max_fl_id cur_fl_id (next_list base max_fl_id peer_fl_id) p')
      else AllocateFromPeer_loop n base max_fl_id cur_fl_id peer_fl_id p)"

definition AllocateFromPeer :: "nat \<Rightarrow> PerCPUPool \<Rightarrow> (PerCPUPool \<times> u64) option" where
  "AllocateFromPeer fl_id p =
     (let cur_cli_id = fl_id div per_cli_fl p;
          next_cli_id = SelectByFreeMem p cur_cli_id;
          base = next_cli_id * per_cli_fl p
      in if cur_cli_id = next_cli_id then Some (p, - 1)
         else AllocateFromPeer_loop (num_iter p) base (base + per_cli_fl p) fl_id (base + fl_id mod per_cli_fl p) p)"


section \<open>Allocation and release\<close>

definition list_id :: "PerCPUPool \<Rightarrow> nat \<Rightarrow> nat option \<Rightarrow> nat \<Rightarrow> nat" where
  "list_id p cid qid r = (case qid of None \<Rightarrow> cid * per_cli_fl p + r mod per_cli_fl p | Some q \<Rightarrow> cid * per_cli_fl p + q)"

fun Allocate_loop :: "nat \<Rightarrow> nat \<Rightarrow> nat \<Rightarrow> nat \<Rightarrow> PerCPUPool \<Rightarrow> PerCPUPool \<times> u64" where
  "Allocate_loop 0 base max_fl_id fl_id p = (p, - 1)"
| "Allocate_loop (Suc n) base max_fl_id fl_id p =
     (case pool_get fl_id p of
        (p', free_addr) \<Rightarrow>
          if free_addr \<noteq> - 1 then (add_used fl_id SLOT_SIZE p', free_addr)
          else Allocate_loop n base max_fl_id (next_list base max_fl_id fl_id) p')"

definition pool_Allocate :: "nat \<Rightarrow> nat option \<Rightarrow> nat \<Rightarrow> PerCPUPool \<Rightarrow> PerCPUPool \<times> u64" where
  "pool_Allocate cid qid r p =
     Allocate_loop (num_iter p) (cid * per_cli_fl p) (cid * per_cli_fl p + per_cli_fl p) (list_id p cid qid r) p"

definition pool_Free :: "u64 \<Rightarrow> nat \<Rightarrow> nat option \<Rightarrow> nat \<Rightarrow> PerCPUPool \<Rightarrow> PerCPUPool option" where
  "pool_Free addr cid qid r p =
     (let fl_id = list_id p cid qid r in map_option (add_used fl_id (- SLOT_SIZE)) (pool_put fl_id addr p))"



section \<open>Invariant: free pages and byte counters\<close>

definition pool_free :: "PerCPUPool \<Rightarrow> u64 multiset" where
  "pool_free p = sum_list (map (\<lambda>f. mset (fl_abs f)) (freelists p))"

text \<open>
  \<open>pool_pre N k p\<close>: the first \<open>k\<close> lists are built, each of capacity \<open>N\<close> and consistent, the bytes a list
  owns minus the bytes it has given out (in 64-bit arithmetic) are the bytes of its free pages, and all
  free pages together would fit into one list.
\<close>

definition pool_pre :: "nat \<Rightarrow> nat \<Rightarrow> PerCPUPool \<Rightarrow> bool" where
  "pool_pre N k p \<longleftrightarrow> length (freelists p) = k \<and> k \<le> total_fl p \<and> length (allocs p) = total_fl p \<and> length (useds p) = total_fl p
     \<and> (\<forall>i<k. fl_inv (freelists p ! i) \<and> fl_cap (freelists p ! i) = N
          \<and> allocs p ! i - useds p ! i = SLOT_SIZE * of_nat (length (fl_abs (freelists p ! i))))
     \<and> (\<forall>i. k \<le> i \<longrightarrow> i < total_fl p \<longrightarrow> allocs p ! i = 0 \<and> useds p ! i = 0)
     \<and> size (pool_free p) \<le> N"

definition pool_inv :: "nat \<Rightarrow> PerCPUPool \<Rightarrow> bool" where
  "pool_inv N p \<longleftrightarrow> pool_pre N (total_fl p) p \<and> total_fl p = pool_num_clients p * per_cli_fl p \<and> 0 < per_cli_fl p"

definition same_shape :: "PerCPUPool \<Rightarrow> PerCPUPool \<Rightarrow> bool" where
  "same_shape p q \<longleftrightarrow> total_fl q = total_fl p \<and> per_cli_fl q = per_cli_fl p \<and> pool_num_clients q = pool_num_clients p"

definition replace_list :: "nat \<Rightarrow> FreeList \<Rightarrow> u64 \<Rightarrow> u64 \<Rightarrow> PerCPUPool \<Rightarrow> PerCPUPool" where
  "replace_list i f al us p = p\<lparr>freelists := (freelists p)[i := f], allocs := (allocs p)[i := al], useds := (useds p)[i := us]\<rparr>"

lemma replace_list_free:
  assumes "i < length (freelists p)"
  shows "pool_free (replace_list i f al us p) + mset (fl_abs (freelists p ! i)) = pool_free p + mset (fl_abs f)"
  using sum_list_update_at [OF assms, of "\<lambda>f. mset (fl_abs f)" f] by (simp add: replace_list_def pool_free_def)

lemma replace_list_pre:
  assumes "pool_pre N k p" "i < k" "fl_inv f" "fl_cap f = N" "al - us = SLOT_SIZE * of_nat (length (fl_abs f))"
    and "size (pool_free (replace_list i f al us p)) \<le> N"
  shows "pool_pre N k (replace_list i f al us p)"
  using assms unfolding pool_pre_def by (auto simp: replace_list_def nth_list_update)

lemma same_shape_replace [simp]: "same_shape p (replace_list i f al us p)"
  by (simp add: same_shape_def replace_list_def)

lemma pool_inv_pre: "pool_inv N p \<Longrightarrow> pool_pre N (total_fl p) p"
  unfolding pool_inv_def by blast

lemma pool_inv_shape: "pool_inv N p \<Longrightarrow> same_shape p q \<Longrightarrow> pool_pre N (total_fl p) q \<Longrightarrow> pool_inv N q"
  by (simp add: pool_inv_def same_shape_def)

lemma pool_get_eq:
  assumes "pool_pre N k p" "i < k" "pool_get i p = (p', a)"
  shows "if a = - 1 then p' = p \<and> fl_abs (freelists p ! i) = []
    else \<exists>f. p' = replace_list i f (allocs p ! i) (useds p ! i) p \<and> fl_abs (freelists p ! i) = a # fl_abs f \<and> fl_inv f \<and> fl_cap f = N"
proof -
  obtain f where f: "GetFreeAddr (freelists p ! i) = (f, a)" "p' = p\<lparr>freelists := (freelists p)[i := f]\<rparr>"
    using assms(3) by (auto simp: pool_get_def split: prod.splits)
  have i: "fl_inv (freelists p ! i)" "fl_cap (freelists p ! i) = N" using assms(1,2) by (auto simp: pool_pre_def)
  show ?thesis using fl.get_facts [OF i(1) f(1)] f(2) i(2)
    by (auto simp: replace_list_def)
qed

text \<open>Taking a page, with any change of the two counters of the list that lowers the balance by one slot.\<close>

lemma take_page:
  assumes "pool_pre N k p" "i < k" "pool_get i p = (p', a)" "a \<noteq> - 1" "al - us = allocs p ! i - useds p ! i - SLOT_SIZE"
    and q: "q = p'\<lparr>allocs := (allocs p)[i := al], useds := (useds p)[i := us]\<rparr>"
  shows "pool_pre N k q \<and> same_shape p q \<and> pool_free p = add_mset a (pool_free q)"
proof -
  obtain f where f: "p' = replace_list i f (allocs p ! i) (useds p ! i) p" "fl_abs (freelists p ! i) = a # fl_abs f" "fl_inv f" "fl_cap f = N"
    using pool_get_eq [OF assms(1-3)] assms(4) by auto
  have q': "q = replace_list i f al us p" unfolding q f(1) by (simp add: replace_list_def)
  have len: "i < length (freelists p)" using assms(1,2) by (simp add: pool_pre_def)
  have free: "pool_free p = add_mset a (pool_free q)" unfolding q'
    using replace_list_free [OF len, of f al us] f(2) by simp
  have "al - us = SLOT_SIZE * of_nat (length (fl_abs f))"
    using assms(1,2,5) f(2) by (simp add: pool_pre_def algebra_simps)
  moreover have "size (pool_free q) \<le> N" using assms(1) free by (simp add: pool_pre_def)
  ultimately show ?thesis unfolding q' using replace_list_pre [OF assms(1,2) f(3,4)] free q' by simp
qed

lemma sum_list_member: "i < length xs \<Longrightarrow> g (xs ! i) \<subseteq># sum_list (map g xs)"
proof (induction xs arbitrary: i)
  case (Cons x xs)
  then show ?case by (cases i) (auto intro: subset_mset.add_increasing)
qed simp

lemma give_page:
  assumes "pool_pre N k p" "i < k" "a \<noteq> - 1" "size (pool_free p) < N" "al - us = allocs p ! i - useds p ! i + SLOT_SIZE"
  shows "\<exists>p'. pool_put i a p = Some p' \<and> (let q = p'\<lparr>allocs := (allocs p)[i := al], useds := (useds p)[i := us]\<rparr>
    in pool_pre N k q \<and> same_shape p q \<and> pool_free q = add_mset a (pool_free p))"
proof -
  have i: "fl_inv (freelists p ! i)" "fl_cap (freelists p ! i) = N" and len: "i < length (freelists p)"
    using assms(1,2) by (auto simp: pool_pre_def)
  have "mset (fl_abs (freelists p ! i)) \<subseteq># pool_free p" unfolding pool_free_def
    using sum_list_member [OF len, of "\<lambda>f. mset (fl_abs f)"] by simp
  then have "length (fl_abs (freelists p ! i)) < fl_cap (freelists p ! i)"
    using assms(4) i(2) size_mset_mono by fastforce
  then obtain f where f: "PutFreeAddr (freelists p ! i) a = Some f" "fl_inv f" "fl_abs f = a # fl_abs (freelists p ! i)" "fl_cap f = N"
    using fl.put_room [OF i(1) assms(3)] i(2) by auto
  let ?q = "replace_list i f al us p"
  have free: "pool_free ?q = add_mset a (pool_free p)" using replace_list_free [OF len, of f al us] f(3) by simp
  have "al - us = SLOT_SIZE * of_nat (length (fl_abs f))"
    using assms(1,2,5) f(3) by (simp add: pool_pre_def algebra_simps)
  then have "pool_pre N k ?q" using assms(4) free by (intro replace_list_pre [OF assms(1,2) f(2,4)]) simp_all
  then show ?thesis using f(1) free by (simp add: pool_put_def replace_list_def Let_def same_shape_def)
qed

lemma pool_inv_lists: "pool_inv N p \<Longrightarrow> i < total_fl p \<Longrightarrow> fl_inv (freelists p ! i) \<and> - 1 \<notin> set (fl_abs (freelists p ! i))"
  by (auto simp: pool_inv_def pool_pre_def fl_inv_def fl_abs_def)

lemma pool_free_not_bad: "pool_inv N p \<Longrightarrow> - 1 \<notin># pool_free p"
proof -
  assume inv: "pool_inv N p"
  have "- 1 \<notin># sum_list (map (\<lambda>f. mset (fl_abs f)) fs)" if "\<forall>f \<in> set fs. - 1 \<notin> set (fl_abs f)" for fs
    using that by (induction fs) auto
  then show ?thesis using pool_inv_lists [OF inv] inv by (auto simp: pool_free_def pool_inv_def pool_pre_def in_set_conv_nth)
qed


section \<open>Operations against the free pages\<close>

definition valid_queue :: "PerCPUPool \<Rightarrow> nat \<Rightarrow> nat option \<Rightarrow> bool" where
  "valid_queue p cid qid \<longleftrightarrow> cid < pool_num_clients p \<and> (\<forall>q. qid = Some q \<longrightarrow> q < per_cli_fl p)"

lemma client_range: "cid < n \<Longrightarrow> j < (c::nat) \<Longrightarrow> cid * c + j < n * c"
proof -
  assume "cid < n" "j < c"
  then have "cid * c + j < Suc cid * c" by simp
  also have "\<dots> \<le> n * c" using \<open>cid < n\<close> by (intro mult_le_mono1) simp
  finally show ?thesis .
qed

lemma list_id_less: "pool_inv N p \<Longrightarrow> valid_queue p cid qid \<Longrightarrow>
    list_id p cid qid r < total_fl p \<and> cid * per_cli_fl p \<le> list_id p cid qid r \<and> list_id p cid qid r < cid * per_cli_fl p + per_cli_fl p"
  using client_range [of cid "pool_num_clients p" _ "per_cli_fl p"]
  by (auto simp: list_id_def valid_queue_def pool_inv_def split: option.split)

lemma next_list_less:
  "base \<le> fl \<Longrightarrow> fl < base + c \<Longrightarrow> base \<le> next_list base (base + c) fl \<and> next_list base (base + c) fl < base + c"
  by (auto simp: next_list_def)

lemma Allocate_loop_spec:
  assumes "pool_inv N p" "base + c \<le> total_fl p" "base \<le> fl" "fl < base + c" "Allocate_loop n base (base + c) fl p = (p', a)"
  shows "pool_inv N p' \<and> same_shape p p' \<and> (if a = - 1 then p' = p else pool_free p = add_mset a (pool_free p'))"
  using assms(3-5)
proof (induction n arbitrary: fl)
  case 0
  then show ?case using assms(1) by (simp add: same_shape_def)
next
  case (Suc n)
  obtain p1 b where g: "pool_get fl p = (p1, b)" by fastforce
  have fl: "fl < total_fl p" using Suc.prems assms(2) by simp
  note E = pool_get_eq [OF pool_inv_pre [OF assms(1)] fl g]
  show ?case
  proof (cases "b = - 1")
    case True
    then have "p1 = p" using E by simp
    then show ?thesis using Suc.prems g True next_list_less [of base fl c] by (intro Suc.IH [of "next_list base (base + c) fl"]) auto
  next
    case False
    then obtain f where f: "p1 = replace_list fl f (allocs p ! fl) (useds p ! fl) p" using E by auto
    have r: "p' = add_used fl SLOT_SIZE p1" "a = b" using Suc.prems(3) g False by auto
    have "p' = p1\<lparr>allocs := (allocs p)[fl := allocs p ! fl], useds := (useds p)[fl := useds p ! fl + SLOT_SIZE]\<rparr>"
      unfolding r f by (simp add: add_used_def replace_list_def)
    from take_page [OF pool_inv_pre [OF assms(1)] fl g False _ this]
    show ?thesis using pool_inv_shape [OF assms(1), of p'] False r(2) by simp
  qed
qed

lemma pool_Allocate_spec:
  assumes "pool_inv N p" "valid_queue p cid qid" "pool_Allocate cid qid r p = (p', a)"
  shows "pool_inv N p' \<and> same_shape p p' \<and> (if a = - 1 then p' = p else pool_free p = add_mset a (pool_free p'))"
proof -
  have "cid * per_cli_fl p + per_cli_fl p \<le> total_fl p"
    using client_range [of cid "pool_num_clients p" "per_cli_fl p - 1" "per_cli_fl p"] assms(1,2) by (simp add: pool_inv_def valid_queue_def)
  from Allocate_loop_spec [OF assms(1) this _ _ assms(3) [unfolded pool_Allocate_def]] list_id_less [OF assms(1,2), of r]
  show ?thesis by blast
qed

lemma pool_put_give:
  assumes "pool_inv N p" "i < total_fl p" "a \<noteq> - 1" "size (pool_free p) < N"
  shows "\<exists>p'. pool_put i a p = Some p' \<and> pool_inv N (add_used i (- SLOT_SIZE) p') \<and> same_shape p (add_used i (- SLOT_SIZE) p')
      \<and> pool_free (add_used i (- SLOT_SIZE) p') = add_mset a (pool_free p)
      \<and> pool_inv N (add_alloc i SLOT_SIZE p') \<and> same_shape p (add_alloc i SLOT_SIZE p')
      \<and> pool_free (add_alloc i SLOT_SIZE p') = add_mset a (pool_free p)"
proof -
  note pre = pool_inv_pre [OF assms(1)]
  obtain p1 where p1: "pool_put i a p = Some p1"
    using give_page [OF pre assms(2-4), of "allocs p ! i" "useds p ! i - SLOT_SIZE"] by auto
  then obtain f where f: "p1 = p\<lparr>freelists := (freelists p)[i := f]\<rparr>" by (auto simp: pool_put_def)
  let ?u = "p1\<lparr>allocs := (allocs p)[i := allocs p ! i], useds := (useds p)[i := useds p ! i - SLOT_SIZE]\<rparr>"
  let ?a = "p1\<lparr>allocs := (allocs p)[i := allocs p ! i + SLOT_SIZE], useds := (useds p)[i := useds p ! i]\<rparr>"
  have e: "add_used i (- SLOT_SIZE) p1 = ?u" "add_alloc i SLOT_SIZE p1 = ?a" unfolding f by (simp_all add: add_used_def add_alloc_def)
  have "pool_pre N (total_fl p) ?u \<and> same_shape p ?u \<and> pool_free ?u = add_mset a (pool_free p)"
    using give_page [OF pre assms(2-4), of "allocs p ! i" "useds p ! i - SLOT_SIZE"] p1 by (simp add: Let_def)
  moreover have "pool_pre N (total_fl p) ?a \<and> same_shape p ?a \<and> pool_free ?a = add_mset a (pool_free p)"
    using give_page [OF pre assms(2-4), of "allocs p ! i + SLOT_SIZE" "useds p ! i"] p1 by (simp add: Let_def)
  ultimately show ?thesis unfolding e [symmetric] using p1 pool_inv_shape [OF assms(1)] by blast
qed

lemma pool_Free_spec:
  assumes "pool_inv N p" "valid_queue p cid qid" "a \<noteq> - 1" "size (pool_free p) < N"
  shows "\<exists>p'. pool_Free a cid qid r p = Some p' \<and> pool_inv N p' \<and> same_shape p p' \<and> pool_free p' = add_mset a (pool_free p)"
  using pool_put_give [OF assms(1) _ assms(3,4)] list_id_less [OF assms(1,2), of r] by (fastforce simp: pool_Free_def Let_def)

lemma SelectByFreeMem_less:
  assumes "cur < pool_num_clients p"
  shows "SelectByFreeMem p cur < pool_num_clients p"
proof -
  have "tgt < pool_num_clients p \<Longrightarrow> nxt < pool_num_clients p \<Longrightarrow> SelectByFreeMem_loop p n nxt tgt m < pool_num_clients p" for n nxt tgt m
    by (induction n arbitrary: nxt tgt m) (auto simp: Let_def)
  then show ?thesis using assms by (simp add: SelectByFreeMem_def)
qed

lemma AllocateFromPeer_loop_spec:
  assumes "pool_inv N p" "base + c \<le> total_fl p" "cur < total_fl p" "base \<le> fl" "fl < base + c"
  shows "\<exists>p' a. AllocateFromPeer_loop n base (base + c) cur fl p = Some (p', a) \<and> pool_inv N p' \<and> same_shape p p' \<and> pool_free p' = pool_free p"
  using assms(4,5)
proof (induction n arbitrary: fl)
  case 0
  then show ?case using assms(1) by (simp add: same_shape_def)
next
  case (Suc n)
  have fl: "fl < total_fl p" using Suc.prems assms(2) by simp
  obtain p1 b where g: "pool_get fl p = (p1, b)" by fastforce
  note E = pool_get_eq [OF pool_inv_pre [OF assms(1)] fl g]
  let ?c = "MB (GetAlloc p fl) > MB (min_fl_alloc p) \<and> MB (GetFree p fl) > MB (min_fl_free p)"
  show ?case
  proof (cases "?c \<and> b \<noteq> - 1")
    case True
    then obtain f where f: "p1 = replace_list fl f (allocs p ! fl) (useds p ! fl) p" using E by auto
    let ?q = "add_alloc fl (- SLOT_SIZE) p1"
    have "?q = p1\<lparr>allocs := (allocs p)[fl := allocs p ! fl - SLOT_SIZE], useds := (useds p)[fl := useds p ! fl]\<rparr>"
      unfolding f by (simp add: add_alloc_def replace_list_def)
    from take_page [OF pool_inv_pre [OF assms(1)] fl g _ _ this] True
    have q: "pool_inv N ?q" "same_shape p ?q" "pool_free p = add_mset b (pool_free ?q)"
      using pool_inv_shape [OF assms(1), of ?q] by (auto simp: algebra_simps)
    have "size (pool_free ?q) < N" "cur < total_fl ?q"
      using q(2,3) assms(1,3) by (auto simp: pool_inv_def pool_pre_def same_shape_def)
    from pool_put_give [OF q(1) this(2) _ this(1), of b] True
    obtain p2 where p2: "pool_put cur b ?q = Some p2" "pool_inv N (add_alloc cur SLOT_SIZE p2)" "same_shape ?q (add_alloc cur SLOT_SIZE p2)"
      "pool_free (add_alloc cur SLOT_SIZE p2) = add_mset b (pool_free ?q)" by blast
    have "pool_put cur b (add_alloc cur SLOT_SIZE ?q) = Some (add_alloc cur SLOT_SIZE p2)"
      using p2(1) by (auto simp: pool_put_def add_alloc_def)
    then show ?thesis using True g p2 q(2,3) by (simp add: same_shape_def)
  next
    case False
    show ?thesis
    proof (cases ?c)
      case True
      then have "p1 = p" "b = - 1" using E False by auto
      then show ?thesis using Suc.IH [of "next_list base (base + c) fl"] Suc.prems next_list_less [of base fl c] True g by simp
    next
      case F: False
      then show ?thesis using Suc.IH [OF Suc.prems] by (auto simp: F)
    qed
  qed
qed

lemma AllocateFromPeer_spec:
  assumes "pool_inv N p" "fl < total_fl p"
  shows "\<exists>p' a. AllocateFromPeer fl p = Some (p', a) \<and> pool_inv N p' \<and> same_shape p p' \<and> pool_free p' = pool_free p"
proof -
  let ?c = "per_cli_fl p" and ?n = "SelectByFreeMem p (fl div per_cli_fl p)"
  have c: "0 < ?c" "total_fl p = pool_num_clients p * ?c" using assms(1) by (auto simp: pool_inv_def)
  then have "fl div ?c < pool_num_clients p" using assms(2) by (simp add: less_mult_imp_div_less)
  then have "?n < pool_num_clients p" by (rule SelectByFreeMem_less)
  then have "?n * ?c + ?c \<le> total_fl p"
    using client_range [of ?n "pool_num_clients p" "?c - 1" ?c] c by simp
  then show ?thesis
    using AllocateFromPeer_loop_spec [OF assms(1) _ assms(2), of "?n * ?c" ?c "?n * ?c + fl mod ?c" "num_iter p"] assms(1) c
    by (auto simp: AllocateFromPeer_def Let_def same_shape_def)
qed



section \<open>The contract of a page pool\<close>

text \<open>
  What the key-value layer and the message handlers rely on: a multiset of free pages, from which
  allocation takes one or reports -1 and to which a release returns one without failing while the pool
  is not over-full.
\<close>

locale page_pool =
  fixes free :: "'p \<Rightarrow> u64 multiset" and inv :: "nat \<Rightarrow> 'p \<Rightarrow> bool"
    and ok :: "'p \<Rightarrow> nat \<Rightarrow> nat option \<Rightarrow> bool"
    and alloc :: "nat \<Rightarrow> nat option \<Rightarrow> nat \<Rightarrow> 'p \<Rightarrow> 'p \<times> u64"
    and release :: "u64 \<Rightarrow> nat \<Rightarrow> nat option \<Rightarrow> nat \<Rightarrow> 'p \<Rightarrow> 'p option"
    and borrow :: "nat \<Rightarrow> 'p \<Rightarrow> ('p \<times> u64) option" and lists :: "'p \<Rightarrow> nat"
  assumes free_bound: "inv N p \<Longrightarrow> size (free p) \<le> N \<and> - 1 \<notin># free p"
    and alloc_spec: "inv N p \<Longrightarrow> ok p cid qid \<Longrightarrow> alloc cid qid r p = (p', a) \<Longrightarrow>
      inv N p' \<and> ok p' = ok p \<and> lists p' = lists p \<and> (if a = - 1 then p' = p else free p = add_mset a (free p'))"
    and release_spec: "inv N p \<Longrightarrow> ok p cid qid \<Longrightarrow> a \<noteq> - 1 \<Longrightarrow> size (free p) < N \<Longrightarrow>
      \<exists>p'. release a cid qid r p = Some p' \<and> inv N p' \<and> ok p' = ok p \<and> lists p' = lists p \<and> free p' = add_mset a (free p)"
    and borrow_spec: "inv N p \<Longrightarrow> fl < lists p \<Longrightarrow>
      \<exists>p' a. borrow fl p = Some (p', a) \<and> inv N p' \<and> ok p' = ok p \<and> lists p' = lists p \<and> free p' = free p"
begin

text \<open>Ownership: the free pages and the pages given out are together the pages of the pool.\<close>

definition owns :: "nat \<Rightarrow> u64 multiset \<Rightarrow> 'p \<Rightarrow> u64 multiset \<Rightarrow> bool" where
  "owns N all p out \<longleftrightarrow> inv N p \<and> free p + out = all \<and> size all \<le> N \<and> - 1 \<notin># all"

lemma alloc_owns:
  assumes "owns N all p out" "ok p cid qid" "alloc cid qid r p = (p', a)"
  shows "owns N all p' (if a = - 1 then out else add_mset a out) \<and> ok p' = ok p \<and> lists p' = lists p"
  using alloc_spec [OF _ assms(2,3)] assms(1) by (auto simp: owns_def split: if_splits)

lemma release_owns:
  assumes "owns N all p out" "ok p cid qid" "a \<in># out"
  shows "\<exists>p'. release a cid qid r p = Some p' \<and> owns N all p' (out - {#a#}) \<and> ok p' = ok p \<and> lists p' = lists p"
proof -
  have e: "out = add_mset a (out - {#a#})" using assms(3) by simp
  have "a \<noteq> - 1" using assms(1,3) by (auto simp: owns_def)
  moreover have "size (free p) < N"
  proof -
    have "size (free p) + size out \<le> N" using assms(1) by (auto simp: owns_def)
    moreover have "0 < size out" using assms(3) by (cases out) auto
    ultimately show ?thesis by linarith
  qed
  ultimately obtain p' where p': "release a cid qid r p = Some p'" "inv N p'" "ok p' = ok p" "lists p' = lists p" "free p' = add_mset a (free p)"
    using release_spec [of N p cid qid a r] assms(1,2) by (auto simp: owns_def)
  have "free p' + (out - {#a#}) = free p + out" using p'(5) e by (metis union_mset_add_mset_left union_mset_add_mset_right)
  then show ?thesis using p' assms(1) by (auto simp: owns_def)
qed

lemma borrow_owns:
  assumes "owns N all p out" "fl < lists p"
  shows "\<exists>p' a. borrow fl p = Some (p', a) \<and> owns N all p' out \<and> ok p' = ok p \<and> lists p' = lists p"
  using borrow_spec [OF _ assms(2)] assms(1) by (fastforce simp: owns_def)

end

lemma same_shape_facts: "same_shape p p' \<Longrightarrow> valid_queue p' = valid_queue p \<and> total_fl p' = total_fl p"
  by (simp add: same_shape_def valid_queue_def fun_eq_iff)

interpretation pool: page_pool pool_free pool_inv valid_queue pool_Allocate pool_Free AllocateFromPeer total_fl
proof
  fix N p
  assume i: "pool_inv N p"
  then show "size (pool_free p) \<le> N \<and> - 1 \<notin># pool_free p"
    using pool_free_not_bad by (auto simp: pool_inv_def pool_pre_def)
  show "\<And>cid qid r p' a. valid_queue p cid qid \<Longrightarrow> pool_Allocate cid qid r p = (p', a) \<Longrightarrow>
      pool_inv N p' \<and> valid_queue p' = valid_queue p \<and> total_fl p' = total_fl p \<and> (if a = - 1 then p' = p else pool_free p = add_mset a (pool_free p'))"
    using pool_Allocate_spec [OF i] same_shape_facts by blast
  fix cid qid a r
  show "\<exists>p'. pool_Free a cid qid r p = Some p' \<and> pool_inv N p' \<and> valid_queue p' = valid_queue p \<and> total_fl p' = total_fl p \<and> pool_free p' = add_mset a (pool_free p)"
    if "valid_queue p cid qid" "a \<noteq> - 1" "size (pool_free p) < N"
    using pool_Free_spec [OF i that, of r] same_shape_facts by blast
next
  fix N p fl
  assume i: "pool_inv N p" and fl: "fl < total_fl p"
  show "\<exists>p' a. AllocateFromPeer fl p = Some (p', a) \<and> pool_inv N p' \<and> valid_queue p' = valid_queue p \<and> total_fl p' = total_fl p \<and> pool_free p' = pool_free p"
    using AllocateFromPeer_spec [OF i fl] same_shape_facts by blast
qed


section \<open>A new pool\<close>

definition slots :: "u64 \<Rightarrow> nat \<Rightarrow> u64 list" where
  "slots addr n = map (\<lambda>j. addr + of_nat j * SLOT_SIZE) [0..<n]"

lemma slots_append: "slots addr (n + m) = slots addr n @ slots (addr + of_nat n * SLOT_SIZE) m"
proof (induction m)
  case (Suc m)
  have "slots addr (n + Suc m) = slots addr (n + m) @ [addr + of_nat (n + m) * SLOT_SIZE]" by (simp add: slots_def)
  then show ?case using Suc.IH by (simp add: slots_def algebra_simps)
qed (simp add: slots_def)

lemma fill_list_spec:
  assumes "pool_pre N k p" "i < k" "size (pool_free p) + j \<le> N" "- 1 \<notin> set (slots addr j)"
  shows "\<exists>p'. fill_list i addr j p = Some p' \<and> pool_pre N k p' \<and> same_shape p p' \<and> pool_free p' = pool_free p + mset (slots addr j)"
  using assms(1,3,4)
proof (induction j arbitrary: p)
  case 0
  then show ?case by (simp add: slots_def same_shape_def)
next
  case (Suc j)
  let ?a = "addr + of_nat j * SLOT_SIZE"
  have a: "?a \<noteq> - 1" "- 1 \<notin> set (slots addr j)" using Suc.prems(3) by (auto simp: slots_def)
  obtain p1 where p1: "pool_put i ?a p = Some p1"
      "let q = p1\<lparr>allocs := (allocs p)[i := allocs p ! i + SLOT_SIZE], useds := (useds p)[i := useds p ! i]\<rparr>
       in pool_pre N k q \<and> same_shape p q \<and> pool_free q = add_mset ?a (pool_free p)"
    using give_page [OF Suc.prems(1) assms(2) a(1), of "allocs p ! i + SLOT_SIZE" "useds p ! i"] Suc.prems(2) by auto
  then have "p1\<lparr>allocs := (allocs p)[i := allocs p ! i + SLOT_SIZE], useds := (useds p)[i := useds p ! i]\<rparr> = add_alloc i SLOT_SIZE p1"
    by (auto simp: pool_put_def add_alloc_def)
  then have q: "pool_pre N k (add_alloc i SLOT_SIZE p1)" "same_shape p (add_alloc i SLOT_SIZE p1)"
      "pool_free (add_alloc i SLOT_SIZE p1) = add_mset ?a (pool_free p)" using p1(2) by (simp_all add: Let_def)
  obtain p' where "fill_list i addr j (add_alloc i SLOT_SIZE p1) = Some p'" "pool_pre N k p'" "same_shape (add_alloc i SLOT_SIZE p1) p'"
      "pool_free p' = pool_free (add_alloc i SLOT_SIZE p1) + mset (slots addr j)"
    using Suc.IH [OF q(1) _ a(2)] q(3) Suc.prems(2) by auto
  then show ?case using p1(1) q by (auto simp: slots_def same_shape_def)
qed

lemma make_lists_spec:
  assumes "pool_pre N i p" "i + n = total_fl p" "0 < N" "size (pool_free p) + n * c \<le> N" "- 1 \<notin> set (slots addr (n * c))"
  shows "\<exists>p'. make_lists N c mem i n addr p = Some p' \<and> pool_pre N (total_fl p) p' \<and> same_shape p p'
    \<and> pool_free p' = pool_free p + mset (slots addr (n * c))"
  using assms
proof (induction n arbitrary: i addr p)
  case 0
  then show ?case by (simp add: slots_def same_shape_def)
next
  case (Suc n)
  obtain f where f: "FreeList_new addr (map mem [0..<N]) = Some f"
    using Suc.prems(3) by (simp add: FreeList_new_def LockFreeStack_new_def)
  note F = FreeList_new_inv [OF f]
  let ?p = "p\<lparr>freelists := freelists p @ [f]\<rparr>"
  have sl: "slots addr (Suc n * c) = slots addr c @ slots (addr + of_nat c * SLOT_SIZE) (n * c)"
    using slots_append [of addr c "n * c"] by simp
  have free: "pool_free ?p = pool_free p" using F by (simp add: pool_free_def)
  have "pool_pre N (Suc i) ?p"
    using Suc.prems(1,2) F free by (auto simp: pool_pre_def nth_append less_Suc_eq)
  then obtain p1 where p1: "fill_list i addr c ?p = Some p1" "pool_pre N (Suc i) p1" "same_shape ?p p1" "pool_free p1 = pool_free p + mset (slots addr c)"
    using fill_list_spec [of N "Suc i" ?p i c addr] Suc.prems(4,5) free sl by auto
  have "size (mset (slots addr c)) = c" by (simp add: slots_def)
  then obtain p' where p': "make_lists N c mem (Suc i) n (addr + of_nat c * SLOT_SIZE) p1 = Some p'" "pool_pre N (total_fl p1) p'" "same_shape p1 p'"
    "pool_free p' = pool_free p1 + mset (slots (addr + of_nat c * SLOT_SIZE) (n * c))"
    using Suc.IH [OF p1(2) _ Suc.prems(3)] Suc.prems(2,4,5) p1(3,4) sl by (auto simp: same_shape_def)
  then show ?case using f p1 sl by (auto simp: same_shape_def)
qed

definition pool_config_ok :: "daemon_config_t \<Rightarrow> dcc_rdma_config_t \<Rightarrow> u64 \<Rightarrow> bool" where
  "pool_config_ok c rc start \<longleftrightarrow> 0 < num_clients c \<and> 0 < num_data_qps rc \<and> 4104 \<le> mem_pool_size c
     \<and> unat start + mem_pool_size c < 2 ^ 64"

lemma slots_bounds:
  assumes "unat start + n * 4104 < 2 ^ 64"
  shows "- 1 \<notin> set (slots start n) \<and> distinct (slots start n)"
proof -
  have u: "unat (start + of_nat j * SLOT_SIZE) = unat start + j * 4104" if "j < n" for j
  proof -
    have "j * 4104 \<le> n * 4104" using that by simp
    then have lt: "unat start + j * 4104 < 2 ^ 64" using assms by linarith
    then have "unat (of_nat j * SLOT_SIZE) = j * 4104"
      by (simp add: SLOT_SIZE_def unat_word_ariths unat_of_nat mod_mult_left_eq)
    then show ?thesis using lt by (simp add: unat_word_ariths)
  qed
  have "start + of_nat j * SLOT_SIZE \<noteq> - 1" if "j < n" for j
  proof
    assume "start + of_nat j * SLOT_SIZE = - 1"
    then have "unat start + j * 4104 = 2 ^ 64 - 1" using u [OF that] by (simp add: unsigned_minus_1_eq_mask mask_eq_exp_minus_1)
    moreover have "j * 4104 + 4104 \<le> n * 4104" using that by (metis Suc_leI add.commute mult_Suc mult_le_mono1)
    ultimately show False using assms by linarith
  qed
  then have "- 1 \<notin> set (slots start n)" by (force simp: slots_def)
  moreover have "inj_on (\<lambda>j. start + of_nat j * SLOT_SIZE) {0..<n}"
  proof (rule inj_onI)
    fix i j assume ij: "i \<in> {0..<n}" "j \<in> {0..<n}" and e: "start + of_nat i * SLOT_SIZE = start + of_nat j * SLOT_SIZE"
    have "unat start + i * 4104 = unat start + j * 4104"
      using ij u [of i] u [of j] unfolding e by simp
    then show "i = j" by simp
  qed
  ultimately show ?thesis by (simp add: slots_def distinct_map)
qed

lemma PerCPUPool_new_spec:
  assumes "pool_config_ok c rc start"
  shows "\<exists>p n. PerCPUPool_new c rc mem start = Some p \<and> pool.owns (mem_pool_size c div 4104) (mset (slots start n)) p {#}
    \<and> distinct (slots start n) \<and> n = num_clients c * num_data_qps rc * (mem_pool_size c div 4104 div (num_clients c * num_data_qps rc))
    \<and> total_fl p = num_clients c * num_data_qps rc \<and> per_cli_fl p = num_data_qps rc \<and> pool_num_clients p = num_clients c"
proof -
  let ?t = "num_clients c * num_data_qps rc" and ?N = "mem_pool_size c div 4104"
  let ?i = "?N div ?t"
  let ?p = "\<lparr>total_fl = ?t, per_cli_fl = num_data_qps rc, pool_num_clients = num_clients c,
            pool_size = of_nat (mem_pool_size c), start_addr = start,
            allocs = replicate ?t 0, useds = replicate ?t 0,
            interval = 100, alloc_thold_perc = 10, free_thold_perc = 5,
            min_fl_alloc = of_nat ?i * SLOT_SIZE * 10 div 100, min_fl_free = of_nat ?i * SLOT_SIZE * 5 div 100, freelists = []\<rparr>"
  have le: "?t * ?i \<le> ?N" by simp
  have "?t * ?i * 4104 \<le> ?N * 4104" using le by simp
  also have "\<dots> \<le> mem_pool_size c" by simp
  finally have sb: "- 1 \<notin> set (slots start (?t * ?i)) \<and> distinct (slots start (?t * ?i))"
    using assms by (intro slots_bounds) (auto simp: pool_config_ok_def)
  have "pool_pre ?N 0 ?p" by (simp add: pool_pre_def pool_free_def)
  moreover have "0 < ?N" using assms by (simp add: pool_config_ok_def div_greater_zero_iff)
  ultimately obtain p where p: "make_lists ?N ?i mem 0 ?t start ?p = Some p" "pool_pre ?N ?t p" "same_shape ?p p" "pool_free p = mset (slots start (?t * ?i))"
    using make_lists_spec [of ?N 0 ?p ?t ?i start mem] sb le by (auto simp: pool_free_def)
  have "PerCPUPool_new c rc mem start = Some p" using p(1) by (simp add: PerCPUPool_new_def Let_def SLOT_SIZE_def)
  moreover have "pool_inv ?N p" using p(2,3) assms by (simp add: pool_inv_def same_shape_def pool_config_ok_def)
  moreover have "length (slots start (?t * ?i)) = ?t * ?i" by (simp add: slots_def)
  ultimately show ?thesis using p(3,4) sb le by (auto simp: pool.owns_def same_shape_def)
qed



section \<open>Properties of the pool\<close>

text \<open>
  The states a pool can reach from a given one, with the pages that are out: allocation for any client
  and queue, release of a page that is out to any client, borrowing for any list.
\<close>

inductive pool_reach :: "PerCPUPool \<Rightarrow> PerCPUPool \<Rightarrow> u64 multiset \<Rightarrow> bool" for p0 where
  reach_start: "pool_reach p0 p0 {#}"
| reach_alloc: "pool_reach p0 p out \<Longrightarrow> valid_queue p cid qid \<Longrightarrow> pool_Allocate cid qid r p = (p', a)
    \<Longrightarrow> pool_reach p0 p' (if a = - 1 then out else add_mset a out)"
| reach_free: "pool_reach p0 p out \<Longrightarrow> valid_queue p cid qid \<Longrightarrow> a \<in># out \<Longrightarrow> pool_Free a cid qid r p = Some p'
    \<Longrightarrow> pool_reach p0 p' (out - {#a#})"
| reach_borrow: "pool_reach p0 p out \<Longrightarrow> fl < total_fl p \<Longrightarrow> AllocateFromPeer fl p = Some (p', a) \<Longrightarrow> pool_reach p0 p' out"

lemma pool_reach_owns:
  assumes "pool_reach p0 p out" "pool.owns N all p0 {#}"
  shows "pool.owns N all p out"
  using assms
proof (induction rule: pool_reach.induct)
  case (reach_alloc p out cid qid r p' a)
  then show ?case using pool.alloc_owns by blast
next
  case (reach_free p out cid qid a r p')
  then show ?case using pool.release_owns [of N all p out cid qid a r] by auto
next
  case (reach_borrow p out fl p' a)
  then show ?case using pool.borrow_owns [of N all p out fl] by auto
qed

text \<open>
  C23. Pages are conserved.  From a new pool on, whatever is allocated, released and borrowed in whatever
  order, the free pages and the pages that are out are together exactly the slots the pool was built
  with, each once; releasing a page that is out never fails and never drops it.
\<close>

theorem pool_conserves_pages:
  assumes "pool_config_ok c rc start" "PerCPUPool_new c rc mem start = Some p0" "pool_reach p0 p out"
  shows "\<exists>n. pool_free p + out = mset (slots start n) \<and> distinct (slots start n)
    \<and> (\<forall>a cid qid r. a \<in># out \<and> valid_queue p cid qid \<longrightarrow>
         (\<exists>p'. pool_Free a cid qid r p = Some p' \<and> pool_free p' = add_mset a (pool_free p)))"
proof -
  obtain n where n: "pool.owns (mem_pool_size c div 4104) (mset (slots start n)) p0 {#}" "distinct (slots start n)"
    using PerCPUPool_new_spec [OF assms(1), of mem] assms(2) by auto
  note o = pool_reach_owns [OF assms(3) n(1)]
  have "\<exists>p'. pool_Free a cid qid r p = Some p' \<and> pool_free p' = add_mset a (pool_free p)"
    if a: "a \<in># out" "valid_queue p cid qid" for a cid qid r
  proof -
    obtain p' where p': "pool_Free a cid qid r p = Some p'" "pool.owns (mem_pool_size c div 4104) (mset (slots start n)) p' (out - {#a#})"
      using pool.release_owns [OF o a(2,1), of r] by blast
    have "pool_free p' + (out - {#a#}) = pool_free p + add_mset a (out - {#a#})"
      using o p'(2) a(1) by (simp add: pool.owns_def)
    then show ?thesis using p'(1) by simp
  qed
  then show ?thesis using o n(2) by (auto simp: pool.owns_def)
qed

definition small_config :: daemon_config_t where
  "small_config = \<lparr>tcp_port = 7777, num_clients = 1, exclusive_policy = False, mem_pool_size = 8 * 4104, ht_type = HT_LP_APPROX,
     num_ht_shards = 1, cbf_on = True, wc_mode = WC_BUSY_WAITING, poller_type = PER_QP_POLLER\<rparr>"

lemma small_config_ok: "pool_config_ok small_config dcc_rdma_set_default_config 65536"
  by (simp add: pool_config_ok_def small_config_def dcc_rdma_set_default_config_def)

theorem pool_conserves_pages_witness:
  "\<exists>p0 n. PerCPUPool_new small_config dcc_rdma_set_default_config (\<lambda>_. \<lparr>nvalue = 0, nnext = None\<rparr>) 65536 = Some p0
     \<and> pool_free p0 = mset (slots 65536 n) \<and> distinct (slots 65536 n)"
proof -
  obtain p0 where p0: "PerCPUPool_new small_config dcc_rdma_set_default_config (\<lambda>_. \<lparr>nvalue = 0, nnext = None\<rparr>) 65536 = Some p0"
    using PerCPUPool_new_spec [OF small_config_ok] by blast
  show ?thesis using pool_conserves_pages [OF small_config_ok p0 pool_reach.reach_start] p0 by auto
qed

text \<open>
  The byte counters are exact: in every reachable state the free bytes reported for a list, computed
  by subtraction of two 64-bit counters that may each have wrapped, are the size of a slot times the
  number of pages on that list.
\<close>

theorem pool_free_bytes_exact:
  assumes "pool_config_ok c rc start" "PerCPUPool_new c rc mem start = Some p0" "pool_reach p0 p out" "i < total_fl p"
  shows "GetFree p i = SLOT_SIZE * of_nat (length (fl_abs (freelists p ! i)))"
proof -
  obtain n where n: "pool.owns (mem_pool_size c div 4104) (mset (slots start n)) p0 {#}"
    using PerCPUPool_new_spec [OF assms(1), of mem] assms(2) by auto
  have "pool_inv (mem_pool_size c div 4104) p" using pool_reach_owns [OF assms(3) n] by (simp add: pool.owns_def)
  then have "pool_pre (mem_pool_size c div 4104) (total_fl p) p" by (rule pool_inv_pre)
  then show ?thesis using assms(4) by (simp add: pool_pre_def GetFree_def GetUsed_def)
qed

theorem pool_free_bytes_exact_witness:
  "\<exists>p0. PerCPUPool_new small_config dcc_rdma_set_default_config (\<lambda>_. \<lparr>nvalue = 0, nnext = None\<rparr>) 65536 = Some p0
     \<and> GetFree p0 3 = SLOT_SIZE * of_nat (length (fl_abs (freelists p0 ! 3)))"
proof -
  obtain p0 where p0: "PerCPUPool_new small_config dcc_rdma_set_default_config (\<lambda>_. \<lparr>nvalue = 0, nnext = None\<rparr>) 65536 = Some p0" "total_fl p0 = 8"
    using PerCPUPool_new_spec [OF small_config_ok] by (auto simp: small_config_def dcc_rdma_set_default_config_def)
  then have "3 < total_fl p0" by simp
  then show ?thesis using pool_free_bytes_exact [OF small_config_ok p0(1) pool_reach.reach_start, of 3] p0(1) by blast
qed

text \<open>
  The free threshold overflows: when five percent of a list are between 2 and 4 GiB, the
  conversion to \<^verbatim>\<open>int\<close> makes the threshold negative and the function returns at least \<open>2 ^ 63\<close> bytes, so
  that the list always counts as short of memory.
\<close>

theorem threshold_overflows:
  assumes "2 ^ 31 \<le> allocs p ! fl * free_thold_perc p div 100" "allocs p ! fl * free_thold_perc p div 100 < 2 ^ 32"
  shows "2 ^ 63 \<le> GetThldFree p fl"
proof -
  let ?x = "allocs p ! fl * free_thold_perc p div 100"
  have u: "2 ^ 31 \<le> unat ?x" "unat ?x < 2 ^ 32" using assms by (simp_all add: word_le_nat_alt word_less_nat_alt)
  have "unat ?x div 2 ^ 31 = 1" using u by (intro div_nat_eqI) simp_all
  then have "bit (unat ?x) 31" unfolding bit_iff_odd by (simp only:) simp
  then have "bit ?x 31" by (simp only: bit_unsigned_iff)
  then have "bit (scast (ucast ?x :: u32) :: u64) 63" by (simp add: bit_simps)
  then have "\<not> (scast (ucast ?x :: u32) :: u64) < 2 ^ 63" using bit_less_exp [of _ 63 63] by auto
  then have "2 ^ 63 \<le> (scast (ucast ?x :: u32) :: u64)" by simp
  then show ?thesis unfolding GetThldFree_def Let_def by (cases "min_fl_free p < scast (ucast ?x :: u32)") (simp_all add: not_less)
qed


definition big_pool :: PerCPUPool where
  "big_pool = \<lparr>total_fl = 1, per_cli_fl = 1, pool_num_clients = 1, pool_size = 48 * 2 ^ 30, start_addr = 0,
     allocs = [48 * 2 ^ 30], useds = [0], interval = 100, alloc_thold_perc = 10, free_thold_perc = 5,
     min_fl_alloc = 0, min_fl_free = 0, freelists = []\<rparr>"

theorem threshold_overflows_witness: "2 ^ 63 \<le> GetThldFree big_pool 0"
  by (rule threshold_overflows) (simp_all add: big_pool_def)

text \<open>
  Borrowing looks at one list only: when the list of the chosen peer with the same queue number does
  not meet the two conditions, no page is borrowed, however many pages the other lists of that peer have.
\<close>

theorem borrow_never_tries_another_list:
  assumes "peer = SelectByFreeMem p (fl div per_cli_fl p) * per_cli_fl p + fl mod per_cli_fl p"
    and "\<not> (MB (GetAlloc p peer) > MB (min_fl_alloc p) \<and> MB (GetFree p peer) > MB (min_fl_free p))"
  shows "AllocateFromPeer fl p = Some (p, - 1)"
proof -
  have "AllocateFromPeer_loop n base m fl peer p = Some (p, - 1)" for n base m
    using assms(2) by (induction n) auto
  then show ?thesis by (simp add: AllocateFromPeer_def Let_def assms(1))
qed

definition lopsided_pool :: PerCPUPool where
  "lopsided_pool = \<lparr>total_fl = 4, per_cli_fl = 2, pool_num_clients = 2, pool_size = 102 * 2 ^ 20, start_addr = 0,
     allocs = [0, 0, 2 * 2 ^ 20, 100 * 2 ^ 20], useds = [0, 0, 2 * 2 ^ 20, 0], interval = 100, alloc_thold_perc = 10, free_thold_perc = 5,
     min_fl_alloc = 2 ^ 20, min_fl_free = 2 ^ 20, freelists = []\<rparr>"

theorem borrow_never_tries_another_list_witness:
  "SelectByFreeMem lopsided_pool 0 = 1 \<and> GetFree lopsided_pool 3 = 100 * 2 ^ 20 \<and> AllocateFromPeer 0 lopsided_pool = Some (lopsided_pool, - 1)"
proof -
  have "2 = SelectByFreeMem lopsided_pool (0 div per_cli_fl lopsided_pool) * per_cli_fl lopsided_pool + 0 mod per_cli_fl lopsided_pool"
    by code_simp
  moreover have "\<not> (MB (GetAlloc lopsided_pool 2) > MB (min_fl_alloc lopsided_pool) \<and> MB (GetFree lopsided_pool 2) > MB (min_fl_free lopsided_pool))"
    by code_simp
  ultimately have "AllocateFromPeer 0 lopsided_pool = Some (lopsided_pool, - 1)" by (rule borrow_never_tries_another_list)
  moreover have "SelectByFreeMem lopsided_pool 0 = 1" "GetFree lopsided_pool 3 = 100 * 2 ^ 20" by code_simp+
  ultimately show ?thesis by blast
qed

end
