(* ===== verification/KV.thy ===== *)
theory KV
  imports Linear_Probing Counting_Bloom Percpu_Pool
begin

text \<open>
  The key-value layer of the daemon (\<^verbatim>\<open>daemon/kv.hpp\<close>, \<^verbatim>\<open>daemon/kv.cpp\<close>, \<^verbatim>\<open>daemon/stats.hpp\<close>): the sharded
  index, one counting Bloom filter per client and the page pool, and the operations that keep the
  three together.  Everything an operation takes from its environment - the clock, the outcomes of
  \<^verbatim>\<open>try_lock\<close>, random numbers - is an argument, one element per round of a retry loop; a list that is too
  short gives no result.  Exceptions and failing asserts, which end the daemon, are \<^const>\<open>Inl\<close>.
\<close>

section \<open>State\<close>

datatype kv_stats_t =
    KV_SUCC_PUT | KV_FAILED_PUT | KV_UPDATED_PUT | KV_EVICTED_PUT
  | KV_SUCC_GET | KV_FAILED_GET | KV_SUCC_INV | KV_FAILED_INV | KV_EVICTED_BG

type_synonym Stats = "kv_stats_t \<Rightarrow> nat \<Rightarrow> u64"

definition Stats_Inc :: "kv_stats_t \<Rightarrow> nat \<Rightarrow> Stats \<Rightarrow> Stats" where
  "Stats_Inc st cpu cnts = cnts(st := (cnts st)(cpu := cnts st cpu + 1))"

definition Stats_Sum :: "nat \<Rightarrow> kv_stats_t \<Rightarrow> Stats \<Rightarrow> u64" where
  "Stats_Sum num_cpus st cnts = sum_list (map (cnts st) [0..<num_cpus])"

datatype kv_error = Kv_table lpa_error | Kv_dup_failed | Kv_assert

record KV =
  config :: daemon_config_t
  rdma_config :: dcc_rdma_config_t
  hashes :: "LinearProbingApprox list"
  cbfs :: "CountingBloomFilter list"
  kpool :: PerCPUPool
  victim_shard_id :: u64
  stats :: Stats

record kv_env =
  e_now :: u32
  e_lock :: "nat \<Rightarrow> bool"
  e_rand :: nat

definition get_cpu_id :: "KV \<Rightarrow> nat \<Rightarrow> nat \<Rightarrow> nat" where
  "get_cpu_id s cid qid = (if poller_type (config s) = PER_QP_POLLER then cid * num_data_qps (rdma_config s) + qid else qid)"

definition get_ht_shard_id :: "KV \<Rightarrow> Key_t \<Rightarrow> nat" where
  "get_ht_shard_id s key = (if num_ht_shards (config s) > 1
     then unat (hash_funcs 0 (le_bytes key) f_seed) mod num_ht_shards (config s) else 0)"

text \<open>
  Construction: only the linear probing type allocates tables, the other types leave the array of
  tables uninitialised.  \<open>num_hash\<close> and \<open>num_bits\<close> come from \<^verbatim>\<open>calc_filter_param\<close>.
\<close>

definition kv_capacity :: "nat \<Rightarrow> nat" where
  "kv_capacity pool_bytes = (let cap = pool_bytes div 4096 * 110 div 100 in if cap mod 8 \<noteq> 0 then cap + (8 - cap mod 8) else cap)"

definition KV_new :: "daemon_config_t \<Rightarrow> dcc_rdma_config_t \<Rightarrow> nat \<Rightarrow> nat \<Rightarrow> (nat \<Rightarrow> lfstack_node) \<Rightarrow> Stats \<Rightarrow> u64 \<Rightarrow> KV option" where
  "KV_new conf rconf nh nb mem st start =
     (if ht_type conf = HT_LP_APPROX then
        (case PerCPUPool_new conf rconf mem start of
           None \<Rightarrow> None
         | Some p \<Rightarrow> Some \<lparr>config = conf, rdma_config = rconf,
             hashes = replicate (num_ht_shards conf) (LinearProbingApprox_new (kv_capacity (mem_pool_size conf))),
             cbfs = (if cbf_on conf then replicate (num_clients conf) (CountingBloomFilter_new nh nb) else []),
             kpool = p, victim_shard_id = 0, stats = st\<rparr>)
      else None)"

definition inc_stat :: "kv_stats_t \<Rightarrow> nat \<Rightarrow> KV \<Rightarrow> KV" where
  "inc_stat st cpu s = s\<lparr>stats := Stats_Inc st cpu (stats s)\<rparr>"

definition filter_insert :: "nat \<Rightarrow> Key_t \<Rightarrow> KV \<Rightarrow> KV" where
  "filter_insert cid key s = (if cbf_on (config s) then s\<lparr>cbfs := (cbfs s)[cid := cbf_Insert key (cbfs s ! cid)]\<rparr> else s)"

definition filter_remove :: "nat \<Rightarrow> Key_t \<Rightarrow> KV \<Rightarrow> KV" where
  "filter_remove cid key s = (if cbf_on (config s) then s\<lparr>cbfs := (cbfs s)[cid := fst (cbf_Remove key (cbfs s ! cid))]\<rparr> else s)"

definition set_table :: "nat \<Rightarrow> LinearProbingApprox \<Rightarrow> KV \<Rightarrow> KV" where
  "set_table sh t s = s\<lparr>hashes := (hashes s)[sh := t]\<rparr>"


section \<open>Operations\<close>

definition kv_Allocate :: "nat \<Rightarrow> nat option \<Rightarrow> nat \<Rightarrow> KV \<Rightarrow> KV \<times> Value_t" where
  "kv_Allocate cid qid r s = (case pool_Allocate cid qid r (kpool s) of (p, a) \<Rightarrow> (s\<lparr>kpool := p\<rparr>, a))"

definition kv_Free :: "Value_t \<Rightarrow> nat \<Rightarrow> nat option \<Rightarrow> nat \<Rightarrow> KV \<Rightarrow> KV option" where
  "kv_Free v cid qid r s = map_option (\<lambda>p. s\<lparr>kpool := p\<rparr>) (pool_Free v cid qid r (kpool s))"

fun kv_Insert :: "kv_env list \<Rightarrow> Key_t \<Rightarrow> Value_t \<Rightarrow> nat \<Rightarrow> nat \<Rightarrow> KV \<Rightarrow> (kv_error + KV) option" where
  "kv_Insert [] key value cid qid s = None"
| "kv_Insert (e # es) key value cid qid s =
     (let sh = get_ht_shard_id s key; cpu_id = get_cpu_id s cid qid
      in case lpa_Insert (e_now e) (e_lock e) key value INVALID (hashes s ! sh) of
           Inl x \<Rightarrow> Some (Inl (Kv_table x))
         | Inr (t, ret, ev_key, ev_value) \<Rightarrow>
             (let s1 = set_table sh t s in
              if ev_key \<noteq> INVALID \<and> ev_value \<noteq> NONE then
                (let ev_cid = unat (longkey_to_cid ev_key) in
                 case kv_Free ev_value ev_cid None (e_rand e) s1 of
                   None \<Rightarrow> Some (Inl Kv_assert)
                 | Some s2 \<Rightarrow>
                     if ret = 0 then Some (Inr (inc_stat KV_SUCC_PUT cpu_id (filter_insert cid key (inc_stat KV_EVICTED_PUT cpu_id (filter_remove ev_cid ev_key s2)))))
                     else Some (Inr (inc_stat KV_FAILED_PUT cpu_id s2)))
              else if ev_value \<noteq> NONE then
                (if ret \<noteq> 0 then Some (Inl Kv_dup_failed)
                 else case kv_Free ev_value cid None (e_rand e) s1 of
                        None \<Rightarrow> Some (Inl Kv_assert)
                      | Some s2 \<Rightarrow> kv_Insert es key value cid qid (inc_stat KV_UPDATED_PUT cpu_id s2))
              else if ret = 0 then Some (Inr (inc_stat KV_SUCC_PUT cpu_id (filter_insert cid key s1)))
              else Some (Inr s1)))"

definition kv_Remove :: "Key_t \<Rightarrow> nat \<Rightarrow> nat \<Rightarrow> KV \<Rightarrow> KV \<times> Value_t" where
  "kv_Remove key cid qid s =
     (let sh = get_ht_shard_id s key; cpu_id = get_cpu_id s cid qid
      in case lpa_Delete key (hashes s ! sh) of
           (t, value) \<Rightarrow>
             if value \<noteq> NONE then (inc_stat KV_SUCC_INV cpu_id (filter_remove cid key (set_table sh t s)), value)
             else (inc_stat KV_FAILED_INV cpu_id (set_table sh t s), value))"

definition kv_Get :: "kv_env \<Rightarrow> Key_t \<Rightarrow> KV \<Rightarrow> KV \<times> Value_t" where
  "kv_Get e key s = (case lpa_Get (e_now e) key (hashes s ! get_ht_shard_id s key) of
     (t, v) \<Rightarrow> (set_table (get_ht_shard_id s key) t s, v))"

definition kv_GetWithFlag :: "kv_env \<Rightarrow> Key_t \<Rightarrow> nat \<Rightarrow> nat \<Rightarrow> bool \<Rightarrow> KV \<Rightarrow> KV \<times> Value_t" where
  "kv_GetWithFlag e key cid qid fl s =
     (let sh = get_ht_shard_id s key; cpu_id = get_cpu_id s cid qid
      in case lpa_GetWithFlag (e_now e) key fl (hashes s ! sh) of
           (t, v) \<Rightarrow> (inc_stat (if v \<noteq> NONE then KV_SUCC_GET else KV_FAILED_GET) cpu_id (set_table sh t s), v))"

text \<open>One eviction; the table draws \<open>rs\<close> random windows and \<open>lck\<close> says which locks it finds free.\<close>

record evict_env =
  ev_lock :: "nat \<Rightarrow> nat \<Rightarrow> bool"
  ev_draws :: "nat list"
  ev_rand :: nat

definition next_victim :: "KV \<Rightarrow> nat \<times> KV" where
  "next_victim s = (if num_ht_shards (config s) = 1 then (0, s)
     else (unat (victim_shard_id s) mod num_ht_shards (config s), s\<lparr>victim_shard_id := victim_shard_id s + 1\<rparr>))"

definition kv_Evict :: "evict_env \<Rightarrow> nat \<Rightarrow> nat \<Rightarrow> KV \<Rightarrow> (kv_error + KV) option" where
  "kv_Evict e cid qid s =
     (case next_victim s of (sh, s0) \<Rightarrow>
        (case lpa_Evict (ev_lock e) (ev_draws e) (hashes s0 ! sh) of
           None \<Rightarrow> None
         | Some (Inl x) \<Rightarrow> Some (Inl (Kv_table x))
         | Some (Inr (t, key, value)) \<Rightarrow>
             (let ev_cid = unat (longkey_to_cid key) in
              case kv_Free value ev_cid None (ev_rand e) (set_table sh t s0) of
                None \<Rightarrow> Some (Inl Kv_assert)
              | Some s1 \<Rightarrow> Some (Inr (inc_stat KV_EVICTED_BG (get_cpu_id s1 ev_cid qid) (filter_remove ev_cid key s1))))))"

text \<open>
  One pass of the evictor thread of a list: while its free memory is below the threshold, borrow a page
  or evict one, at most one more than the threshold has pages.  Each round takes one environment.
\<close>

fun Evictor_loop :: "evict_env list \<Rightarrow> nat \<Rightarrow> nat \<Rightarrow> nat \<Rightarrow> u64 \<Rightarrow> int \<Rightarrow> int \<Rightarrow> KV \<Rightarrow> (kv_error + KV) option" where
  "Evictor_loop es cid qid fl_id thld_free thld_cnt evict_cnt s =
     (if \<not> MB thld_free > MB (GetFree (kpool s) fl_id) then Some (Inr s)
      else case es of
        [] \<Rightarrow> None
      | e # es' \<Rightarrow>
          (case AllocateFromPeer fl_id (kpool s) of
             None \<Rightarrow> Some (Inl Kv_assert)
           | Some (p, a) \<Rightarrow>
               (let s1 = s\<lparr>kpool := p\<rparr> in
                if a = - 1 then
                  (case kv_Evict e cid qid s1 of
                     None \<Rightarrow> None
                   | Some (Inl x) \<Rightarrow> Some (Inl x)
                   | Some (Inr s2) \<Rightarrow>
                       if evict_cnt + 1 > thld_cnt then Some (Inr s2)
                       else Evictor_loop es' cid qid fl_id thld_free thld_cnt (evict_cnt + 1) s2)
                else if evict_cnt > thld_cnt then Some (Inr s1)
                else Evictor_loop es' cid qid fl_id thld_free thld_cnt evict_cnt s1)))"

declare Evictor_loop.simps [simp del]

definition Evictor_pass :: "evict_env list \<Rightarrow> nat \<Rightarrow> nat \<Rightarrow> KV \<Rightarrow> (kv_error + KV) option" where
  "Evictor_pass es cid qid s =
     (let fl_id = cid * num_data_qps (rdma_config s) + qid;
          thld_free = GetThldFree (kpool s) fl_id;
          thld_evict_cnt = sint (ucast (thld_free div 4096) :: u32)
      in Evictor_loop es cid qid fl_id thld_free thld_evict_cnt 0 s)"


section \<open>The abstract state\<close>

text \<open>The pages under their keys, each looked up in the shard of its key.\<close>

definition kv_map :: "KV \<Rightarrow> Key_t \<rightharpoonup> Value_t" where
  "kv_map s k = lpa_map (hashes s ! get_ht_shard_id s k) k"

abbreviation key_cid :: "Key_t \<Rightarrow> nat" where
  "key_cid k \<equiv> unat (longkey_to_cid k)"

definition map_pages :: "(Key_t \<rightharpoonup> Value_t) \<Rightarrow> Value_t multiset" where
  "map_pages m = image_mset (\<lambda>k. the (m k)) (mset_set (dom m))"

definition kv_wf :: "KV \<Rightarrow> bool" where
  "kv_wf s \<longleftrightarrow> 0 < num_ht_shards (config s) \<and> length (hashes s) = num_ht_shards (config s)
     \<and> (\<forall>i < num_ht_shards (config s). lpa_ok (hashes s ! i)
          \<and> (\<forall>k v. lpa_map (hashes s ! i) k = Some v \<longrightarrow> get_ht_shard_id s k = i \<and> key_cid k < num_clients (config s)))
     \<and> pool_num_clients (kpool s) = num_clients (config s) \<and> total_fl (kpool s) = num_clients (config s) * num_data_qps (rdma_config s)"

text \<open>
  Ownership: the free pages of the pool, the pages in the index and the pages \<open>out\<close> that the message
  handlers hold are together \<open>all\<close> pages.
\<close>

definition kv_inv :: "nat \<Rightarrow> Value_t multiset \<Rightarrow> KV \<Rightarrow> Value_t multiset \<Rightarrow> bool" where
  "kv_inv N all s out \<longleftrightarrow> kv_wf s \<and> pool.owns N all (kpool s) (map_pages (kv_map s) + out) \<and> NONE \<notin># all"

text \<open>The filter of each client represents some multiset of keys that covers the stored keys of the client.\<close>

definition filters_cover :: "KV \<Rightarrow> (nat \<Rightarrow> Key_t multiset) \<Rightarrow> (Key_t \<rightharpoonup> Value_t) \<Rightarrow> bool" where
  "filters_cover s Ms m \<longleftrightarrow> (cbf_on (config s) \<longrightarrow> length (cbfs s) = num_clients (config s)
     \<and> (\<forall>c < num_clients (config s). cbf_rep (cbfs s ! c) (Ms c) \<and> (\<forall>k v. m k = Some v \<longrightarrow> key_cid k = c \<longrightarrow> k \<in># Ms c)))"

definition kv_filters :: "KV \<Rightarrow> (nat \<Rightarrow> Key_t multiset) \<Rightarrow> bool" where
  "kv_filters s Ms \<longleftrightarrow> filters_cover s Ms (kv_map s)"

definition kv_room :: "KV \<Rightarrow> (nat \<Rightarrow> Key_t multiset) \<Rightarrow> nat \<Rightarrow> Key_t \<Rightarrow> bool" where
  "kv_room s Ms c k \<longleftrightarrow> (cbf_on (config s) \<longrightarrow> cbf_room (cbfs s ! c) (Ms c) k)"

text \<open>What a put may do to the stored pages.\<close>

definition put_spec :: "(Key_t \<rightharpoonup> Value_t) \<Rightarrow> Key_t \<Rightarrow> Value_t \<Rightarrow> (Key_t \<rightharpoonup> Value_t) \<Rightarrow> bool" where
  "put_spec m k v m' \<longleftrightarrow> m' = m(k \<mapsto> v) \<or> (\<exists>e. e \<noteq> k \<and> m e \<noteq> None \<and> m' = m(e := None, k \<mapsto> v)) \<or> m' = m(k := None)"


section \<open>Lemmas on the parts\<close>

lemma map_pages_insert: "m k = None \<Longrightarrow> map_pages (m(k \<mapsto> v)) = add_mset v (map_pages m)"
proof -
  assume "m k = None"
  then have "k \<notin> dom m" by auto
  then have "image_mset (\<lambda>k'. the ((m(k \<mapsto> v)) k')) (mset_set (dom m)) = map_pages m"
    unfolding map_pages_def by (intro image_mset_cong) auto
  then show ?thesis using \<open>k \<notin> dom m\<close> by (simp add: map_pages_def)
qed

lemma map_pages_remove: "m k = Some v \<Longrightarrow> map_pages m = add_mset v (map_pages (m(k := None)))"
  using map_pages_insert [of "m(k := None)" k v] by (simp add: map_upd_triv)

lemma map_pages_empty [simp]: "map_pages (\<lambda>_. None) = {#}"
  by (simp add: map_pages_def dom_def)

lemma shard_config: "config s' = config s \<Longrightarrow> get_ht_shard_id s' = get_ht_shard_id s"
  by (simp add: get_ht_shard_id_def fun_eq_iff)

lemma shard_less: "kv_wf s \<Longrightarrow> get_ht_shard_id s k < num_ht_shards (config s)"
  by (simp add: get_ht_shard_id_def kv_wf_def)

lemma kv_map_cong: "config s' = config s \<Longrightarrow> hashes s' = hashes s \<Longrightarrow> kv_map s' = kv_map s"
  by (simp add: kv_map_def shard_config [of s' s] fun_eq_iff)

lemma kv_fields [simp]:
  "config (inc_stat x c s) = config s" "hashes (inc_stat x c s) = hashes s" "kpool (inc_stat x c s) = kpool s"
  "cbfs (inc_stat x c s) = cbfs s" "rdma_config (inc_stat x c s) = rdma_config s"
  "config (filter_insert cid k s) = config s" "hashes (filter_insert cid k s) = hashes s" "kpool (filter_insert cid k s) = kpool s"
  "rdma_config (filter_insert cid k s) = rdma_config s"
  "config (filter_remove cid k s) = config s" "hashes (filter_remove cid k s) = hashes s" "kpool (filter_remove cid k s) = kpool s"
  "rdma_config (filter_remove cid k s) = rdma_config s"
  "config (set_table i t s) = config s" "hashes (set_table i t s) = (hashes s)[i := t]" "kpool (set_table i t s) = kpool s"
  "cbfs (set_table i t s) = cbfs s" "rdma_config (set_table i t s) = rdma_config s"
  by (simp_all add: inc_stat_def filter_insert_def filter_remove_def set_table_def)

lemma kv_wf_cong:
  assumes "config s' = config s" "hashes s' = hashes s" "rdma_config s' = rdma_config s"
    "valid_queue (kpool s') = valid_queue (kpool s)" "total_fl (kpool s') = total_fl (kpool s)"
  shows "kv_wf s' = kv_wf s"
proof -
  have "c < pool_num_clients (kpool s') \<longleftrightarrow> c < pool_num_clients (kpool s)" for c
    using fun_cong [OF fun_cong [OF assms(4)], of c None] by (simp add: valid_queue_def)
  then have "pool_num_clients (kpool s') = pool_num_clients (kpool s)" by (metis linorder_neqE_nat order_less_irrefl)
  then show ?thesis using assms(1-3,5) by (simp add: kv_wf_def shard_config [OF assms(1)])
qed

lemma kv_inv_cong:
  assumes "config s' = config s" "hashes s' = hashes s" "rdma_config s' = rdma_config s" "kpool s' = kpool s"
  shows "kv_inv N all s' out = kv_inv N all s out"
  using kv_wf_cong [of s' s] kv_map_cong [of s' s] assms by (simp add: kv_inv_def)

lemma kv_inv_simps [simp]:
  "kv_inv N all (inc_stat x c s) out = kv_inv N all s out"
  "kv_inv N all (filter_insert cid k s) out = kv_inv N all s out"
  "kv_inv N all (filter_remove cid k s) out = kv_inv N all s out"
  by (rule kv_inv_cong; simp)+

lemma kv_map_simps [simp]:
  "kv_map (inc_stat x c s) = kv_map s" "kv_map (filter_insert cid k s) = kv_map s" "kv_map (filter_remove cid k s) = kv_map s"
  "kv_map (s\<lparr>kpool := p\<rparr>) = kv_map s" "kv_map (s\<lparr>victim_shard_id := n\<rparr>) = kv_map s"
  by (rule kv_map_cong; simp)+

lemma kv_map_table: "kv_wf s \<Longrightarrow> i < num_ht_shards (config s) \<Longrightarrow> lpa_map (hashes s ! i) k = (if get_ht_shard_id s k = i then kv_map s k else None)"
  by (cases "lpa_map (hashes s ! i) k") (auto simp: kv_wf_def kv_map_def)

text \<open>Replacing a table by one whose new keys belong there.\<close>

lemma set_table_spec:
  assumes wf: "kv_wf s" and i: "i < num_ht_shards (config s)" and t: "lpa_ok t"
    and dom: "\<And>k v. lpa_map t k = Some v \<Longrightarrow> get_ht_shard_id s k = i \<and> key_cid k < num_clients (config s)"
  shows "kv_wf (set_table i t s)" "kv_map (set_table i t s) k = (if get_ht_shard_id s k = i then lpa_map t k else kv_map s k)"
proof -
  have len: "length (hashes s) = num_ht_shards (config s)" using wf by (simp add: kv_wf_def)
  have g: "get_ht_shard_id (set_table i t s) = get_ht_shard_id s" by (rule shard_config) simp
  show "kv_map (set_table i t s) k = (if get_ht_shard_id s k = i then lpa_map t k else kv_map s k)"
    using i len by (simp add: kv_map_def g nth_list_update)
  show "kv_wf (set_table i t s)" using wf t dom i by (auto simp: kv_wf_def g nth_list_update)
qed


lemma set_table_delete:
  assumes wf: "kv_wf s" and i: "i < num_ht_shards (config s)" and k: "get_ht_shard_id s k = i"
    and t: "lpa_ok t" "lpa_map t = (lpa_map (hashes s ! i))(k := None)"
  shows "kv_wf (set_table i t s) \<and> kv_map (set_table i t s) = (kv_map s)(k := None)"
proof -
  have d: "get_ht_shard_id s x = i \<and> key_cid x < num_clients (config s)" if "lpa_map t x = Some v" for x v
    using that wf i by (auto simp: t kv_wf_def split: if_splits)
  note S = set_table_spec [OF wf i t(1) d]
  have "kv_map (set_table i t s) x = ((kv_map s)(k := None)) x" for x
    using k S(2) [of _ x] unfolding t(2) by (simp add: kv_map_def)
  then show ?thesis using S(1) by auto
qed

lemma set_table_same:
  assumes wf: "kv_wf s" and i: "i < num_ht_shards (config s)" and t: "lpa_ok t" "lpa_map t = lpa_map (hashes s ! i)"
  shows "kv_wf (set_table i t s) \<and> kv_map (set_table i t s) = kv_map s"
proof -
  have d: "get_ht_shard_id s x = i \<and> key_cid x < num_clients (config s)" if "lpa_map t x = Some v" for x v
    using that wf i by (auto simp: t kv_wf_def)
  note S = set_table_spec [OF wf i t(1) d]
  have "kv_map (set_table i t s) x = kv_map s x" for x using S(2) [of _ x] unfolding t(2) by (simp add: kv_map_def)
  then show ?thesis using S(1) by auto
qed

lemma set_table_insert:
  assumes wf: "kv_wf s" and i: "i = get_ht_shard_id s k" and k: "key_cid k < num_clients (config s)"
    and t: "lpa_ok t" and sp: "insert_spec (lpa_map (hashes s ! i)) k v ek0 (lpa_map t) ret ek ev"
  shows "kv_wf (set_table i t s) \<and> insert_spec (kv_map s) k v ek0 (kv_map (set_table i t s)) ret ek ev"
proof -
  let ?m = "lpa_map (hashes s ! i)" and ?s = "set_table i t s"
  have il: "i < num_ht_shards (config s)" unfolding i by (rule shard_less [OF wf])
  have d0: "get_ht_shard_id s x = i \<and> key_cid x < num_clients (config s)" if "?m x = Some w" for x w
    using that wf il by (auto simp: kv_wf_def)
  have d: "get_ht_shard_id s x = i \<and> key_cid x < num_clients (config s)" if "lpa_map t x = Some w" for x w
  proof -
    have "x = k \<or> ?m x = Some w" using sp that by (auto simp: insert_spec_def split: option.splits if_splits)
    then show ?thesis using d0 i k by auto
  qed
  note S = set_table_spec [OF wf il t d]
  have m: "kv_map ?s x = (if get_ht_shard_id s x = i then lpa_map t x else kv_map s x)" for x by (rule S(2))
  have mx: "?m x = (if get_ht_shard_id s x = i then kv_map s x else None)" for x by (rule kv_map_table [OF wf il])
  have "insert_spec (kv_map s) k v ek0 (kv_map ?s) ret ek ev"
  proof (cases "?m k")
    case (Some w)
    then have "kv_map s k = Some w" "lpa_map t = ?m(k := None)" "ret = 0" "ek = ek0" "ev = w"
      using sp i mx [of k] by (auto simp: insert_spec_def)
    moreover have "kv_map ?s = (kv_map s)(k := None)" using calculation(2) by (simp add: m mx fun_eq_iff i [symmetric])
    ultimately show ?thesis by (simp add: insert_spec_def)
  next
    case None
    then have n: "kv_map s k = None" using i mx [of k] by simp
    consider (new) "lpa_map t = ?m(k \<mapsto> v)" "ret = 0" "ek = ek0" "ev = NONE"
      | (coll) "ek \<noteq> k" "?m ek = Some ev" "lpa_map t = ?m(ek := None, k \<mapsto> v)" "ret = 0"
      | (full) "lpa_map t = ?m" "ret = - 1" "ek = k" "ev = v"
      using sp None by (auto simp: insert_spec_def)
    then show ?thesis
    proof cases
      case new
      have "kv_map ?s = (kv_map s)(k \<mapsto> v)" using new(1) by (simp add: m mx fun_eq_iff i [symmetric])
      then show ?thesis using new n by (simp add: insert_spec_def)
    next
      case coll
      then have "get_ht_shard_id s ek = i" "kv_map s ek = Some ev" using mx [of ek] by (auto split: if_splits)
      moreover have "kv_map ?s = (kv_map s)(ek := None, k \<mapsto> v)" using coll(3) calculation(1) by (simp add: m mx fun_eq_iff i [symmetric])
      ultimately show ?thesis using coll n by (simp add: insert_spec_def)
    next
      case full
      then have "kv_map ?s = kv_map s" by (simp add: m mx fun_eq_iff)
      then show ?thesis using full n by (simp add: insert_spec_def)
    qed
  qed
  then show ?thesis using S(1) by simp
qed

text \<open>Releasing a page that is out.\<close>

lemma kv_Free_spec:
  assumes "kv_wf s" "pool.owns N all (kpool s) out" "v \<in># out" "cid < num_clients (config s)"
  shows "\<exists>s'. kv_Free v cid None r s = Some s' \<and> kv_wf s' \<and> pool.owns N all (kpool s') (out - {#v#})
    \<and> kv_map s' = kv_map s \<and> config s' = config s \<and> cbfs s' = cbfs s \<and> hashes s' = hashes s"
proof -
  have "valid_queue (kpool s) cid None" using assms(1,4) by (simp add: valid_queue_def kv_wf_def)
  then obtain p where p: "pool_Free v cid None r (kpool s) = Some p" "pool.owns N all p (out - {#v#})"
    "valid_queue p = valid_queue (kpool s)" "total_fl p = total_fl (kpool s)"
    using pool.release_owns [OF assms(2) _ assms(3)] by blast
  have "kv_wf (s\<lparr>kpool := p\<rparr>)" using kv_wf_cong [of "s\<lparr>kpool := p\<rparr>" s] p assms(1) by simp
  then show ?thesis using p by (simp add: kv_Free_def)
qed

section \<open>The filters\<close>

lemma hits_params: "num_hash f' = num_hash f \<Longrightarrow> num_bits f' = num_bits f \<Longrightarrow> hits f' = hits f"
proof -
  assume p: "num_hash f' = num_hash f" "num_bits f' = num_bits f"
  have "computeHash f' = computeHash f" using p(2) by (simp add: computeHash_def fun_eq_iff)
  then have "key_hits f' = key_hits f" unfolding key_hits_def cbf_indices_def p(1) by simp
  then show ?thesis unfolding hits_def by simp
qed

lemma cbf_params [simp]:
  "num_hash (fst (cbf_Remove k f)) = num_hash f" "num_bits (fst (cbf_Remove k f)) = num_bits f"
  "num_hash (cbf_Insert k f) = num_hash f" "num_bits (cbf_Insert k f) = num_bits f"
  by (simp_all add: cbf_Remove_fold cbf_Insert_fold)

lemma room_mono:
  assumes "cbf_room f M k" "M' \<subseteq># M" "num_hash f' = num_hash f" "num_bits f' = num_bits f"
  shows "cbf_room f' M' k"
proof -
  obtain D where "M = M' + D" using assms(2) by (auto simp: mset_subset_eq_exists_conv)
  then have "hits f (add_mset k M') j \<le> hits f (add_mset k M) j" for j by (simp add: hits_def)
  then show ?thesis using assms(1,4) le_trans unfolding cbf_room_def hits_params [OF assms(3,4)] by fastforce
qed

lemma cover_cong: "config s' = config s \<Longrightarrow> cbfs s' = cbfs s \<Longrightarrow> filters_cover s' Ms m = filters_cover s Ms m"
  by (simp add: filters_cover_def)

lemma cover_mono: "filters_cover s Ms m \<Longrightarrow> dom m' \<subseteq> dom m \<Longrightarrow> filters_cover s Ms m'"
  unfolding filters_cover_def by blast

lemma cover_insert:
  assumes "filters_cover s Ms m" "kv_room s Ms (key_cid k) k" "key_cid k < num_clients (config s)"
  shows "filters_cover (filter_insert (key_cid k) k s) (Ms(key_cid k := add_mset k (Ms (key_cid k)))) (m(k \<mapsto> v))"
proof (cases "cbf_on (config s)")
  case True
  then have "cbf_rep (cbf_Insert k (cbfs s ! key_cid k)) (add_mset k (Ms (key_cid k)))"
    using assms by (intro cbf.add_rep) (auto simp: filters_cover_def kv_room_def)
  then show ?thesis using assms(1,3) True by (simp add: filters_cover_def filter_insert_def nth_list_update)
qed (simp add: filters_cover_def)

lemma cover_remove:
  assumes "filters_cover s Ms m" "m k = Some v" "key_cid k < num_clients (config s)"
  shows "filters_cover (filter_remove (key_cid k) k s) (Ms(key_cid k := Ms (key_cid k) - {#k#})) (m(k := None))"
proof (cases "cbf_on (config s)")
  case True
  then have "cbf_rep (fst (cbf_Remove k (cbfs s ! key_cid k))) (Ms (key_cid k) - {#k#})"
    using assms cbf.del_rep by (auto simp: filters_cover_def)
  then show ?thesis using assms True by (auto simp: filters_cover_def filter_remove_def nth_list_update in_diff_count)
qed (simp add: filters_cover_def)

lemma room_after_remove:
  assumes "kv_room s Ms c k" "filters_cover s Ms m" "c < num_clients (config s)"
  shows "kv_room (filter_remove c' k' s) (Ms(c' := Ms c' - {#k'#})) c k"
proof (cases "cbf_on (config s)")
  case True
  then show ?thesis using assms room_mono [of "cbfs s ! c" "Ms c" k "Ms c - {#k'#}" "fst (cbf_Remove k' (cbfs s ! c))"]
    by (auto simp: kv_room_def filters_cover_def filter_remove_def nth_list_update)
qed (simp add: kv_room_def)

lemma cover_simps [simp]: "filters_cover (inc_stat x c s) = filters_cover s" "kv_room (inc_stat x c s) = kv_room s"
  by (simp_all add: filters_cover_def kv_room_def fun_eq_iff)

section \<open>Insertion\<close>

text \<open>What a successful run of an operation keeps of the filters.\<close>

definition keeps_filters :: "KV \<Rightarrow> KV \<Rightarrow> nat \<Rightarrow> Key_t \<Rightarrow> bool" where
  "keeps_filters s s' c k \<longleftrightarrow> (\<forall>Ms. kv_filters s Ms \<longrightarrow> kv_room s Ms c k \<longrightarrow>
     (\<exists>Ms'. kv_filters s' Ms' \<and> (kv_map s' k \<noteq> None \<longrightarrow> count (Ms' c) k = Suc (count (Ms c) k))))"

lemma take_out:
  assumes "kv_inv N all s out" "v \<in># out"
  shows "pool.owns N all (kpool s) (add_mset v (map_pages (kv_map s) + (out - {#v#})))" "v \<noteq> NONE"
proof -
  have "add_mset v (map_pages (kv_map s) + (out - {#v#})) = map_pages (kv_map s) + out" using assms(2) by simp
  then show "pool.owns N all (kpool s) (add_mset v (map_pages (kv_map s) + (out - {#v#})))" using assms(1) unfolding kv_inv_def by metis
  show "v \<noteq> NONE" using assms by (auto simp: kv_inv_def pool.owns_def)
qed

lemma kv_good_dom: "kv_wf s \<Longrightarrow> kv_map s k = Some v \<Longrightarrow> unreserved k \<and> v \<noteq> NONE \<and> key_cid k < num_clients (config s)"
  using lpa.good_dom [of "hashes s ! get_ht_shard_id s k" k v] shard_less [of s k] unfolding kv_map_def kv_wf_def by blast

lemma kv_Insert_fresh:
  assumes inv: "kv_inv N all s out" and v: "pg \<in># out" and k: "unreserved key" "key_cid key = cid" "cid < num_clients (config s)"
    and n: "kv_map s key = None"
  shows "\<exists>s'. kv_Insert (e # es) key pg cid qid s = Some (Inr s') \<and> kv_inv N all s' (out - {#pg#})
    \<and> put_spec (kv_map s) key pg (kv_map s') \<and> config s' = config s \<and> keeps_filters s s' cid key"
proof -
  let ?sh = "get_ht_shard_id s key" and ?m = "kv_map s" and ?cpu = "get_cpu_id s cid qid"
  have wf: "kv_wf s" using inv by (simp add: kv_inv_def)
  note O = take_out [OF inv v]
  have ok: "lpa_ok (hashes s ! ?sh)" using wf shard_less [OF wf] by (simp add: kv_wf_def)
  obtain t ret ek ev where ins: "lpa_Insert (e_now e) (e_lock e) key pg INVALID (hashes s ! ?sh) = Inr (t, ret, ek, ev)"
    and t: "lpa_ok t" and sp: "insert_spec (lpa_map (hashes s ! ?sh)) key pg INVALID (lpa_map t) ret ek ev"
    using lpa.ins_spec [OF ok k(1) O(2), of "(e_now e, e_lock e)" INVALID] by auto
  let ?s = "set_table ?sh t s"
  have k': "key_cid key < num_clients (config s)" using k(2,3) by simp
  have W: "kv_wf ?s" and I: "insert_spec ?m key pg INVALID (kv_map ?s) ret ek ev"
    using set_table_insert [OF wf refl k' t sp] by auto
  have N: "NONE \<notin># all" using inv by (simp add: kv_inv_def)
  have u: "key \<noteq> INVALID" using k(1) by (auto simp: unreserved_def)
  consider (new) "kv_map ?s = ?m(key \<mapsto> pg)" "ret = 0" "ek = INVALID" "ev = NONE"
    | (coll) "ek \<noteq> key" "?m ek = Some ev" "kv_map ?s = ?m(ek := None, key \<mapsto> pg)" "ret = 0"
    | (full) "kv_map ?s = ?m" "ret = - 1" "ek = key" "ev = pg"
    using I n by (auto simp: insert_spec_def)
  then show ?thesis
  proof cases
    case new
    have "map_pages (kv_map ?s) + (out - {#pg#}) = add_mset pg (map_pages ?m + (out - {#pg#}))"
      using map_pages_insert [of ?m key pg] n new(1) by simp
    then have "kv_inv N all ?s (out - {#pg#})" using O(1) W N by (simp add: kv_inv_def)
    moreover have "keeps_filters s (inc_stat KV_SUCC_PUT ?cpu (filter_insert cid key ?s)) cid key"
      unfolding keeps_filters_def kv_filters_def
    proof (intro allI impI)
      fix Ms assume "filters_cover s Ms ?m" "kv_room s Ms cid key"
      then have "filters_cover (filter_insert cid key ?s) (Ms(cid := add_mset key (Ms cid))) (?m(key \<mapsto> pg))"
        using cover_insert [of ?s Ms ?m key pg] k(2,3) cover_cong [of ?s s] by (simp add: kv_room_def)
      then show "\<exists>Ms'. filters_cover (inc_stat KV_SUCC_PUT ?cpu (filter_insert cid key ?s)) Ms' (kv_map (inc_stat KV_SUCC_PUT ?cpu (filter_insert cid key ?s)))
          \<and> (kv_map (inc_stat KV_SUCC_PUT ?cpu (filter_insert cid key ?s)) key \<noteq> None \<longrightarrow> count (Ms' cid) key = Suc (count (Ms cid) key))"
        using new(1) by (intro exI [of _ "Ms(cid := add_mset key (Ms cid))"]) simp
    qed
    ultimately show ?thesis using new ins by (auto simp: Let_def put_spec_def)
  next
    case coll
    note g = kv_good_dom [OF wf coll(2)]
    have ek: "ek \<noteq> INVALID" "ev \<noteq> NONE" using g by (auto simp: unreserved_def)
    have mp: "map_pages (kv_map ?s) + (out - {#pg#}) = add_mset pg (map_pages ?m + (out - {#pg#})) - {#ev#}"
      using map_pages_insert [of "?m(ek := None)" key pg] map_pages_remove [of ?m ek ev] n coll(1-3) by simp
    have "ev \<in># add_mset pg (map_pages ?m + (out - {#pg#}))"
      using map_pages_remove [of ?m ek ev] coll(2) by simp
    then obtain s2 where s2: "kv_Free ev (key_cid ek) None (e_rand e) ?s = Some s2" "kv_wf s2" "kv_map s2 = kv_map ?s" "config s2 = config s" "cbfs s2 = cbfs s"
        "pool.owns N all (kpool s2) (map_pages (kv_map ?s) + (out - {#pg#}))"
      using kv_Free_spec [OF W, of N all "add_mset pg (map_pages ?m + (out - {#pg#}))" ev "key_cid ek" "e_rand e"] g O(1) mp by auto
    have "kv_inv N all s2 (out - {#pg#})" using s2 N by (simp add: kv_inv_def)
    moreover have "\<exists>Ms'. filters_cover (filter_insert cid key (inc_stat KV_EVICTED_PUT ?cpu (filter_remove (key_cid ek) ek s2))) Ms' (kv_map ?s)
          \<and> count (Ms' cid) key = Suc (count (Ms cid) key)"
      if Ms: "filters_cover s Ms ?m" "kv_room s Ms cid key" for Ms
    proof -
      have c2: "filters_cover s2 Ms ?m" using Ms(1) cover_cong [OF s2(4,5)] by simp
      have r2: "kv_room s2 Ms cid key" using Ms(2) s2(4,5) by (simp add: kv_room_def)
      let ?s3 = "filter_remove (key_cid ek) ek s2" and ?Ms = "Ms(key_cid ek := Ms (key_cid ek) - {#ek#})"
      have "filters_cover ?s3 ?Ms (?m(ek := None))" using cover_remove [OF c2 coll(2)] g s2(4) by simp
      moreover have "kv_room ?s3 ?Ms cid key" using room_after_remove [OF r2 c2] k(3) s2(4) by simp
      ultimately show ?thesis using cover_insert [of "inc_stat KV_EVICTED_PUT ?cpu ?s3" ?Ms "?m(ek := None)" key pg] k(2,3) s2(4) coll(1,3)
        by (intro exI [of _ "?Ms(cid := add_mset key (?Ms cid))"]) auto
    qed
    ultimately show ?thesis using coll ins ek s2 
      by (auto simp: Let_def put_spec_def keeps_filters_def kv_filters_def)
  next
    case full
    obtain s2 where s2: "kv_Free pg cid None (e_rand e) ?s = Some s2" "kv_wf s2" "kv_map s2 = kv_map ?s" "config s2 = config s" "cbfs s2 = cbfs s"
        "pool.owns N all (kpool s2) (map_pages ?m + (out - {#pg#}))"
      using kv_Free_spec [OF W, of N all _ pg cid "e_rand e"] O(1) k(3) by force
    have "kv_inv N all s2 (out - {#pg#})" using s2 N full(1) by (simp add: kv_inv_def)
    moreover have "keeps_filters s (inc_stat KV_FAILED_PUT ?cpu s2) cid key"
      using s2 full(1) cover_cong [OF s2(4,5)] n by (auto simp: keeps_filters_def kv_filters_def)
    moreover have "put_spec ?m key pg (kv_map s2)" using n s2(3) full(1) by (auto simp: put_spec_def fun_upd_idem)
    ultimately show ?thesis using full ins u O(2) s2 k(2) by (auto simp: Let_def)
  qed
qed

text \<open>A duplicate: the first round takes the old page out and releases it, and the second round meets none.\<close>

lemma kv_Insert_duplicate:
  assumes inv: "kv_inv N all s out" and v: "pg \<in># out" and k: "unreserved key" "key_cid key = cid" "cid < num_clients (config s)"
    and n: "kv_map s key = Some w"
  shows "\<exists>s2. kv_Insert (e # es) key pg cid qid s = kv_Insert es key pg cid qid s2 \<and> kv_inv N all s2 out
    \<and> kv_map s2 = (kv_map s)(key := None) \<and> config s2 = config s \<and> cbfs s2 = cbfs s"
proof -
  let ?sh = "get_ht_shard_id s key" and ?m = "kv_map s"
  have wf: "kv_wf s" using inv by (simp add: kv_inv_def)
  have ok: "lpa_ok (hashes s ! ?sh)" using wf shard_less [OF wf] by (simp add: kv_wf_def)
  obtain t ret ek ev where ins: "lpa_Insert (e_now e) (e_lock e) key pg INVALID (hashes s ! ?sh) = Inr (t, ret, ek, ev)"
    and t: "lpa_ok t" and sp: "insert_spec (lpa_map (hashes s ! ?sh)) key pg INVALID (lpa_map t) ret ek ev"
    using lpa.ins_spec [OF ok k(1) take_out(2) [OF inv v], of "(e_now e, e_lock e)" INVALID] by auto
  let ?s = "set_table ?sh t s"
  have k': "key_cid key < num_clients (config s)" using k(2,3) by simp
  have W: "kv_wf ?s" and I: "insert_spec ?m key pg INVALID (kv_map ?s) ret ek ev"
    using set_table_insert [OF wf refl k' t sp] by auto
  have r: "kv_map ?s = ?m(key := None)" "ret = 0" "ek = INVALID" "ev = w" using I n by (auto simp: insert_spec_def)
  have mp: "map_pages ?m = add_mset w (map_pages (kv_map ?s))" using map_pages_remove [of ?m key w] n r(1) by simp
  have "pool.owns N all (kpool ?s) (map_pages ?m + out)" using inv by (simp add: kv_inv_def)
  then obtain s2 where s2: "kv_Free w cid None (e_rand e) ?s = Some s2" "kv_wf s2" "kv_map s2 = kv_map ?s" "config s2 = config s" "cbfs s2 = cbfs s"
      "pool.owns N all (kpool s2) (map_pages (kv_map ?s) + out)"
    using kv_Free_spec [OF W, of N all "map_pages ?m + out" w cid "e_rand e"] k(3) mp by auto
  have "kv_inv N all s2 out" using s2 inv by (simp add: kv_inv_def)
  moreover have "w \<noteq> NONE" using kv_good_dom [OF wf n] by simp
  ultimately show ?thesis using r ins s2
    by (intro exI [of _ "inc_stat KV_UPDATED_PUT (get_cpu_id s cid qid) s2"]) (simp add: Let_def)
qed

lemma kv_Insert_spec:
  assumes inv: "kv_inv N all s out" and v: "pg \<in># out" and k: "unreserved key" "key_cid key = cid" "cid < num_clients (config s)"
  shows "\<exists>s'. kv_Insert (e1 # e2 # es) key pg cid qid s = Some (Inr s') \<and> kv_inv N all s' (out - {#pg#})
    \<and> put_spec (kv_map s) key pg (kv_map s') \<and> config s' = config s \<and> keeps_filters s s' cid key"
proof (cases "kv_map s key")
  case None
  then show ?thesis using kv_Insert_fresh [OF assms] by blast
next
  case (Some w)
  then obtain s2 where s2: "kv_Insert (e1 # e2 # es) key pg cid qid s = kv_Insert (e2 # es) key pg cid qid s2" "kv_inv N all s2 out"
    "kv_map s2 = (kv_map s)(key := None)" "config s2 = config s" "cbfs s2 = cbfs s"
    using kv_Insert_duplicate [OF assms] by blast
  obtain s' where s': "kv_Insert (e2 # es) key pg cid qid s2 = Some (Inr s')" "kv_inv N all s' (out - {#pg#})"
    "put_spec (kv_map s2) key pg (kv_map s')" "config s' = config s2" "keeps_filters s2 s' cid key"
    using kv_Insert_fresh [OF s2(2) v k(1,2), of e2 es qid] k(3) s2(3,4) by auto
  have "put_spec (kv_map s) key pg (kv_map s')" using s'(3) unfolding s2(3) put_spec_def by (auto simp: fun_upd_twist)
  moreover have "kv_filters s2 Ms \<and> kv_room s2 Ms cid key" if "kv_filters s Ms" "kv_room s Ms cid key" for Ms
    using that cover_mono [of s Ms "kv_map s" "kv_map s2"] cover_cong [OF s2(4,5)] s2(3-5) by (auto simp: kv_filters_def kv_room_def)
  then have "keeps_filters s s' cid key" using s'(5) unfolding keeps_filters_def by blast
  ultimately show ?thesis using s2(1,4) s'(1,2,4) by auto
qed

lemma kv_Insert_fresh_room:
  assumes inv: "kv_inv N all s out" and v: "pg \<in># out" and k: "unreserved key" "key_cid key = cid" "cid < num_clients (config s)"
    and n: "kv_map s key = None" and c: "card (dom (kv_map s)) < 16"
  shows "\<exists>s'. kv_Insert (e # es) key pg cid qid s = Some (Inr s') \<and> kv_map s' = (kv_map s)(key \<mapsto> pg)
    \<and> cbfs s' = cbfs (filter_insert cid key s)"
proof -
  let ?sh = "get_ht_shard_id s key"
  have wf: "kv_wf s" using inv by (simp add: kv_inv_def)
  have ok: "lpa_ok (hashes s ! ?sh)" using wf shard_less [OF wf] by (simp add: kv_wf_def)
  have "dom (lpa_map (hashes s ! ?sh)) \<subseteq> dom (kv_map s)"
    using kv_map_table [OF wf shard_less [OF wf, of key]] by (auto split: if_splits)
  then have "card (dom (lpa_map (hashes s ! ?sh))) < 16" using c by (meson card_mono finite_code le_less_trans)
  moreover have "lpa_map (hashes s ! ?sh) key = None" using n by (simp add: kv_map_def)
  ultimately obtain t where t: "lpa_Insert (e_now e) (e_lock e) key pg INVALID (hashes s ! ?sh) = Inr (t, 0, INVALID, NONE)"
      "lpa_map t = (lpa_map (hashes s ! ?sh))(key \<mapsto> pg)"
    using lpa_Insert_with_room [OF ok k(1) take_out(2) [OF inv v]] by blast
  have "lpa_ok t" using lpa.ins_inv [OF ok k(1) take_out(2) [OF inv v], of "(e_now e, e_lock e)"] t(1) by simp
  then have "insert_spec (kv_map s) key pg INVALID (kv_map (set_table ?sh t s)) 0 INVALID NONE"
    using set_table_insert [OF wf refl, of key t pg INVALID 0 INVALID NONE] k n t(2) by (simp add: insert_spec_def kv_map_def)
  then have "kv_map (set_table ?sh t s) = (kv_map s)(key \<mapsto> pg)"
    using n kv_good_dom [OF wf, of INVALID NONE] by (auto simp: insert_spec_def)
  moreover have "cbfs (filter_insert cid key (set_table ?sh t s)) = cbfs (filter_insert cid key s)" by (simp add: filter_insert_def)
  ultimately show ?thesis using t(1) by (simp add: Let_def)
qed

lemma kv_Insert_room:
  assumes "kv_inv N all s out" "pg \<in># out" "unreserved key" "key_cid key = cid" "cid < num_clients (config s)" "card (dom (kv_map s)) < 16"
  shows "\<exists>s'. kv_Insert (e1 # e2 # es) key pg cid qid s = Some (Inr s') \<and> kv_map s' = (kv_map s)(key \<mapsto> pg)"
proof (cases "kv_map s key")
  case None
  then show ?thesis using kv_Insert_fresh_room [OF assms(1-5) _ assms(6)] by blast
next
  case (Some w)
  then obtain s2 where s2: "kv_Insert (e1 # e2 # es) key pg cid qid s = kv_Insert (e2 # es) key pg cid qid s2" "kv_inv N all s2 out"
    "kv_map s2 = (kv_map s)(key := None)" "config s2 = config s"
    using kv_Insert_duplicate [OF assms(1-5)] by blast
  have "card (dom (kv_map s2)) < 16" using assms(6) s2(3) card_mono [of "dom (kv_map s)" "dom (kv_map s2)"] by (simp add: le_less_trans)
  then show ?thesis using kv_Insert_fresh_room [OF s2(2) assms(2-4), of e2 es qid] s2 assms(5) by auto
qed


section \<open>Deletion, lookup, allocation and eviction\<close>

lemma kv_Remove_spec:
  assumes inv: "kv_inv N all s out" and k: "unreserved key" and r: "kv_Remove key (key_cid key) qid s = (s', v)"
  shows "v = value_or_none (kv_map s key) \<and> kv_map s' = (kv_map s)(key := None) \<and> config s' = config s
    \<and> kv_inv N all s' (if v = NONE then out else add_mset v out)
    \<and> (kv_filters s Ms \<longrightarrow> (\<exists>Ms'. kv_filters s' Ms' \<and> count (Ms' (key_cid key)) key = count (Ms (key_cid key)) key - (if v = NONE then 0 else 1)))"
proof -
  let ?sh = "get_ht_shard_id s key" and ?cpu = "get_cpu_id s (key_cid key) qid"
  have wf: "kv_wf s" using inv by (simp add: kv_inv_def)
  have ok: "lpa_ok (hashes s ! ?sh)" using wf shard_less [OF wf] by (simp add: kv_wf_def)
  obtain t w where d: "lpa_Delete key (hashes s ! ?sh) = (t, w)" by fastforce
  note D = lpa.del_spec [OF ok k d]
  let ?s = "set_table ?sh t s"
  have S: "kv_wf ?s \<and> kv_map ?s = (kv_map s)(key := None)" using D by (intro set_table_delete [OF wf shard_less [OF wf] refl]) auto
  have w: "w = value_or_none (kv_map s key)" using D by (simp add: kv_map_def)
  show ?thesis
  proof (cases "kv_map s key")
    case None
    then have "w = NONE" using w by (simp add: value_or_none_def)
    then have e: "s' = inc_stat KV_FAILED_INV ?cpu ?s" "v = NONE" using r d by (auto simp: kv_Remove_def Let_def)
    have "kv_map ?s = kv_map s" using S None by (simp add: fun_upd_idem)
    then have "kv_inv N all ?s out" using inv S by (simp add: kv_inv_def)
    then show ?thesis using e S None \<open>kv_map ?s = kv_map s\<close> cover_cong [of ?s s] by (auto simp: value_or_none_def kv_filters_def)
  next
    case (Some x)
    note g = kv_good_dom [OF wf Some]
    have "w = x" "x \<noteq> NONE" using w g Some by (auto simp: value_or_none_def)
    then have e: "s' = inc_stat KV_SUCC_INV ?cpu (filter_remove (key_cid key) key ?s)" "v = x" using r d by (auto simp: kv_Remove_def Let_def)
    have "map_pages (kv_map ?s) + add_mset x out = map_pages (kv_map s) + out"
      using map_pages_remove [of "kv_map s" key x] Some S by simp
    then have "kv_inv N all ?s (add_mset x out)" using inv S unfolding kv_inv_def by (metis kv_fields(16))
    moreover have "kv_filters s' (Ms(key_cid key := Ms (key_cid key) - {#key#}))" if "kv_filters s Ms"
      using that cover_remove [of ?s Ms "kv_map s" key x] Some g cover_cong [of ?s s] S unfolding e kv_filters_def by auto
    ultimately show ?thesis using e S Some \<open>x \<noteq> NONE\<close>
      by (simp add: value_or_none_def) (intro impI exI [of _ "Ms(key_cid key := Ms (key_cid key) - {#key#})"], simp)
  qed
qed

lemma set_same_inv:
  assumes "kv_inv N all s out" "lpa_ok t" "lpa_map t = lpa_map (hashes s ! i)" "i < num_ht_shards (config s)"
  shows "kv_inv N all (set_table i t s) out \<and> kv_map (set_table i t s) = kv_map s \<and> kv_filters (set_table i t s) Ms = kv_filters s Ms"
proof -
  have "kv_wf (set_table i t s) \<and> kv_map (set_table i t s) = kv_map s"
    using assms by (intro set_table_same) (auto simp: kv_inv_def)
  then show ?thesis using assms(1) cover_cong [of "set_table i t s" s] by (simp add: kv_inv_def kv_filters_def)
qed

lemma kv_lookup_spec:
  assumes inv: "kv_inv N all s out" and k: "unreserved key"
  shows "snd (kv_Get e key s) = value_or_none (kv_map s key)"
    and "snd (kv_GetWithFlag e key cid qid fl s) = (if fl then value_or_none (kv_map s key) else NONE)"
    and "s' \<in> {fst (kv_Get e key s), fst (kv_GetWithFlag e key cid qid fl s)} \<Longrightarrow>
      kv_inv N all s' out \<and> kv_map s' = kv_map s \<and> config s' = config s \<and> kv_filters s' = kv_filters s"
proof -
  let ?sh = "get_ht_shard_id s key"
  have wf: "kv_wf s" using inv by (simp add: kv_inv_def)
  have sh: "?sh < num_ht_shards (config s)" by (rule shard_less [OF wf])
  have ok: "lpa_ok (hashes s ! ?sh)" using wf sh by (simp add: kv_wf_def)
  obtain t1 v1 where g1: "lpa_Get (e_now e) key (hashes s ! ?sh) = (t1, v1)" by fastforce
  obtain t2 v2 where g2: "lpa_GetWithFlag (e_now e) key fl (hashes s ! ?sh) = (t2, v2)" by fastforce
  note G1 = lpa.get_spec [OF ok k, of "(e_now e, e_lock e)", simplified, OF g1]
  note G2 = lpa.getf_spec [OF ok k, of "(e_now e, e_lock e)" fl, simplified, OF g2]
  note S1 = set_same_inv [OF inv _ _ sh, of t1] and S2 = set_same_inv [OF inv _ _ sh, of t2]
  show "snd (kv_Get e key s) = value_or_none (kv_map s key)"
    using G1 g1 by (simp add: kv_Get_def kv_map_def)
  show "snd (kv_GetWithFlag e key cid qid fl s) = (if fl then value_or_none (kv_map s key) else NONE)"
    using G2 g2 by (simp add: kv_GetWithFlag_def kv_map_def Let_def)
  have e: "fst (kv_Get e key s) = set_table ?sh t1 s"
      "\<exists>st c. fst (kv_GetWithFlag e key cid qid fl s) = inc_stat st c (set_table ?sh t2 s)"
    using g1 g2 by (auto simp: kv_Get_def kv_GetWithFlag_def Let_def)
  assume "s' \<in> {fst (kv_Get e key s), fst (kv_GetWithFlag e key cid qid fl s)}"
  then show "kv_inv N all s' out \<and> kv_map s' = kv_map s \<and> config s' = config s \<and> kv_filters s' = kv_filters s"
    using e G1 G2 S1 S2 by (auto simp: fun_eq_iff kv_filters_def)
qed

lemma kv_Allocate_spec:
  assumes inv: "kv_inv N all s out" and q: "valid_queue (kpool s) cid qid" and r: "kv_Allocate cid qid r s = (s', a)"
  shows "kv_inv N all s' (if a = - 1 then out else add_mset a out) \<and> kv_map s' = kv_map s \<and> config s' = config s \<and> cbfs s' = cbfs s
    \<and> valid_queue (kpool s') = valid_queue (kpool s)"
proof -
  obtain p where p: "pool_Allocate cid qid r (kpool s) = (p, a)" "s' = s\<lparr>kpool := p\<rparr>" using r by (auto simp: kv_Allocate_def split: prod.splits)
  have O: "pool.owns N all (kpool s) (map_pages (kv_map s) + out)" using inv by (simp add: kv_inv_def)
  note A = pool.alloc_owns [OF O q p(1)]
  have "kv_wf s'" using kv_wf_cong [of s' s] p(2) A inv by (simp add: kv_inv_def)
  moreover have "kv_map s' = kv_map s" using p(2) by simp
  ultimately show ?thesis using A inv p(2) by (auto simp: kv_inv_def)
qed

lemma kv_Free_inv:
  assumes inv: "kv_inv N all s out" and v: "v \<in># out" and q: "valid_queue (kpool s) cid qid"
  shows "\<exists>s'. kv_Free v cid qid r s = Some s' \<and> kv_inv N all s' (out - {#v#}) \<and> kv_map s' = kv_map s \<and> config s' = config s
    \<and> cbfs s' = cbfs s \<and> valid_queue (kpool s') = valid_queue (kpool s)"
proof -
  have "pool.owns N all (kpool s) (map_pages (kv_map s) + out)" using inv by (simp add: kv_inv_def)
  moreover have "map_pages (kv_map s) + out - {#v#} = map_pages (kv_map s) + (out - {#v#})" using v by simp
  moreover have "v \<in># map_pages (kv_map s) + out" using v by simp
  ultimately obtain p where p: "pool_Free v cid qid r (kpool s) = Some p" "pool.owns N all p (map_pages (kv_map s) + (out - {#v#}))"
    "valid_queue p = valid_queue (kpool s)" "total_fl p = total_fl (kpool s)"
    using pool.release_owns [of N all "kpool s" "map_pages (kv_map s) + out" cid qid v r] q by metis
  have "kv_wf (s\<lparr>kpool := p\<rparr>)" using kv_wf_cong [of "s\<lparr>kpool := p\<rparr>" s] p inv by (simp add: kv_inv_def)
  then show ?thesis using p inv by (simp add: kv_Free_def kv_inv_def)
qed

lemma kv_Evict_spec:
  assumes inv: "kv_inv N all s out" and r: "kv_Evict e cid qid s = Some x"
  shows "\<exists>s' k v. x = Inr s' \<and> kv_map s k = Some v \<and> kv_map s' = (kv_map s)(k := None) \<and> kv_inv N all s' out
    \<and> config s' = config s \<and> rdma_config s' = rdma_config s \<and> (kv_filters s Ms \<longrightarrow> (\<exists>Ms'. kv_filters s' Ms'))"
proof -
  have wf: "kv_wf s" using inv by (simp add: kv_inv_def)
  obtain sh s0 where nv: "next_victim s = (sh, s0)" by fastforce
  have s0: "config s0 = config s" "hashes s0 = hashes s" "rdma_config s0 = rdma_config s" "kpool s0 = kpool s" "cbfs s0 = cbfs s" "kv_map s0 = kv_map s"
    using nv by (auto simp: next_victim_def split: if_splits)
  have sh: "sh < num_ht_shards (config s)" using wf nv by (auto simp: next_victim_def kv_wf_def split: if_splits)
  have inv0: "kv_inv N all s0 out" using inv kv_inv_cong [OF s0(1-4)] by simp
  then have wf0: "kv_wf s0" by (simp add: kv_inv_def)
  have ok: "lpa_ok (hashes s0 ! sh)" using wf s0 sh by (simp add: kv_wf_def)
  have ne: "lpa_Evict (ev_lock e) (ev_draws e) (hashes s0 ! sh) \<noteq> None"
    using r nv by (cases "lpa_Evict (ev_lock e) (ev_draws e) (hashes s0 ! sh)") (simp_all add: kv_Evict_def)
  then obtain t k v where l: "lpa_Evict (ev_lock e) (ev_draws e) (hashes s0 ! sh) = Some (Inr (t, k, v))"
    and t: "lpa_ok t" "lpa_map (hashes s0 ! sh) k = Some v" "lpa_map t = (lpa_map (hashes s0 ! sh))(k := None)"
    using lpa.evict_spec [OF ok, of "(ev_lock e, ev_draws e)"] by fastforce
  have k: "get_ht_shard_id s0 k = sh" "kv_map s0 k = Some v"
    using kv_map_table [OF wf0, of sh k] t(2) sh s0(1) by (auto split: if_splits)
  let ?s = "set_table sh t s0"
  have S: "kv_wf ?s" "kv_map ?s = (kv_map s0)(k := None)" using set_table_delete [OF wf0 _ k(1) t(1,3)] sh s0(1) by auto
  note g = kv_good_dom [OF wf0 k(2)]
  have mp: "map_pages (kv_map s0) = add_mset v (map_pages (kv_map ?s))" using map_pages_remove [of "kv_map s0" k v] k(2) S(2) by simp
  have "pool.owns N all (kpool ?s) (map_pages (kv_map s0) + out)" using inv0 by (simp add: kv_inv_def)
  then obtain s1 where s1: "kv_Free v (key_cid k) None (ev_rand e) ?s = Some s1" "kv_wf s1" "kv_map s1 = kv_map ?s" "config s1 = config s" "cbfs s1 = cbfs s"
      "pool.owns N all (kpool s1) (map_pages (kv_map ?s) + out)"
    using kv_Free_spec [OF S(1), of N all "map_pages (kv_map s0) + out" v "key_cid k" "ev_rand e"] g mp s0 by auto
  let ?f = "inc_stat KV_EVICTED_BG (get_cpu_id s1 (key_cid k) qid) (filter_remove (key_cid k) k s1)"
  have "rdma_config s1 = rdma_config s" using s1(1) s0 by (auto simp: kv_Free_def)
  moreover have "x = Inr ?f"
using r l s1(1) nv by (simp add: kv_Evict_def Let_def)
  moreover have "kv_inv N all s1 out" using s1 inv by (simp add: kv_inv_def)
  then have "kv_inv N all ?f out" by simp
  moreover have "\<exists>Ms'. kv_filters ?f Ms'" if "kv_filters s Ms"
    using that cover_remove [of s1 Ms "kv_map s" k v] k(2) g s0 s1 S(2) cover_cong [OF s1(4,5)] by (auto simp: kv_filters_def)
  ultimately show ?thesis using k(2) s0 s1 S(2) by auto
qed

lemma kv_borrow_inv:
  assumes inv: "kv_inv N all s out" and fl: "fl < total_fl (kpool s)"
  shows "\<exists>p a. AllocateFromPeer fl (kpool s) = Some (p, a) \<and> kv_inv N all (s\<lparr>kpool := p\<rparr>) out"
proof -
  have "pool.owns N all (kpool s) (map_pages (kv_map s) + out)" using inv by (simp add: kv_inv_def)
  then obtain p a where p: "AllocateFromPeer fl (kpool s) = Some (p, a)" "pool.owns N all p (map_pages (kv_map s) + out)"
    "valid_queue p = valid_queue (kpool s)" "total_fl p = total_fl (kpool s)" using pool.borrow_owns [OF _ fl] by blast
  have "kv_wf (s\<lparr>kpool := p\<rparr>)" using kv_wf_cong [of "s\<lparr>kpool := p\<rparr>" s] p inv by (simp add: kv_inv_def)
  then show ?thesis using p inv by (simp add: kv_inv_def)
qed

lemma kv_lists: "kv_inv N all s out \<Longrightarrow> total_fl (kpool s) = num_clients (config s) * num_data_qps (rdma_config s)"
  by (simp add: kv_inv_def kv_wf_def)

lemma card_dom_remove: "m k = Some v \<Longrightarrow> card (dom m) = Suc (card (dom (m(k := None))))" for m :: "Key_t \<rightharpoonup> Value_t"
proof -
  assume "m k = Some v"
  then have "dom m = insert k (dom (m(k := None)))" "k \<notin> dom (m(k := None))" by auto
  then show ?thesis by (metis card_insert_disjoint finite_code)
qed

text \<open>The evictor only removes pages, at most one more than its bound.\<close>

definition shrinks :: "nat \<Rightarrow> Value_t multiset \<Rightarrow> Value_t multiset \<Rightarrow> KV \<Rightarrow> int \<Rightarrow> KV \<Rightarrow> bool" where
  "shrinks N all out s n s' \<longleftrightarrow> kv_inv N all s' out \<and> kv_map s' \<subseteq>\<^sub>m kv_map s \<and> config s' = config s \<and> rdma_config s' = rdma_config s
    \<and> int (card (dom (kv_map s))) \<le> int (card (dom (kv_map s'))) + n
    \<and> ((\<exists>Ms. kv_filters s Ms) \<longrightarrow> (\<exists>Ms'. kv_filters s' Ms'))"

lemma shrinks_trans: "shrinks N all out s n s' \<Longrightarrow> shrinks N all out s' m s'' \<Longrightarrow> shrinks N all out s (n + m) s''"
  by (auto simp: shrinks_def intro: map_le_trans)

lemma shrinks_le: "shrinks N all out s n s' \<Longrightarrow> n \<le> m \<Longrightarrow> shrinks N all out s m s'"
  by (auto simp: shrinks_def)

lemma kv_borrow_shrinks:
  assumes inv: "kv_inv N all s out" and fl: "fl < total_fl (kpool s)"
  shows "\<exists>p a. AllocateFromPeer fl (kpool s) = Some (p, a) \<and> shrinks N all out s 0 (s\<lparr>kpool := p\<rparr>)"
  using kv_borrow_inv [OF assms] by (auto simp: shrinks_def kv_filters_def filters_cover_def)

lemma kv_Evict_shrinks:
  assumes "kv_inv N all s out" "kv_Evict e cid qid s = Some x"
  shows "\<exists>s'. x = Inr s' \<and> shrinks N all out s 1 s'"
proof -
  obtain s' k v where "x = Inr s'" and k: "kv_map s k = Some v" "kv_map s' = (kv_map s)(k := None)" and i: "kv_inv N all s' out"
    "config s' = config s" "rdma_config s' = rdma_config s"
    using kv_Evict_spec [OF assms] by blast
  moreover have "\<exists>Ms'. kv_filters s' Ms'" if "kv_filters s Ms" for Ms
    using kv_Evict_spec [OF assms, of Ms] that \<open>x = Inr s'\<close> by auto
  ultimately show ?thesis using card_dom_remove [of "kv_map s" k v] by (auto simp: shrinks_def map_le_def)
qed

lemma Evictor_loop_spec:
  assumes "kv_inv N all s out" "fl < total_fl (kpool s)" "Evictor_loop es cid qid fl thld cnt ec s = Some x"
  shows "\<exists>s'. x = Inr s' \<and> shrinks N all out s (max 1 (cnt + 1 - ec)) s'"
  using assms
proof (induction es arbitrary: ec s)
  case Nil
  then show ?case by (subst (asm) Evictor_loop.simps) (auto simp: shrinks_def split: if_splits)
next
  case (Cons e es)
  obtain p a where p: "AllocateFromPeer fl (kpool s) = Some (p, a)" "shrinks N all out s 0 (s\<lparr>kpool := p\<rparr>)"
    using kv_borrow_shrinks [OF Cons.prems(1,2)] by blast
  let ?s = "s\<lparr>kpool := p\<rparr>"
  note E = Cons.prems(3) [unfolded Evictor_loop.simps [of "e # es"] p(1)]
  have i1: "kv_inv N all ?s out" using p(2) by (simp add: shrinks_def)
  have fl: "fl < total_fl (kpool s')" if "shrinks N all out s n s'" for s' n
    using that Cons.prems(2) kv_lists [OF Cons.prems(1)] kv_lists [of N all s' out] by (auto simp: shrinks_def)
  have rec: "\<exists>s'. x = Inr s' \<and> shrinks N all out s (max 1 (cnt + 1 - ec)) s'"
    if s1: "shrinks N all out s n s1" "Evictor_loop es cid qid fl thld cnt (ec + n) s1 = Some x" "ec + n \<le> cnt" "0 \<le> n" for s1 n
  proof -
    have "kv_inv N all s1 out" using s1(1) by (simp add: shrinks_def)
    then obtain s' where s': "x = Inr s'" "shrinks N all out s1 (max 1 (cnt + 1 - (ec + n))) s'"
      using Cons.IH [OF _ fl [OF s1(1)] s1(2)] by auto
    have "shrinks N all out s (max 1 (cnt + 1 - ec)) s'"
      using s1(3,4) by (intro shrinks_le [OF shrinks_trans [OF s1(1) s'(2)]]) auto
    then show ?thesis using s'(1) by blast
  qed
  show ?case
  proof (cases "MB thld > MB (GetFree (kpool s) fl)")
    case False
    then show ?thesis using E Cons.prems(1) by (auto simp: shrinks_def)
  next
    case low: True
    show ?thesis
    proof (cases "a = - 1")
      case True
      obtain y where y: "kv_Evict e cid qid ?s = Some y"
        using E low True by (cases "kv_Evict e cid qid ?s") (simp_all add: Let_def)
      then obtain s2 where s2: "y = Inr s2" "shrinks N all out s 1 s2"
        using kv_Evict_shrinks [OF i1 y] shrinks_trans [OF p(2)] by fastforce
      show ?thesis
      proof (cases "ec + 1 > cnt")
        case True
        then show ?thesis using E low \<open>a = - 1\<close> y s2 shrinks_le [OF s2(2)] by (auto simp: Let_def)
      next
        case False
        then show ?thesis using E low \<open>a = - 1\<close> y s2(1) by (intro rec [OF s2(2)]) (auto simp: Let_def)
      qed
    next
      case False
      show ?thesis
      proof (cases "ec > cnt")
        case True
        then show ?thesis using E low \<open>a \<noteq> - 1\<close> shrinks_le [OF p(2)] by (auto simp: Let_def)
      next
        case F: False
        then show ?thesis using E low False by (intro rec [OF p(2)]) (auto simp: Let_def)
      qed
    qed
  qed
qed

lemma Evictor_pass_spec:
  assumes "kv_inv N all s out" "cid < num_clients (config s)" "qid < num_data_qps (rdma_config s)" "Evictor_pass es cid qid s = Some x"
  shows "\<exists>s' n. x = Inr s' \<and> shrinks N all out s n s'"
proof -
  have "cid * num_data_qps (rdma_config s) + qid < total_fl (kpool s)"
    unfolding kv_lists [OF assms(1)] using client_range assms(2,3) by blast
  then show ?thesis using Evictor_loop_spec [OF assms(1)] assms(4) unfolding Evictor_pass_def Let_def by blast
qed


section \<open>A new store\<close>

definition kv_config_ok :: "daemon_config_t \<Rightarrow> dcc_rdma_config_t \<Rightarrow> nat \<Rightarrow> u64 \<Rightarrow> bool" where
  "kv_config_ok c rc nb start \<longleftrightarrow> pool_config_ok c rc start \<and> ht_type c = HT_LP_APPROX \<and> 0 < num_ht_shards c
     \<and> 16 \<le> kv_capacity (mem_pool_size c) \<and> 0 < nb \<and> 0 < start"

lemma NONE_slots:
  assumes "unat start + n * 4104 < 2 ^ 64" "0 < start"
  shows "NONE \<notin> set (slots start n)"
proof -
  have "start + of_nat j * SLOT_SIZE \<noteq> 0" if "j < n" for j
  proof -
    have "j * 4104 \<le> n * 4104" using that by simp
    then have lt: "unat start + j * 4104 < 2 ^ 64" using assms(1) by linarith
    then have "unat (of_nat j * SLOT_SIZE) = j * 4104"
      by (simp add: SLOT_SIZE_def unat_word_ariths unat_of_nat mod_mult_left_eq)
    then have "unat (start + of_nat j * SLOT_SIZE) = unat start + j * 4104" using lt by (simp add: unat_word_ariths)
    then show ?thesis using assms(2) by (metis add_is_0 unat_eq_zero word_gt_0)
  qed
  then show ?thesis by (force simp: slots_def NONE_def)
qed

lemma KV_new_spec:
  assumes "kv_config_ok c rc nb start"
  shows "\<exists>s n. KV_new c rc nh nb mem st start = Some s \<and> kv_inv (mem_pool_size c div 4104) (mset (slots start n)) s {#}
    \<and> distinct (slots start n) \<and> n = num_clients c * num_data_qps rc * (mem_pool_size c div 4104 div (num_clients c * num_data_qps rc))
    \<and> config s = c \<and> rdma_config s = rc \<and> kv_map s = (\<lambda>_. None) \<and> kv_filters s (\<lambda>_. {#})"
proof -
  have p: "pool_config_ok c rc start" using assms by (simp add: kv_config_ok_def)
  let ?t = "num_clients c * num_data_qps rc" and ?N = "mem_pool_size c div 4104"
  obtain p n where P: "PerCPUPool_new c rc mem start = Some p" "pool.owns ?N (mset (slots start n)) p {#}" "distinct (slots start n)"
      "n = ?t * (?N div ?t)" "total_fl p = ?t" "pool_num_clients p = num_clients c"
    using PerCPUPool_new_spec [OF p, of mem] by blast
  have "n * 4104 \<le> ?N * 4104" unfolding P(4) by simp
  also have "\<dots> \<le> mem_pool_size c" by simp
  finally have none: "NONE \<notin> set (slots start n)" using assms by (intro NONE_slots) (auto simp: kv_config_ok_def pool_config_ok_def)
  define s where "s = \<lparr>config = c, rdma_config = rc, hashes = replicate (num_ht_shards c) (LinearProbingApprox_new (kv_capacity (mem_pool_size c))),
     cbfs = (if cbf_on c then replicate (num_clients c) (CountingBloomFilter_new nh nb) else []), kpool = p, victim_shard_id = 0, stats = st\<rparr>"
  let ?T = "LinearProbingApprox_new (kv_capacity (mem_pool_size c))"
  have T: "lpa_ok ?T" "lpa_map ?T = (\<lambda>_. None)"
    using new_table_ok LinearProbingApprox_new_inv [of "kv_capacity (mem_pool_size c)"] assms by (auto simp: kv_config_ok_def fun_eq_iff)
  have m: "kv_map s = (\<lambda>_. None)"
  proof
    fix k
    have "get_ht_shard_id s k < num_ht_shards c" using assms by (simp add: get_ht_shard_id_def s_def kv_config_ok_def)
    then show "kv_map s k = None" using T(2) by (simp add: kv_map_def s_def)
  qed
  have "kv_wf s" using T P(5,6) assms by (simp add: kv_wf_def s_def kv_config_ok_def)
  then have "kv_inv ?N (mset (slots start n)) s {#}" using P(2) none m by (simp add: kv_inv_def s_def)
  moreover have "KV_new c rc nh nb mem st start = Some s" using assms P(1) by (simp add: KV_new_def s_def kv_config_ok_def)
  moreover have "kv_filters s (\<lambda>_. {#})"
    using CountingBloomFilter_new_rep [of nb nh] assms by (simp add: kv_filters_def filters_cover_def m) (simp add: s_def kv_config_ok_def)
  moreover have "config s = c" "rdma_config s = rc" by (simp_all add: s_def)
  ultimately show ?thesis using m P(3,4) by blast
qed

section \<open>Reachable states\<close>

text \<open>
  The states of the store under any sequence of the operations the handlers and evictor threads call, with
  the pages \<open>out\<close> that the caller holds: pages it allocated or got from an invalidation and has neither
  put nor released.
\<close>

inductive kv_reach :: "KV \<Rightarrow> KV \<Rightarrow> Value_t multiset \<Rightarrow> bool" for s0 where
  kv_start: "kv_reach s0 s0 {#}"
| kv_alloc: "kv_reach s0 s out \<Longrightarrow> valid_queue (kpool s) cid qid \<Longrightarrow> kv_Allocate cid qid r s = (s', a)
    \<Longrightarrow> kv_reach s0 s' (if a = - 1 then out else add_mset a out)"
| kv_release: "kv_reach s0 s out \<Longrightarrow> valid_queue (kpool s) cid qid \<Longrightarrow> v \<in># out \<Longrightarrow> kv_Free v cid qid r s = Some s'
    \<Longrightarrow> kv_reach s0 s' (out - {#v#})"
| kv_put: "kv_reach s0 s out \<Longrightarrow> v \<in># out \<Longrightarrow> unreserved k \<Longrightarrow> key_cid k < num_clients (config s)
    \<Longrightarrow> kv_Insert (e1 # e2 # es) k v (key_cid k) qid s = Some (Inr s') \<Longrightarrow> kv_reach s0 s' (out - {#v#})"
| kv_remove: "kv_reach s0 s out \<Longrightarrow> unreserved k \<Longrightarrow> kv_Remove k (key_cid k) qid s = (s', v)
    \<Longrightarrow> kv_reach s0 s' (if v = NONE then out else add_mset v out)"
| kv_get: "kv_reach s0 s out \<Longrightarrow> unreserved k \<Longrightarrow> kv_reach s0 (fst (kv_Get e k s)) out"
| kv_getf: "kv_reach s0 s out \<Longrightarrow> unreserved k \<Longrightarrow> kv_reach s0 (fst (kv_GetWithFlag e k cid qid fl s)) out"
| kv_evictor: "kv_reach s0 s out \<Longrightarrow> cid < num_clients (config s) \<Longrightarrow> qid < num_data_qps (rdma_config s)
    \<Longrightarrow> Evictor_pass ee cid qid s = Some (Inr s') \<Longrightarrow> kv_reach s0 s' out"

lemma kv_reach_inv:
  assumes "kv_reach s0 s out" "kv_inv N all s0 {#}"
  shows "kv_inv N all s out"
  using assms
proof (induction rule: kv_reach.induct)
  case (kv_alloc s out cid qid r s' a)
  then show ?case using kv_Allocate_spec by blast
next
  case (kv_release s out cid qid v r s')
  then show ?case using kv_Free_inv [of N all s out v cid qid r] by auto
next
  case (kv_put s out v k e1 e2 es qid s')
  then show ?case using kv_Insert_spec [of N all s out v k "key_cid k" e1 e2 es qid] by auto
next
  case (kv_remove s out k qid s' v)
  then show ?case using kv_Remove_spec [of N all s out k qid s' v] by blast
next
  case (kv_evictor s out cid qid ee s')
  then show ?case using Evictor_pass_spec [of N all s out cid qid ee "Inr s'"] by (auto simp: shrinks_def)
qed (use kv_lookup_spec(3) in blast)+

lemma distinct_pages:
  assumes "P + map_pages m + Q = mset xs" "distinct xs" "m k = Some v" "m k' = Some v"
  shows "k = k'"
proof (rule ccontr)
  assume "k \<noteq> k'"
  then have "map_pages m = add_mset v (add_mset v (map_pages (m(k := None, k' := None))))"
    using map_pages_remove [of m k v] map_pages_remove [of "m(k := None)" k' v] assms(3,4) by simp
  then have "2 \<le> count (mset xs) v" unfolding assms(1) [symmetric] by simp
  then show False using assms(2) by (metis One_nat_def Suc_1 count_mset distinct_count_atmost_1 not_less_eq_eq zero_le le_numeral_extra(4))
qed

section \<open>Properties of the store\<close>

text \<open>
  C5. A put always returns: with two rounds of the retry loop it ends without exception or failing
  assert, hands the given page over to the store or back to the pool, keeps the store consistent, and
  does to the stored pages one of three things: it stores the page under its key, it stores it and drops
  one other page, or it leaves the key without a page.
\<close>

theorem kv_put_refines_map:
  assumes "kv_inv N all s out" "pg \<in># out" "unreserved key" "key_cid key = cid" "cid < num_clients (config s)"
  shows "\<exists>s'. kv_Insert (e1 # e2 # es) key pg cid qid s = Some (Inr s') \<and> kv_inv N all s' (out - {#pg#})
    \<and> put_spec (kv_map s) key pg (kv_map s')"
  using kv_Insert_spec [OF assms] by blast

definition kv_small_config :: daemon_config_t where
  "kv_small_config = small_config\<lparr>mem_pool_size := 34 * 4104, num_ht_shards := 4\<rparr>"

definition kv_small :: KV where
  "kv_small = the (KV_new kv_small_config dcc_rdma_set_default_config 3 17 (\<lambda>_. \<lparr>nvalue = 0, nnext = None\<rparr>) (\<lambda>_ _. 0) 65536)"

lemma kv_small_config_ok: "kv_config_ok kv_small_config dcc_rdma_set_default_config 17 65536"
  by (simp add: kv_config_ok_def pool_config_ok_def kv_small_config_def small_config_def dcc_rdma_set_default_config_def kv_capacity_def Let_def)

text \<open>The small store with a page of the caller that fits into the spare place of the pool.\<close>

lemma spare_page:
  assumes "kv_inv N all s {#}" "size all < N" "pg \<noteq> - 1" "pg \<noteq> NONE"
  shows "kv_inv N (add_mset pg all) s {#pg#}"
  using assms by (simp add: kv_inv_def pool.owns_def)

lemma kv_small_new:
  "KV_new kv_small_config dcc_rdma_set_default_config 3 17 (\<lambda>_. \<lparr>nvalue = 0, nnext = None\<rparr>) (\<lambda>_ _. 0) 65536 = Some kv_small
   \<and> kv_inv 34 (mset (slots 65536 32)) kv_small {#} \<and> config kv_small = kv_small_config
   \<and> rdma_config kv_small = dcc_rdma_set_default_config \<and> kv_map kv_small = (\<lambda>_. None) \<and> kv_filters kv_small (\<lambda>_. {#})"
proof -
  have "num_clients kv_small_config * num_data_qps dcc_rdma_set_default_config = 8" "mem_pool_size kv_small_config div 4104 = 34"
    by (simp_all add: kv_small_config_def small_config_def dcc_rdma_set_default_config_def)
  then show ?thesis
    using KV_new_spec [OF kv_small_config_ok, of 3 "\<lambda>_. \<lparr>nvalue = 0, nnext = None\<rparr>" "\<lambda>_ _. 0"] unfolding kv_small_def by auto
qed

lemma kv_small_spare: "kv_inv 34 (add_mset 8192 (mset (slots 65536 32))) kv_small {#8192#}"
  using kv_small_new by (intro spare_page) (auto simp: slots_def NONE_def)

lemma kv_small_spare2: "kv_inv 34 (add_mset 8192 (add_mset 8193 (mset (slots 65536 32)))) kv_small {#8192, 8193#}"
proof -
  have "size (mset (slots 65536 32)) = 32" by (simp add: slots_def)
  then show ?thesis using kv_small_new by (auto simp: kv_inv_def pool.owns_def NONE_def)
qed

lemma key77: "unreserved 77" "key_cid 77 = 0" "0 < num_clients kv_small_config"
  by (simp_all add: unreserved_def INVALID_def TOMBSTONE_def longkey_to_cid_def kv_small_config_def small_config_def)

definition env0 :: kv_env where
  "env0 = \<lparr>e_now = 5, e_lock = (\<lambda>_. True), e_rand = 0\<rparr>"

theorem kv_put_refines_map_witness:
  "\<exists>N all s'. kv_inv N all kv_small {#8192#} \<and> kv_Insert [env0, env0] 77 8192 0 0 kv_small = Some (Inr s') \<and> kv_inv N all s' {#}"
  using kv_put_refines_map [OF kv_small_spare _ key77(1,2), of 8192 env0 env0 "[]" 0] key77(3) kv_small_new kv_small_spare by auto

text \<open>
  C21. A lookup after a put is never stale: it returns the page of that put or nothing, and a lookup of
  any other key returns the page it returned before or nothing.
\<close>

theorem kv_get_after_put_not_stale:
  assumes "kv_inv N all s out" "pg \<in># out" "unreserved key" "key_cid key = cid" "cid < num_clients (config s)" "unreserved key'"
    and "kv_Insert (e1 # e2 # es) key pg cid qid s = Some (Inr s')"
  shows "snd (kv_Get e key s') \<in> {pg, NONE} \<and> (key' \<noteq> key \<longrightarrow> snd (kv_Get e' key' s') \<in> {snd (kv_Get e key' s), NONE})"
proof -
  have i: "kv_inv N all s' (out - {#pg#})" and p: "put_spec (kv_map s) key pg (kv_map s')"
    using kv_Insert_spec [OF assms(1-5), of e1 e2 es qid] assms(7) by auto
  have "kv_map s' key \<in> {Some pg, None}" "key' \<noteq> key \<Longrightarrow> kv_map s' key' \<in> {kv_map s key', None}"
    using p by (auto simp: put_spec_def split: if_splits)
  then show ?thesis using kv_lookup_spec(1) [OF i] kv_lookup_spec(1) [OF assms(1)] assms(3,6) by (auto simp: value_or_none_def)
qed

theorem kv_get_after_put_not_stale_witness:
  "\<exists>s'. kv_Insert [env0, env0] 77 8192 0 0 kv_small = Some (Inr s') \<and> snd (kv_Get env0 77 s') \<in> {8192, NONE}"
proof -
  obtain s' where s': "kv_Insert [env0, env0] 77 8192 0 0 kv_small = Some (Inr s')"
    using kv_Insert_spec [OF kv_small_spare _ key77(1,2), of 8192 env0 env0 "[]" 0] key77(3) kv_small_new by auto
  then show ?thesis
    using kv_get_after_put_not_stale [OF kv_small_spare _ key77(1,2) _ key77(1) s', of env0 env0] key77(3) kv_small_new by auto
qed

text \<open>
  C4. Pages are conserved by the whole store: from a new store on, under any sequence of operations, the
  free pages, the stored pages and the pages the callers hold are together exactly the slots of the
  memory region, each once; in particular no two keys ever share a page.
\<close>

theorem kv_conserves_pages:
  assumes "kv_config_ok c rc nb start" "KV_new c rc nh nb mem st start = Some s0" "kv_reach s0 s out"
  shows "\<exists>n. pool_free (kpool s) + map_pages (kv_map s) + out = mset (slots start n) \<and> distinct (slots start n)
    \<and> (\<forall>k k' v. kv_map s k = Some v \<and> kv_map s k' = Some v \<longrightarrow> k = k')"
proof -
  obtain n where n: "kv_inv (mem_pool_size c div 4104) (mset (slots start n)) s0 {#}" "distinct (slots start n)"
    using KV_new_spec [OF assms(1), of nh mem st] assms(2) by auto
  have "pool_free (kpool s) + map_pages (kv_map s) + out = mset (slots start n)"
    using kv_reach_inv [OF assms(3) n(1)] by (simp add: kv_inv_def pool.owns_def add.assoc)
  then show ?thesis using n(2) distinct_pages by blast
qed

theorem kv_conserves_pages_witness:
  "\<exists>s1 a. kv_Allocate 0 (Some 0) 0 kv_small = (s1, a) \<and> (\<exists>n. pool_free (kpool s1) + map_pages (kv_map s1) + (if a = - 1 then {#} else {#a#}) = mset (slots 65536 n))"
proof -
  obtain s1 a where a: "kv_Allocate 0 (Some 0) 0 kv_small = (s1, a)" by fastforce
  have "valid_queue (kpool kv_small) 0 (Some 0)"
    using kv_small_new by (auto simp: valid_queue_def kv_inv_def kv_wf_def pool.owns_def pool_inv_def kv_small_config_def small_config_def dcc_rdma_set_default_config_def)
  from kv_reach.kv_alloc [OF kv_reach.kv_start this a]
  have "kv_reach kv_small s1 (if a = - 1 then {#} else {#a#})" .
  then show ?thesis using kv_conserves_pages [OF kv_small_config_ok conjunct1 [OF kv_small_new]] a by blast
qed

text \<open>
  C22. The filter of a client never misses a stored page: while each filter covers the stored keys of its
  client, every stored key is reported as possibly present, and a put (whose key still fits the
  counters), an invalidation and an eviction keep the cover.
\<close>

theorem kv_filter_never_misses:
  assumes "kv_inv N all s out" "kv_filters s Ms" "cbf_on (config s)"
  shows "(\<forall>k v. kv_map s k = Some v \<longrightarrow> MightContain k (cbfs s ! key_cid k))
    \<and> (pg \<in># out \<and> unreserved key \<and> key_cid key < num_clients (config s) \<and> kv_room s Ms (key_cid key) key
         \<and> kv_Insert (e1 # e2 # es) key pg (key_cid key) qid s = Some (Inr s1) \<longrightarrow> (\<exists>Ms'. kv_filters s1 Ms'))
    \<and> (unreserved key \<longrightarrow> (\<exists>Ms'. kv_filters (fst (kv_Remove key (key_cid key) qid s)) Ms'))
    \<and> (kv_Evict e cid qid s = Some (Inr s2) \<longrightarrow> (\<exists>Ms'. kv_filters s2 Ms'))"
proof (intro conjI impI allI)
  fix k v assume k: "kv_map s k = Some v"
  then have "key_cid k < num_clients (config s)" using kv_good_dom [of s k v] assms(1) by (simp add: kv_inv_def)
  then show "MightContain k (cbfs s ! key_cid k)"
    using assms(2,3) k cbf.no_false_negative [of "cbfs s ! key_cid k" "Ms (key_cid k)" k] by (simp add: kv_filters_def filters_cover_def)
next
  assume "pg \<in># out \<and> unreserved key \<and> key_cid key < num_clients (config s) \<and> kv_room s Ms (key_cid key) key
         \<and> kv_Insert (e1 # e2 # es) key pg (key_cid key) qid s = Some (Inr s1)"
  then show "\<exists>Ms'. kv_filters s1 Ms'"
    using kv_Insert_spec [OF assms(1), of pg key "key_cid key" e1 e2 es qid] assms(2) by (auto simp: keeps_filters_def)
next
  assume "unreserved key"
  then show "\<exists>Ms'. kv_filters (fst (kv_Remove key (key_cid key) qid s)) Ms'"
    using kv_Remove_spec [OF assms(1) _ prod.collapse [symmetric], of key qid Ms] assms(2) by blast
next
  assume "kv_Evict e cid qid s = Some (Inr s2)"
  then show "\<exists>Ms'. kv_filters s2 Ms'" using kv_Evict_spec [OF assms(1), of e cid qid "Inr s2" Ms] assms(2) by auto
qed

theorem kv_filter_never_misses_witness:
  "kv_filters kv_small (\<lambda>_. {#}) \<and> (\<exists>Ms'. kv_filters (fst (kv_Remove 77 0 0 kv_small)) Ms')"
proof -
  have "cbf_on (config kv_small)" using kv_small_new by (simp add: kv_small_config_def small_config_def)
  then show ?thesis
    using kv_filter_never_misses [OF kv_small_spare _ _, of "\<lambda>_. {#}" 8192 77 env0 env0 "[]" 0 kv_small] kv_small_new key77 by auto
qed

text \<open>
  A put of a stored key leaves the key in the filter for good: after the put and the invalidation of
  that key nothing is stored under it, but the filter still reports it, since the put counts the key a
  second time while the invalidation removes one count.
\<close>

theorem kv_duplicate_put_leaks_filter:
  assumes "kv_inv N all s out" "kv_filters s Ms" "cbf_on (config s)" "pg \<in># out" "unreserved key" "key_cid key = cid" "cid < num_clients (config s)"
    and "kv_room s Ms cid key" "kv_map s key = Some w"
    and "kv_Insert (e1 # e2 # es) key pg cid qid s = Some (Inr s1)" "kv_map s1 key \<noteq> None" "kv_Remove key cid qid s1 = (s2, v)"
  shows "kv_map s2 key = None \<and> MightContain key (cbfs s2 ! cid)"
proof -
  have i1: "kv_inv N all s1 (out - {#pg#})" "config s1 = config s" "keeps_filters s s1 cid key"
    using kv_Insert_spec [OF assms(1,4-7), of e1 e2 es qid] assms(10) by auto
  then obtain Ms1 where f1: "kv_filters s1 Ms1" "count (Ms1 cid) key = Suc (count (Ms cid) key)"
    using assms(2,8,11) unfolding keeps_filters_def by blast
  have "0 < count (Ms cid) key"
    using assms(2,3,6,7,9) by (auto simp: kv_filters_def filters_cover_def)
  note R = kv_Remove_spec [OF i1(1) assms(5), of qid s2 v Ms1] assms(6,12)
  then obtain Ms2 where "kv_filters s2 Ms2" "count (Ms2 cid) key = count (Ms1 cid) key - (if v = NONE then 0 else 1)" "config s2 = config s1" "kv_map s2 = (kv_map s1)(key := None)"
    using f1(1) by blast
  moreover have "key \<in># Ms2 cid" using calculation(2) f1(2) \<open>0 < count (Ms cid) key\<close> by (simp add: count_greater_zero_iff [symmetric] del: count_greater_zero_iff split: if_splits)
  ultimately show ?thesis
    using cbf.no_false_negative [of "cbfs s2 ! cid" "Ms2 cid" key] i1(2) assms(3,7) by (simp add: kv_filters_def filters_cover_def)
qed

lemma hits_small: "size M \<le> 84 \<Longrightarrow> num_hash f = 3 \<Longrightarrow> hits f (add_mset k M) j \<le> 255"
proof -
  assume h: "size M \<le> 84" "num_hash f = 3"
  have "key_hits f k j \<le> 3" for k using count_le_length [of "cbf_indices f k" j] h(2) by (simp add: key_hits_def cbf_indices_def)
  then have "hits f M' j \<le> 3 * size M'" for M' by (induction M') (auto simp: hits_def add_le_mono)
  from this [of "add_mset k M"] show ?thesis using h(1) by simp
qed

lemma KV_new_cbfs: "KV_new c rc nh nb mem st start = Some s \<Longrightarrow> cbf_on c \<Longrightarrow> cbfs s = replicate (num_clients c) (CountingBloomFilter_new nh nb)"
  by (auto simp: KV_new_def split: option.splits if_splits)

lemma kv_small_filter: "cbfs kv_small ! 0 = CountingBloomFilter_new 3 17" "cbf_on (config kv_small)" "0 < num_clients (config kv_small)"
proof -
  show "cbf_on (config kv_small)" "0 < num_clients (config kv_small)" using kv_small_new by (simp_all add: kv_small_config_def small_config_def)
  have "cbf_on kv_small_config" "num_clients kv_small_config = 1" by (simp_all add: kv_small_config_def small_config_def)
  then show "cbfs kv_small ! 0 = CountingBloomFilter_new 3 17"
    using KV_new_cbfs [OF conjunct1 [OF kv_small_new]] by simp
qed

lemma kv_small_put:
  "\<exists>s1. kv_Insert [env0, env0] 77 8192 0 0 kv_small = Some (Inr s1) \<and> kv_map s1 = [77 \<mapsto> 8192] \<and> config s1 = config kv_small
     \<and> kv_inv 34 (add_mset 8192 (add_mset 8193 (mset (slots 65536 32)))) s1 {#8193#} \<and> kv_filters s1 ((\<lambda>_. {#})(0 := {#77#}))
     \<and> num_hash (cbfs s1 ! 0) = 3 \<and> num_bits (cbfs s1 ! 0) = 17"
proof -
  have m8: "8192 \<in># {#8192, 8193 :: Value_t#}" by simp
  obtain s1 where s1: "kv_Insert [env0, env0] 77 8192 0 0 kv_small = Some (Inr s1)" "kv_map s1 = (kv_map kv_small)(77 \<mapsto> 8192)"
      "cbfs s1 = cbfs (filter_insert 0 77 kv_small)"
    using kv_Insert_fresh_room [OF kv_small_spare2 m8 key77(1,2) kv_small_filter(3), of env0 "[env0]" 0] kv_small_new by auto
  have i1: "kv_inv 34 (add_mset 8192 (add_mset 8193 (mset (slots 65536 32)))) s1 {#8193#}" "config s1 = config kv_small"
    using kv_Insert_spec [OF kv_small_spare2 m8 key77(1,2) kv_small_filter(3), of env0 env0 "[]" 0] s1(1) by auto
  have "kv_room kv_small (\<lambda>_. {#}) 0 77"
    using hits_small [of "{#}"] by (simp add: kv_room_def cbf_room_def kv_small_filter CountingBloomFilter_new_def)
  then have "filters_cover (filter_insert 0 77 kv_small) ((\<lambda>_. {#})(0 := {#77#})) ((kv_map kv_small)(77 \<mapsto> 8192))"
    using cover_insert [of kv_small "\<lambda>_. {#}" "kv_map kv_small" 77 8192] kv_small_new key77(2) kv_small_filter(3) by (auto simp: kv_filters_def)
  then have "kv_filters s1 ((\<lambda>_. {#})(0 := {#77#}))"
    unfolding kv_filters_def s1(2) using cover_cong [of s1 "filter_insert 0 77 kv_small"] s1(3) i1(2) by simp
  moreover have "num_hash (cbfs s1 ! 0) = 3 \<and> num_bits (cbfs s1 ! 0) = 17"
  proof -
    have "length (cbfs kv_small) = num_clients (config kv_small)" using kv_small_new kv_small_filter(2) by (auto simp: kv_filters_def filters_cover_def)
    then show ?thesis using s1(3) kv_small_filter by (simp add: filter_insert_def CountingBloomFilter_new_def)
  qed
  ultimately show ?thesis using s1 i1 kv_small_new by auto
qed

theorem kv_duplicate_put_leaks_filter_witness:
  "\<exists>s1 s2 s3 v. kv_Insert [env0, env0] 77 8192 0 0 kv_small = Some (Inr s1) \<and> kv_Insert [env0, env0] 77 8193 0 0 s1 = Some (Inr s2)
     \<and> kv_Remove 77 0 0 s2 = (s3, v) \<and> kv_map s3 77 = None \<and> MightContain 77 (cbfs s3 ! 0)"
proof -
  let ?all = "add_mset 8192 (add_mset 8193 (mset (slots 65536 32)))" and ?M = "(\<lambda>_. {#})(0 := {#77#}) :: nat \<Rightarrow> Key_t multiset"
  obtain s1 where s1: "kv_Insert [env0, env0] 77 8192 0 0 kv_small = Some (Inr s1)" "kv_map s1 = [77 \<mapsto> 8192]" "config s1 = config kv_small"
      "kv_inv 34 ?all s1 {#8193#}" "kv_filters s1 ?M" "num_hash (cbfs s1 ! 0) = 3"
    using kv_small_put by blast
  have m: "8193 \<in># {#8193 :: Value_t#}" and nc: "0 < num_clients (config s1)" and on: "cbf_on (config s1)" and st: "kv_map s1 77 = Some 8192"
    using s1(2,3) kv_small_filter by simp_all
  have "card (dom (kv_map s1)) < 16" using s1(2) by simp
  then obtain s2 where s2: "kv_Insert [env0, env0] 77 8193 0 0 s1 = Some (Inr s2)" "kv_map s2 77 \<noteq> None"
    using kv_Insert_room [OF s1(4) m key77(1,2) nc] by fastforce
  have room: "kv_room s1 ?M 0 77" using hits_small [OF _ s1(6), of "{#77#}"] by (simp add: kv_room_def cbf_room_def)
  obtain s3 v where s3: "kv_Remove 77 0 0 s2 = (s3, v)" by fastforce
  show ?thesis
    using kv_duplicate_put_leaks_filter [OF s1(4,5) on m key77(1,2) nc room st s2 s3] s1(1) s2(1) s3 by blast
qed


definition kv_idle :: KV where
  "kv_idle = kv_small\<lparr>kpool := (kpool kv_small)\<lparr>free_thold_perc := 0, min_fl_free := 0\<rparr>\<rparr>"

lemma kv_idle_inv: "kv_inv 34 (mset (slots 65536 32)) kv_idle {#}" "config kv_idle = kv_small_config" "rdma_config kv_idle = dcc_rdma_set_default_config"
proof -
  have "valid_queue (kpool kv_idle) = valid_queue (kpool kv_small)" by (simp add: kv_idle_def valid_queue_def fun_eq_iff)
  then have "kv_wf kv_idle = kv_wf kv_small" by (intro kv_wf_cong) (simp_all add: kv_idle_def)
  moreover have "pool_inv 34 (kpool kv_idle) = pool_inv 34 (kpool kv_small)" "pool_free (kpool kv_idle) = pool_free (kpool kv_small)"
    by (simp_all add: kv_idle_def pool_inv_def pool_pre_def pool_free_def)
  moreover have "kv_map kv_idle = kv_map kv_small" by (simp add: kv_idle_def)
  ultimately show "kv_inv 34 (mset (slots 65536 32)) kv_idle {#}" using kv_small_new by (auto simp: kv_inv_def pool.owns_def)
  show "config kv_idle = kv_small_config" "rdma_config kv_idle = dcc_rdma_set_default_config" using kv_small_new by (simp_all add: kv_idle_def)
qed


text \<open>
  As long as fewer than 16 pages are stored, a put stores its page and drops no other.
\<close>

theorem kv_put_stores_with_room:
  assumes "kv_inv N all s out" "pg \<in># out" "unreserved key" "key_cid key = cid" "cid < num_clients (config s)" "card (dom (kv_map s)) < 16"
  shows "\<exists>s'. kv_Insert (e1 # e2 # es) key pg cid qid s = Some (Inr s') \<and> kv_map s' = (kv_map s)(key \<mapsto> pg)"
  using kv_Insert_room [OF assms] .

theorem kv_put_stores_with_room_witness:
  "\<exists>s'. kv_Insert [env0, env0] 77 8192 0 0 kv_small = Some (Inr s') \<and> kv_map s' = [77 \<mapsto> 8192]"
  using kv_put_stores_with_room [OF kv_small_spare _ key77(1,2), of 8192 env0 env0 "[]" 0] kv_small_filter(3) kv_small_new by auto

end
