(* ===== verification/Rdma_Daemon.thy ===== *)
theory Rdma_Daemon
  imports KV Crc
begin

text \<open>
  The request handlers and completion pollers of the daemon (\<^verbatim>\<open>daemon/rdma.cpp\<close>, lines 39 to 558).  The
  state is the store, the receive requests posted on every queue (in order) and the send requests
  posted so far.  Everything else a handler reads is in its environment: the bytes that the client
  wrote (64-bit loads and page contents), return values of the verbs, clock, locks and random numbers.

  A failing assert or an exception is \<^const>\<open>Inl\<close>; \<^const>\<open>None\<close> is a loop that still runs when the listed polls are
  used up.  A queue is addressed by client and queue id.
\<close>

section \<open>State\<close>

datatype daemon_error = Daemon_kv kv_error | Daemon_assert

datatype wc_opcode =
    IBV_WC_SEND | IBV_WC_RDMA_WRITE | IBV_WC_RDMA_READ | IBV_WC_RECV | IBV_WC_RECV_RDMA_WITH_IMM | IBV_WC_OTHER

record ibv_wc =
  wc_op :: wc_opcode
  wc_wr_id :: u64
  wc_imm :: u32

record ibv_sge =
  sge_addr :: u64
  sge_length :: nat
  sge_lkey :: u32

record ibv_recv_wr =
  rwr_id :: u64
  rwr_sges :: "ibv_sge list"

record ibv_send_wr =
  swr_imm :: u32
  swr_sges :: "ibv_sge list"
  swr_inline :: bool
  swr_raddr :: u64
  swr_rkey :: u32

text \<open>The parts of \<^verbatim>\<open>RdmaMem\<close> that requests mention; \<open>filter_addr\<close> is the address of the bit array.\<close>

record rdma_mm =
  meta_addr :: u64
  data_lkey :: u32
  filter_lkey :: u32
  filter_addr :: u64
  client_baseaddr :: u64
  client_rkey :: u32

record daemon =
  dkv :: KV
  mms :: "nat \<Rightarrow> rdma_mm"
  recvq :: "nat \<Rightarrow> nat \<Rightarrow> ibv_recv_wr list"
  sends :: "(nat \<times> nat \<times> ibv_send_wr) list"

text \<open>The environment of one completion: memory, the rounds of a put, the two lookups of a get, and the verbs.\<close>

record handler_env =
  h_mem :: "u64 \<Rightarrow> u64"
  h_page :: "u64 \<Rightarrow> bytes"
  h_kv :: "kv_env list"
  h_get :: kv_env
  h_get2 :: kv_env
  h_rand :: nat
  h_cpu :: nat
  h_post_recv :: int
  h_post_send :: int
  h_polls :: "(int \<times> ibv_wc \<times> bool) list"
  h_crc_check :: bool

text \<open>Sequencing of steps that may fail or not return.\<close>

definition and_then :: "('e + 'a) option \<Rightarrow> ('a \<Rightarrow> ('e + 'b) option) \<Rightarrow> ('e + 'b) option" where
  "and_then m f = (case m of None \<Rightarrow> None | Some (Inl e) \<Rightarrow> Some (Inl e) | Some (Inr a) \<Rightarrow> f a)"


section \<open>Requests\<close>

text \<open>Each poll of the completion queue yields a count, a completion and whether its status is success.\<close>

fun poll_cq :: "bool \<Rightarrow> (int \<times> ibv_wc \<times> bool) list \<Rightarrow> (daemon_error + int \<times> ibv_wc) option" where
  "poll_cq global [] = None"
| "poll_cq global ((ne, wc, ok) # ps) =
     (if ne < 0 then Some (Inl Daemon_assert)
      else if global \<and> ne = 0 then Some (Inr (ne, wc))
      else if ne < 1 then poll_cq global ps
      else if \<not> ok then Some (Inl Daemon_assert)
      else Some (Inr (ne, wc)))"

definition poll_send_cq :: "handler_env \<Rightarrow> daemon \<Rightarrow> (daemon_error + daemon) option" where
  "poll_send_cq e s = and_then (poll_cq False (h_polls e)) (\<lambda>_. Some (Inr s))"

definition post_recv :: "handler_env \<Rightarrow> nat \<Rightarrow> nat \<Rightarrow> u64 \<Rightarrow> daemon \<Rightarrow> daemon \<times> int" where
  "post_recv e cid qid addr s =
     (let wr = \<lparr>rwr_id = addr,
                rwr_sges = (if addr = 0 then [] else [\<lparr>sge_addr = addr, sge_length = 8 + 4096, sge_lkey = data_lkey (mms s cid)\<rparr>])\<rparr>
      in (if h_post_recv e = 0 then s\<lparr>recvq := (recvq s)(cid := (recvq s cid)(qid := recvq s cid qid @ [wr]))\<rparr> else s, h_post_recv e))"

definition send_reply :: "handler_env \<Rightarrow> nat \<Rightarrow> nat \<Rightarrow> u32 \<Rightarrow> u64 \<Rightarrow> u64 \<Rightarrow> daemon \<Rightarrow> (daemon_error + daemon) option" where
  "send_reply e cid qid imm value raddr s =
     (let wr = \<lparr>swr_imm = imm,
                swr_sges = (if value = 0 then [] else [\<lparr>sge_addr = value, sge_length = 4096, sge_lkey = data_lkey (mms s cid)\<rparr>]),
                swr_inline = (value = 0), swr_raddr = raddr, swr_rkey = client_rkey (mms s cid)\<rparr>
      in if h_post_send e = 0 then Some (Inr (s\<lparr>sends := sends s @ [(cid, qid, wr)]\<rparr>)) else Some (Inl Daemon_assert))"

definition send_bf :: "handler_env \<Rightarrow> nat \<Rightarrow> nat \<Rightarrow> daemon \<Rightarrow> (daemon_error + daemon) option" where
  "send_bf e cid qid s =
     (let wr = \<lparr>swr_imm = FILTER_UPDATE_END,
                swr_sges = [\<lparr>sge_addr = filter_addr (mms s cid), sge_length = num_longs (cbfs (dkv s) ! cid) * 8, sge_lkey = filter_lkey (mms s cid)\<rparr>],
                swr_inline = False, swr_raddr = client_baseaddr (mms s cid), swr_rkey = client_rkey (mms s cid)\<rparr>
      in if h_post_send e = 0 then Some (Inr (s\<lparr>sends := sends s @ [(cid, qid, wr)]\<rparr>)) else Some (Inl Daemon_assert))"

definition with_kv :: "KV \<Rightarrow> daemon \<Rightarrow> daemon" where
  "with_kv k s = s\<lparr>dkv := k\<rparr>"


section \<open>Handlers\<close>

definition last_msg :: "daemon \<Rightarrow> u32 \<Rightarrow> bool" where
  "last_msg s mid \<longleftrightarrow> int (unat mid) = int (num_msgs (rdma_config (dkv s))) - 1"

text \<open>A put: the received page goes into the store and a new page takes its place on the queue; without a new page it is received into again.\<close>

definition put_page :: "handler_env \<Rightarrow> nat \<Rightarrow> nat \<Rightarrow> u64 \<Rightarrow> daemon \<Rightarrow> (daemon_error + daemon) option" where
  "put_page e cid qid recv_addr s =
     (let key = h_mem e (recv_addr + 4096);
          (k1, value) = kv_Allocate cid None (h_rand e) (dkv s);
          s1 = with_kv k1 s
      in if value = INVALID then Some (Inr (fst (post_recv e cid qid recv_addr s1)))
         else let s2 = fst (post_recv e cid qid value s1)
              in case kv_Insert (h_kv e) key recv_addr cid qid (dkv s2) of
                   None \<Rightarrow> None
                 | Some (Inl x) \<Rightarrow> Some (Inl (Daemon_kv x))
                 | Some (Inr k2) \<Rightarrow> Some (Inr (with_kv k2 s2)))"

definition process_put :: "handler_env \<Rightarrow> nat \<Rightarrow> nat \<Rightarrow> u32 \<Rightarrow> u64 \<Rightarrow> daemon \<Rightarrow> (daemon_error + daemon) option" where
  "process_put e cid qid mid recv_addr s =
     and_then (put_page e cid qid recv_addr s)
       (\<lambda>s1. if last_msg s1 mid then
               (let etc = (if h_cpu e > 50 then 1 else 0);
                    imm_data = htonl (bit_mask mid (msg_num MSG_WRITE_REPLY) (tx_num TX_WRITE_COMMITTED) etc 0)
                in and_then (send_reply e cid qid imm_data 0 0 s1) (poll_send_cq e))
             else Some (Inr s1))"

definition release_page :: "handler_env \<Rightarrow> Value_t \<Rightarrow> nat \<Rightarrow> daemon \<Rightarrow> (daemon_error + daemon) option" where
  "release_page e value cid s = (case kv_Free value cid None (h_rand e) (dkv s) of
       None \<Rightarrow> Some (Inl Daemon_assert) | Some k \<Rightarrow> Some (Inr (with_kv k s)))"

definition process_get :: "handler_env \<Rightarrow> nat \<Rightarrow> nat \<Rightarrow> u32 \<Rightarrow> daemon \<Rightarrow> (daemon_error + daemon) option" where
  "process_get e cid qid mid s =
     (let c = rdma_config (dkv s); meta_region = meta_addr (mms s cid);
          key = h_mem e (KEY_META_REGION c meta_region qid (unat mid) (msg_num MSG_READ));
          raddr = h_mem e (ADDR_META_REGION c meta_region qid (unat mid));
          (k1, value) = (if exclusive_policy (config (dkv s)) then kv_Remove key cid qid (dkv s)
                         else kv_GetWithFlag (h_get e) key cid qid True (dkv s));
          imm_data = htonl (bit_mask mid (msg_num MSG_READ_REPLY) (tx_num (if value \<noteq> NONE then TX_READ_COMMITTED else TX_READ_ABORTED))
                       0 (if value \<noteq> NONE then ucast (CRC8 (h_crc_check e) (h_page e value)) else 0))
      in and_then (send_reply e cid qid imm_data value raddr (with_kv k1 s)) (\<lambda>s1.
         and_then (poll_send_cq e s1) (\<lambda>s2.
           if value \<noteq> NONE then
             (if exclusive_policy (config (dkv s)) then release_page e value cid s2
              else Some (Inr (with_kv (fst (kv_GetWithFlag (h_get2 e) key cid qid False (dkv s2))) s2)))
           else Some (Inr s2))))"

definition process_invalidate_page :: "handler_env \<Rightarrow> nat \<Rightarrow> nat \<Rightarrow> u32 \<Rightarrow> daemon \<Rightarrow> (daemon_error + daemon) option" where
  "process_invalidate_page e cid qid mid s =
     (let c = rdma_config (dkv s); meta_region = meta_addr (mms s cid);
          key = h_mem e (KEY_META_REGION c meta_region qid (unat mid) (msg_num MSG_INV_PAGE));
          (k1, value) = kv_Remove key cid qid (dkv s)
      in and_then (if value \<noteq> NONE then release_page e value cid (with_kv k1 s) else Some (Inr (with_kv k1 s))) (\<lambda>s1.
           if last_msg s1 mid then
             (let imm_data = htonl (bit_mask mid (msg_num MSG_INV_PAGE_REPLY)
                    (tx_num (if value \<noteq> NONE then TX_INV_PAGE_COMMITED else TX_INV_PAGE_ABORTED)) 0 0)
              in and_then (send_reply e cid qid imm_data 0 0 s1) (poll_send_cq e))
           else Some (Inr s1)))"

definition process_send :: "ibv_wc \<Rightarrow> daemon \<Rightarrow> daemon" where
  "process_send wc s = s"

definition process_imm :: "handler_env \<Rightarrow> nat \<Rightarrow> nat \<Rightarrow> ibv_wc \<Rightarrow> daemon \<Rightarrow> (daemon_error + daemon) option" where
  "process_imm e cid qid wc s =
     (let (mid, type, _, _, _) = bit_unmask (ntohl (wc_imm wc))
      in if type = msg_num MSG_WRITE then Some (Inl Daemon_assert)
         else if type = msg_num MSG_READ then process_get e cid qid mid (fst (post_recv e cid qid 0 s))
         else if type = msg_num MSG_INV_PAGE then process_invalidate_page e cid qid mid (fst (post_recv e cid qid 0 s))
         else Some (Inr s))"

definition update_bf :: "nat \<Rightarrow> daemon \<Rightarrow> daemon" where
  "update_bf cid s = with_kv ((dkv s)\<lparr>cbfs := (cbfs (dkv s))[cid := fst (ToOrdinaryBF (cbfs (dkv s) ! cid))]\<rparr>) s"

definition process_recv :: "handler_env \<Rightarrow> nat \<Rightarrow> nat \<Rightarrow> ibv_wc \<Rightarrow> daemon \<Rightarrow> (daemon_error + daemon) option" where
  "process_recv e cid qid wc s =
     (if qid = num_data_qps (rdma_config (dkv s)) \<and> wc_imm wc = FILTER_UPDATE_BEGIN then
        and_then (send_bf e cid qid (update_bf cid s)) (\<lambda>s1. Some (Inr (fst (post_recv e cid qid 0 s1))))
      else if wc_wr_id wc = 0 then Some (Inr s)
      else let (mid, _, _, _, _) = bit_unmask (ntohl (wc_imm wc))
           in process_put e cid qid mid (wc_wr_id wc) s)"

text \<open>The dispatch of one completion, the same in all pollers (the data poller only reports an unexpected send completion).\<close>

definition dispatch :: "handler_env \<Rightarrow> nat \<Rightarrow> nat \<Rightarrow> ibv_wc \<Rightarrow> daemon \<Rightarrow> (daemon_error + daemon) option" where
  "dispatch e cid qid wc s = (case wc_op wc of
       IBV_WC_SEND \<Rightarrow> Some (Inr (process_send wc s))
     | IBV_WC_RECV_RDMA_WITH_IMM \<Rightarrow> process_imm e cid qid wc s
     | IBV_WC_RECV \<Rightarrow> process_recv e cid qid wc s
     | _ \<Rightarrow> Some (Inr s))"

fun dispatch_all :: "(handler_env \<times> ibv_wc) list \<Rightarrow> nat \<Rightarrow> nat \<Rightarrow> daemon \<Rightarrow> (daemon_error + daemon) option" where
  "dispatch_all [] cid qid s = Some (Inr s)"
| "dispatch_all ((e, wc) # ws) cid qid s = and_then (dispatch e cid qid wc s) (dispatch_all ws cid qid)"


section \<open>Pollers\<close>

text \<open>
  One round of \<^verbatim>\<open>data_cq_poller\<close>: find the next completion, then dispatch it.  The global poller asks the
  clients in turn, starting after the one it served last; each element of \<open>ps\<close> is the outcome of one poll.
\<close>

fun global_poll :: "nat \<Rightarrow> nat \<Rightarrow> (int \<times> ibv_wc \<times> bool) list \<Rightarrow> (daemon_error + nat \<times> nat \<times> ibv_wc) option" where
  "global_poll client_ctr idx [] = None"
| "global_poll client_ctr idx (p # ps) =
     (case poll_cq True [p] of
        None \<Rightarrow> None
      | Some (Inl x) \<Rightarrow> Some (Inl x)
      | Some (Inr (ret, wc)) \<Rightarrow>
          if ret > 0 then Some (Inr (idx, (idx + 1) mod client_ctr, wc))
          else global_poll client_ctr ((idx + 1) mod client_ctr) ps)"

definition data_cq_poller_round ::
  "poller_t \<Rightarrow> nat \<Rightarrow> nat \<Rightarrow> (int \<times> ibv_wc \<times> bool) list \<Rightarrow> handler_env \<Rightarrow> nat \<Rightarrow> nat \<Rightarrow> daemon \<Rightarrow> (daemon_error + nat \<times> daemon) option" where
  "data_cq_poller_round pt client_ctr idx ps e cid qid s = (case pt of
       PER_QP_POLLER \<Rightarrow> and_then (poll_cq False ps) (\<lambda>(_, wc). and_then (dispatch e cid qid wc s) (\<lambda>s'. Some (Inr (idx, s'))))
     | GLOBAL_QP_POLLER \<Rightarrow> and_then (global_poll client_ctr idx ps) (\<lambda>(c, idx', wc).
         and_then (dispatch e c qid wc s) (\<lambda>s'. Some (Inr (idx', s')))))"

text \<open>
  The hybrid poller.  A phase polls the queue for the current duration (in milliseconds), at least once,
  and takes at most \<^const>\<open>MAX_POLL_WC\<close> completions each time; then it halves the duration and waits for an
  event, doubles it, or keeps it.
\<close>

datatype poll_next = Event_mode | Poll_mode

definition hybrid_duration_init :: "wc_mode_t \<Rightarrow> nat" where
  "hybrid_duration_init m = (if m = WC_ADAPTIVE_BO then 2 ^ 5 else 2 ^ 0)"

definition succ_rate :: "nat \<Rightarrow> nat \<Rightarrow> nat" where
  "succ_rate succ_cnt failed_cnt = 100 * succ_cnt div (succ_cnt + failed_cnt)"

definition hybrid_adapt :: "wc_mode_t \<Rightarrow> nat \<Rightarrow> nat \<Rightarrow> nat \<Rightarrow> nat \<times> poll_next" where
  "hybrid_adapt m succ_cnt failed_cnt duration =
     (if succ_rate succ_cnt failed_cnt = 0
      then (if m = WC_ADAPTIVE_BO \<and> duration > 2 ^ 0 then duration div 2 else duration, Event_mode)
      else (if m = WC_ADAPTIVE_BO \<and> succ_rate succ_cnt failed_cnt > 80 \<and> duration < 2 ^ 10 then duration * 2 else duration, Poll_mode))"

fun hybrid_polls :: "(handler_env \<times> ibv_wc) list list \<Rightarrow> nat \<Rightarrow> nat \<Rightarrow> nat \<Rightarrow> nat \<Rightarrow> daemon \<Rightarrow> (daemon_error + nat \<times> nat \<times> daemon) option" where
  "hybrid_polls [] cid qid succ_cnt failed_cnt s = Some (Inr (succ_cnt, failed_cnt, s))"
| "hybrid_polls (b # bs) cid qid succ_cnt failed_cnt s =
     (let wcs = take MAX_POLL_WC b
      in and_then (dispatch_all wcs cid qid s)
           (\<lambda>s'. if wcs \<noteq> [] then hybrid_polls bs cid qid (succ_cnt + 1) failed_cnt s'
                 else hybrid_polls bs cid qid succ_cnt (failed_cnt + 1) s'))"

definition hybrid_phase ::
  "wc_mode_t \<Rightarrow> (handler_env \<times> ibv_wc) list \<Rightarrow> (handler_env \<times> ibv_wc) list list \<Rightarrow> nat \<Rightarrow> nat \<Rightarrow> nat \<Rightarrow> daemon
     \<Rightarrow> (daemon_error + (nat \<times> poll_next) \<times> daemon) option" where
  "hybrid_phase m b bs duration cid qid s =
     and_then (hybrid_polls (b # bs) cid qid 0 0 s) (\<lambda>(succ_cnt, failed_cnt, s'). Some (Inr (hybrid_adapt m succ_cnt failed_cnt duration, s')))"

text \<open>The filter queue handles one completion per event.\<close>

definition event_filter_cq_round :: "(int \<times> ibv_wc \<times> bool) list \<Rightarrow> handler_env \<Rightarrow> nat \<Rightarrow> nat \<Rightarrow> daemon \<Rightarrow> (daemon_error + daemon) option" where
  "event_filter_cq_round ps e cid qid s = and_then (poll_cq False ps) (\<lambda>(_, wc). dispatch e cid qid wc s)"


section \<open>Pages that are posted\<close>

text \<open>
  A receive request holds the page it names until it completes.  \<open>held\<close> are the pages of completions that
  are being handled, and the pages that no structure of the daemon refers to any more.
\<close>

definition queue_pages :: "ibv_recv_wr list \<Rightarrow> Value_t multiset" where
  "queue_pages ws = mset (filter (\<lambda>a. a \<noteq> 0) (map rwr_id ws))"

definition posted :: "daemon \<Rightarrow> Value_t multiset" where
  "posted s = (\<Sum>c < num_clients (config (dkv s)). \<Sum>q < num_qps (rdma_config (dkv s)). queue_pages (recvq s c q))"

definition daemon_inv :: "nat \<Rightarrow> Value_t multiset \<Rightarrow> daemon \<Rightarrow> Value_t multiset \<Rightarrow> bool" where
  "daemon_inv N all s held \<longleftrightarrow> kv_inv N all (dkv s) (posted s + held)"

text \<open>A completion takes the first receive request of its queue.\<close>

definition deliver :: "nat \<Rightarrow> nat \<Rightarrow> wc_opcode \<Rightarrow> u32 \<Rightarrow> daemon \<Rightarrow> (ibv_wc \<times> daemon) option" where
  "deliver cid qid opc imm s = (case recvq s cid qid of
       [] \<Rightarrow> None
     | w # ws \<Rightarrow> Some (\<lparr>wc_op = opc, wc_wr_id = rwr_id w, wc_imm = imm\<rparr>, s\<lparr>recvq := (recvq s)(cid := (recvq s cid)(qid := ws))\<rparr>))"

lemma sum_fun_upd_mset:
  fixes f :: "nat \<Rightarrow> 'a multiset"
  assumes "c < n"
  shows "(\<Sum>i<n. (f(c := x)) i) + f c = (\<Sum>i<n. f i) + x"
  using assms by (simp add: sum.remove [of "{..<n}" c] add.commute add.left_commute)

lemma mset_swap:
  fixes A :: "'a multiset"
  assumes "A + G = P + R" "R + q = G + w"
  shows "A + q = P + w"
proof -
  have "A + q + G = A + G + q" by (simp only: add.assoc add.commute [of q])
  also have "\<dots> = P + (R + q)" by (simp only: assms(1) add.assoc)
  also have "\<dots> = P + w + G" by (simp only: assms(2) add.assoc add.commute [of G])
  finally show ?thesis by simp
qed

lemma posted_recvq:
  assumes "c < num_clients (config (dkv s))" "q < num_qps (rdma_config (dkv s))"
  shows "posted (s\<lparr>recvq := (recvq s)(c := (recvq s c)(q := ws))\<rparr>) + queue_pages (recvq s c q) = posted s + queue_pages ws"
proof -
  let ?Q = "num_qps (rdma_config (dkv s))" and ?C = "num_clients (config (dkv s))"
  let ?g = "\<lambda>c. \<Sum>q < ?Q. queue_pages (recvq s c q)"
  let ?r = "(recvq s)(c := (recvq s c)(q := ws))"
  have inner: "(\<Sum>i<?Q. queue_pages (?r c i)) + queue_pages (recvq s c q) = ?g c + queue_pages ws"
    using sum_fun_upd_mset [OF assms(2), of "\<lambda>q. queue_pages (recvq s c q)" "queue_pages ws"]
    by (simp add: fun_upd_def if_distrib [of queue_pages] cong: if_cong)
  have "posted (s\<lparr>recvq := ?r\<rparr>) = (\<Sum>d<?C. (?g(c := \<Sum>i<?Q. queue_pages (?r c i))) d)" unfolding posted_def by (intro sum.cong) auto
  then have "posted (s\<lparr>recvq := ?r\<rparr>) + ?g c = posted s + (\<Sum>i<?Q. queue_pages (?r c i))"
    using sum_fun_upd_mset [OF assms(1), of ?g] by (simp only: posted_def)
  then show ?thesis using inner by (rule mset_swap)
qed

lemma posted_sends [simp]: "posted (s\<lparr>sends := x\<rparr>) = posted s"
  by (simp add: posted_def)

lemma posted_kv: "config k = config (dkv s) \<Longrightarrow> rdma_config k = rdma_config (dkv s) \<Longrightarrow> posted (s\<lparr>dkv := k\<rparr>) = posted s"
  by (simp add: posted_def)

section \<open>Handlers keep the pages\<close>

lemma and_then_simps [simp]: "and_then (Some (Inr a)) f = f a" "and_then (Some (Inl x)) f = Some (Inl x)" "and_then None f = None"
  by (simp_all add: and_then_def)

definition queue_ok :: "daemon \<Rightarrow> nat \<Rightarrow> nat \<Rightarrow> bool" where
  "queue_ok s cid qid \<longleftrightarrow> cid < num_clients (config (dkv s)) \<and> qid < num_qps (rdma_config (dkv s))"

text \<open>The verbs succeed and the send completion arrives.\<close>

definition verbs_ok :: "handler_env \<Rightarrow> bool" where
  "verbs_ok e \<longleftrightarrow> h_post_recv e = 0 \<and> h_post_send e = 0 \<and> (\<exists>r. poll_cq False (h_polls e) = Some (Inr r))"

definition same_config :: "daemon \<Rightarrow> daemon \<Rightarrow> bool" where
  "same_config s s' \<longleftrightarrow> config (dkv s') = config (dkv s) \<and> rdma_config (dkv s') = rdma_config (dkv s) \<and> mms s' = mms s"

lemma same_config_refl [simp]: "same_config s s" by (simp add: same_config_def)

lemma same_config_trans: "same_config s s' \<Longrightarrow> same_config s' s'' \<Longrightarrow> same_config s s''"
  by (simp add: same_config_def)

lemma deliver_inv:
  assumes "daemon_inv N all s held" "queue_ok s cid qid" "deliver cid qid opc imm s = Some (wc, s')"
  shows "daemon_inv N all s' (if wc_wr_id wc = 0 then held else add_mset (wc_wr_id wc) held) \<and> same_config s s' \<and> dkv s' = dkv s
    \<and> recvq s cid qid \<noteq> [] \<and> length (recvq s' cid qid) = length (recvq s cid qid) - 1 \<and> wc_op wc = opc \<and> wc_imm wc = imm
    \<and> wc_wr_id wc = rwr_id (hd (recvq s cid qid)) \<and> sends s' = sends s"
proof -
  obtain w ws where w: "recvq s cid qid = w # ws" "wc = \<lparr>wc_op = opc, wc_wr_id = rwr_id w, wc_imm = imm\<rparr>"
    "s' = s\<lparr>recvq := (recvq s)(cid := (recvq s cid)(qid := ws))\<rparr>"
    using assms(3) by (auto simp: deliver_def split: list.splits)
  have "posted s' + queue_pages (w # ws) = posted s + queue_pages ws"
    using posted_recvq [of cid s qid ws] assms(2) w by (simp add: queue_ok_def)
  then have "posted s = (if rwr_id w = 0 then posted s' else add_mset (rwr_id w) (posted s'))"
    by (cases "rwr_id w = 0") (simp_all add: queue_pages_def)
  then show ?thesis using assms(1) w by (auto simp: daemon_inv_def same_config_def)
qed

lemma post_recv_inv:
  assumes "daemon_inv N all s held" "queue_ok s cid qid" "h_post_recv e = 0" "addr = 0 \<or> addr \<in># held"
  shows "daemon_inv N all (fst (post_recv e cid qid addr s)) (if addr = 0 then held else held - {#addr#})"
    "dkv (fst (post_recv e cid qid addr s)) = dkv s" "mms (fst (post_recv e cid qid addr s)) = mms s"
    "length (recvq (fst (post_recv e cid qid addr s)) cid qid) = Suc (length (recvq s cid qid))"
    "sends (fst (post_recv e cid qid addr s)) = sends s"
proof -
  let ?w = "\<lparr>rwr_id = addr, rwr_sges = (if addr = 0 then [] else [\<lparr>sge_addr = addr, sge_length = 8 + 4096, sge_lkey = data_lkey (mms s cid)\<rparr>])\<rparr>"
  let ?s = "fst (post_recv e cid qid addr s)"
  have e: "?s = s\<lparr>recvq := (recvq s)(cid := (recvq s cid)(qid := recvq s cid qid @ [?w]))\<rparr>"
    using assms(3) by (simp add: post_recv_def Let_def)
  show "dkv ?s = dkv s" "mms ?s = mms s" "length (recvq ?s cid qid) = Suc (length (recvq s cid qid))" "sends ?s = sends s" unfolding e by simp_all
  have "queue_pages (recvq s cid qid @ [?w]) = queue_pages (recvq s cid qid) + (if addr = 0 then {#} else {#addr#})"
    by (simp add: queue_pages_def)
  then have "posted ?s = posted s + (if addr = 0 then {#} else {#addr#})"
    using posted_recvq [of cid s qid "recvq s cid qid @ [?w]"] assms(2) unfolding e queue_ok_def
    by (metis (no_types, lifting) add.assoc add.commute add_left_cancel)
  moreover have "posted s + {#addr#} + (held - {#addr#}) = posted s + held" if "addr \<noteq> 0" using assms(4) that by simp
  ultimately have "posted ?s + (if addr = 0 then held else held - {#addr#}) = posted s + held" by (cases "addr = 0") simp_all
  then show "daemon_inv N all ?s (if addr = 0 then held else held - {#addr#})"
    using assms(1) \<open>dkv ?s = dkv s\<close> unfolding daemon_inv_def by (simp only:)
qed

lemma with_kv_inv:
  assumes "kv_inv N all k (posted s + held)" "config k = config (dkv s)" "rdma_config k = rdma_config (dkv s)"
  shows "daemon_inv N all (with_kv k s) held \<and> same_config s (with_kv k s) \<and> dkv (with_kv k s) = k \<and> recvq (with_kv k s) = recvq s
    \<and> sends (with_kv k s) = sends s"
  using assms posted_kv [of k s] by (simp add: daemon_inv_def with_kv_def same_config_def)

lemma reply_ok:
  assumes "verbs_ok e" "daemon_inv N all s held"
  shows "\<exists>s' wr. and_then (send_reply e cid qid imm v ra s) (poll_send_cq e) = Some (Inr s') \<and> daemon_inv N all s' held
    \<and> same_config s s' \<and> dkv s' = dkv s \<and> recvq s' = recvq s \<and> sends s' = sends s @ [(cid, qid, wr)] \<and> swr_imm wr = imm \<and> swr_raddr wr = ra
    \<and> map sge_addr (swr_sges wr) = (if v = 0 then [] else [v])"
  using assms by (auto simp: verbs_ok_def send_reply_def poll_send_cq_def Let_def daemon_inv_def same_config_def)

lemma kv_Free_rdma: "kv_Free v cid qid r s = Some s' \<Longrightarrow> rdma_config s' = rdma_config s"
  by (auto simp: kv_Free_def)

lemma kv_Allocate_rdma: "kv_Allocate cid qid r s = (s', a) \<Longrightarrow> rdma_config s' = rdma_config s"
  by (auto simp: kv_Allocate_def split: prod.splits)

lemma kv_Remove_rdma: "kv_Remove k cid qid s = (s', v) \<Longrightarrow> rdma_config s' = rdma_config s"
  by (auto simp: kv_Remove_def Let_def split: prod.splits if_splits)

lemma kv_GetWithFlag_rdma: "rdma_config (fst (kv_GetWithFlag e k cid qid fl s)) = rdma_config s"
  by (auto simp: kv_GetWithFlag_def Let_def split: prod.splits)

lemma kv_Insert_rdma: "kv_Insert es k v cid qid s = Some (Inr s') \<Longrightarrow> rdma_config s' = rdma_config s"
proof (induction es arbitrary: s)
  case (Cons e es)
  obtain t ret ek ev where "lpa_Insert (e_now e) (e_lock e) k v INVALID (hashes s ! get_ht_shard_id s k) = Inr (t, ret, ek, ev)"
    using Cons.prems by (auto simp: Let_def split: sum.splits prod.splits)
  then show ?case using Cons.prems Cons.IH
    by (auto simp: Let_def kv_Free_def split: if_splits option.splits)
qed simp

lemma alloc_recv:
  assumes inv: "daemon_inv N all s held" and q: "queue_ok s cid qid" and al: "kv_Allocate cid None r (dkv s) = (k1, v)"
  shows "daemon_inv N all (with_kv k1 s) (if v = - 1 then held else add_mset v held) \<and> same_config s (with_kv k1 s)
    \<and> dkv (with_kv k1 s) = k1 \<and> recvq (with_kv k1 s) = recvq s \<and> kv_map k1 = kv_map (dkv s) \<and> cbfs k1 = cbfs (dkv s)"
proof -
  have I: "kv_inv N all (dkv s) (posted s + held)" using inv by (simp add: daemon_inv_def)
  have "valid_queue (kpool (dkv s)) cid None" using I q by (simp add: kv_inv_def kv_wf_def valid_queue_def queue_ok_def)
  note A = kv_Allocate_spec [OF I this al]
  have "kv_inv N all k1 (posted s + (if v = - 1 then held else add_mset v held))" using A by (cases "v = - 1") simp_all
  then show ?thesis using with_kv_inv [of N all k1 s] A kv_Allocate_rdma [OF al] by simp
qed

lemma insert_recv:
  assumes inv: "daemon_inv N all s held" and cid: "cid < num_clients (config (dkv s))" and k: "h_kv e = e1 # e2 # es"
    and a: "a \<in># held" and key: "unreserved key" "key_cid key = cid"
  shows "\<exists>k2. kv_Insert (h_kv e) key a cid qid (dkv s) = Some (Inr k2) \<and> daemon_inv N all (with_kv k2 s) (held - {#a#}) \<and> same_config s (with_kv k2 s)
    \<and> dkv (with_kv k2 s) = k2 \<and> recvq (with_kv k2 s) = recvq s \<and> put_spec (kv_map (dkv s)) key a (kv_map k2)"
proof -
  have I: "kv_inv N all (dkv s) (posted s + held)" using inv by (simp add: daemon_inv_def)
  obtain k2 where k2: "kv_Insert (h_kv e) key a cid qid (dkv s) = Some (Inr k2)" "kv_inv N all k2 (posted s + held - {#a#})"
      "put_spec (kv_map (dkv s)) key a (kv_map k2)" "config k2 = config (dkv s)"
    using kv_Insert_spec [OF I _ key cid, of a e1 e2 es qid] a k by auto
  have "posted s + held - {#a#} = posted s + (held - {#a#})" using a by simp
  then show ?thesis using with_kv_inv [of N all k2 s "held - {#a#}"] k2 kv_Insert_rdma [OF k2(1)] by simp
qed

lemma put_page_spec:
  assumes inv: "daemon_inv N all s held" and q: "queue_ok s cid qid" and pr: "h_post_recv e = 0" and k: "h_kv e = e1 # e2 # es"
    and a: "a \<in># held" and key: "key = h_mem e (a + 4096)" "unreserved key" "key_cid key = cid"
  shows "\<exists>s'. put_page e cid qid a s = Some (Inr s') \<and> daemon_inv N all s' (held - {#a#}) \<and> same_config s s'
    \<and> length (recvq s' cid qid) = Suc (length (recvq s cid qid))
    \<and> (kv_map (dkv s') = kv_map (dkv s) \<or> put_spec (kv_map (dkv s)) key a (kv_map (dkv s')))"
proof -
  obtain k1 v where al: "kv_Allocate cid None (h_rand e) (dkv s) = (k1, v)" by fastforce
  let ?s1 = "with_kv k1 s"
  note s1 = alloc_recv [OF inv q al]
  have q1: "queue_ok ?s1 cid qid" and cid: "cid < num_clients (config k1)" using q s1 by (auto simp: queue_ok_def same_config_def)
  have a0: "a \<noteq> 0" using inv a by (auto simp: daemon_inv_def kv_inv_def pool.owns_def NONE_def)
  have inval: "INVALID = - 1" by (simp add: INVALID_def)
  have conf: "config k1 = config (dkv s)" "rdma_config k1 = rdma_config (dkv s)" "mms ?s1 = mms s" using s1 by (auto simp: same_config_def)
  show ?thesis
  proof (cases "v = - 1")
    case True
    then have "daemon_inv N all ?s1 held" using s1 by simp
    note P = post_recv_inv [OF this q1 pr, of a]
    show ?thesis using P a a0 True inval s1 conf al by (simp add: same_config_def put_page_def)
  next
    case False
    then have i1: "daemon_inv N all ?s1 (add_mset v held)" using s1 by simp
    have v0: "v \<noteq> 0" using i1 by (auto simp: daemon_inv_def kv_inv_def pool.owns_def NONE_def)
    let ?s2 = "fst (post_recv e cid qid v ?s1)"
    note P = post_recv_inv [OF i1 q1 pr, of v]
    have i2: "daemon_inv N all ?s2 held" "dkv ?s2 = k1" using P(1,2) v0 s1 by simp_all
    obtain k2 where "kv_Insert (h_kv e) key a cid qid k1 = Some (Inr k2)" "daemon_inv N all (with_kv k2 ?s2) (held - {#a#})"
        "same_config ?s2 (with_kv k2 ?s2)" "dkv (with_kv k2 ?s2) = k2" "recvq (with_kv k2 ?s2) = recvq ?s2" "put_spec (kv_map k1) key a (kv_map k2)"
      using insert_recv [OF i2(1) _ k a key(2,3)] cid i2(2) by auto
    then show ?thesis using False inval i2(2) P(3,4) s1 conf al key(1) by (simp add: Let_def same_config_def put_page_def)
  qed
qed

lemma process_put_spec:
  assumes inv: "daemon_inv N all s held" and q: "queue_ok s cid qid" and e: "verbs_ok e" and k: "h_kv e = e1 # e2 # es"
    and a: "a \<in># held" and key: "key = h_mem e (a + 4096)" "unreserved key" "key_cid key = cid"
  shows "\<exists>s'. process_put e cid qid mid a s = Some (Inr s') \<and> daemon_inv N all s' (held - {#a#}) \<and> same_config s s'
    \<and> length (recvq s' cid qid) = Suc (length (recvq s cid qid))
    \<and> (kv_map (dkv s') = kv_map (dkv s) \<or> put_spec (kv_map (dkv s)) key a (kv_map (dkv s')))"
proof -
  have pr: "h_post_recv e = 0" using e by (simp add: verbs_ok_def)
  obtain s3 where s3: "put_page e cid qid a s = Some (Inr s3)" "daemon_inv N all s3 (held - {#a#})" "same_config s s3"
      "length (recvq s3 cid qid) = Suc (length (recvq s cid qid))"
      "kv_map (dkv s3) = kv_map (dkv s) \<or> put_spec (kv_map (dkv s)) key a (kv_map (dkv s3))"
    using put_page_spec [OF inv q pr k a key] by blast
  show ?thesis
  proof (cases "last_msg s3 mid")
    case True
    then show ?thesis using s3 reply_ok [OF e s3(2)] same_config_trans [OF s3(3)] by (fastforce simp: process_put_def Let_def)
  next
    case False
    then show ?thesis using s3 by (auto simp: process_put_def)
  qed
qed

lemma take_recv:
  assumes inv: "daemon_inv N all s held" and k: "unreserved key" "key_cid key = cid" and r: "kv_Remove key cid qid (dkv s) = (k1, v)"
  shows "v = value_or_none (kv_map (dkv s) key) \<and> daemon_inv N all (with_kv k1 s) (if v = NONE then held else add_mset v held)
    \<and> same_config s (with_kv k1 s) \<and> dkv (with_kv k1 s) = k1 \<and> recvq (with_kv k1 s) = recvq s \<and> sends (with_kv k1 s) = sends s
    \<and> kv_map k1 = (kv_map (dkv s))(key := None)"
proof -
  have I: "kv_inv N all (dkv s) (posted s + held)" using inv by (simp add: daemon_inv_def)
  have "kv_Remove key (key_cid key) qid (dkv s) = (k1, v)" using r k(2) by simp
  from kv_Remove_spec [OF I k(1) this]
  have R: "v = value_or_none (kv_map (dkv s) key)" "kv_map k1 = (kv_map (dkv s))(key := None)" "config k1 = config (dkv s)"
    "kv_inv N all k1 (if v = NONE then posted s + held else add_mset v (posted s + held))" by blast+
  have "kv_inv N all k1 (posted s + (if v = NONE then held else add_mset v held))" using R(4) by (cases "v = NONE") simp_all
  then show ?thesis using R(1-3) with_kv_inv [of N all k1 s] kv_Remove_rdma [OF r] by simp
qed

lemma look_recv:
  assumes inv: "daemon_inv N all s held" and k: "unreserved key" and g: "kv_GetWithFlag ke key cid qid fl (dkv s) = (k1, v)"
  shows "v = (if fl then value_or_none (kv_map (dkv s) key) else NONE) \<and> daemon_inv N all (with_kv k1 s) held
    \<and> same_config s (with_kv k1 s) \<and> dkv (with_kv k1 s) = k1 \<and> recvq (with_kv k1 s) = recvq s \<and> sends (with_kv k1 s) = sends s
    \<and> kv_map k1 = kv_map (dkv s)"
proof -
  have I: "kv_inv N all (dkv s) (posted s + held)" using inv by (simp add: daemon_inv_def)
  note L = kv_lookup_spec(2) [OF I k, of ke cid qid fl] kv_lookup_spec(3) [OF I k, of k1 ke cid qid fl]
  have "rdma_config k1 = rdma_config (dkv s)" using kv_GetWithFlag_rdma [of ke key cid qid fl "dkv s"] g by simp
  then show ?thesis using L g with_kv_inv [of N all k1 s held] by simp
qed

lemma release_recv:
  assumes inv: "daemon_inv N all s held" and v: "v \<in># held" and cid: "cid < num_clients (config (dkv s))"
  shows "\<exists>s'. release_page e v cid s = Some (Inr s') \<and> daemon_inv N all s' (held - {#v#}) \<and> same_config s s'
    \<and> recvq s' = recvq s \<and> sends s' = sends s \<and> kv_map (dkv s') = kv_map (dkv s)"
proof -
  have I: "kv_inv N all (dkv s) (posted s + held)" using inv by (simp add: daemon_inv_def)
  have "valid_queue (kpool (dkv s)) cid None" using I cid by (simp add: kv_inv_def kv_wf_def valid_queue_def)
  then obtain k where k: "kv_Free v cid None (h_rand e) (dkv s) = Some k" "kv_inv N all k (posted s + held - {#v#})"
      "kv_map k = kv_map (dkv s)" "config k = config (dkv s)"
    using kv_Free_inv [OF I] v by fastforce
  have "posted s + held - {#v#} = posted s + (held - {#v#})" using v by simp
  then show ?thesis using with_kv_inv [of N all k s "held - {#v#}"] k kv_Free_rdma [OF k(1)] by (simp add: release_page_def)
qed

text \<open>What a get replies and what it leaves in the store.\<close>

definition get_reply_imm :: "handler_env \<Rightarrow> u32 \<Rightarrow> Value_t option \<Rightarrow> u32" where
  "get_reply_imm e mid found = htonl (bit_mask mid (msg_num MSG_READ_REPLY)
     (tx_num (if found \<noteq> None then TX_READ_COMMITTED else TX_READ_ABORTED)) 0
     (case found of None \<Rightarrow> 0 | Some pg \<Rightarrow> ucast (CRC8 (h_crc_check e) (h_page e pg))))"

definition get_key :: "handler_env \<Rightarrow> nat \<Rightarrow> nat \<Rightarrow> u32 \<Rightarrow> daemon \<Rightarrow> Key_t" where
  "get_key e cid qid mid s = h_mem e (KEY_META_REGION (rdma_config (dkv s)) (meta_addr (mms s cid)) qid (unat mid) (msg_num MSG_READ))"

definition inv_key :: "handler_env \<Rightarrow> nat \<Rightarrow> nat \<Rightarrow> u32 \<Rightarrow> daemon \<Rightarrow> Key_t" where
  "inv_key e cid qid mid s = h_mem e (KEY_META_REGION (rdma_config (dkv s)) (meta_addr (mms s cid)) qid (unat mid) (msg_num MSG_INV_PAGE))"

lemma process_get_spec:
  assumes inv: "daemon_inv N all s held" and cid: "cid < num_clients (config (dkv s))" and e: "verbs_ok e"
    and key: "key = get_key e cid qid mid s" "unreserved key" "key_cid key = cid"
  shows "\<exists>s' wr. process_get e cid qid mid s = Some (Inr s') \<and> daemon_inv N all s' held \<and> same_config s s' \<and> recvq s' = recvq s
    \<and> sends s' = sends s @ [(cid, qid, wr)] \<and> swr_imm wr = get_reply_imm e mid (kv_map (dkv s) key)
    \<and> map sge_addr (swr_sges wr) = (case kv_map (dkv s) key of None \<Rightarrow> [] | Some pg \<Rightarrow> [pg])
    \<and> swr_raddr wr = h_mem e (ADDR_META_REGION (rdma_config (dkv s)) (meta_addr (mms s cid)) qid (unat mid))
    \<and> kv_map (dkv s') = (if exclusive_policy (config (dkv s)) then (kv_map (dkv s))(key := None) else kv_map (dkv s))"
proof -
  let ?m = "kv_map (dkv s)" and ?ex = "exclusive_policy (config (dkv s))"
  let ?ra = "h_mem e (ADDR_META_REGION (rdma_config (dkv s)) (meta_addr (mms s cid)) qid (unat mid))"
  obtain k1 v where kv: "(if ?ex then kv_Remove key cid qid (dkv s) else kv_GetWithFlag (h_get e) key cid qid True (dkv s)) = (k1, v)" by fastforce
  let ?s1 = "with_kv k1 s" and ?held = "if ?ex \<and> v \<noteq> NONE then add_mset v held else held"
  have s1: "v = value_or_none (?m key)" "daemon_inv N all ?s1 ?held" "same_config s ?s1" "recvq ?s1 = recvq s" "sends ?s1 = sends s"
      "kv_map (dkv ?s1) = (if ?ex then ?m(key := None) else ?m)"
    using take_recv [OF inv key(2,3), of qid k1 v] look_recv [OF inv key(2), of "h_get e" cid qid True k1 v] kv by (auto split: if_splits)
  have good: "?m key = Some w \<Longrightarrow> w \<noteq> NONE" for w using inv kv_good_dom [of "dkv s" key w] by (auto simp: daemon_inv_def kv_inv_def)
  then have v: "?m key = None \<and> v = 0 \<or> ?m key = Some v \<and> v \<noteq> 0" using s1(1) by (cases "?m key") (auto simp: value_or_none_def NONE_def)
  let ?imm = "get_reply_imm e mid (?m key)"
  obtain s2 wr where s2: "and_then (send_reply e cid qid ?imm v ?ra ?s1) (poll_send_cq e) = Some (Inr s2)" "daemon_inv N all s2 ?held"
      "same_config ?s1 s2" "dkv s2 = dkv ?s1" "recvq s2 = recvq s" "sends s2 = sends s @ [(cid, qid, wr)]" "swr_imm wr = ?imm" "swr_raddr wr = ?ra"
      "map sge_addr (swr_sges wr) = (if v = 0 then [] else [v])"
    using reply_ok [OF e s1(2), of cid qid ?imm v ?ra] s1 by fastforce
  obtain s3 where s3: "send_reply e cid qid ?imm v ?ra ?s1 = Some (Inr s3)" "poll_send_cq e s3 = Some (Inr s2)"
    using s2(1) by (auto simp: and_then_def split: option.splits sum.splits)
  have c2: "same_config s s2" "cid < num_clients (config (dkv s2))" using same_config_trans [OF s1(3) s2(3)] cid by (auto simp: same_config_def)
  let ?rest = "if v \<noteq> NONE then (if ?ex then release_page e v cid s2
              else Some (Inr (with_kv (fst (kv_GetWithFlag (h_get2 e) key cid qid False (dkv s2))) s2))) else Some (Inr s2)"
  have run: "process_get e cid qid mid s = ?rest"
    using v kv s3 key(1) unfolding process_get_def get_reply_imm_def get_key_def by (auto simp: Let_def NONE_def)
  have "\<exists>s'. ?rest = Some (Inr s') \<and> daemon_inv N all s' held \<and> same_config s2 s' \<and> recvq s' = recvq s2 \<and> sends s' = sends s2
    \<and> kv_map (dkv s') = kv_map (dkv s2)"
  proof (cases "v = NONE \<or> \<not> ?ex")
    case True
    then show ?thesis
      using s2(2) look_recv [OF s2(2) key(2), of "h_get2 e" cid qid False "fst (kv_GetWithFlag (h_get2 e) key cid qid False (dkv s2))"]
      by (auto simp: prod_eq_iff)
  next
    case False
    then have "daemon_inv N all s2 (add_mset v held)" using s2(2) by simp
    from release_recv [OF this _ c2(2), of v e] show ?thesis using False by simp
  qed
  then obtain s' where "?rest = Some (Inr s')" "daemon_inv N all s' held" "same_config s2 s'" "recvq s' = recvq s" "sends s' = sends s2"
    "kv_map (dkv s') = kv_map (dkv ?s1)" using s2(4,5) by auto
  then show ?thesis using run s1(6) s2(6-9) v same_config_trans [OF c2(1)] by (intro exI [of _ s'] exI [of _ wr]) auto
qed

lemma process_invalidate_spec:
  assumes inv: "daemon_inv N all s held" and cid: "cid < num_clients (config (dkv s))" and e: "verbs_ok e"
    and key: "key = inv_key e cid qid mid s" "unreserved key" "key_cid key = cid"
  shows "\<exists>s'. process_invalidate_page e cid qid mid s = Some (Inr s') \<and> daemon_inv N all s' held \<and> same_config s s' \<and> recvq s' = recvq s
    \<and> kv_map (dkv s') = (kv_map (dkv s))(key := None)"
proof -
  obtain k1 v where kv: "kv_Remove key cid qid (dkv s) = (k1, v)" by fastforce
  let ?s1 = "with_kv k1 s" and ?step = "if v \<noteq> NONE then release_page e v cid (with_kv k1 s) else Some (Inr (with_kv k1 s))"
  note s1 = take_recv [OF inv key(2,3) kv]
  have "cid < num_clients (config (dkv ?s1))" using s1 cid by (auto simp: same_config_def)
  from release_recv [OF _ _ this, of N all "add_mset v held" v e]
  have "\<exists>s2. ?step = Some (Inr s2) \<and> daemon_inv N all s2 held \<and> same_config ?s1 s2 \<and> recvq s2 = recvq s \<and> kv_map (dkv s2) = kv_map k1"
    using s1 by (cases "v = NONE") auto
  then obtain s2 where s2: "?step = Some (Inr s2)" "daemon_inv N all s2 held" "same_config s s2" "recvq s2 = recvq s" "kv_map (dkv s2) = kv_map k1"
    using s1 same_config_trans by blast
  show ?thesis
  proof (cases "last_msg s2 mid")
    case True
    then show ?thesis using s1 s2 kv key(1) reply_ok [OF e s2(2)] same_config_trans [OF s2(3)]
      unfolding process_invalidate_page_def inv_key_def by (fastforce simp: Let_def)
  next
    case False
    then show ?thesis using s1 s2 kv key(1) unfolding process_invalidate_page_def inv_key_def by (auto simp: Let_def)
  qed
qed

end
