(* ===== verification/Rdma_Requests.thy ===== *)
theory Rdma_Requests
  imports Rdma_Daemon
begin

text \<open>
  The properties of the request handlers: what the completion of a put, a get, an invalidation and a
  filter request does to the pages, to the queue it arrived on and to the store, and the fairness of the
  global poller.
\<close>

section \<open>Requests as completions\<close>

lemma deliver_held:
  assumes "daemon_inv N all s held" "queue_ok s cid qid" "deliver cid qid opc imm s = Some (wc, s1)"
  shows "daemon_inv N all s1 (if wc_wr_id wc = 0 then held else add_mset (wc_wr_id wc) held)" "same_config s s1" "dkv s1 = dkv s"
    "Suc (length (recvq s1 cid qid)) = length (recvq s cid qid)" "wc_op wc = opc" "wc_imm wc = imm" "sends s1 = sends s" "queue_ok s1 cid qid"
  using deliver_inv [OF assms] assms(2) by (auto simp: queue_ok_def same_config_def)

text \<open>The immediate data of a request of the driver, and the key that a get or an invalidation is about.\<close>

definition request_imm :: "u32 \<Rightarrow> msg_type \<Rightarrow> tx_state \<Rightarrow> u32" where
  "request_imm mid m t = htonl (drv_bit_mask mid (msg_num m) (tx_num t) 0 0)"

lemma request_imm_unmask: "mid < 2 ^ 12 \<Longrightarrow> bit_unmask (ntohl (request_imm mid m t)) = (mid, msg_num m, tx_num t, 0, 0)"
  using bit_unmask_mask [of mid "msg_num m" "tx_num t" 0 0] msg_num_less [of m] tx_num_less [of t]
  by (simp only: request_imm_def ntohl_htonl drv_bit_mask_eq imm_fits_def prod.case simp_thms) simp

lemma process_imm_read:
  "mid < 2 ^ 12 \<Longrightarrow> wc_imm wc = request_imm mid MSG_READ t \<Longrightarrow> process_imm e cid qid wc s = process_get e cid qid mid (fst (post_recv e cid qid 0 s))"
  by (simp add: process_imm_def request_imm_unmask)

lemma process_imm_inv:
  "mid < 2 ^ 12 \<Longrightarrow> wc_imm wc = request_imm mid MSG_INV_PAGE t \<Longrightarrow>
   process_imm e cid qid wc s = process_invalidate_page e cid qid mid (fst (post_recv e cid qid 0 s))"
  by (simp add: process_imm_def request_imm_unmask)

text \<open>Posting an empty receive request in front of a get or an invalidation keeps the keys the handler reads.\<close>

lemma post_empty:
  assumes "daemon_inv N all s held" "queue_ok s cid qid" "verbs_ok e"
  shows "daemon_inv N all (fst (post_recv e cid qid 0 s)) held" "dkv (fst (post_recv e cid qid 0 s)) = dkv s" "mms (fst (post_recv e cid qid 0 s)) = mms s"
    "length (recvq (fst (post_recv e cid qid 0 s)) cid qid) = Suc (length (recvq s cid qid))" "sends (fst (post_recv e cid qid 0 s)) = sends s"
  using post_recv_inv [OF assms(1,2), of e 0] assms(3) by (auto simp: verbs_ok_def)

text \<open>A get, from the completion to the reply.\<close>

lemma get_completion:
  assumes inv: "daemon_inv N all s held" and q: "queue_ok s cid qid" and e: "verbs_ok e" and mid: "mid < 2 ^ 12"
    and d: "deliver cid qid IBV_WC_RECV_RDMA_WITH_IMM (request_imm mid MSG_READ t) s = Some (wc, s1)"
    and key: "key = get_key e cid qid mid s" "unreserved key" "key_cid key = cid"
  shows "\<exists>s' wr. dispatch e cid qid wc s1 = Some (Inr s') \<and> daemon_inv N all s' (if wc_wr_id wc = 0 then held else add_mset (wc_wr_id wc) held)
    \<and> length (recvq s' cid qid) = length (recvq s cid qid) \<and> sends s' = sends s @ [(cid, qid, wr)]
    \<and> swr_imm wr = get_reply_imm e mid (kv_map (dkv s) key)
    \<and> map sge_addr (swr_sges wr) = (case kv_map (dkv s) key of None \<Rightarrow> [] | Some pg \<Rightarrow> [pg])
    \<and> swr_raddr wr = h_mem e (ADDR_META_REGION (rdma_config (dkv s)) (meta_addr (mms s cid)) qid (unat mid))
    \<and> kv_map (dkv s') = (if exclusive_policy (config (dkv s)) then (kv_map (dkv s))(key := None) else kv_map (dkv s))"
proof -
  let ?held = "if wc_wr_id wc = 0 then held else add_mset (wc_wr_id wc) held" and ?s2 = "fst (post_recv e cid qid 0 s1)"
  note D = deliver_held [OF inv q d]
  note P = post_empty [OF D(1,8) e]
  have "mms s1 = mms s" using D(2) by (simp add: same_config_def)
  moreover have "key = get_key e cid qid mid ?s2" using key(1) D(3) P(2,3) calculation by (simp add: get_key_def)
  moreover have "cid < num_clients (config (dkv ?s2))" using q D(3) P(2) by (simp add: queue_ok_def)
  ultimately show ?thesis
    using process_get_spec [OF P(1) _ e _ key(2,3), of qid mid] D(3-7) P(2-5) process_imm_read [OF mid, of wc t e cid qid s1]
    by (auto simp: dispatch_def)
qed

lemma length_fold_same: "(\<And>x a. length (f x a) = length a) \<Longrightarrow> length (fold f xs a) = length a"
  by (induction xs arbitrary: a) simp_all

lemma ToOrdinaryBF_longs [simp]:
  "num_longs (fst (ToOrdinaryBF f)) = num_longs f" "length (bf_long_bitarr (fst (ToOrdinaryBF f))) = length (bf_long_bitarr f)"
  by (simp_all add: ToOrdinaryBF_def Let_def length_fold_same)


text \<open>What the driver decodes from the reply to a get.\<close>

lemma get_reply_unmask:
  assumes "mid < 2 ^ 12"
  shows "drv_bit_unmask (ntohl (get_reply_imm e mid x)) = (case x of
         None \<Rightarrow> (mid, msg_num MSG_READ_REPLY, tx_num TX_READ_ABORTED, 0, 0)
       | Some pg \<Rightarrow> (mid, msg_num MSG_READ_REPLY, tx_num TX_READ_COMMITTED, 0, ucast (CRC8 (h_crc_check e) (h_page e pg))))"
proof -
  have crc: "(ucast (w :: u8) :: u32) < 2 ^ 8" for w 
  proof -
    have "unat w < 2 ^ LENGTH(8)" by (rule unsigned_less)
    then have "take_bit 32 (unat w) < 256" using le_less_trans [OF take_bit_nat_less_eq_self] by simp
    then show ?thesis by (simp add: word_less_nat_alt unsigned_ucast_eq)
  qed
  have "imm_fits (mid, msg_num MSG_READ_REPLY, tx_num (if x \<noteq> None then TX_READ_COMMITTED else TX_READ_ABORTED), 0,
      (case x of None \<Rightarrow> 0 | Some pg \<Rightarrow> ucast (CRC8 (h_crc_check e) (h_page e pg))))"
    using assms crc by (cases x) (auto simp: imm_fits_def)
  then have "drv_bit_unmask (ntohl (get_reply_imm e mid x)) = (mid, msg_num MSG_READ_REPLY, tx_num (if x \<noteq> None then TX_READ_COMMITTED else TX_READ_ABORTED), 0,
      (case x of None \<Rightarrow> 0 | Some pg \<Rightarrow> ucast (CRC8 (h_crc_check e) (h_page e pg))))"
    by (simp only: get_reply_imm_def ntohl_htonl drv_bit_mask_eq bit_unmask_mask)
  then show "drv_bit_unmask (ntohl (get_reply_imm e mid x)) = (case x of
         None \<Rightarrow> (mid, msg_num MSG_READ_REPLY, tx_num TX_READ_ABORTED, 0, 0)
       | Some pg \<Rightarrow> (mid, msg_num MSG_READ_REPLY, tx_num TX_READ_COMMITTED, 0, ucast (CRC8 (h_crc_check e) (h_page e pg))))"
    by (cases x) (simp_all del: msg_num.simps tx_num.simps)
qed

text \<open>A put and a filter request, from the completion on.\<close>

lemma put_completion:
  assumes "daemon_inv N all s held" "queue_ok s cid qid" "qid < num_data_qps (rdma_config (dkv s))" "verbs_ok e" "h_kv e = e1 # e2 # es"
    and "deliver cid qid IBV_WC_RECV imm s = Some (wc, s1)" "wc_wr_id wc \<noteq> 0"
    and "key = h_mem e (wc_wr_id wc + 4096)" "unreserved key" "key_cid key = cid"
  shows "\<exists>s'. dispatch e cid qid wc s1 = Some (Inr s') \<and> daemon_inv N all s' held \<and> length (recvq s' cid qid) = length (recvq s cid qid)
    \<and> (kv_map (dkv s') = kv_map (dkv s) \<or> put_spec (kv_map (dkv s)) key (wc_wr_id wc) (kv_map (dkv s')))"
proof -
  note D = deliver_held [OF assms(1,2,6)]
  have i: "daemon_inv N all s1 (add_mset (wc_wr_id wc) held)" using D(1) assms(7) by simp
  obtain mid x where m: "bit_unmask (ntohl (wc_imm wc)) = (mid, x)" by (cases "bit_unmask (ntohl (wc_imm wc))")
  have "dispatch e cid qid wc s1 = process_put e cid qid mid (wc_wr_id wc) s1"
    using assms(3,7) D(3,5) m by (simp add: dispatch_def process_recv_def split: prod.splits)
  then show ?thesis using process_put_spec [OF i D(8) assms(4,5) _ assms(8-10), of mid] D(3,4) by auto
qed

lemma filter_request:
  assumes "daemon_inv N all s held" "kv_filters (dkv s) Ms" "cbf_on (config (dkv s))" "queue_ok s cid qid" "qid = num_data_qps (rdma_config (dkv s))"
    and "verbs_ok e" "deliver cid qid IBV_WC_RECV FILTER_UPDATE_BEGIN s = Some (wc, s1)"
  shows "\<exists>s' wr. dispatch e cid qid wc s1 = Some (Inr s') \<and> length (recvq s' cid qid) = length (recvq s cid qid)
    \<and> sends s' = sends s @ [(cid, qid, wr)] \<and> swr_imm wr = FILTER_UPDATE_END \<and> swr_raddr wr = client_baseaddr (mms s cid)
    \<and> map sge_length (swr_sges wr) = [8 * length (bf_long_bitarr (cbfs (dkv s') ! cid))]
    \<and> kv_map (dkv s') = kv_map (dkv s) \<and> cbfs (dkv s') ! cid = fst (ToOrdinaryBF (cbfs (dkv s) ! cid)) \<and> cbf_shape (cbfs (dkv s) ! cid)
    \<and> (\<forall>k. BFMightContain k (cbfs (dkv s') ! cid) = MightContain k (cbfs (dkv s) ! cid))
    \<and> (\<forall>k v. kv_map (dkv s) k = Some v \<and> key_cid k = cid \<longrightarrow> BFMightContain k (cbfs (dkv s') ! cid))"
proof -
  let ?f = "cbfs (dkv s) ! cid"
  note D = deliver_held [OF assms(1,4,7)]
  have cid: "cid < num_clients (config (dkv s))" using assms(4) by (simp add: queue_ok_def)
  have r: "cbf_rep ?f (Ms cid)" and l: "length (cbfs (dkv s)) = num_clients (config (dkv s))" and c: "\<And>k v. kv_map (dkv s) k = Some v \<Longrightarrow> key_cid k = cid \<Longrightarrow> k \<in># Ms cid"
    using assms(2,3) cid by (auto simp: kv_filters_def filters_cover_def)
  then have sh: "cbf_shape ?f" by (simp add: cbf_rep_def)
  have stored: "MightContain k ?f" if "kv_map (dkv s) k = Some v" "key_cid k = cid" for k v
    using cbf.no_false_negative [OF r] c [OF that] by simp
  let ?k = "(dkv s)\<lparr>cbfs := (cbfs (dkv s))[cid := fst (ToOrdinaryBF ?f)]\<rparr>"
  have "dispatch e cid qid wc s1 = and_then (send_bf e cid qid (update_bf cid s1)) (\<lambda>s2. Some (Inr (fst (post_recv e cid qid 0 s2))))"
    using D(3,5,6) assms(5) by (simp add: dispatch_def process_recv_def)
  moreover have "dkv (update_bf cid s1) = ?k" "sends (update_bf cid s1) = sends s" "recvq (update_bf cid s1) = recvq s1" "mms (update_bf cid s1) = mms s"
    using D(2,3,7) by (simp_all add: update_bf_def with_kv_def same_config_def)
  ultimately show ?thesis using assms(6) D(4) BF_after_conversion [OF sh] stored cid l sh kv_map_cong [of ?k "dkv s"]
    by (auto simp: send_bf_def post_recv_def verbs_ok_def Let_def cbf_shape_def)
qed


section \<open>A small daemon\<close>

text \<open>One client, the store of 32 pages with one page more, and the receive requests that are posted.\<close>

definition req_env :: handler_env where
  "req_env = \<lparr>h_mem = (\<lambda>_. 77), h_page = (\<lambda>_. []), h_kv = [env0, env0], h_get = env0, h_get2 = env0, h_rand = 0, h_cpu = 10,
     h_post_recv = 0, h_post_send = 0, h_polls = [(1, \<lparr>wc_op = IBV_WC_SEND, wc_wr_id = 0, wc_imm = 0\<rparr>, True)], h_crc_check = False\<rparr>"

definition daemon_on :: "KV \<Rightarrow> daemon" where
  "daemon_on k = \<lparr>dkv = k, mms = (\<lambda>_. \<lparr>meta_addr = 4096, data_lkey = 1, filter_lkey = 2, filter_addr = 0, client_baseaddr = 32768, client_rkey = 3\<rparr>),
     recvq = (\<lambda>_ _. []), sends = []\<rparr>"

lemma req_env_ok: "verbs_ok req_env" "h_kv req_env = env0 # env0 # []" "h_mem req_env a = 77"
  by (simp_all add: req_env_def verbs_ok_def)

lemma daemon_on_inv:
  assumes "kv_inv N all k held"
  shows "daemon_inv N all (daemon_on k) held"
  using assms by (simp add: daemon_inv_def daemon_on_def posted_def queue_pages_def)

text \<open>The daemon on store \<open>k\<close> with one receive request for \<open>a\<close> on queue \<open>qid\<close> of client 0, whose completion is delivered.\<close>

definition daemon_recv :: "KV \<Rightarrow> nat \<Rightarrow> u64 \<Rightarrow> daemon" where
  "daemon_recv k qid a = fst (post_recv req_env 0 qid a (daemon_on k))"

lemma daemon_recv_inv:
  assumes "kv_inv N all k held" "a = 0 \<or> a \<in># held" "0 < num_clients (config k)" "qid < num_qps (rdma_config k)"
  shows "daemon_inv N all (daemon_recv k qid a) (if a = 0 then held else held - {#a#})" "queue_ok (daemon_recv k qid a) 0 qid"
    "dkv (daemon_recv k qid a) = k"
  using post_recv_inv(1,2) [OF daemon_on_inv [OF assms(1)], of 0 qid req_env a] assms(2-4) req_env_ok(1)
  by (auto simp: daemon_recv_def queue_ok_def daemon_on_def verbs_ok_def)

lemma daemon_recv_deliver: "\<exists>s1. deliver 0 qid opc imm (daemon_recv k qid a) = Some (\<lparr>wc_op = opc, wc_wr_id = a, wc_imm = imm\<rparr>, s1)"
  by (simp add: deliver_def daemon_recv_def post_recv_def daemon_on_def req_env_def Let_def)

lemma kv_small_qps: "num_qps (rdma_config kv_small) = 9" "num_data_qps (rdma_config kv_small) = 8" "num_clients (config kv_small) = 1"
  using kv_small_new by (simp_all add: dcc_rdma_set_default_config_def kv_small_config_def small_config_def)

lemmas daemon_small = daemon_recv_inv [OF kv_small_spare]


section \<open>Properties of the handlers\<close>

text \<open>
  C11. A put that arrives in a posted page is handled without exception: the queue is as long as before,
  every page is still free, stored or posted (or was held before), and the store is unchanged or changed
  as a put changes it.
\<close>

theorem put_completion_keeps_pages:
  assumes "daemon_inv N all s held" "queue_ok s cid qid" "qid < num_data_qps (rdma_config (dkv s))" "verbs_ok e" "h_kv e = e1 # e2 # es"
    and "deliver cid qid IBV_WC_RECV imm s = Some (wc, s1)" "wc_wr_id wc \<noteq> 0"
    and "key = h_mem e (wc_wr_id wc + 4096)" "unreserved key" "key_cid key = cid"
  shows "\<exists>s'. dispatch e cid qid wc s1 = Some (Inr s') \<and> daemon_inv N all s' held \<and> length (recvq s' cid qid) = length (recvq s cid qid)
    \<and> (kv_map (dkv s') = kv_map (dkv s) \<or> put_spec (kv_map (dkv s)) key (wc_wr_id wc) (kv_map (dkv s')))"
  using assms by (rule put_completion)

theorem put_completion_keeps_pages_witness:
  "\<exists>N all wc s1 s'. daemon_inv N all (daemon_recv kv_small 0 8192) {#} \<and> deliver 0 0 IBV_WC_RECV 0 (daemon_recv kv_small 0 8192) = Some (wc, s1)
     \<and> dispatch req_env 0 0 wc s1 = Some (Inr s') \<and> daemon_inv N all s' {#}"
proof -
  obtain s1 where d: "deliver 0 0 IBV_WC_RECV 0 (daemon_recv kv_small 0 8192) = Some (\<lparr>wc_op = IBV_WC_RECV, wc_wr_id = 8192, wc_imm = 0\<rparr>, s1)"
    using daemon_recv_deliver by blast
  have s: "daemon_inv 34 (add_mset 8192 (mset (slots 65536 32))) (daemon_recv kv_small 0 8192) {#}" "queue_ok (daemon_recv kv_small 0 8192) 0 0"
      "dkv (daemon_recv kv_small 0 8192) = kv_small"
    using daemon_small [of 8192 0] kv_small_qps by auto
  show ?thesis using put_completion_keeps_pages [OF s(1,2) _ req_env_ok(1,2) d, of 77] s d key77 kv_small_qps req_env_ok(3) by auto
qed

text \<open>
  C10. A get is answered correctly: the driver decodes from the reply the message id, committed exactly
  when a page is stored under the key, and the checksum of that page; the reply carries that page to the
  address the driver gave; the page leaves the store under the exclusive policy and stays otherwise; the
  queue is as long as before and no page is lost.
\<close>

theorem get_completion_replies:
  assumes "daemon_inv N all s held" "queue_ok s cid qid" "verbs_ok e" "mid < 2 ^ 12"
    and "deliver cid qid IBV_WC_RECV_RDMA_WITH_IMM (request_imm mid MSG_READ t) s = Some (wc, s1)" "wc_wr_id wc = 0"
    and "key = get_key e cid qid mid s" "unreserved key" "key_cid key = cid"
  shows "\<exists>s' wr. dispatch e cid qid wc s1 = Some (Inr s') \<and> daemon_inv N all s' held \<and> length (recvq s' cid qid) = length (recvq s cid qid)
    \<and> sends s' = sends s @ [(cid, qid, wr)]
    \<and> drv_bit_unmask (ntohl (swr_imm wr)) = (case kv_map (dkv s) key of
         None \<Rightarrow> (mid, msg_num MSG_READ_REPLY, tx_num TX_READ_ABORTED, 0, 0)
       | Some pg \<Rightarrow> (mid, msg_num MSG_READ_REPLY, tx_num TX_READ_COMMITTED, 0, ucast (CRC8 (h_crc_check e) (h_page e pg))))
    \<and> map sge_addr (swr_sges wr) = (case kv_map (dkv s) key of None \<Rightarrow> [] | Some pg \<Rightarrow> [pg])
    \<and> swr_raddr wr = h_mem e (ADDR_META_REGION (rdma_config (dkv s)) (meta_addr (mms s cid)) qid (unat mid))
    \<and> kv_map (dkv s') = (if exclusive_policy (config (dkv s)) then (kv_map (dkv s))(key := None) else kv_map (dkv s))"
  using get_completion [OF assms(1-5,7-9)] assms(6) get_reply_unmask [OF assms(4)] by (auto simp del: msg_num.simps tx_num.simps)

theorem get_completion_replies_witness:
  "\<exists>k wc s1 s' wr. kv_map k = [77 \<mapsto> 8192] \<and> deliver 0 2 IBV_WC_RECV_RDMA_WITH_IMM (request_imm 5 MSG_READ TX_READ_BEGIN) (daemon_recv k 2 0) = Some (wc, s1)
     \<and> dispatch req_env 0 2 wc s1 = Some (Inr s') \<and> sends s' = [(0, 2, wr)] \<and> map sge_addr (swr_sges wr) = [8192]
     \<and> drv_bit_unmask (ntohl (swr_imm wr)) = (5, 8, 7, 0, ucast (CRC8 False []))"
proof -
  obtain k where k: "kv_Insert [env0, env0] 77 8192 0 0 kv_small = Some (Inr k)" "kv_map k = [77 \<mapsto> 8192]" "config k = config kv_small"
      "kv_inv 34 (add_mset 8192 (add_mset 8193 (mset (slots 65536 32)))) k {#8193#}"
    using kv_small_put by blast
  have q: "num_qps (rdma_config k) = 9" "num_clients (config k) = 1" using kv_Insert_rdma [OF k(1)] kv_small_qps k(3) by simp_all
  obtain s1 where d: "deliver 0 2 IBV_WC_RECV_RDMA_WITH_IMM (request_imm 5 MSG_READ TX_READ_BEGIN) (daemon_recv k 2 0)
      = Some (\<lparr>wc_op = IBV_WC_RECV_RDMA_WITH_IMM, wc_wr_id = 0, wc_imm = request_imm 5 MSG_READ TX_READ_BEGIN\<rparr>, s1)"
    using daemon_recv_deliver by blast
  have s: "daemon_inv 34 (add_mset 8192 (add_mset 8193 (mset (slots 65536 32)))) (daemon_recv k 2 0) {#8193#}" "queue_ok (daemon_recv k 2 0) 0 2"
      "dkv (daemon_recv k 2 0) = k" "sends (daemon_recv k 2 0) = []"
    using daemon_recv_inv [OF k(4), of 0 2] q by (auto simp: daemon_recv_def post_recv_def daemon_on_def Let_def)
  show ?thesis
    using get_completion_replies [OF s(1,2) req_env_ok(1) _ d, of 77] s(3,4) k(2) d key77 req_env_ok(3) by (auto simp: get_key_def req_env_def)
qed

text \<open>
  C18. An invalidation removes exactly the page of its key and releases it: afterwards nothing is stored
  under the key, all other keys have their pages, the queue is as long as before and no page is lost.
\<close>

theorem invalidate_completion_removes:
  assumes "daemon_inv N all s held" "queue_ok s cid qid" "verbs_ok e" "mid < 2 ^ 12"
    and "deliver cid qid IBV_WC_RECV_RDMA_WITH_IMM (request_imm mid MSG_INV_PAGE t) s = Some (wc, s1)" "wc_wr_id wc = 0"
    and "key = inv_key e cid qid mid s" "unreserved key" "key_cid key = cid"
  shows "\<exists>s'. dispatch e cid qid wc s1 = Some (Inr s') \<and> daemon_inv N all s' held \<and> length (recvq s' cid qid) = length (recvq s cid qid)
    \<and> kv_map (dkv s') = (kv_map (dkv s))(key := None)"
proof -
  let ?s2 = "fst (post_recv e cid qid 0 s1)"
  note D = deliver_held [OF assms(1,2,5)]
  note P = post_empty [OF D(1,8) assms(3)]
  have "mms s1 = mms s" using D(2) by (simp add: same_config_def)
  moreover have "key = inv_key e cid qid mid ?s2" using assms(7) D(3) P(2,3) calculation by (simp add: inv_key_def)
  moreover have "cid < num_clients (config (dkv ?s2))" using assms(2) D(3) P(2) by (simp add: queue_ok_def)
  ultimately show ?thesis
    using process_invalidate_spec [OF P(1) _ assms(3) _ assms(8,9), of qid mid] assms(6) D(3-6) P(2,4) process_imm_inv [OF assms(4), of wc t e cid qid s1]
    by (auto simp: dispatch_def)
qed

theorem invalidate_completion_removes_witness:
  "\<exists>k wc s1 s'. kv_map k = [77 \<mapsto> 8192] \<and> deliver 0 1 IBV_WC_RECV_RDMA_WITH_IMM (request_imm 511 MSG_INV_PAGE TX_INV_PAGE_BEGIN) (daemon_recv k 1 0) = Some (wc, s1)
     \<and> dispatch req_env 0 1 wc s1 = Some (Inr s') \<and> kv_map (dkv s') = (\<lambda>_. None)"
proof -
  obtain k where k: "kv_Insert [env0, env0] 77 8192 0 0 kv_small = Some (Inr k)" "kv_map k = [77 \<mapsto> 8192]" "config k = config kv_small"
      "kv_inv 34 (add_mset 8192 (add_mset 8193 (mset (slots 65536 32)))) k {#8193#}"
    using kv_small_put by blast
  have q: "num_qps (rdma_config k) = 9" "num_clients (config k) = 1" using kv_Insert_rdma [OF k(1)] kv_small_qps k(3) by simp_all
  obtain s1 where d: "deliver 0 1 IBV_WC_RECV_RDMA_WITH_IMM (request_imm 511 MSG_INV_PAGE TX_INV_PAGE_BEGIN) (daemon_recv k 1 0)
      = Some (\<lparr>wc_op = IBV_WC_RECV_RDMA_WITH_IMM, wc_wr_id = 0, wc_imm = request_imm 511 MSG_INV_PAGE TX_INV_PAGE_BEGIN\<rparr>, s1)"
    using daemon_recv_deliver by blast
  have s: "daemon_inv 34 (add_mset 8192 (add_mset 8193 (mset (slots 65536 32)))) (daemon_recv k 1 0) {#8193#}" "queue_ok (daemon_recv k 1 0) 0 1"
      "dkv (daemon_recv k 1 0) = k"
    using daemon_recv_inv [OF k(4), of 0 1] q by auto
  show ?thesis
    using invalidate_completion_removes [OF s(1,2) req_env_ok(1) _ d, of 77] s(3) k(2) d key77 req_env_ok(3) by (auto simp: inv_key_def)
qed

text \<open>
  C19. A get whose completion takes a receive request that holds a page loses that page: afterwards the
  page is neither free nor stored nor posted on any queue.
\<close>

theorem get_on_posted_page_loses_it:
  assumes "daemon_inv N (mset pages) s held" "distinct pages" "queue_ok s cid qid" "verbs_ok e" "mid < 2 ^ 12"
    and "deliver cid qid IBV_WC_RECV_RDMA_WITH_IMM (request_imm mid MSG_READ t) s = Some (wc, s1)" "wc_wr_id wc \<noteq> 0"
    and "unreserved (get_key e cid qid mid s)" "key_cid (get_key e cid qid mid s) = cid"
  shows "\<exists>s'. dispatch e cid qid wc s1 = Some (Inr s') \<and> wc_wr_id wc \<in> set pages
    \<and> wc_wr_id wc \<notin># pool_free (kpool (dkv s')) + map_pages (kv_map (dkv s')) + posted s'"
proof -
  let ?a = "wc_wr_id wc"
  obtain s' where s': "dispatch e cid qid wc s1 = Some (Inr s')" "daemon_inv N (mset pages) s' (add_mset ?a held)"
    using get_completion [OF assms(1,3-6) refl assms(8,9)] assms(7) by auto
  have "mset pages = add_mset ?a (pool_free (kpool (dkv s')) + map_pages (kv_map (dkv s')) + posted s' + held)"
    using s'(2) by (simp add: daemon_inv_def kv_inv_def pool.owns_def ac_simps)
  moreover have "count (mset pages) ?a \<le> 1" using assms(2) by (simp add: distinct_count_atmost_1)
  ultimately have "?a \<in># mset pages" "?a \<notin># pool_free (kpool (dkv s')) + map_pages (kv_map (dkv s')) + posted s'"
    by (simp_all add: not_in_iff)
  then show ?thesis using s'(1) by auto
qed

theorem get_on_posted_page_loses_it_witness:
  "\<exists>wc s1 s'. deliver 0 2 IBV_WC_RECV_RDMA_WITH_IMM (request_imm 5 MSG_READ TX_READ_BEGIN) (daemon_recv kv_small 2 8192) = Some (wc, s1)
     \<and> dispatch req_env 0 2 wc s1 = Some (Inr s') \<and> 8192 \<notin># pool_free (kpool (dkv s')) + map_pages (kv_map (dkv s')) + posted s'"
proof -
  let ?ps = "8192 # slots 65536 32"
  obtain s1 where d: "deliver 0 2 IBV_WC_RECV_RDMA_WITH_IMM (request_imm 5 MSG_READ TX_READ_BEGIN) (daemon_recv kv_small 2 8192)
      = Some (\<lparr>wc_op = IBV_WC_RECV_RDMA_WITH_IMM, wc_wr_id = 8192, wc_imm = request_imm 5 MSG_READ TX_READ_BEGIN\<rparr>, s1)"
    using daemon_recv_deliver by blast
  have s: "daemon_inv 34 (mset ?ps) (daemon_recv kv_small 2 8192) {#}" "queue_ok (daemon_recv kv_small 2 8192) 0 2"
    using daemon_small [of 8192 2] kv_small_qps by auto
  have "distinct ?ps" by (simp add: slots_def SLOT_SIZE_def upt_rec)
  from get_on_posted_page_loses_it [OF s(1) this s(2) req_env_ok(1) _ d]
  show ?thesis using d key77 req_env_ok(3) by (auto simp: get_key_def)
qed

text \<open>
  A filter request is answered with the exact filter: on the filter queue the daemon converts the
  counters of the client and sends the whole bit array to the region the client registered; the bits
  answer every lookup as the counters do, so that every stored key of the client is found in what is
  sent, and the receive request is posted again.
\<close>

theorem filter_request_sends_exact_filter:
  assumes "daemon_inv N all s held" "kv_filters (dkv s) Ms" "cbf_on (config (dkv s))" "queue_ok s cid qid" "qid = num_data_qps (rdma_config (dkv s))"
    and "verbs_ok e" "deliver cid qid IBV_WC_RECV FILTER_UPDATE_BEGIN s = Some (wc, s1)"
  shows "\<exists>s' wr. dispatch e cid qid wc s1 = Some (Inr s') \<and> length (recvq s' cid qid) = length (recvq s cid qid)
    \<and> sends s' = sends s @ [(cid, qid, wr)] \<and> swr_imm wr = FILTER_UPDATE_END \<and> swr_raddr wr = client_baseaddr (mms s cid)
    \<and> map sge_length (swr_sges wr) = [8 * length (bf_long_bitarr (cbfs (dkv s') ! cid))]
    \<and> kv_map (dkv s') = kv_map (dkv s)
    \<and> (\<forall>k. BFMightContain k (cbfs (dkv s') ! cid) = MightContain k (cbfs (dkv s) ! cid))
    \<and> (\<forall>k v. kv_map (dkv s) k = Some v \<and> key_cid k = cid \<longrightarrow> BFMightContain k (cbfs (dkv s') ! cid))"
  using filter_request [OF assms] by (elim exE conjE) (intro exI conjI, assumption+)

theorem filter_request_sends_exact_filter_witness:
  "\<exists>wc s1 s' wr. deliver 0 8 IBV_WC_RECV FILTER_UPDATE_BEGIN (daemon_recv kv_small 8 0) = Some (wc, s1)
     \<and> dispatch req_env 0 8 wc s1 = Some (Inr s') \<and> sends s' = [(0, 8, wr)] \<and> swr_imm wr = FILTER_UPDATE_END"
proof -
  obtain s1 where d: "deliver 0 8 IBV_WC_RECV FILTER_UPDATE_BEGIN (daemon_recv kv_small 8 0)
      = Some (\<lparr>wc_op = IBV_WC_RECV, wc_wr_id = 0, wc_imm = FILTER_UPDATE_BEGIN\<rparr>, s1)"
    using daemon_recv_deliver by blast
  have s: "daemon_inv 34 (add_mset 8192 (mset (slots 65536 32))) (daemon_recv kv_small 8 0) {#8192#}" "queue_ok (daemon_recv kv_small 8 0) 0 8"
      "dkv (daemon_recv kv_small 8 0) = kv_small" "sends (daemon_recv kv_small 8 0) = []"
    using daemon_small [of 0 8] kv_small_qps by (auto simp: daemon_recv_def post_recv_def daemon_on_def Let_def)
  show ?thesis
    using filter_request_sends_exact_filter [OF s(1) _ _ s(2) _ req_env_ok(1) d, of "\<lambda>_. {#}"] s(3,4) d kv_small_new kv_small_qps kv_small_filter(2) by auto
qed

section \<open>Fairness of the global poller\<close>

text \<open>
  The polls of one round when client \<open>c\<close> has completion \<open>wc c\<close> ready exactly if \<open>ready c\<close>; and the clients
  served by successive rounds, each starting where the one before stopped.
\<close>

definition poll_answers :: "nat \<Rightarrow> (nat \<Rightarrow> bool) \<Rightarrow> (nat \<Rightarrow> ibv_wc) \<Rightarrow> nat \<Rightarrow> (int \<times> ibv_wc \<times> bool) list" where
  "poll_answers n ready wc idx = map (\<lambda>i. let c = (idx + i) mod n in (if ready c then 1 else 0, wc c, True)) [0..<n]"

fun poll_rounds :: "nat \<Rightarrow> (nat \<Rightarrow> nat \<Rightarrow> bool) \<Rightarrow> (nat \<Rightarrow> ibv_wc) \<Rightarrow> nat \<Rightarrow> nat \<Rightarrow> nat \<Rightarrow> nat option list" where
  "poll_rounds n ready wc r 0 idx = []"
| "poll_rounds n ready wc r (Suc k) idx =
     (case global_poll n idx (poll_answers n (ready r) wc idx) of
        Some (Inr (c, idx', _)) \<Rightarrow> Some c # poll_rounds n ready wc (Suc r) k idx'
      | _ \<Rightarrow> None # poll_rounds n ready wc (Suc r) k idx)"

lemma global_poll_first:
  assumes "d \<le> m" "m < n" "ready ((idx + m) mod n)" "\<forall>j < m. d \<le> j \<longrightarrow> \<not> ready ((idx + j) mod n)" "m < N"
  shows "global_poll n ((idx + d) mod n) (map (\<lambda>i. let c = (idx + i) mod n in (if ready c then 1 else 0, wc c, True)) [d..<N])
    = Some (Inr ((idx + m) mod n, (idx + m + 1) mod n, wc ((idx + m) mod n)))"
  using assms
proof (induction "m - d" arbitrary: d)
  case 0
  then have "d = m" "[d..<N] = m # [Suc m..<N]" by (simp_all add: upt_conv_Cons)
  then show ?case using 0 by (simp add: Let_def mod_Suc_eq)
next
  case (Suc k)
  then have u: "[d..<N] = d # [Suc d..<N]" "\<not> ready ((idx + d) mod n)" "Suc d \<le> m" by (simp_all add: upt_conv_Cons)
  have "global_poll n ((idx + Suc d) mod n) (map (\<lambda>i. let c = (idx + i) mod n in (if ready c then 1 else 0, wc c, True)) [Suc d..<N])
    = Some (Inr ((idx + m) mod n, (idx + m + 1) mod n, wc ((idx + m) mod n)))"
    using Suc.hyps(2) Suc.prems u(3) by (intro Suc.hyps(1)) auto
  moreover have "Suc ((idx + d) mod n) mod n = (idx + Suc d) mod n" by (simp add: mod_Suc_eq)
  ultimately show ?case using u(1,2) by (simp add: Let_def)
qed

text \<open>The distance from the position of the poller to a client, in polls.\<close>

lemma cyclic_distance:
  fixes c n idx :: nat
  assumes "c < n" "idx < n"
  shows "\<exists>d < n. (idx + d) mod n = c"
proof (cases "idx \<le> c")
  case True then show ?thesis using assms by (intro exI [of _ "c - idx"]) simp
next
  case False then show ?thesis using assms by (intro exI [of _ "n - idx + c"]) (simp add: mod_eq_nat1E)
qed

lemma poll_rounds_mono: "k \<le> k' \<Longrightarrow> set (poll_rounds n ready wc r k i) \<subseteq> set (poll_rounds n ready wc r k' i)"
proof (induction k arbitrary: k' r i)
  case (Suc k) then show ?case by (cases k') (auto split: option.splits sum.splits)
qed simp

lemma poll_rounds_serve:
  assumes "idx < n" "\<And>r. ready r c" "d < n" "(idx + d) mod n = c"
  shows "Some c \<in> set (poll_rounds n ready wc r (Suc d) idx)"
  using assms
proof (induction d arbitrary: idx r rule: less_induct)
  case (less d)
  define m where "m = (LEAST j. ready r ((idx + j) mod n))"
  have m: "ready r ((idx + m) mod n)" "m \<le> d" "\<forall>j < m. \<not> ready r ((idx + j) mod n)"
    unfolding m_def using less.prems(2,4) by (metis (no_types, lifting) LeastI, metis Least_le, metis not_less_Least)
  have g: "global_poll n idx (poll_answers n (ready r) wc idx) = Some (Inr ((idx + m) mod n, (idx + m + 1) mod n, wc ((idx + m) mod n)))"
    using global_poll_first [of 0 m n "ready r" idx n wc] m less.prems(1,3) by (simp add: poll_answers_def)
  show ?case
  proof (cases "m = d")
    case True then show ?thesis using g less.prems(4) by simp
  next
    case False
    then have "d - m - 1 < d" and "idx + m + 1 + (d - m - 1) = idx + d" using m(2) by simp_all
    then have "((idx + m + 1) mod n + (d - m - 1)) mod n = c" unfolding mod_add_left_eq using less.prems(4) by simp
    then have "Some c \<in> set (poll_rounds n ready wc (Suc r) (Suc (d - m - 1)) ((idx + m + 1) mod n))"
      using less.prems(1-3) \<open>d - m - 1 < d\<close> by (intro less.IH) auto
    moreover have "Suc (d - m - 1) \<le> d" using False m(2) by simp
    ultimately have "Some c \<in> set (poll_rounds n ready wc (Suc r) d ((idx + m + 1) mod n))" using poll_rounds_mono by blast
    then show ?thesis using g by simp
  qed
qed

text \<open>
  C20. The global poller is fair: a client that always has a completion ready is served within as many
  rounds as there are clients, whatever the other clients do.
\<close>

theorem global_poller_fair:
  assumes "c < n" "idx < n" "\<And>r. ready r c"
  shows "Some c \<in> set (poll_rounds n ready wc r n idx)"
proof -
  obtain d where "d < n" "(idx + d) mod n = c" using cyclic_distance [OF assms(1,2)] by blast
  then have "Some c \<in> set (poll_rounds n ready wc r (Suc d) idx)" "Suc d \<le> n" using poll_rounds_serve [of idx n ready c d wc r] assms by auto
  then show ?thesis using poll_rounds_mono by blast
qed

theorem global_poller_fair_witness:
  "Some 2 \<in> set (poll_rounds 3 (\<lambda>_ _. True) (\<lambda>_. \<lparr>wc_op = IBV_WC_RECV, wc_wr_id = 0, wc_imm = 0\<rparr>) 0 3 0)"
  by (rule global_poller_fair) simp_all

end
