(* ===== verification/Rdma_Conn.thy ===== *)
theory Rdma_Conn
  imports Rdma_Requests
begin

text \<open>
  Connection set-up of the daemon (\<^verbatim>\<open>daemon/rdma.cpp\<close>, lines 560 to 1075, \<^verbatim>\<open>daemon/rdma_mem.cpp\<close> and
  \<^verbatim>\<open>daemon/main.cpp\<close>): the queues of every client, the handlers of connection manager events, the loop that
  waits for the queues of a client, the receive requests posted after it, and the end.  An event names the
  connection id it is about, whose context is a queue.  A call that a TEST macro finds failing ends the
  program (\<open>Conn_die\<close>), a failing assert is \<open>Conn_assert\<close>, an index outside an array \<open>Conn_range\<close>; waiting for an event
  that does not come is \<^const>\<open>None\<close>.
\<close>

section \<open>State\<close>

datatype conn_error = Conn_die | Conn_assert | Conn_range

datatype q_state = INIT | CONNECTED

datatype cq_kind = No_cq | Poll_cq | Event_cq

datatype handler_kind = Data_poller | Hybrid_poller | Filter_handler | Global_poller

record conn_queue =
  qq_id :: nat
  qq_cm :: "nat option"
  qq_state :: q_state
  qq_send :: cq_kind
  qq_recv :: cq_kind

text \<open>The memory regions a client has registered, and whether its metadata pool is allocated.\<close>

datatype mr_kind = Data_mr | Meta_mr | Client_mr | Filter_mr

record conn_ctrl =
  cc_id :: nat
  cc_dev :: bool
  cc_registered :: "mr_kind list"
  cc_meta_pool :: bool
  cc_queues :: "conn_queue list"

text \<open>What the daemon sends to a client after it connected.\<close>

record mm_info =
  mi_baseaddr :: u64
  mi_key :: u32
  mi_len :: u32
  mi_cli_id :: u32
  mi_info :: "u32 \<times> u32 \<times> u32"

text \<open>
  \<open>pinned\<close> has the processors each polling thread may run on, \<open>mr_recvs\<close> the clients for whose memory region a
  receive request was posted, and \<open>data_pool\<close> says whether the pages that all clients share are allocated.
\<close>

record conn =
  client_ctr :: nat
  queue_ctr :: nat
  clis :: "conn_ctrl list"
  contexts :: "nat \<rightharpoonup> nat \<times> nat"
  handlers :: "(nat \<times> nat \<times> handler_kind) list"
  mr_exchanged :: "(nat \<times> mm_info) list"
  pinned :: "(nat \<times> nat \<times> nat list) list"
  mr_recvs :: "nat list"
  data_pool :: bool

datatype cm_event = CONNECT_REQUEST nat | ESTABLISHED nat | DISCONNECTED nat | OTHER_EVENT nat

text \<open>
  The environment: whether the checked calls succeed, the store, the registered regions for metadata and
  data of every client (address, key, length), and the polls for the completion of the first message.
\<close>

record conn_env =
  v_ok :: bool
  v_kv :: KV
  v_meta :: "nat \<Rightarrow> u64 \<times> u32 \<times> nat"
  v_data :: "nat \<Rightarrow> u64 \<times> u32 \<times> nat"
  v_polls :: "(int \<times> ibv_wc \<times> bool) list"

definition alloc_control :: "dcc_rdma_config_t \<Rightarrow> conn_ctrl" where
  "alloc_control rc = \<lparr>cc_id = 0, cc_dev = False, cc_registered = [], cc_meta_pool = False,
     cc_queues = replicate (num_qps rc) \<lparr>qq_id = 0, qq_cm = None, qq_state = INIT, qq_send = No_cq, qq_recv = No_cq\<rparr>\<rparr>"

definition set_queue :: "nat \<Rightarrow> nat \<Rightarrow> conn_queue \<Rightarrow> conn \<Rightarrow> conn" where
  "set_queue c i q s = s\<lparr>clis := (clis s)[c := (clis s ! c)\<lparr>cc_queues := (cc_queues (clis s ! c))[i := q]\<rparr>]\<rparr>"


section \<open>Queues\<close>

definition get_rdma_device :: "nat \<Rightarrow> conn \<Rightarrow> conn" where
  "get_rdma_device c s = (if \<not> cc_dev (clis s ! c) then s\<lparr>clis := (clis s)[c := (clis s ! c)\<lparr>cc_dev := True\<rparr>]\<rparr> else s)"

definition RdmaMem_Register :: "nat \<Rightarrow> conn \<Rightarrow> conn" where
  "RdmaMem_Register c s = s\<lparr>clis := (clis s)[c := (clis s ! c)\<lparr>cc_registered := [Data_mr, Meta_mr, Client_mr, Filter_mr]\<rparr>]\<rparr>"

definition create_qp :: "daemon_config_t \<Rightarrow> dcc_rdma_config_t \<Rightarrow> conn_queue \<Rightarrow> conn_queue" where
  "create_qp cfg rc q =
     (if qq_id q < num_data_qps rc then
        (if wc_mode cfg = WC_BUSY_WAITING then q\<lparr>qq_send := Poll_cq, qq_recv := Poll_cq\<rparr> else q\<lparr>qq_send := Poll_cq, qq_recv := Event_cq\<rparr>)
      else q\<lparr>qq_send := Event_cq, qq_recv := Event_cq\<rparr>)"

text \<open>The processors a thread is bound to; a failure is only printed.\<close>

definition set_thread_affinity :: "nat \<Rightarrow> nat list" where
  "set_thread_affinity cpu = [cpu]"

definition set_thread_affinity2 :: "nat \<Rightarrow> nat list" where
  "set_thread_affinity2 qid = map (\<lambda>i. if qid = 0 then i else i + 4) [0..<8]"

definition create_data_cq_handler :: "daemon_config_t \<Rightarrow> nat \<Rightarrow> nat \<Rightarrow> conn \<Rightarrow> conn" where
  "create_data_cq_handler cfg c i s =
     (if wc_mode cfg = WC_BUSY_WAITING
      then s\<lparr>handlers := handlers s @ [(c, i, Data_poller)], pinned := pinned s @ [(c, i, set_thread_affinity (cc_id (clis s ! c) * 10 + (i + 1)))]\<rparr>
      else s\<lparr>handlers := handlers s @ [(c, i, Hybrid_poller)], pinned := pinned s @ [(c, i, set_thread_affinity2 i)]\<rparr>)"

definition create_cq_handler :: "daemon_config_t \<Rightarrow> dcc_rdma_config_t \<Rightarrow> nat \<Rightarrow> nat \<Rightarrow> conn \<Rightarrow> conn" where
  "create_cq_handler cfg rc c i s =
     (if i < num_data_qps rc then (if poller_type cfg = PER_QP_POLLER then create_data_cq_handler cfg c i s else s)
      else s\<lparr>handlers := handlers s @ [(c, i, Filter_handler)]\<rparr>)"

definition on_connect_request :: "daemon_config_t \<Rightarrow> dcc_rdma_config_t \<Rightarrow> conn_env \<Rightarrow> nat \<Rightarrow> conn \<Rightarrow> conn_error + conn \<times> int" where
  "on_connect_request cfg rc e cm s =
     (let qid = queue_ctr s; c = client_ctr s; s1 = s\<lparr>queue_ctr := queue_ctr s + 1\<rparr>
      in if \<not> (c < length (clis s1) \<and> qid < length (cc_queues (clis s1 ! c))) then Inl Conn_range
         else let q = (cc_queues (clis s1 ! c) ! qid)\<lparr>qq_id := qid, qq_cm := Some cm\<rparr>;
                  s2 = (set_queue c qid q s1)\<lparr>contexts := (contexts s1)(cm \<mapsto> (c, qid))\<rparr>
              in if qq_state q \<noteq> INIT then Inl Conn_die
                 else if \<not> v_ok e then Inl Conn_die
                 else let s3 = get_rdma_device c s2;
                          s4 = (if qid = 0 then RdmaMem_Register c s3 else s3);
                          s5 = set_queue c qid (create_qp cfg rc q) s4
                      in Inr (create_cq_handler cfg rc c qid s5, 0))"

definition send_mr :: "conn_env \<Rightarrow> nat \<Rightarrow> nat \<Rightarrow> mm_info" where
  "send_mr e c ctrl_id = (let cbf = cbfs (v_kv e) ! 0; (meta_addr, meta_rkey, meta_length) = v_meta e c; (_, _, data_length) = v_data e c
     in \<lparr>mi_baseaddr = meta_addr, mi_key = meta_rkey, mi_len = of_nat (meta_length div 4096), mi_cli_id = of_nat ctrl_id,
         mi_info = (of_nat (num_hash cbf), of_nat (num_bits cbf), of_nat (data_length div 4096))\<rparr>)"

text \<open>The client answers with its own region, into the memory that was registered for it.\<close>

definition recv_mr :: "nat \<Rightarrow> conn \<Rightarrow> conn" where
  "recv_mr c s = s\<lparr>mr_recvs := mr_recvs s @ [c]\<rparr>"

definition exchange_mr :: "conn_env \<Rightarrow> nat \<Rightarrow> conn \<Rightarrow> conn" where
  "exchange_mr e c s = recv_mr c (s\<lparr>mr_exchanged := mr_exchanged s @ [(c, send_mr e c (cc_id (clis s ! c)))]\<rparr>)"

definition on_connection :: "conn_env \<Rightarrow> nat \<Rightarrow> nat \<Rightarrow> conn \<Rightarrow> conn_error + conn \<times> int" where
  "on_connection e c i s =
     (let q = cc_queues (clis s ! c) ! i
      in if qq_state q \<noteq> INIT then Inl Conn_die
         else if i = 0 \<and> \<not> v_ok e then Inl Conn_die
         else let s1 = (if i = 0 then exchange_mr e c s else s)
              in Inr (set_queue c i (q\<lparr>qq_state := CONNECTED\<rparr>) s1, 1))"

definition on_disconnect :: "nat \<Rightarrow> nat \<Rightarrow> conn \<Rightarrow> conn" where
  "on_disconnect c i s =
     (let q = cc_queues (clis s ! c) ! i
      in if qq_state q = CONNECTED then set_queue c i (q\<lparr>qq_state := INIT, qq_cm := None, qq_send := No_cq, qq_recv := No_cq\<rparr>) s else s)"

definition on_event :: "daemon_config_t \<Rightarrow> dcc_rdma_config_t \<Rightarrow> conn_env \<Rightarrow> cm_event \<Rightarrow> conn \<Rightarrow> conn_error + conn \<times> int" where
  "on_event cfg rc e ev s = (case ev of
       CONNECT_REQUEST cm \<Rightarrow> on_connect_request cfg rc e cm s
     | ESTABLISHED cm \<Rightarrow> (case contexts s cm of None \<Rightarrow> Inl Conn_range | Some (c, i) \<Rightarrow> on_connection e c i s)
     | DISCONNECTED cm \<Rightarrow> (case contexts s cm of None \<Rightarrow> Inl Conn_range | Some (c, i) \<Rightarrow> Inr (on_disconnect c i s, - 1))
     | OTHER_EVENT cm \<Rightarrow> Inr (s, - 2))"

text \<open>Events are taken until a handler returns something other than 0; the rest of the events is returned too.\<close>

fun handle_rdma_cm_event :: "daemon_config_t \<Rightarrow> dcc_rdma_config_t \<Rightarrow> conn_env \<Rightarrow> cm_event list \<Rightarrow> conn \<Rightarrow> (conn_error + conn \<times> int \<times> cm_event list) option" where
  "handle_rdma_cm_event cfg rc e [] s = None"
| "handle_rdma_cm_event cfg rc e (ev # evs) s = (case on_event cfg rc e ev s of
       Inl x \<Rightarrow> Some (Inl x)
     | Inr (s', ret) \<Rightarrow> if ret \<noteq> 0 then Some (Inr (s', ret, evs)) else handle_rdma_cm_event cfg rc e evs s')"

fun connect_queues :: "daemon_config_t \<Rightarrow> dcc_rdma_config_t \<Rightarrow> conn_env \<Rightarrow> nat \<Rightarrow> cm_event list \<Rightarrow> conn \<Rightarrow> (conn_error + conn \<times> cm_event list) option" where
  "connect_queues cfg rc e 0 evs s = Some (Inr (s, evs))"
| "connect_queues cfg rc e (Suc n) evs s = (case handle_rdma_cm_event cfg rc e evs s of
       None \<Rightarrow> None
     | Some (Inl x) \<Rightarrow> Some (Inl x)
     | Some (Inr (s', ret, evs')) \<Rightarrow> if ret < 0 then Some (Inl Conn_assert) else connect_queues cfg rc e n evs' s')"

definition connect_client :: "daemon_config_t \<Rightarrow> dcc_rdma_config_t \<Rightarrow> conn_env \<Rightarrow> nat \<Rightarrow> cm_event list \<Rightarrow> conn \<Rightarrow> (conn_error + conn \<times> cm_event list) option" where
  "connect_client cfg rc e cli evs s =
     (let s1 = s\<lparr>clis := (clis s)[cli := (clis s ! cli)\<lparr>cc_id := cli\<rparr>], queue_ctr := 0\<rparr>
      in case connect_queues cfg rc e (num_qps rc) evs s1 of
           None \<Rightarrow> None
         | Some (Inl x) \<Rightarrow> Some (Inl x)
         | Some (Inr (s2, evs')) \<Rightarrow> (case poll_cq False (v_polls e) of
               None \<Rightarrow> None
             | Some (Inl _) \<Rightarrow> Some (Inl Conn_assert)
             | Some (Inr _) \<Rightarrow> Some (Inr (s2\<lparr>client_ctr := client_ctr s2 + 1\<rparr>, evs'))))"

text \<open>The receive requests posted for a queue after the client is connected, each with a page of the pool on a data queue.\<close>

fun pre_post_recvs :: "handler_env \<Rightarrow> nat \<Rightarrow> nat \<Rightarrow> nat \<Rightarrow> daemon \<Rightarrow> daemon" where
  "pre_post_recvs e cid qid 0 s = s"
| "pre_post_recvs e cid qid (Suc n) s =
     (if qid < num_data_qps (rdma_config (dkv s)) then
        (case kv_Allocate cid (Some qid) (h_rand e) (dkv s) of
           (k, a) \<Rightarrow> pre_post_recvs e cid qid n (fst (post_recv e cid qid a (with_kv k s))))
      else pre_post_recvs e cid qid n (fst (post_recv e cid qid 0 s)))"

text \<open>The clients are connected one after the other, each followed by the receive requests of its queues.\<close>

definition pre_post_client :: "handler_env \<Rightarrow> nat \<Rightarrow> daemon \<Rightarrow> daemon" where
  "pre_post_client h cid d = fold (\<lambda>qid. pre_post_recvs h cid qid MAX_QPS_RECVS) [0..<num_qps (rdma_config (dkv d))] d"

fun run_rdma :: "daemon_config_t \<Rightarrow> dcc_rdma_config_t \<Rightarrow> conn_env \<Rightarrow> handler_env \<Rightarrow> nat list \<Rightarrow> cm_event list \<Rightarrow> conn \<times> daemon
    \<Rightarrow> (conn_error + (conn \<times> daemon) \<times> cm_event list) option" where
  "run_rdma cfg rc e h [] evs (s, d) = Some (Inr ((s, d), evs))"
| "run_rdma cfg rc e h (cli # cs) evs (s, d) = (case connect_client cfg rc e cli evs s of
       None \<Rightarrow> None
     | Some (Inl x) \<Rightarrow> Some (Inl x)
     | Some (Inr (s', evs')) \<Rightarrow> run_rdma cfg rc e h cs evs' (s', pre_post_client h cli d))"

text \<open>
  Before that every client gets its control structure and memory, client 0 the pool of pages that all
  share; the global pollers, one per data queue number, start with the first client.
\<close>

definition RdmaMem_Allocate :: "daemon_config_t \<Rightarrow> dcc_rdma_config_t \<Rightarrow> nat \<Rightarrow> u64 \<times> nat \<Rightarrow> u64 \<Rightarrow> u64 \<Rightarrow> (u64 \<times> nat) \<times> u64 \<times> nat" where
  "RdmaMem_Allocate cfg rc cid pool0 data_ptr meta_ptr =
     (if cid > 0 then pool0 else (data_ptr, mem_pool_size cfg), (meta_ptr, metadata_mr_size rc))"

definition create_global_data_cq_handler :: "dcc_rdma_config_t \<Rightarrow> conn \<Rightarrow> conn" where
  "create_global_data_cq_handler rc s = s\<lparr>handlers := handlers s @ map (\<lambda>i. (0, i, Global_poller)) [0..<num_data_qps rc],
     pinned := pinned s @ map (\<lambda>i. (0, i, set_thread_affinity i)) [0..<num_data_qps rc]\<rparr>"

definition init_rdma :: "daemon_config_t \<Rightarrow> nat \<Rightarrow> conn \<Rightarrow> conn" where
  "init_rdma cfg cid s =
     (let rc = dcc_rdma_set_default_config; s1 = s\<lparr>clis := clis s @ [(alloc_control rc)\<lparr>cc_meta_pool := True\<rparr>], data_pool := (data_pool s \<or> cid = 0)\<rparr>
      in if cid = 0 \<and> wc_mode cfg = WC_BUSY_WAITING \<and> poller_type cfg = GLOBAL_QP_POLLER then create_global_data_cq_handler rc s1 else s1)"

definition init_clients :: "daemon_config_t \<Rightarrow> conn" where
  "init_clients cfg = fold (init_rdma cfg) [0..<num_clients cfg]
     \<lparr>client_ctr = 0, queue_ctr = 0, clis = [], contexts = (\<lambda>_. None), handlers = [], mr_exchanged = [],
       pinned = [], mr_recvs = [], data_pool = False\<rparr>"

text \<open>The end: one disconnect event for every queue of every client.\<close>

fun disconnect_queues :: "daemon_config_t \<Rightarrow> dcc_rdma_config_t \<Rightarrow> conn_env \<Rightarrow> nat \<Rightarrow> cm_event list \<Rightarrow> conn \<Rightarrow> (conn_error + conn \<times> cm_event list) option" where
  "disconnect_queues cfg rc e 0 evs s = Some (Inr (s, evs))"
| "disconnect_queues cfg rc e (Suc n) evs s = (case handle_rdma_cm_event cfg rc e evs s of
       None \<Rightarrow> None
     | Some (Inl x) \<Rightarrow> Some (Inl x)
     | Some (Inr (s', ret, evs')) \<Rightarrow> if ret \<noteq> - 1 then Some (Inl Conn_assert) else disconnect_queues cfg rc e n evs' s')"

definition RdmaMem_Deregister :: "nat \<Rightarrow> bool \<Rightarrow> conn \<Rightarrow> conn" where
  "RdmaMem_Deregister c last_flag s =
     s\<lparr>clis := (clis s)[c := (clis s ! c)\<lparr>cc_meta_pool := False,
           cc_registered := filter (\<lambda>m. m \<noteq> Meta_mr \<and> \<not> (last_flag \<and> m = Data_mr)) (cc_registered (clis s ! c))\<rparr>],
       data_pool := (data_pool s \<and> \<not> last_flag)\<rparr>"

definition destroy_device :: "nat \<Rightarrow> bool \<Rightarrow> conn \<Rightarrow> conn" where
  "destroy_device c last_flag s =
     (let s1 = RdmaMem_Deregister c last_flag s in s1\<lparr>clis := (clis s1)[c := (clis s1 ! c)\<lparr>cc_dev := False\<rparr>]\<rparr>)"

fun exit_rdma :: "daemon_config_t \<Rightarrow> dcc_rdma_config_t \<Rightarrow> conn_env \<Rightarrow> nat list \<Rightarrow> cm_event list \<Rightarrow> conn \<Rightarrow> (conn_error + conn \<times> cm_event list) option" where
  "exit_rdma cfg rc e [] evs s = Some (Inr (s, evs))"
| "exit_rdma cfg rc e (c # cs) evs s = (case disconnect_queues cfg rc e (num_qps rc) evs s of
       None \<Rightarrow> None
     | Some (Inl x) \<Rightarrow> Some (Inl x)
     | Some (Inr (s', evs')) \<Rightarrow> exit_rdma cfg rc e cs evs' (destroy_device c (cs = []) s'))"

text \<open>The configuration of the daemon from its flags; an unknown mode name is an exception.\<close>

definition set_default_config :: "nat \<Rightarrow> nat \<Rightarrow> bool \<Rightarrow> nat \<Rightarrow> string \<Rightarrow> daemon_config_t option" where
  "set_default_config port clients excl size_mb mode =
     (case wc_mode_of_string mode of
        None \<Rightarrow> None
      | Some m \<Rightarrow> Some \<lparr>tcp_port = port, num_clients = clients, exclusive_policy = excl, mem_pool_size = size_mb * 2 ^ 20, ht_type = HT_LP_APPROX,
          num_ht_shards = 1, cbf_on = True, wc_mode = m, poller_type = (if m = WC_BUSY_WAITING then GLOBAL_QP_POLLER else PER_QP_POLLER)\<rparr>)"


section \<open>Connecting a client\<close>

text \<open>Client \<open>c\<close> connects queue after queue with the connection ids \<open>ids\<close>; \<open>n\<close> of its queues are connected.\<close>

definition client_events :: "nat list \<Rightarrow> cm_event list" where
  "client_events ids = concat (map (\<lambda>cm. [CONNECT_REQUEST cm, ESTABLISHED cm]) ids)"

definition all_mrs :: "mr_kind list" where
  "all_mrs = [Data_mr, Meta_mr, Client_mr, Filter_mr]"

definition queue_up :: "daemon_config_t \<Rightarrow> dcc_rdma_config_t \<Rightarrow> nat \<Rightarrow> nat \<Rightarrow> conn_queue \<Rightarrow> bool" where
  "queue_up cfg rc i cm q \<longleftrightarrow> qq_id q = i \<and> qq_cm q = Some cm \<and> qq_state q = CONNECTED
     \<and> qq_send q = (if i < num_data_qps rc then Poll_cq else Event_cq)
     \<and> qq_recv q = (if i < num_data_qps rc \<and> wc_mode cfg = WC_BUSY_WAITING then Poll_cq else Event_cq)"

definition conn_upto :: "daemon_config_t \<Rightarrow> dcc_rdma_config_t \<Rightarrow> conn_env \<Rightarrow> conn \<Rightarrow> nat \<Rightarrow> nat list \<Rightarrow> nat \<Rightarrow> conn \<Rightarrow> bool" where
  "conn_upto cfg rc e s0 c ids n s \<longleftrightarrow> client_ctr s = c \<and> c < length (clis s) \<and> queue_ctr s = n \<and> length (clis s) = length (clis s0)
     \<and> cc_id (clis s ! c) = c \<and> length (cc_queues (clis s ! c)) = num_qps rc
     \<and> (\<forall>i < n. queue_up cfg rc i (ids ! i) (cc_queues (clis s ! c) ! i))
     \<and> (\<forall>i. n \<le> i \<and> i < num_qps rc \<longrightarrow> qq_state (cc_queues (clis s ! c) ! i) = INIT)
     \<and> (0 < n \<longrightarrow> cc_dev (clis s ! c) \<and> cc_registered (clis s ! c) = all_mrs)
     \<and> (\<forall>d < length (clis s). d \<noteq> c \<longrightarrow> clis s ! d = clis s0 ! d)
     \<and> mr_exchanged s = (if n = 0 then mr_exchanged s0 else mr_exchanged s0 @ [(c, send_mr e c c)])
     \<and> contexts s = fold (\<lambda>i m. m(ids ! i \<mapsto> (c, i))) [0..<n] (contexts s0)"

lemma set_queue_simps [simp]:
  "client_ctr (set_queue c i q s) = client_ctr s" "queue_ctr (set_queue c i q s) = queue_ctr s" "length (clis (set_queue c i q s)) = length (clis s)"
  "contexts (set_queue c i q s) = contexts s" "mr_exchanged (set_queue c i q s) = mr_exchanged s"
  "c < length (clis s) \<Longrightarrow> cc_queues (clis (set_queue c i q s) ! c) = (cc_queues (clis s ! c))[i := q]"
  "c < length (clis s) \<Longrightarrow> cc_dev (clis (set_queue c i q s) ! c) = cc_dev (clis s ! c)"
  "c < length (clis s) \<Longrightarrow> cc_registered (clis (set_queue c i q s) ! c) = cc_registered (clis s ! c)"
  "c < length (clis s) \<Longrightarrow> cc_id (clis (set_queue c i q s) ! c) = cc_id (clis s ! c)"
  "d \<noteq> c \<Longrightarrow> clis (set_queue c i q s) ! d = clis s ! d"
  by (simp_all add: set_queue_def)

lemma device_simps [simp]:
  "client_ctr (get_rdma_device c s) = client_ctr s" "queue_ctr (get_rdma_device c s) = queue_ctr s" "length (clis (get_rdma_device c s)) = length (clis s)"
  "contexts (get_rdma_device c s) = contexts s" "mr_exchanged (get_rdma_device c s) = mr_exchanged s"
  "c < length (clis s) \<Longrightarrow> cc_queues (clis (get_rdma_device c s) ! c) = cc_queues (clis s ! c)"
  "c < length (clis s) \<Longrightarrow> cc_dev (clis (get_rdma_device c s) ! c)"
  "c < length (clis s) \<Longrightarrow> cc_registered (clis (get_rdma_device c s) ! c) = cc_registered (clis s ! c)"
  "c < length (clis s) \<Longrightarrow> cc_id (clis (get_rdma_device c s) ! c) = cc_id (clis s ! c)"
  "d \<noteq> c \<Longrightarrow> clis (get_rdma_device c s) ! d = clis s ! d"
  by (auto simp: get_rdma_device_def)

lemma register_simps [simp]:
  "client_ctr (RdmaMem_Register c s) = client_ctr s" "queue_ctr (RdmaMem_Register c s) = queue_ctr s" "length (clis (RdmaMem_Register c s)) = length (clis s)"
  "contexts (RdmaMem_Register c s) = contexts s" "mr_exchanged (RdmaMem_Register c s) = mr_exchanged s"
  "c < length (clis s) \<Longrightarrow> cc_queues (clis (RdmaMem_Register c s) ! c) = cc_queues (clis s ! c)"
  "c < length (clis s) \<Longrightarrow> cc_dev (clis (RdmaMem_Register c s) ! c) = cc_dev (clis s ! c)"
  "c < length (clis s) \<Longrightarrow> cc_registered (clis (RdmaMem_Register c s) ! c) = all_mrs"
  "c < length (clis s) \<Longrightarrow> cc_id (clis (RdmaMem_Register c s) ! c) = cc_id (clis s ! c)"
  "d \<noteq> c \<Longrightarrow> clis (RdmaMem_Register c s) ! d = clis s ! d"
  by (simp_all add: RdmaMem_Register_def all_mrs_def)

lemma handler_simps [simp]:
  "client_ctr (create_cq_handler cfg rc c i s) = client_ctr s" "queue_ctr (create_cq_handler cfg rc c i s) = queue_ctr s"
  "clis (create_cq_handler cfg rc c i s) = clis s" "contexts (create_cq_handler cfg rc c i s) = contexts s"
  "mr_exchanged (create_cq_handler cfg rc c i s) = mr_exchanged s"
  by (simp_all add: create_cq_handler_def create_data_cq_handler_def)

lemma connect_request_step:
  assumes u: "conn_upto cfg rc e s0 c ids n s" and n: "n < num_qps rc" and ok: "v_ok e"
  shows "\<exists>s'. on_connect_request cfg rc e (ids ! n) s = Inr (s', 0) \<and> client_ctr s' = c \<and> c < length (clis s') \<and> queue_ctr s' = Suc n
    \<and> length (clis s') = length (clis s0)
    \<and> cc_queues (clis s' ! c) = (cc_queues (clis s ! c))[n := create_qp cfg rc ((cc_queues (clis s ! c) ! n)\<lparr>qq_id := n, qq_cm := Some (ids ! n)\<rparr>)]
    \<and> cc_dev (clis s' ! c) \<and> cc_registered (clis s' ! c) = all_mrs \<and> (\<forall>d < length (clis s'). d \<noteq> c \<longrightarrow> clis s' ! d = clis s0 ! d)
    \<and> mr_exchanged s' = mr_exchanged s \<and> cc_id (clis s' ! c) = c \<and> contexts s' = (contexts s)(ids ! n \<mapsto> (c, n))"
proof -
  have f: "client_ctr s = c" "c < length (clis s)" "queue_ctr s = n" "length (clis s) = length (clis s0)" "length (cc_queues (clis s ! c)) = num_qps rc"
      "qq_state (cc_queues (clis s ! c) ! n) = INIT" "0 < n \<longrightarrow> cc_registered (clis s ! c) = all_mrs" "cc_id (clis s ! c) = c" "\<forall>d < length (clis s). d \<noteq> c \<longrightarrow> clis s ! d = clis s0 ! d"
    using u n by (auto simp: conn_upto_def)
  show ?thesis using f n ok by (cases "n = 0") (simp_all add: on_connect_request_def Let_def)
qed

lemma connect_step:
  assumes u: "conn_upto cfg rc e s0 c ids n s" and n: "n < num_qps rc" and ok: "v_ok e"
  shows "\<exists>s'. handle_rdma_cm_event cfg rc e (CONNECT_REQUEST (ids ! n) # ESTABLISHED (ids ! n) # evs) s = Some (Inr (s', 1, evs))
    \<and> conn_upto cfg rc e s0 c ids (Suc n) s'"
proof -
  obtain s1 where s1: "on_connect_request cfg rc e (ids ! n) s = Inr (s1, 0)" "client_ctr s1 = c" "c < length (clis s1)" "queue_ctr s1 = Suc n"
      "length (clis s1) = length (clis s0)"
      "cc_queues (clis s1 ! c) = (cc_queues (clis s ! c))[n := create_qp cfg rc ((cc_queues (clis s ! c) ! n)\<lparr>qq_id := n, qq_cm := Some (ids ! n)\<rparr>)]"
      "cc_dev (clis s1 ! c)" "cc_registered (clis s1 ! c) = all_mrs" "\<forall>d < length (clis s1). d \<noteq> c \<longrightarrow> clis s1 ! d = clis s0 ! d"
      "mr_exchanged s1 = mr_exchanged s" "cc_id (clis s1 ! c) = c" "contexts s1 = (contexts s)(ids ! n \<mapsto> (c, n))"
    using connect_request_step [OF u n ok] by blast
  let ?q = "cc_queues (clis s1 ! c) ! n" and ?s2 = "if n = 0 then exchange_mr e c s1 else s1"
  let ?s3 = "set_queue c n (?q\<lparr>qq_state := CONNECTED\<rparr>) ?s2"
  have l: "length (cc_queues (clis s ! c)) = num_qps rc" "qq_state (cc_queues (clis s ! c) ! n) = INIT" using u n by (auto simp: conn_upto_def)
  have q: "queue_up cfg rc n (ids ! n) (?q\<lparr>qq_state := CONNECTED\<rparr>)" "qq_state ?q = INIT"
    using s1(6) l n by (auto simp: queue_up_def create_qp_def)
  have "on_connection e c n s1 = Inr (?s3, 1)" using q(2) ok by (simp add: on_connection_def Let_def exchange_mr_def recv_mr_def)
  then have run: "handle_rdma_cm_event cfg rc e (CONNECT_REQUEST (ids ! n) # ESTABLISHED (ids ! n) # evs) s = Some (Inr (?s3, 1, evs))"
    using s1(1,12) by (simp add: on_event_def)
  have s2: "client_ctr ?s2 = c" "queue_ctr ?s2 = Suc n" "clis ?s2 = clis s1" "contexts ?s2 = contexts s1"
    "mr_exchanged ?s2 = (if n = 0 then mr_exchanged s1 @ [(c, send_mr e c c)] else mr_exchanged s1)" using s1(2,4,11) by (simp_all add: exchange_mr_def recv_mr_def)
  have qs: "cc_queues (clis ?s3 ! c) = (cc_queues (clis s ! c))[n := ?q\<lparr>qq_state := CONNECTED\<rparr>]" using s1(3,6) s2(3) by simp
  have "\<forall>i < Suc n. queue_up cfg rc i (ids ! i) (cc_queues (clis ?s3 ! c) ! i)"
    using u q(1) l(1) n unfolding qs by (auto simp: conn_upto_def nth_list_update less_Suc_eq)
  moreover have "\<forall>i. Suc n \<le> i \<and> i < num_qps rc \<longrightarrow> qq_state (cc_queues (clis ?s3 ! c) ! i) = INIT"
    using u unfolding qs by (auto simp: conn_upto_def)
  moreover have "contexts ?s3 = fold (\<lambda>i m. m(ids ! i \<mapsto> (c, i))) [0..<Suc n] (contexts s0)" using u s1(12) s2(4) by (simp add: conn_upto_def)
  moreover have "mr_exchanged ?s3 = mr_exchanged s0 @ [(c, send_mr e c c)]" using u s1(10) s2(5) by (cases "n = 0") (simp_all add: conn_upto_def)
  ultimately have "conn_upto cfg rc e s0 c ids (Suc n) ?s3"
    unfolding conn_upto_def using s1 s2 l(1) qs by simp
  then show ?thesis using run by blast
qed

lemma connect_queues_all:
  assumes ok: "v_ok e" and "conn_upto cfg rc e s0 c ids n s" "n + m \<le> num_qps rc" "n + m \<le> length ids"
  shows "\<exists>s'. connect_queues cfg rc e m (client_events (take m (drop n ids)) @ evs) s = Some (Inr (s', evs)) \<and> conn_upto cfg rc e s0 c ids (n + m) s'"
  using assms(2-)
proof (induction m arbitrary: n s)
  case (Suc m)
  have "take (Suc m) (drop n ids) = ids ! n # take m (drop (Suc n) ids)" using Suc.prems(3) by (simp add: Cons_nth_drop_Suc [symmetric])
  then have e: "client_events (take (Suc m) (drop n ids)) @ evs = CONNECT_REQUEST (ids ! n) # ESTABLISHED (ids ! n) # client_events (take m (drop (Suc n) ids)) @ evs"
    by (simp add: client_events_def)
  obtain s1 where "handle_rdma_cm_event cfg rc e (CONNECT_REQUEST (ids ! n) # ESTABLISHED (ids ! n) # client_events (take m (drop (Suc n) ids)) @ evs) s
      = Some (Inr (s1, 1, client_events (take m (drop (Suc n) ids)) @ evs))" "conn_upto cfg rc e s0 c ids (Suc n) s1"
    using connect_step [OF Suc.prems(1) _ ok] Suc.prems(2) by auto
  then show ?case using Suc.IH [of "Suc n" s1] Suc.prems(2,3) unfolding e by (simp del: handle_rdma_cm_event.simps)
qed (simp add: client_events_def)


section \<open>Properties of the connection\<close>

text \<open>
  A client that connects its queues one after the other is connected completely: the daemon takes
  exactly its events, every queue gets its own number, connection id and completion queues, the device is
  opened and the memory registered once, the client is told once its number, its metadata region and the
  dimensions of the filter, and the other clients are left alone.
\<close>

theorem client_connects_all_queues:
  assumes ok: "v_ok e" "poll_cq False (v_polls e) = Some (Inr x)"
    and "length ids = num_qps rc" "0 < num_qps rc" "client_ctr s = c" "c < length (clis s)" "length (cc_queues (clis s ! c)) = num_qps rc"
    and "\<forall>q \<in> set (cc_queues (clis s ! c)). qq_state q = INIT"
  shows "\<exists>s'. connect_client cfg rc e c (client_events ids @ evs) s = Some (Inr (s', evs)) \<and> client_ctr s' = Suc c
    \<and> (\<forall>i < num_qps rc. queue_up cfg rc i (ids ! i) (cc_queues (clis s' ! c) ! i))
    \<and> cc_dev (clis s' ! c) \<and> cc_registered (clis s' ! c) = all_mrs \<and> mr_exchanged s' = mr_exchanged s @ [(c, send_mr e c c)]
    \<and> (\<forall>d < length (clis s'). d \<noteq> c \<longrightarrow> clis s' ! d = clis s ! d)"
proof -
  let ?s1 = "s\<lparr>clis := (clis s)[c := (clis s ! c)\<lparr>cc_id := c\<rparr>], queue_ctr := 0\<rparr>"
  have "conn_upto cfg rc e s c ids 0 ?s1" using assms by (auto simp: conn_upto_def)
  from connect_queues_all [OF ok(1) this, of "num_qps rc" evs] assms(3)
  obtain s2 where "connect_queues cfg rc e (num_qps rc) (client_events ids @ evs) ?s1 = Some (Inr (s2, evs))" "conn_upto cfg rc e s c ids (num_qps rc) s2"
    by auto
  then show ?thesis using assms(4) ok(2) by (auto simp: connect_client_def Let_def conn_upto_def)
qed

definition conn_start :: conn where
  "conn_start = \<lparr>client_ctr = 0, queue_ctr = 0, clis = [alloc_control dcc_rdma_set_default_config], contexts = (\<lambda>_. None), handlers = [], mr_exchanged = [],
       pinned = [], mr_recvs = [], data_pool = False\<rparr>"

definition conn_env0 :: conn_env where
  "conn_env0 = \<lparr>v_ok = True, v_kv = kv_small, v_meta = (\<lambda>_. (4096, 5, 32896)), v_data = (\<lambda>_. (65536, 6, 139536)),
     v_polls = [(1, \<lparr>wc_op = IBV_WC_SEND, wc_wr_id = 0, wc_imm = 0\<rparr>, True)]\<rparr>"

theorem client_connects_all_queues_witness:
  "\<exists>cfg s'. set_default_config 7777 1 True 4096 ''busy_waiting'' = Some cfg
     \<and> connect_client cfg dcc_rdma_set_default_config conn_env0 0 (client_events [10..<19]) conn_start = Some (Inr (s', [])) \<and> client_ctr s' = 1
     \<and> mr_exchanged s' = [(0, \<lparr>mi_baseaddr = 4096, mi_key = 5, mi_len = 8, mi_cli_id = 0, mi_info = (3, 17, 34)\<rparr>)]"
proof -
  obtain cfg where cfg: "set_default_config 7777 1 True 4096 ''busy_waiting'' = Some cfg"
    by (simp add: set_default_config_def wc_mode_of_string_def wc_mode_names_def)
  have n: "num_qps dcc_rdma_set_default_config = 9" by (simp add: dcc_rdma_set_default_config_def)
  have e: "v_ok conn_env0" "poll_cq False (v_polls conn_env0) = Some (Inr (1, \<lparr>wc_op = IBV_WC_SEND, wc_wr_id = 0, wc_imm = 0\<rparr>))"
      "send_mr conn_env0 0 0 = \<lparr>mi_baseaddr = 4096, mi_key = 5, mi_len = 8, mi_cli_id = 0, mi_info = (3, 17, 34)\<rparr>"
    by (simp_all add: conn_env0_def send_mr_def kv_small_filter CountingBloomFilter_new_def Let_def)
  show ?thesis
    using cfg e(3) client_connects_all_queues [OF e(1,2), of "[10..<19]" dcc_rdma_set_default_config conn_start 0 cfg "[]"] n
    by (auto simp: conn_start_def alloc_control_def)
qed

text \<open>
  Receive requests are posted without looking at the result of the allocation: when the pool has no page
  left the address -1 is posted as a receive buffer.
\<close>

lemma pre_post_posts_invalid_address:
  assumes "qid < num_data_qps (rdma_config (dkv s))" "snd (kv_Allocate cid (Some qid) (h_rand e) (dkv s)) = - 1" "h_post_recv e = 0"
  shows "\<exists>w. recvq (pre_post_recvs e cid qid 1 s) cid qid = recvq s cid qid @ [w] \<and> rwr_id w = - 1 \<and> map sge_addr (rwr_sges w) = [- 1]"
  using assms by (auto simp: post_recv_def with_kv_def Let_def split: prod.splits)

lemma pre_post_frame:
  assumes "h_post_recv h = 0"
  shows "\<exists>ws. recvq (pre_post_recvs h c q n d) = (recvq d)(c := (recvq d c)(q := recvq d c q @ ws)) \<and> length ws = n
    \<and> rdma_config (dkv (pre_post_recvs h c q n d)) = rdma_config (dkv d)"
proof (induction n arbitrary: d)
  case (Suc n)
  obtain k a where k: "kv_Allocate c (Some q) (h_rand h) (dkv d) = (k, a)" by fastforce
  define d1 where "d1 = (if q < num_data_qps (rdma_config (dkv d)) then fst (post_recv h c q a (with_kv k d)) else fst (post_recv h c q 0 d))"
  have s: "pre_post_recvs h c q (Suc n) d = pre_post_recvs h c q n d1" by (simp add: d1_def k)
  have post: "\<exists>w. recvq (fst (post_recv h c q a y)) = (recvq y)(c := (recvq y c)(q := recvq y c q @ [w])) \<and> dkv (fst (post_recv h c q a y)) = dkv y" for a y
    unfolding post_recv_def Let_def using assms by (intro exI conjI) (simp_all only: simp_thms if_True fst_conv, simp_all)
  obtain w where w: "recvq d1 = (recvq d)(c := (recvq d c)(q := recvq d c q @ [w]))" "rdma_config (dkv d1) = rdma_config (dkv d)"
    using post [of a "with_kv k d"] post [of 0 d] kv_Allocate_rdma [OF k] by (cases "q < num_data_qps (rdma_config (dkv d))") (auto simp: d1_def with_kv_def)
  obtain ws where ws: "recvq (pre_post_recvs h c q n d1) = (recvq d1)(c := (recvq d1 c)(q := recvq d1 c q @ ws))" "length ws = n"
      "rdma_config (dkv (pre_post_recvs h c q n d1)) = rdma_config (dkv d1)"
    using Suc.IH by blast
  show ?case unfolding s ws w using ws(2) by (intro exI [of _ "w # ws"]) (simp add: fun_eq_iff)
qed (auto intro!: exI [of _ "[]"])

lemma pre_post_queues:
  assumes "h_post_recv h = 0"
  shows "(\<forall>i. length (recvq (fold (\<lambda>qid. pre_post_recvs h c qid k) [0..<m] d) c i) = length (recvq d c i) + (if i < m then k else 0))
    \<and> (\<forall>b. b \<noteq> c \<longrightarrow> recvq (fold (\<lambda>qid. pre_post_recvs h c qid k) [0..<m] d) b = recvq d b)
    \<and> rdma_config (dkv (fold (\<lambda>qid. pre_post_recvs h c qid k) [0..<m] d)) = rdma_config (dkv d)"
proof (induction m)
  case (Suc m)
  let ?d = "fold (\<lambda>qid. pre_post_recvs h c qid k) [0..<m] d"
  obtain ws where "recvq (pre_post_recvs h c m k ?d) = (recvq ?d)(c := (recvq ?d c)(m := recvq ?d c m @ ws))" "length ws = k"
      "rdma_config (dkv (pre_post_recvs h c m k ?d)) = rdma_config (dkv ?d)"
    using pre_post_frame [OF assms] by blast
  then show ?case using Suc.IH by auto
qed simp

text \<open>The state after the first \<open>n\<close> clients, which have the connection ids \<open>idss\<close>.\<close>

definition ready_upto :: "daemon_config_t \<Rightarrow> dcc_rdma_config_t \<Rightarrow> conn_env \<Rightarrow> nat list list \<Rightarrow> conn \<times> daemon \<Rightarrow> nat \<Rightarrow> conn \<times> daemon \<Rightarrow> bool" where
  "ready_upto cfg rc e idss = (\<lambda>(s0, d0) n (s, d). client_ctr s = n \<and> length (clis s) = length idss \<and> rdma_config (dkv d) = rc
     \<and> (\<forall>c < n. \<forall>i < num_qps rc. queue_up cfg rc i (idss ! c ! i) (cc_queues (clis s ! c) ! i))
     \<and> (\<forall>c. n \<le> c \<and> c < length idss \<longrightarrow> length (cc_queues (clis s ! c)) = num_qps rc \<and> (\<forall>q \<in> set (cc_queues (clis s ! c)). qq_state q = INIT))
     \<and> mr_exchanged s = mr_exchanged s0 @ map (\<lambda>c. (c, send_mr e c c)) [0..<n]
     \<and> (\<forall>c. \<forall>i < num_qps rc. length (recvq d c i) = length (recvq d0 c i) + (if c < n then MAX_QPS_RECVS else 0)))"

lemma connect_client_ready:
  assumes ok: "v_ok e" "poll_cq False (v_polls e) = Some (Inr x)" "h_post_recv h = 0" and rc: "0 < num_qps rc"
    and n: "n < length idss" "length (idss ! n) = num_qps rc" and R: "ready_upto cfg rc e idss z n (s, d)"
  shows "\<exists>s'. connect_client cfg rc e n (client_events (idss ! n) @ evs) s = Some (Inr (s', evs)) \<and> ready_upto cfg rc e idss z (Suc n) (s', pre_post_client h n d)"
proof -
  obtain s0 d0 where z: "z = (s0, d0)" by fastforce
  have f: "client_ctr s = n" "n < length (clis s)" "length (cc_queues (clis s ! n)) = num_qps rc" "\<forall>q \<in> set (cc_queues (clis s ! n)). qq_state q = INIT"
      "rdma_config (dkv d) = rc" "length (clis s) = length idss"
    using R n(1) by (auto simp: ready_upto_def z)
  let ?s1 = "s\<lparr>clis := (clis s)[n := (clis s ! n)\<lparr>cc_id := n\<rparr>], queue_ctr := 0\<rparr>"
  have "conn_upto cfg rc e s n (idss ! n) 0 ?s1" using f by (auto simp: conn_upto_def)
  from connect_queues_all [OF ok(1) this, of "num_qps rc" evs] n(2)
  obtain s2 where s2: "connect_queues cfg rc e (num_qps rc) (client_events (idss ! n) @ evs) ?s1 = Some (Inr (s2, evs))" "conn_upto cfg rc e s n (idss ! n) (num_qps rc) s2"
    by auto
  let ?s' = "s2\<lparr>client_ctr := client_ctr s2 + 1\<rparr>"
  have c: "connect_client cfg rc e n (client_events (idss ! n) @ evs) s = Some (Inr (?s', evs))" using s2(1) ok(2) by (simp add: connect_client_def Let_def)
  note P = pre_post_queues [OF ok(3), of n MAX_QPS_RECVS "num_qps rc" d]
  have "length (cc_queues (clis s2 ! c)) = num_qps rc \<and> (\<forall>q \<in> set (cc_queues (clis s2 ! c)). qq_state q = INIT)" if c: "Suc n \<le> c" "c < length idss" for c
  proof -
    have "clis s2 ! c = clis s ! c" using s2(2) f(6) c by (auto simp: conn_upto_def)
    moreover have "n \<le> c" using c by simp
    ultimately show ?thesis using R c(2) unfolding ready_upto_def z prod.case by metis
  qed
  then have "ready_upto cfg rc e idss z (Suc n) (?s', pre_post_client h n d)"
    using s2(2) R P rc f unfolding pre_post_client_def ready_upto_def conn_upto_def z by (auto simp: less_Suc_eq)
  then show ?thesis using c by blast
qed

lemma run_rdma_upto:
  assumes ok: "v_ok e" "poll_cq False (v_polls e) = Some (Inr x)" "h_post_recv h = 0" and rc: "0 < num_qps rc" and l: "\<forall>ids \<in> set idss. length ids = num_qps rc"
  shows "n + m = length idss \<Longrightarrow> ready_upto cfg rc e idss z n (s, d) \<Longrightarrow>
    \<exists>s' d'. run_rdma cfg rc e h [n..<n + m] (concat (map client_events (drop n idss)) @ evs) (s, d) = Some (Inr ((s', d'), evs)) \<and> ready_upto cfg rc e idss z (n + m) (s', d')"
proof (induction m arbitrary: n s d)
  case (Suc m)
  then have n: "n < length idss" "length (idss ! n) = num_qps rc" using l by auto
  have e: "drop n idss = idss ! n # drop (Suc n) idss" "[n..<n + Suc m] = n # [Suc n..<Suc n + m]" using n(1) by (simp_all add: Cons_nth_drop_Suc upt_conv_Cons)
  obtain s' where s': "connect_client cfg rc e n (client_events (idss ! n) @ concat (map client_events (drop (Suc n) idss)) @ evs) s
      = Some (Inr (s', concat (map client_events (drop (Suc n) idss)) @ evs))" "ready_upto cfg rc e idss z (Suc n) (s', pre_post_client h n d)"
    using connect_client_ready [OF ok rc n Suc.prems(2)] by blast
  then show ?case using Suc.IH [OF _ s'(2)] Suc.prems(1) unfolding e by (simp del: upt_Suc)
qed simp

lemma init_clients_spec:
  "clis (init_clients cfg) = replicate (num_clients cfg) (alloc_control dcc_rdma_set_default_config\<lparr>cc_meta_pool := True\<rparr>)" "client_ctr (init_clients cfg) = 0"
  "mr_exchanged (init_clients cfg) = []"
proof -
  have i: "clis (init_rdma cfg c s) = clis s @ [alloc_control dcc_rdma_set_default_config\<lparr>cc_meta_pool := True\<rparr>]" "client_ctr (init_rdma cfg c s) = client_ctr s"
      "mr_exchanged (init_rdma cfg c s) = mr_exchanged s" for c s
    by (simp_all add: init_rdma_def create_global_data_cq_handler_def Let_def)
  have "clis (fold (init_rdma cfg) [0..<n] s) = clis s @ replicate n (alloc_control dcc_rdma_set_default_config\<lparr>cc_meta_pool := True\<rparr>)
      \<and> client_ctr (fold (init_rdma cfg) [0..<n] s) = client_ctr s \<and> mr_exchanged (fold (init_rdma cfg) [0..<n] s) = mr_exchanged s" for n s
    by (induction n) (simp_all add: i replicate_append_same)
  then show "clis (init_clients cfg) = replicate (num_clients cfg) (alloc_control dcc_rdma_set_default_config\<lparr>cc_meta_pool := True\<rparr>)" "client_ctr (init_clients cfg) = 0"
    "mr_exchanged (init_clients cfg) = []" by (simp_all add: init_clients_def)
qed

text \<open>
  C12. The daemon gets ready: when as many clients as configured connect in order, each queue after queue,
  every client ends up with all its queues connected and is told its own number, every queue has its
  receive requests posted, and exactly the events of the clients are taken.
\<close>

theorem daemon_gets_ready:
  assumes "v_ok e" "poll_cq False (v_polls e) = Some (Inr x)" "h_post_recv h = 0" "rc = dcc_rdma_set_default_config" "rdma_config (dkv d) = rc"
    and "length idss = num_clients cfg" "\<forall>ids \<in> set idss. length ids = num_qps rc"
  shows "\<exists>s' d'. run_rdma cfg rc e h [0..<num_clients cfg] (concat (map client_events idss) @ evs) (init_clients cfg, d) = Some (Inr ((s', d'), evs))
    \<and> client_ctr s' = num_clients cfg
    \<and> (\<forall>c < num_clients cfg. \<forall>i < num_qps rc. queue_up cfg rc i (idss ! c ! i) (cc_queues (clis s' ! c) ! i)
          \<and> length (recvq d' c i) = length (recvq d c i) + MAX_QPS_RECVS)
    \<and> mr_exchanged s' = map (\<lambda>c. (c, send_mr e c c)) [0..<num_clients cfg]"
proof -
  let ?z = "(init_clients cfg, d)"
  have "ready_upto cfg rc e idss ?z 0 ?z" using assms(4-6) init_clients_spec [of cfg] by (auto simp: ready_upto_def alloc_control_def)
  moreover have "0 < num_qps rc" using assms(4) by (simp add: dcc_rdma_set_default_config_def)
  ultimately show ?thesis using run_rdma_upto [OF assms(1-3) _ assms(7), where n = 0 and m = "length idss" and cfg = cfg and z = ?z and evs = evs and s = "init_clients cfg" and d = d]
      assms(6) init_clients_spec(3) [of cfg] by (auto simp: ready_upto_def)
qed

theorem daemon_gets_ready_witness:
  "\<exists>s' d'. run_rdma kv_small_config dcc_rdma_set_default_config conn_env0 req_env [0..<1] (client_events [10..<19]) (init_clients kv_small_config, daemon_on kv_small)
       = Some (Inr ((s', d'), [])) \<and> client_ctr s' = 1 \<and> length (recvq d' 0 3) = 4095"
proof -
  have e: "v_ok conn_env0" "poll_cq False (v_polls conn_env0) = Some (Inr (1, \<lparr>wc_op = IBV_WC_SEND, wc_wr_id = 0, wc_imm = 0\<rparr>))" "h_post_recv req_env = 0"
    by (simp_all add: conn_env0_def req_env_def)
  have c: "rdma_config (dkv (daemon_on kv_small)) = dcc_rdma_set_default_config" "num_clients kv_small_config = 1"
    using kv_small_new by (simp_all add: daemon_on_def kv_small_config_def small_config_def)
  have n: "num_qps dcc_rdma_set_default_config = 9" by (simp add: dcc_rdma_set_default_config_def)
  have l: "\<forall>ids \<in> set [[10..<19]]. length ids = num_qps dcc_rdma_set_default_config" using n by simp
  have "length (recvq (daemon_on kv_small) 0 3) = 0" by (simp add: daemon_on_def)
  then show ?thesis using daemon_gets_ready [OF e refl c(1) _ l, of kv_small_config "[]"] n c(2)
    by (auto simp: MAX_QPS_RECVS_def simp del: run_rdma.simps)
qed

text \<open>The end of the daemon, when the clients disconnect: memory and devices are given back, regions are not.\<close>

definition all_disconnect :: "conn \<Rightarrow> cm_event list \<Rightarrow> bool" where
  "all_disconnect s evs \<longleftrightarrow> (\<forall>ev \<in> set evs. \<exists>cm. ev = DISCONNECTED cm \<and> contexts s cm \<noteq> None)"

definition same_memory :: "conn \<Rightarrow> conn \<Rightarrow> bool" where
  "same_memory s s' \<longleftrightarrow> contexts s' = contexts s \<and> data_pool s' = data_pool s \<and> length (clis s') = length (clis s)
     \<and> (\<forall>d < length (clis s). cc_registered (clis s' ! d) = cc_registered (clis s ! d) \<and> cc_meta_pool (clis s' ! d) = cc_meta_pool (clis s ! d)
          \<and> cc_dev (clis s' ! d) = cc_dev (clis s ! d))"

lemma same_memory_disconnect: "same_memory s (on_disconnect c i s)"
  by (cases "c < length (clis s)") (auto simp: same_memory_def on_disconnect_def set_queue_def Let_def nth_list_update)

lemma same_memory_trans: "same_memory s s1 \<Longrightarrow> same_memory s1 s2 \<Longrightarrow> same_memory s s2"
  by (simp add: same_memory_def)

lemma disconnect_queues_all:
  "all_disconnect s evs1 \<Longrightarrow> \<exists>s'. disconnect_queues cfg rc e (length evs1) (evs1 @ evs) s = Some (Inr (s', evs)) \<and> same_memory s s'"
proof (induction evs1 arbitrary: s)
  case (Cons ev evs1)
  obtain cm c i where "ev = DISCONNECTED cm" "contexts s cm = Some (c, i)" using Cons.prems by (auto simp: all_disconnect_def)
  then have h: "handle_rdma_cm_event cfg rc e (ev # evs1 @ evs) s = Some (Inr (on_disconnect c i s, - 1, evs1 @ evs))" by (simp add: on_event_def)
  have "all_disconnect (on_disconnect c i s) evs1" using Cons.prems same_memory_disconnect [of s c i] by (simp add: all_disconnect_def same_memory_def)
  from Cons.IH [OF this] show ?case using h same_memory_trans [OF same_memory_disconnect] by (auto simp del: handle_rdma_cm_event.simps)
qed (simp add: same_memory_def)

definition left_over :: "bool \<Rightarrow> mr_kind list \<Rightarrow> mr_kind list" where
  "left_over last_flag ms = filter (\<lambda>m. m \<noteq> Meta_mr \<and> \<not> (last_flag \<and> m = Data_mr)) ms"

lemma destroy_device_simps:
  "contexts (destroy_device c b s) = contexts s" "data_pool (destroy_device c b s) = (data_pool s \<and> \<not> b)"
  "length (clis (destroy_device c b s)) = length (clis s)" "d \<noteq> c \<Longrightarrow> clis (destroy_device c b s) ! d = clis s ! d"
  "c < length (clis s) \<Longrightarrow> clis (destroy_device c b s) ! c = (clis s ! c)\<lparr>cc_meta_pool := False, cc_registered := left_over b (cc_registered (clis s ! c)), cc_dev := False\<rparr>"
  by (simp_all add: destroy_device_def RdmaMem_Deregister_def left_over_def Let_def)

lemma exit_rdma_leaves:
  assumes "all_disconnect s evs1" "length evs1 = length cs * num_qps rc" "distinct cs" "set cs \<subseteq> {..<length (clis s)}"
  shows "\<exists>s'. exit_rdma cfg rc e cs (evs1 @ evs) s = Some (Inr (s', evs)) \<and> (cs \<noteq> [] \<longrightarrow> \<not> data_pool s') \<and> length (clis s') = length (clis s)
    \<and> (\<forall>d < length (clis s). if d \<in> set cs
         then \<not> cc_dev (clis s' ! d) \<and> \<not> cc_meta_pool (clis s' ! d) \<and> cc_registered (clis s' ! d) = left_over (d = last cs) (cc_registered (clis s ! d))
         else cc_registered (clis s' ! d) = cc_registered (clis s ! d) \<and> cc_dev (clis s' ! d) = cc_dev (clis s ! d) \<and> cc_meta_pool (clis s' ! d) = cc_meta_pool (clis s ! d))"
  using assms
proof (induction cs arbitrary: evs1 s)
  case (Cons c cs)
  define now where "now = take (num_qps rc) evs1"
  define later where "later = drop (num_qps rc) evs1"
  have l: "evs1 = now @ later" "length now = num_qps rc" "length later = length cs * num_qps rc" using Cons.prems(2) by (simp_all add: now_def later_def)
  have "all_disconnect s now" using Cons.prems(1) l(1) by (simp add: all_disconnect_def)
  from disconnect_queues_all [OF this, of cfg rc e "later @ evs"] l(2)
  obtain s1 where s1: "disconnect_queues cfg rc e (num_qps rc) (now @ later @ evs) s = Some (Inr (s1, later @ evs))" "same_memory s s1" by auto
  let ?s2 = "destroy_device c (cs = []) s1"
  have c: "c < length (clis s1)" using s1(2) Cons.prems(4) by (simp add: same_memory_def)
  have "all_disconnect ?s2 later" using Cons.prems(1) l(1) s1(2) by (simp add: all_disconnect_def same_memory_def destroy_device_simps)
  moreover have "distinct cs" "set cs \<subseteq> {..<length (clis ?s2)}" using Cons.prems(3,4) s1(2) by (auto simp: destroy_device_simps same_memory_def)
  ultimately obtain s' where s': "exit_rdma cfg rc e cs (later @ evs) ?s2 = Some (Inr (s', evs))" "cs \<noteq> [] \<longrightarrow> \<not> data_pool s'" "length (clis s') = length (clis ?s2)"
      "\<forall>d < length (clis ?s2). if d \<in> set cs
         then \<not> cc_dev (clis s' ! d) \<and> \<not> cc_meta_pool (clis s' ! d) \<and> cc_registered (clis s' ! d) = left_over (d = last cs) (cc_registered (clis ?s2 ! d))
         else cc_registered (clis s' ! d) = cc_registered (clis ?s2 ! d) \<and> cc_dev (clis s' ! d) = cc_dev (clis ?s2 ! d) \<and> cc_meta_pool (clis s' ! d) = cc_meta_pool (clis ?s2 ! d)"
    using Cons.IH [of ?s2 later] l(3) by blast
  have ex: "exit_rdma cfg rc e (c # cs) (evs1 @ evs) s = Some (Inr (s', evs))" using s1(1) s'(1) l(1) by simp
  have dp: "\<not> data_pool s'" using s' by (cases "cs = []") (auto simp: destroy_device_simps)
  have len: "length (clis s') = length (clis s)" using s'(3) s1(2) by (simp add: destroy_device_simps same_memory_def)
  have "if d \<in> set (c # cs)
         then \<not> cc_dev (clis s' ! d) \<and> \<not> cc_meta_pool (clis s' ! d) \<and> cc_registered (clis s' ! d) = left_over (d = last (c # cs)) (cc_registered (clis s ! d))
         else cc_registered (clis s' ! d) = cc_registered (clis s ! d) \<and> cc_dev (clis s' ! d) = cc_dev (clis s ! d) \<and> cc_meta_pool (clis s' ! d) = cc_meta_pool (clis s ! d)"
    if d: "d < length (clis s)" for d
  proof -
    have m: "cc_registered (clis s1 ! d) = cc_registered (clis s ! d)" "cc_dev (clis s1 ! d) = cc_dev (clis s ! d)" "cc_meta_pool (clis s1 ! d) = cc_meta_pool (clis s ! d)"
      using s1(2) d by (simp_all add: same_memory_def)
    have d2: "d < length (clis ?s2)" using d s1(2) by (simp add: destroy_device_simps same_memory_def)
    show ?thesis
    proof (cases "d = c")
      case True
      then have "d \<notin> set cs" using Cons.prems(3) by simp
      moreover have "(c = last (c # cs)) = (cs = [])" using Cons.prems(3) last_in_set [of cs] by (cases "cs = []") auto
      ultimately show ?thesis using s'(4) [rule_format, OF d2] m(1) True c by (simp add: destroy_device_simps)
    next
      case False
      then show ?thesis using s'(4) [rule_format, OF d2] m by (cases "d \<in> set cs") (auto simp: destroy_device_simps)
    qed
  qed
  then show ?case using ex dp len by (intro exI [of _ s']) simp
qed simp

text \<open>
  After the end of the daemon the pools are freed and the devices closed, but the region of every client for
  its filter and for its information is still registered, and so is that of the pages for every client but
  the last, although the memory behind it has been freed.
\<close>

lemma exit_leaks_regions:
  assumes "all_disconnect s evs" "length evs = n * num_qps rc" "0 < n" "n \<le> length (clis s)" "\<forall>c < n. cc_registered (clis s ! c) = all_mrs"
  shows "\<exists>s'. exit_rdma cfg rc e [0..<n] evs s = Some (Inr (s', [])) \<and> \<not> data_pool s' \<and> (\<forall>c < n. \<not> cc_dev (clis s' ! c) \<and> \<not> cc_meta_pool (clis s' ! c)
    \<and> cc_registered (clis s' ! c) = (if c = n - 1 then [] else [Data_mr]) @ [Client_mr, Filter_mr])"
proof -
  have "last [0..<n] = n - 1" using assms(3) by simp
  moreover have "set [0..<n] \<subseteq> {..<length (clis s)}" using assms(4) by auto
  ultimately show ?thesis
    using exit_rdma_leaves [of s evs "[0..<n]" rc cfg e "[]"] assms by (fastforce simp: all_mrs_def left_over_def)
qed

end
