(* ===== verification/Lfstack_Steps.thy ===== *)
theory Lfstack_Steps
  imports Lfstack
begin

text \<open>
  The stack of addresses under contention (\<^verbatim>\<open>daemon/util/lfstack.cpp\<close>): every access to shared memory in
  \<^verbatim>\<open>push\<close>, \<^verbatim>\<open>pop\<close>, \<^verbatim>\<open>stack_push\<close> and \<^verbatim>\<open>stack_pop\<close> is one step of a thread, and the steps of any number of
  threads interleave.  A compare-exchange succeeds only when both words of the head are what the thread
  loaded, and the weak form may fail for no reason.  The main result is that the stack is linearizable:
  each operation takes effect at one moment between its start and its return.
\<close>

section \<open>Steps of a thread\<close>

datatype head_sel = Stack_head | Free_head

definition get_head :: "head_sel \<Rightarrow> LockFreeStack \<Rightarrow> lfstack_head" where
  "get_head sel s = (case sel of Stack_head \<Rightarrow> head s | Free_head \<Rightarrow> free s)"

definition put_head :: "head_sel \<Rightarrow> lfstack_head \<Rightarrow> LockFreeStack \<Rightarrow> LockFreeStack" where
  "put_head sel h s = (case sel of Stack_head \<Rightarrow> s\<lparr>head := h\<rparr> | Free_head \<Rightarrow> s\<lparr>free := h\<rparr>)"

text \<open>
  \<^verbatim>\<open>stack_push\<close> takes a node from the spare chain and puts it on the stack, \<^verbatim>\<open>stack_pop\<close> the other way
  round; \<open>lf_src\<close> and \<open>lf_dst\<close> are the heads the two calls get.
\<close>

fun lf_src :: "stack_op \<Rightarrow> head_sel" where
  "lf_src (SPush v) = Free_head"
| "lf_src SPop = Stack_head"

fun lf_dst :: "stack_op \<Rightarrow> head_sel" where
  "lf_dst (SPush v) = Stack_head"
| "lf_dst SPop = Free_head"

text \<open>
  Where a thread stands: before the load and in the loop of \<^verbatim>\<open>pop\<close>, between \<^verbatim>\<open>pop\<close> and \<^verbatim>\<open>push\<close> where the
  value of the node is written or read, before the load and in the loop of \<^verbatim>\<open>push\<close>, and after the return.
\<close>

datatype lf_pc =
    Pc_idle
  | Pc_pop_load stack_op
  | Pc_pop_body stack_op lfstack_head
  | Pc_pop_cas stack_op lfstack_head nat "nat option"
  | Pc_value stack_op nat
  | Pc_push_load stack_op nat u64
  | Pc_push_body stack_op nat u64 lfstack_head
  | Pc_push_cas stack_op nat u64 lfstack_head
  | Pc_done stack_op stack_res

text \<open>\<^verbatim>\<open>atomic_compare_exchange_weak\<close>; \<open>weak\<close> says that it fails spuriously.  A failure loads the head.\<close>

definition lf_cas :: "bool \<Rightarrow> head_sel \<Rightarrow> lfstack_head \<Rightarrow> lfstack_head \<Rightarrow> LockFreeStack \<Rightarrow> LockFreeStack \<times> lfstack_head option" where
  "lf_cas weak sel orig next s =
     (if \<not> weak \<and> get_head sel s = orig then (put_head sel next s, None) else (s, Some (get_head sel s)))"

definition fail_res :: "stack_op \<Rightarrow> stack_res" where
  "fail_res op = (case op of SPush v \<Rightarrow> RPush (- 1) | SPop \<Rightarrow> RPop (- 1))"

definition ok_res :: "stack_op \<Rightarrow> u64 \<Rightarrow> stack_res" where
  "ok_res op v = (case op of SPush _ \<Rightarrow> RPush 0 | SPop \<Rightarrow> RPop v)"

fun lf_step :: "bool \<Rightarrow> lf_pc \<Rightarrow> LockFreeStack \<Rightarrow> LockFreeStack \<times> lf_pc" where
  "lf_step weak Pc_idle s = (s, Pc_idle)"
| "lf_step weak (Pc_pop_load op) s = (s, Pc_pop_body op (get_head (lf_src op) s))"
| "lf_step weak (Pc_pop_body op orig) s = (case hnode orig of
       None \<Rightarrow> (s, Pc_done op (fail_res op))
     | Some n \<Rightarrow> (s, Pc_pop_cas op orig n (nnext (node_buffer s ! n))))"
| "lf_step weak (Pc_pop_cas op orig n nxt) s =
     (case lf_cas weak (lf_src op) orig \<lparr>aba = aba orig + 1, hnode = nxt\<rparr> s of
       (s', None) \<Rightarrow> (s', Pc_value op n)
     | (s', Some cur) \<Rightarrow> (s', Pc_pop_body op cur))"
| "lf_step weak (Pc_value op n) s = (case op of
       SPush v \<Rightarrow> (s\<lparr>node_buffer := (node_buffer s)[n := (node_buffer s ! n)\<lparr>nvalue := v\<rparr>]\<rparr>, Pc_push_load op n v)
     | SPop \<Rightarrow> (s, Pc_push_load op n (nvalue (node_buffer s ! n))))"
| "lf_step weak (Pc_push_load op n v) s = (s, Pc_push_body op n v (get_head (lf_dst op) s))"
| "lf_step weak (Pc_push_body op n v orig) s =
     (s\<lparr>node_buffer := (node_buffer s)[n := (node_buffer s ! n)\<lparr>nnext := hnode orig\<rparr>]\<rparr>, Pc_push_cas op n v orig)"
| "lf_step weak (Pc_push_cas op n v orig) s =
     (case lf_cas weak (lf_dst op) orig \<lparr>aba = aba orig + 1, hnode = Some n\<rparr> s of
       (s', None) \<Rightarrow> (s', Pc_done op (ok_res op v))
     | (s', Some cur) \<Rightarrow> (s', Pc_push_body op n v cur))"
| "lf_step weak (Pc_done op r) s = (s, Pc_done op r)"

section \<open>Interleaving and history\<close>

text \<open>
  The history records the start of every operation and the moment it takes effect: a push when its node
  is linked into the stack, a pop when its node is unlinked, a failing operation when it loads an empty
  chain.  It is not part of the program.
\<close>

datatype lf_event = Ev_start stack_op | Ev_push u64 | Ev_pop u64 | Ev_empty | Ev_full

fun empty_event :: "stack_op \<Rightarrow> lf_event" where
  "empty_event (SPush v) = Ev_full"
| "empty_event SPop = Ev_empty"

fun lf_events :: "lf_pc \<Rightarrow> lf_pc \<Rightarrow> LockFreeStack \<Rightarrow> lf_event list" where
  "lf_events (Pc_pop_load op) (Pc_pop_body _ orig) s = (if hnode orig = None then [empty_event op] else [])"
| "lf_events (Pc_pop_cas op _ n _) (Pc_pop_body _ orig) s = (if hnode orig = None then [empty_event op] else [])"
| "lf_events (Pc_pop_cas SPop _ n _) (Pc_value _ _) s = [Ev_pop (nvalue (node_buffer s ! n))]"
| "lf_events (Pc_push_cas (SPush v) _ _ _) (Pc_done _ _) s = [Ev_push v]"
| "lf_events _ _ s = []"

text \<open>The head a step changed, if any: the number of changes of each head is counted.\<close>

fun cas_done :: "lf_pc \<Rightarrow> lf_pc \<Rightarrow> head_sel \<Rightarrow> nat" where
  "cas_done (Pc_pop_cas op _ _ _) (Pc_value _ _) sel = (if sel = lf_src op then 1 else 0)"
| "cas_done (Pc_push_cas op _ _ _) (Pc_done _ _) sel = (if sel = lf_dst op then 1 else 0)"
| "cas_done _ _ sel = 0"

fun at_rest :: "lf_pc \<Rightarrow> bool" where
  "at_rest Pc_idle = True"
| "at_rest (Pc_done _ _) = True"
| "at_rest _ = False"

inductive lf_reach :: "lfstack_node list \<Rightarrow> nat \<Rightarrow> (head_sel \<Rightarrow> nat) \<Rightarrow> LockFreeStack \<Rightarrow> lf_pc list \<Rightarrow> (nat \<times> lf_event) list \<Rightarrow> bool" for raw threads where
  lf_new: "LockFreeStack_new raw = Some s \<Longrightarrow> lf_reach raw threads (\<lambda>_. 0) s (replicate threads Pc_idle) []"
| lf_start: "lf_reach raw threads n s pcs hist \<Longrightarrow> t < threads \<Longrightarrow> at_rest (pcs ! t) \<Longrightarrow>
    lf_reach raw threads n s (pcs[t := Pc_pop_load op]) (hist @ [(t, Ev_start op)])"
| lf_go: "lf_reach raw threads n s pcs hist \<Longrightarrow> t < threads \<Longrightarrow> lf_step weak (pcs ! t) s = (s', pc') \<Longrightarrow>
    lf_reach raw threads (\<lambda>sel. n sel + cas_done (pcs ! t) pc' sel) s' (pcs[t := pc']) (hist @ map (Pair t) (lf_events (pcs ! t) pc' s))"

text \<open>A history is legal when the effects, in order, are those of a stack; this is the stack it leaves.\<close>

fun replay :: "lf_event list \<Rightarrow> u64 list \<Rightarrow> u64 list option" where
  "replay [] vs = Some vs"
| "replay (Ev_push v # es) vs = replay es (v # vs)"
| "replay (Ev_pop v # es) vs = (case vs of [] \<Rightarrow> None | w # ws \<Rightarrow> if v = w then replay es ws else None)"
| "replay (Ev_empty # es) vs = (if vs = [] then replay es vs else None)"
| "replay (Ev_start op # es) vs = replay es vs"
| "replay (Ev_full # es) vs = replay es vs"

text \<open>The events of one thread: every start is followed by exactly one effect that fits it.\<close>

fun ev_fits :: "stack_op \<Rightarrow> lf_event \<Rightarrow> bool" where
  "ev_fits (SPush v) e = (e = Ev_push v \<or> e = Ev_full)"
| "ev_fits SPop e = (e = Ev_empty \<or> (\<exists>v. e = Ev_pop v))"

fun alternates :: "lf_event list \<Rightarrow> bool" where
  "alternates [] = True"
| "alternates [e] = (\<exists>op. e = Ev_start op)"
| "alternates (e # e' # es) = ((\<exists>op. e = Ev_start op \<and> ev_fits op e') \<and> alternates es)"

definition thread_events :: "nat \<Rightarrow> (nat \<times> lf_event) list \<Rightarrow> lf_event list" where
  "thread_events t hist = map snd (filter (\<lambda>x. fst x = t) hist)"

text \<open>What an operation returned, given its effect.\<close>

fun lf_returned :: "stack_op \<Rightarrow> stack_res \<Rightarrow> lf_event \<Rightarrow> bool" where
  "lf_returned (SPush v) r e = (r = RPush 0 \<and> e = Ev_push v \<or> r = RPush (- 1) \<and> e = Ev_full)"
| "lf_returned SPop r e = ((\<exists>v. r = RPop v \<and> e = Ev_pop v) \<or> r = RPop (- 1) \<and> e = Ev_empty)"

section \<open>The invariant of the steps\<close>

lemma get_put_head [simp]:
  "get_head sel' (put_head sel h s) = (if sel' = sel then h else get_head sel' s)"
  "node_buffer (put_head sel h s) = node_buffer s"
  "get_head sel (s\<lparr>node_buffer := nb\<rparr>) = get_head sel s"
  by (cases sel; cases sel'; simp add: get_head_def put_head_def)+

text \<open>The node a thread has unlinked from one chain and not yet linked into the other.\<close>

fun held_node :: "lf_pc \<Rightarrow> nat multiset" where
  "held_node (Pc_value op m) = {#m#}"
| "held_node (Pc_push_load op m v) = {#m#}"
| "held_node (Pc_push_body op m v orig) = {#m#}"
| "held_node (Pc_push_cas op m v orig) = {#m#}"
| "held_node _ = {#}"

definition held_nodes :: "lf_pc list \<Rightarrow> nat multiset" where
  "held_nodes pcs = sum_list (map held_node pcs)"

text \<open>
  A loaded head carries the number of changes at the moment of the load; while no change has happened
  since, the head is still the loaded one, and what was read through it still holds.
\<close>

definition lf_fresh :: "(head_sel \<Rightarrow> nat) \<Rightarrow> head_sel \<Rightarrow> LockFreeStack \<Rightarrow> lfstack_head \<Rightarrow> bool \<Rightarrow> bool" where
  "lf_fresh n sel s orig P \<longleftrightarrow> (\<exists>k \<le> n sel. aba orig = of_nat k \<and> (k = n sel \<longrightarrow> get_head sel s = orig \<and> P))"

lemma fresh_node_buffer [simp]: "lf_fresh n sel (s\<lparr>node_buffer := nb\<rparr>) orig P = lf_fresh n sel s orig P"
  by (simp add: lf_fresh_def)

definition lf_carries :: "stack_op \<Rightarrow> u64 \<Rightarrow> lfstack_node \<Rightarrow> bool" where
  "lf_carries op v nd \<longleftrightarrow> (case op of SPush w \<Rightarrow> v = w \<and> nvalue nd = w | SPop \<Rightarrow> True)"

fun pc_ok :: "(head_sel \<Rightarrow> nat) \<Rightarrow> LockFreeStack \<Rightarrow> lf_pc \<Rightarrow> bool" where
  "pc_ok n s (Pc_pop_body op orig) = (lf_fresh n (lf_src op) s orig True \<and> (\<forall>m. hnode orig = Some m \<longrightarrow> m < length (node_buffer s)))"
| "pc_ok n s (Pc_pop_cas op orig m nxt) = (hnode orig = Some m \<and> lf_fresh n (lf_src op) s orig (nxt = nnext (node_buffer s ! m)))"
| "pc_ok n s (Pc_push_load op m v) = lf_carries op v (node_buffer s ! m)"
| "pc_ok n s (Pc_push_body op m v orig) = (lf_fresh n (lf_dst op) s orig True \<and> lf_carries op v (node_buffer s ! m))"
| "pc_ok n s (Pc_push_cas op m v orig) =
     (lf_fresh n (lf_dst op) s orig True \<and> lf_carries op v (node_buffer s ! m) \<and> nnext (node_buffer s ! m) = hnode orig)"
| "pc_ok n s _ = True"

definition chains_ok :: "(head_sel \<Rightarrow> nat) \<Rightarrow> LockFreeStack \<Rightarrow> lf_pc list \<Rightarrow> (head_sel \<Rightarrow> nat list) \<Rightarrow> bool" where
  "chains_ok n s pcs cs \<longleftrightarrow> (\<forall>sel. chain (node_buffer s) (hnode (get_head sel s)) (cs sel) \<and> aba (get_head sel s) = of_nat (n sel))
     \<and> mset (cs Stack_head) + mset (cs Free_head) + held_nodes pcs = mset [0..<length (node_buffer s)]"

definition sinv :: "(head_sel \<Rightarrow> nat) \<Rightarrow> LockFreeStack \<Rightarrow> lf_pc list \<Rightarrow> (head_sel \<Rightarrow> nat list) \<Rightarrow> bool" where
  "sinv n s pcs cs \<longleftrightarrow> chains_ok n s pcs cs \<and> (\<forall>u < length pcs. pc_ok n s (pcs ! u))"

definition values_of :: "LockFreeStack \<Rightarrow> (head_sel \<Rightarrow> nat list) \<Rightarrow> u64 list" where
  "values_of s cs = map (\<lambda>i. nvalue (node_buffer s ! i)) (cs Stack_head)"

lemma held_update:
  "t < length pcs \<Longrightarrow> held_nodes (pcs[t := pc']) + held_node (pcs ! t) = held_nodes pcs + held_node pc'"
  unfolding held_nodes_def by (rule sum_list_update_at)

lemma held_same: "t < length pcs \<Longrightarrow> held_node pc' = held_node (pcs ! t) \<Longrightarrow> held_nodes (pcs[t := pc']) = held_nodes pcs"
  using held_update [of t pcs pc'] by simp

lemma holds_held: "u < length pcs \<Longrightarrow> held_node (pcs ! u) \<subseteq># held_nodes pcs"
  using held_update [of u pcs Pc_idle] by (metis add.right_neutral held_node.simps(5) mset_subset_eq_add_right)

lemma chains_count:
  assumes "chains_ok n s pcs cs"
  shows "count (mset (cs Stack_head)) m + count (mset (cs Free_head)) m + count (held_nodes pcs) m = (if m < length (node_buffer s) then 1 else 0)"
proof -
  have e: "mset (cs Stack_head) + mset (cs Free_head) + held_nodes pcs = mset [0..<length (node_buffer s)]" using assms by (simp add: chains_ok_def)
  have "count (mset [0..<length (node_buffer s)]) m = (if m < length (node_buffer s) then 1 else 0)"
    by (simp add: distinct_count_atmost_1)
  then show ?thesis unfolding e [symmetric] by simp
qed

lemma chains_distinct:
  assumes "chains_ok n s pcs cs"
  shows "m \<in> set (cs Stack_head) \<Longrightarrow> m \<notin> set (cs Free_head) \<and> m \<notin># held_nodes pcs"
    and "m \<in> set (cs Free_head) \<Longrightarrow> m \<notin> set (cs Stack_head) \<and> m \<notin># held_nodes pcs"
    and "m \<in># held_nodes pcs \<Longrightarrow> m \<notin> set (cs sel) \<and> m < length (node_buffer s) \<and> count (held_nodes pcs) m = 1"
    and "m \<in> set (cs sel) \<Longrightarrow> m < length (node_buffer s)"
proof -
  note le = chains_count [OF assms, of m]
  have lsel: "count (mset (cs sel)) m \<le> count (mset (cs Stack_head)) m + count (mset (cs Free_head)) m" by (cases sel) simp_all
  have c: "m \<in> set xs \<longleftrightarrow> 0 < count (mset xs) m" "m \<in># M \<longleftrightarrow> 0 < count M m" for xs M by simp_all
  show "m \<in> set (cs Stack_head) \<Longrightarrow> m \<notin> set (cs Free_head) \<and> m \<notin># held_nodes pcs" using le unfolding c by presburger
  show "m \<in> set (cs Free_head) \<Longrightarrow> m \<notin> set (cs Stack_head) \<and> m \<notin># held_nodes pcs" using le unfolding c by presburger
  show "m \<in># held_nodes pcs \<Longrightarrow> m \<notin> set (cs sel) \<and> m < length (node_buffer s) \<and> count (held_nodes pcs) m = 1"
    using le lsel unfolding c by presburger
  show "m \<in> set (cs sel) \<Longrightarrow> m < length (node_buffer s)" using le lsel unfolding c by presburger
qed

lemma chain_head_in: "chain nb (Some m) is \<Longrightarrow> m \<in> set is \<and> (\<exists>js. is = m # js \<and> chain nb (nnext (nb ! m)) js)"
  by (cases "is") auto

text \<open>A thread that holds a node shares it with no other thread.\<close>

lemma held_once:
  assumes "chains_ok n s pcs cs" "t < length pcs" "u < length pcs" "t \<noteq> u" "m \<in># held_node (pcs ! t)"
  shows "m \<notin># held_node (pcs ! u)"
proof
  assume u: "m \<in># held_node (pcs ! u)"
  have m: "m \<in># held_nodes pcs" using holds_held [OF assms(2)] assms(5) by (meson mset_subset_eqD)
  have one: "count (held_nodes pcs) m = 1" using chains_distinct(3) [OF assms(1) m] by blast
  have "held_nodes (pcs[t := Pc_idle]) + held_node (pcs ! t) = held_nodes pcs" using held_update [OF assms(2), of Pc_idle] by simp
  then have "count (held_nodes (pcs[t := Pc_idle])) m + count (held_node (pcs ! t)) m = 1" using one by (metis count_union)
  then have "count (held_nodes (pcs[t := Pc_idle])) m = 0" using assms(5) unfolding count_greater_zero_iff [symmetric] by linarith
  moreover have "held_node (pcs ! u) \<subseteq># held_nodes (pcs[t := Pc_idle])" using holds_held [of u "pcs[t := Pc_idle]"] assms(3,4) by simp
  ultimately show False using u by (meson count_eq_zero_iff mset_subset_eqD)
qed

text \<open>What a step does to the claims of the other threads.\<close>

lemma pc_ok_write:
  assumes "chains_ok n s pcs cs" "m \<in># held_nodes pcs" "m \<notin># held_node pc" "pc_ok n s pc"
  shows "pc_ok n (s\<lparr>node_buffer := (node_buffer s)[m := x]\<rparr>) pc"
proof -
  have keep: "(node_buffer s)[m := x] ! k = node_buffer s ! k" if "get_head sel s = orig" "hnode orig = Some k" for sel orig k
  proof -
    have "chain (node_buffer s) (Some k) (cs sel)" using assms(1) unfolding chains_ok_def that(2) [symmetric] that(1) [symmetric] by blast
    then have "k \<noteq> m" using chain_head_in chains_distinct(3) [OF assms(1,2)] by blast
    then show ?thesis by simp
  qed
  then have "lf_fresh n sel (s\<lparr>node_buffer := (node_buffer s)[m := x]\<rparr>) orig (nxt = nnext ((node_buffer s)[m := x] ! k))"
    if "lf_fresh n sel s orig (nxt = nnext (node_buffer s ! k))" "hnode orig = Some k" for sel orig nxt k
    using that by (fastforce simp: lf_fresh_def)
  then show ?thesis using assms(3,4) by (cases pc) simp_all
qed

lemma fresh_put_head:
  "lf_fresh n sel s orig P \<Longrightarrow> lf_fresh (\<lambda>sl. n sl + (if sl = sel' then 1 else 0)) sel (put_head sel' h s) orig P"
  unfolding lf_fresh_def by (cases "sel = sel'") (simp, metis le_SucI not_less_eq_eq order_refl, simp)

lemma pc_ok_put_head: "pc_ok n s pc \<Longrightarrow> pc_ok (\<lambda>sl. n sl + (if sl = sel then 1 else 0)) (put_head sel h s) pc"
  by (cases pc) (simp_all add: fresh_put_head)

lemma fresh_now: "lf_fresh n sel s (get_head sel s) True = (aba (get_head sel s) = of_nat (n sel) \<or> (\<exists>k < n sel. aba (get_head sel s) = of_nat k))"
  by (auto simp: lf_fresh_def le_less)

text \<open>A compare-exchange that succeeds finds nothing changed since the load.\<close>

lemma of_nat_u64_inj: "k < 2 ^ 64 \<Longrightarrow> l < 2 ^ 64 \<Longrightarrow> (of_nat k :: u64) = of_nat l \<Longrightarrow> k = l"
  by (simp add: word_of_nat_eq_iff take_bit_nat_eq_self)

lemma fresh_cas:
  assumes "chains_ok n s pcs cs" "lf_fresh n sel s orig P" "get_head sel s = orig" "n sel < 2 ^ 64"
  shows P
proof -
  obtain k where k: "k \<le> n sel" "aba orig = of_nat k" "k = n sel \<longrightarrow> P" using assms(2) by (auto simp: lf_fresh_def)
  have "(of_nat k :: u64) = of_nat (n sel)" using assms(1,3) k(2) by (auto simp: chains_ok_def)
  then show P using of_nat_u64_inj [of k "n sel"] k(1,3) assms(4) by simp
qed

section \<open>Every step keeps the invariant\<close>

lemma sinvI:
  assumes "chains_ok n s (pcs[t := pc']) cs" "pc_ok n s pc'" "\<And>u. u < length pcs \<Longrightarrow> u \<noteq> t \<Longrightarrow> pc_ok n s (pcs ! u)"
  shows "sinv n s (pcs[t := pc']) cs"
  unfolding sinv_def using assms by (metis length_list_update nth_list_update_eq nth_list_update_neq)

lemma sinv_local:
  assumes "sinv n s pcs cs" "t < length pcs" "held_node pc' = held_node (pcs ! t)" "pc_ok n s pc'"
  shows "sinv n s (pcs[t := pc']) cs"
  using assms held_same [OF assms(2,3)] by (simp add: sinv_def chains_ok_def nth_list_update)

lemma sinv_write:
  assumes "sinv n s pcs cs" "t < length pcs" "held_node (pcs ! t) = {#m#}" "held_node pc' = {#m#}"
    and "pc_ok n (s\<lparr>node_buffer := (node_buffer s)[m := x]\<rparr>) pc'"
  shows "sinv n (s\<lparr>node_buffer := (node_buffer s)[m := x]\<rparr>) (pcs[t := pc']) cs"
    and "values_of (s\<lparr>node_buffer := (node_buffer s)[m := x]\<rparr>) cs = values_of s cs"
proof -
  have c: "chains_ok n s pcs cs" and ok: "\<forall>u < length pcs. pc_ok n s (pcs ! u)" using assms(1) by (simp_all add: sinv_def)
  have m: "m \<in># held_nodes pcs" using holds_held [OF assms(2)] assms(3) by (metis mset_subset_eqD union_single_eq_member add_mset_add_single)
  have out: "m \<notin> set (cs sel)" for sel using chains_distinct(3) [OF c m] by blast
  show "values_of (s\<lparr>node_buffer := (node_buffer s)[m := x]\<rparr>) cs = values_of s cs" using out by (simp add: values_of_def)
  have "chains_ok n (s\<lparr>node_buffer := (node_buffer s)[m := x]\<rparr>) (pcs[t := pc']) cs"
    using c out held_same [OF assms(2), of pc'] assms(3,4) by (simp add: chains_ok_def)
  moreover have "pc_ok n (s\<lparr>node_buffer := (node_buffer s)[m := x]\<rparr>) (pcs ! u)" if "u < length pcs" "u \<noteq> t" for u
    using pc_ok_write [OF c m _ ok [rule_format, OF that(1)]] held_once [OF c assms(2) that(1)] assms(3) that(2) by simp
  ultimately show "sinv n (s\<lparr>node_buffer := (node_buffer s)[m := x]\<rparr>) (pcs[t := pc']) cs"
    using assms(5) by (intro sinvI) simp_all
qed

lemma sinv_unlink:
  assumes "sinv n s pcs cs" "t < length pcs" "pcs ! t = Pc_pop_cas op orig m nxt" "get_head (lf_src op) s = orig" "n (lf_src op) < 2 ^ 64"
  shows "\<exists>js. cs (lf_src op) = m # js \<and> sinv (\<lambda>sl. n sl + (if sl = lf_src op then 1 else 0))
      (put_head (lf_src op) \<lparr>aba = aba orig + 1, hnode = nxt\<rparr> s) (pcs[t := Pc_value op m]) (cs(lf_src op := js))"
proof -
  have c: "chains_ok n s pcs cs" and ok: "\<forall>u < length pcs. pc_ok n s (pcs ! u)" using assms(1) by (simp_all add: sinv_def)
  have o: "hnode orig = Some m" "lf_fresh n (lf_src op) s orig (nxt = nnext (node_buffer s ! m))" using ok assms(2,3) by (metis pc_ok.simps(2))+
  have x: "nxt = nnext (node_buffer s ! m)" using fresh_cas [OF c o(2) assms(4,5)] .
  obtain js where j: "cs (lf_src op) = m # js" "chain (node_buffer s) nxt js"
    using c o(1) assms(4) x unfolding chains_ok_def by (metis chain_head_in)
  have h: "held_nodes (pcs[t := Pc_value op m]) = held_nodes pcs + {#m#}" using held_update [OF assms(2), of "Pc_value op m"] assms(3) by simp
  have "chains_ok (\<lambda>sl. n sl + (if sl = lf_src op then 1 else 0)) (put_head (lf_src op) \<lparr>aba = aba orig + 1, hnode = nxt\<rparr> s) (pcs[t := Pc_value op m]) (cs(lf_src op := js))"
    using c j h assms(4) by (cases "lf_src op") (auto simp: chains_ok_def)
  then have "sinv (\<lambda>sl. n sl + (if sl = lf_src op then 1 else 0)) (put_head (lf_src op) \<lparr>aba = aba orig + 1, hnode = nxt\<rparr> s) (pcs[t := Pc_value op m]) (cs(lf_src op := js))"
    using ok by (intro sinvI) (simp_all add: pc_ok_put_head)
  then show ?thesis using j(1) by blast
qed

lemma sinv_link:
  assumes "sinv n s pcs cs" "t < length pcs" "pcs ! t = Pc_push_cas op m v orig" "get_head (lf_dst op) s = orig"
  shows "sinv (\<lambda>sl. n sl + (if sl = lf_dst op then 1 else 0))
      (put_head (lf_dst op) \<lparr>aba = aba orig + 1, hnode = Some m\<rparr> s) (pcs[t := Pc_done op r]) (cs(lf_dst op := m # cs (lf_dst op)))"
proof -
  have c: "chains_ok n s pcs cs" and ok: "\<forall>u < length pcs. pc_ok n s (pcs ! u)" using assms(1) by (simp_all add: sinv_def)
  have o: "nnext (node_buffer s ! m) = hnode orig" using ok assms(2,3) by (metis pc_ok.simps(5))
  have h: "held_nodes (pcs[t := Pc_done op r]) + {#m#} = held_nodes pcs" using held_update [OF assms(2), of "Pc_done op r"] assms(3) by simp
  then have "m < length (node_buffer s)" using chains_distinct(3) [OF c, of m] by (metis union_single_eq_member add_mset_add_single)
  then have "chains_ok (\<lambda>sl. n sl + (if sl = lf_dst op then 1 else 0)) (put_head (lf_dst op) \<lparr>aba = aba orig + 1, hnode = Some m\<rparr> s) (pcs[t := Pc_done op r]) (cs(lf_dst op := m # cs (lf_dst op)))"
    using c o h [symmetric] assms(4) by (cases "lf_dst op") (auto simp: chains_ok_def)
  then show ?thesis using ok by (intro sinvI) (simp_all add: pc_ok_put_head)
qed

lemma fresh_load:
  assumes "sinv n s pcs cs"
  shows "lf_fresh n sel s (get_head sel s) True" "hnode (get_head sel s) = Some m \<Longrightarrow> m < length (node_buffer s)"
    and "hnode (get_head sel s) = None \<longleftrightarrow> cs sel = []"
proof -
  have c: "chains_ok n s pcs cs" using assms by (simp add: sinv_def)
  then show "lf_fresh n sel s (get_head sel s) True" by (auto simp: lf_fresh_def chains_ok_def)
  have ch: "chain (node_buffer s) (hnode (get_head sel s)) (cs sel)" using c by (simp add: chains_ok_def)
  then show "hnode (get_head sel s) = Some m \<Longrightarrow> m < length (node_buffer s)" using chain_head_in chains_distinct(4) [OF c] by metis
  show "hnode (get_head sel s) = None \<longleftrightarrow> cs sel = []" using ch by (cases "cs sel") auto
qed

text \<open>
  One step: the invariant is kept, and the event, if there is one, is what the stack does; first the two
  compare-exchange steps and the two writes to a held node.
\<close>

lemma step_pop_cas:
  assumes "sinv n s pcs cs" "t < length pcs" "pcs ! t = Pc_pop_cas op orig m nxt" "lf_step weak (pcs ! t) s = (s', pc')" "\<forall>sel. n sel < 2 ^ 64"
  shows "\<exists>cs'. sinv (\<lambda>sel. n sel + cas_done (pcs ! t) pc' sel) s' (pcs[t := pc']) cs'
    \<and> replay (lf_events (pcs ! t) pc' s) (values_of s cs) = Some (values_of s' cs')"
proof (cases "\<not> weak \<and> get_head (lf_src op) s = orig")
  case True
  obtain js where j: "cs (lf_src op) = m # js" "sinv (\<lambda>sl. n sl + (if sl = lf_src op then 1 else 0))
      (put_head (lf_src op) \<lparr>aba = aba orig + 1, hnode = nxt\<rparr> s) (pcs[t := Pc_value op m]) (cs(lf_src op := js))"
    using sinv_unlink [OF assms(1-3) _ assms(5) [rule_format]] True by blast
  have e: "s' = put_head (lf_src op) \<lparr>aba = aba orig + 1, hnode = nxt\<rparr> s" "pc' = Pc_value op m" using assms(3,4) True by (simp_all add: lf_cas_def)
  then have "replay (lf_events (pcs ! t) pc' s) (values_of s cs) = Some (values_of s' (cs(lf_src op := js)))"
    using assms(3) j(1) by (cases op) (simp_all add: values_of_def)
  then show ?thesis using j(2) e assms(3) by auto
next
  case False
  then have "s' = s" "pc' = Pc_pop_body op (get_head (lf_src op) s)" using assms(3,4) by (auto simp: lf_cas_def)
  then show ?thesis using sinv_local [OF assms(1,2), of pc'] fresh_load [OF assms(1)] assms(3) by (cases op) (auto simp: values_of_def)
qed

lemma step_push_cas:
  assumes "sinv n s pcs cs" "t < length pcs" "pcs ! t = Pc_push_cas op m v orig" "lf_step weak (pcs ! t) s = (s', pc')"
  shows "\<exists>cs'. sinv (\<lambda>sel. n sel + cas_done (pcs ! t) pc' sel) s' (pcs[t := pc']) cs'
    \<and> replay (lf_events (pcs ! t) pc' s) (values_of s cs) = Some (values_of s' cs')"
proof -
  have ok: "pc_ok n s (pcs ! t)" using assms(1,2) by (simp add: sinv_def)
  show ?thesis
  proof (cases "\<not> weak \<and> get_head (lf_dst op) s = orig")
    case True
    have e: "s' = put_head (lf_dst op) \<lparr>aba = aba orig + 1, hnode = Some m\<rparr> s" "pc' = Pc_done op (ok_res op v)" using assms(3,4) True by (simp_all add: lf_cas_def)
    have "replay (lf_events (pcs ! t) pc' s) (values_of s cs) = Some (values_of s' (cs(lf_dst op := m # cs (lf_dst op))))"
      using assms(3) ok e by (cases op) (simp_all add: values_of_def lf_carries_def)
    then show ?thesis using sinv_link [OF assms(1-3), of "ok_res op v"] e True assms(3) by auto
  next
    case False
    then have "s' = s" "pc' = Pc_push_body op m v (get_head (lf_dst op) s)" using assms(3,4) by (auto simp: lf_cas_def)
    then show ?thesis using sinv_local [OF assms(1,2), of pc'] fresh_load [OF assms(1)] ok assms(3) by (cases op) auto
  qed
qed

lemma held_in_buffer:
  assumes "sinv n s pcs cs" "t < length pcs" "held_node (pcs ! t) = {#m#}"
  shows "m < length (node_buffer s)"
  using chains_distinct(3) [of n s pcs cs m] assms(1,3) holds_held [OF assms(2)] by (simp add: sinv_def)

lemma step_write:
  assumes "sinv n s pcs cs" "t < length pcs" "lf_step weak (pcs ! t) s = (s', pc')"
    and "pcs ! t = Pc_value (SPush w) m \<or> pcs ! t = Pc_push_body op m v orig"
  shows "sinv n s' (pcs[t := pc']) cs" "values_of s' cs = values_of s cs"
proof -
  have h: "held_node (pcs ! t) = {#m#}" "held_node pc' = {#m#}" using assms(3,4) by auto
  note m = held_in_buffer [OF assms(1,2) h(1)]
  obtain x where x: "s' = s\<lparr>node_buffer := (node_buffer s)[m := x]\<rparr>" using assms(3,4) by auto
  have "pc_ok n s (pcs ! t)" using assms(1,2) by (simp add: sinv_def)
  then have "pc_ok n s' pc'" using assms(3,4) m by (cases op) (auto simp: lf_carries_def)
  then show "sinv n s' (pcs[t := pc']) cs" "values_of s' cs = values_of s cs" using sinv_write [OF assms(1,2) h] x by simp_all
qed

lemma sinv_step:
  assumes "sinv n s pcs cs" "t < length pcs" "lf_step weak (pcs ! t) s = (s', pc')" "\<forall>sel. n sel < 2 ^ 64"
  shows "\<exists>cs'. sinv (\<lambda>sel. n sel + cas_done (pcs ! t) pc' sel) s' (pcs[t := pc']) cs'
    \<and> replay (lf_events (pcs ! t) pc' s) (values_of s cs) = Some (values_of s' cs')"
proof -
  have ok: "pc_ok n s (pcs ! t)" using assms(1,2) by (simp add: sinv_def)
  note local = sinv_local [OF assms(1,2), of pc'] and load = fresh_load [OF assms(1)] and wr = step_write [OF assms(1-3)]
  show ?thesis
  proof (cases "pcs ! t")
    case Pc_idle
    then show ?thesis using assms(3) local by auto
  next
    case (Pc_pop_load op)
    then show ?thesis using assms(3) local load by (cases op) (auto simp: values_of_def)
  next
    case (Pc_pop_body op orig)
    then show ?thesis using assms(3) local ok by (auto split: option.splits)
  next
    case (Pc_pop_cas op orig m nxt)
    then show ?thesis using step_pop_cas [OF assms(1,2) _ assms(3,4)] by blast
  next
    case (Pc_value op m)
    then show ?thesis using assms(3) local wr by (cases op) (auto simp: lf_carries_def)
  next
    case (Pc_push_load op m v)
    then show ?thesis using assms(3) local load ok by auto
  next
    case (Pc_push_body op m v orig)
    then show ?thesis using assms(3) wr by auto
  next
    case (Pc_push_cas op m v orig)
    then show ?thesis using step_push_cas [OF assms(1,2) _ assms(3)] by blast
  next
    case (Pc_done op r)
    then have "s' = s" "pc' = Pc_done op r" using assms(3) by simp_all
    then show ?thesis using local Pc_done by (intro exI [of _ cs]) simp
  qed
qed

section \<open>Histories\<close>

definition hist_complete :: "lf_event list \<Rightarrow> bool" where
  "hist_complete es \<longleftrightarrow> alternates es \<and> even (length es)"

definition hist_pending :: "stack_op \<Rightarrow> lf_event list \<Rightarrow> bool" where
  "hist_pending op es \<longleftrightarrow> (\<exists>pre. hist_complete pre \<and> es = pre @ [Ev_start op])"

definition hist_finished :: "stack_op \<Rightarrow> lf_event \<Rightarrow> lf_event list \<Rightarrow> bool" where
  "hist_finished op e es \<longleftrightarrow> (\<exists>pre. hist_complete pre \<and> ev_fits op e \<and> es = pre @ [Ev_start op, e])"

lemma alternates_append: "alternates xs \<Longrightarrow> even (length xs) \<Longrightarrow> alternates (xs @ ys) = alternates ys"
  by (induction xs rule: alternates.induct) auto

lemma complete_Nil [simp]: "hist_complete []"
  by (simp add: hist_complete_def)

lemma complete_start: "hist_complete es \<Longrightarrow> hist_pending op (es @ [Ev_start op])"
  by (auto simp: hist_pending_def)

lemma pending_effect [simp]: "hist_pending op es \<Longrightarrow> ev_fits op e \<Longrightarrow> hist_finished op e (es @ [e])"
  by (auto simp: hist_pending_def hist_finished_def)

lemma finished_complete: "hist_finished op e es \<Longrightarrow> hist_complete es"
  by (auto simp: hist_finished_def hist_complete_def alternates_append)

lemma history_alternates: "hist_complete es \<Longrightarrow> alternates es" "hist_pending op es \<Longrightarrow> alternates es"
  by (auto simp: hist_complete_def hist_pending_def alternates_append)

lemma fits_empty [simp]: "ev_fits op (empty_event op)"
  by (cases op) simp_all

lemma thread_events_append [simp]: "thread_events t (xs @ ys) = thread_events t xs @ thread_events t ys"
  by (simp add: thread_events_def)

lemma thread_events_own [simp]: "thread_events t (map (Pair t) es) = es" "thread_events t [(t, e)] = [e]"
  by (simp_all add: thread_events_def filter_map comp_def)

lemma thread_events_other [simp]: "u \<noteq> t \<Longrightarrow> thread_events u (map (Pair t) es) = []" "u \<noteq> t \<Longrightarrow> thread_events u [(t, e)] = []"
  by (simp_all add: thread_events_def filter_map comp_def)

lemma replay_append: "replay (xs @ ys) vs = Option.bind (replay xs vs) (replay ys)"
  by (induction xs vs rule: replay.induct) (auto split: list.splits)

text \<open>Where a thread stands tells whether its operation has taken effect.\<close>

fun hist_taken :: "stack_op \<Rightarrow> u64 \<Rightarrow> lf_event list \<Rightarrow> bool" where
  "hist_taken (SPush w) v es = hist_pending (SPush w) es"
| "hist_taken SPop v es = hist_finished SPop (Ev_pop v) es"

fun ev_ok :: "LockFreeStack \<Rightarrow> lf_pc \<Rightarrow> lf_event list \<Rightarrow> bool" where
  "ev_ok s Pc_idle es = hist_complete es"
| "ev_ok s (Pc_pop_load op) es = hist_pending op es"
| "ev_ok s (Pc_pop_body op orig) es = (if hnode orig = None then hist_finished op (empty_event op) es else hist_pending op es)"
| "ev_ok s (Pc_pop_cas op orig m nxt) es = hist_pending op es"
| "ev_ok s (Pc_value op m) es = hist_taken op (nvalue (node_buffer s ! m)) es"
| "ev_ok s (Pc_push_load op m v) es = hist_taken op v es"
| "ev_ok s (Pc_push_body op m v orig) es = hist_taken op v es"
| "ev_ok s (Pc_push_cas op m v orig) es = hist_taken op v es"
| "ev_ok s (Pc_done op r) es = (\<exists>e. hist_finished op e es \<and> lf_returned op r e)"

lemma ev_ok_alternates: "ev_ok s pc es \<Longrightarrow> alternates es"
  using finished_complete history_alternates by (cases "(s, pc, es)" rule: ev_ok.cases; auto elim!: hist_taken.elims split: if_splits)

lemma ev_ok_rest: "ev_ok s pc es \<Longrightarrow> at_rest pc \<Longrightarrow> hist_complete es"
  by (cases pc) (auto dest: finished_complete)

text \<open>The step of a thread, seen by itself and by the others.\<close>

lemma ev_ok_step:
  assumes "ev_ok s pc es" "pc_ok n s pc" "lf_step weak pc s = (s', pc')"
  shows "ev_ok s' pc' (es @ lf_events pc pc' s)"
proof (cases pc)
  case (Pc_pop_load op)
  then show ?thesis using assms by auto
next
  case (Pc_pop_body op orig)
  then show ?thesis using assms by (cases op) (auto simp: fail_res_def split: option.splits)
next
  case (Pc_pop_cas op orig m nxt)
  then show ?thesis using assms by (cases op) (auto simp: lf_cas_def split: if_splits)
next
  case (Pc_value op m)
  then show ?thesis using assms by (cases op) auto
next
  case (Pc_push_cas op m v orig)
  then show ?thesis using assms by (cases op) (auto simp: lf_cas_def ok_res_def split: if_splits)
qed (use assms in auto)

lemma ev_ok_frame:
  assumes "lf_step weak pc s = (s', pc')" "\<forall>m. m \<in># held_node pc \<longrightarrow> m \<notin># held_node pc2"
  shows "ev_ok s' pc2 es = ev_ok s pc2 es"
  using assms by (cases pc; cases pc2) (auto simp: lf_cas_def split: option.splits stack_op.splits if_splits)

section \<open>Reachable states\<close>

lemma distinct_mset_upt: "distinct xs \<Longrightarrow> set xs = {..<n} \<Longrightarrow> mset xs = mset [0..<n]"
  by (metis atLeast0LessThan distinct_upt set_eq_iff_mset_eq_distinct set_upt)

lemma sinv_new:
  assumes "LockFreeStack_new raw = Some s"
  shows "sinv (\<lambda>_. 0) s (replicate threads Pc_idle) (\<lambda>sel. case sel of Stack_head \<Rightarrow> lf_nodes s | Free_head \<Rightarrow> lf_spare s)"
proof -
  note i = LockFreeStack_new_inv [OF assms, unfolded lf_inv_def, THEN conjunct1]
  have "mset (lf_nodes s @ lf_spare s) = mset [0..<lf_cap s]" using i by (intro distinct_mset_upt) blast+
  moreover have "held_nodes (replicate threads Pc_idle) = {#}" by (induction threads) (simp_all add: held_nodes_def)
  moreover have "aba (get_head sel s) = 0" for sel using assms by (cases sel) (auto simp: LockFreeStack_new_def get_head_def split: if_splits)
  ultimately show ?thesis using i by (auto simp: sinv_def chains_ok_def get_head_def lf_cap_def split: head_sel.split)
qed

lemma lf_reach_threads: "lf_reach raw threads n s pcs hist \<Longrightarrow> length pcs = threads"
  by (induction rule: lf_reach.induct) simp_all

lemma lf_step_buffer: "lf_step weak pc s = (s', pc') \<Longrightarrow> length (node_buffer s') = length (node_buffer s)"
  by (cases pc) (auto simp: lf_cas_def split: option.splits stack_op.splits if_splits)

lemma lf_reach_buffer: "lf_reach raw threads n s pcs hist \<Longrightarrow> length (node_buffer s) = length raw"
  by (induction rule: lf_reach.induct) (auto simp: LockFreeStack_new_def lf_step_buffer split: if_splits)

lemma lf_reach_inv:
  assumes "lf_reach raw threads n s pcs hist" "\<forall>sel. n sel < 2 ^ 64"
  shows "\<exists>cs. sinv n s pcs cs \<and> replay (map snd hist) [] = Some (values_of s cs) \<and> (\<forall>u < threads. ev_ok s (pcs ! u) (thread_events u hist))"
  using assms
proof (induction rule: lf_reach.induct)
  case (lf_new s)
  then have "lf_nodes s = []" using LockFreeStack_new_inv [OF lf_new(1)] by (simp add: lf_abs_def)
  then have "values_of s (\<lambda>sel. case sel of Stack_head \<Rightarrow> lf_nodes s | Free_head \<Rightarrow> lf_spare s) = []" by (simp add: values_of_def)
  then have "replay (map snd []) [] = Some (values_of s (\<lambda>sel. case sel of Stack_head \<Rightarrow> lf_nodes s | Free_head \<Rightarrow> lf_spare s))" by simp
  moreover have "\<forall>u < threads. ev_ok s (replicate threads Pc_idle ! u) (thread_events u [])" by (simp add: thread_events_def)
  ultimately show ?case using sinv_new [OF lf_new(1), of threads] by blast
next
  case (lf_start n s pcs hist t op)
  then obtain cs where c: "sinv n s pcs cs" "replay (map snd hist) [] = Some (values_of s cs)" "\<forall>u < threads. ev_ok s (pcs ! u) (thread_events u hist)" by blast
  note l = lf_reach_threads [OF lf_start(1)]
  have "held_node (pcs ! t) = {#}" using lf_start(3) by (cases "pcs ! t") simp_all
  then have "sinv n s (pcs[t := Pc_pop_load op]) cs" using sinv_local [OF c(1), of t "Pc_pop_load op"] lf_start(2) l by simp
  moreover have "replay (map snd (hist @ [(t, Ev_start op)])) [] = Some (values_of s cs)" using c(2) by (simp add: replay_append)
  moreover have "ev_ok s (pcs[t := Pc_pop_load op] ! u) (thread_events u (hist @ [(t, Ev_start op)]))" if "u < threads" for u
    using c(3) that l lf_start(3) ev_ok_rest complete_start by (cases "u = t") fastforce+
  ultimately show ?case by blast
next
  case (lf_go n s pcs hist t weak s' pc')
  have b: "\<forall>sel. n sel < 2 ^ 64" using lf_go.prems by (meson add_lessD1)
  then obtain cs where c: "sinv n s pcs cs" "replay (map snd hist) [] = Some (values_of s cs)" "\<forall>u < threads. ev_ok s (pcs ! u) (thread_events u hist)" using lf_go.IH by blast
  note l = lf_reach_threads [OF lf_go(1)]
  obtain cs' where s': "sinv (\<lambda>sel. n sel + cas_done (pcs ! t) pc' sel) s' (pcs[t := pc']) cs'" "replay (lf_events (pcs ! t) pc' s) (values_of s cs) = Some (values_of s' cs')"
    using sinv_step [OF c(1) _ lf_go(3) b] lf_go(2) l by blast
  have "replay (map snd (hist @ map (Pair t) (lf_events (pcs ! t) pc' s))) [] = Some (values_of s' cs')" using c(2) s'(2) by (simp add: replay_append comp_def)
  moreover have "ev_ok s' (pcs[t := pc'] ! u) (thread_events u (hist @ map (Pair t) (lf_events (pcs ! t) pc' s)))" if u: "u < threads" for u
  proof (cases "u = t")
    case True
    have "pc_ok n s (pcs ! t)" using c(1) lf_go(2) l by (simp add: sinv_def)
    then show ?thesis using ev_ok_step [OF _ _ lf_go(3)] c(3) lf_go(2) l True by simp
  next
    case False
    have "\<forall>m. m \<in># held_node (pcs ! t) \<longrightarrow> m \<notin># held_node (pcs ! u)" using held_once c(1) lf_go(2) u l False unfolding sinv_def by metis
    then show ?thesis using ev_ok_frame [OF lf_go(3)] c(3) u False by simp
  qed
  ultimately show ?case using s'(1) by blast
qed

text \<open>The chains of a reachable state are the ones the sequential reading of the buffer finds.\<close>

lemma sinv_nodes:
  assumes "sinv n s pcs cs"
  shows "lf_nodes s = cs Stack_head" "lf_spare s = cs Free_head"
proof -
  have c: "chains_ok n s pcs cs" using assms by (simp add: sinv_def)
  have "size (mset (cs Stack_head) + mset (cs Free_head) + held_nodes pcs) = length (node_buffer s)" using c by (simp add: chains_ok_def)
  then have "length (cs Stack_head) \<le> length (node_buffer s)" "length (cs Free_head) \<le> length (node_buffer s)" by simp_all
  moreover have "chain (node_buffer s) (hnode (head s)) (cs Stack_head)" "chain (node_buffer s) (hnode (free s)) (cs Free_head)"
    using c unfolding chains_ok_def get_head_def by (metis head_sel.simps(3), metis head_sel.simps(4))
  ultimately show "lf_nodes s = cs Stack_head" "lf_spare s = cs Free_head" by (simp_all add: lf_nodes_def lf_spare_def lf_cap_def walk_chain)
qed

text \<open>
  C9. The address stack is linearizable under contention: for any number of threads and any interleaving
  of their accesses to memory, as long as neither head has changed 2^64 times, every operation takes
  effect at exactly one moment after its start, the effects in their order are those of a last in first
  out stack that holds what is now on the stack, what an operation returned fits its effect, and no node
  is ever lost or in two places.
\<close>

theorem lfstack_linearizable:
  assumes "lf_reach raw threads n s pcs hist" "\<forall>sel. n sel < 2 ^ 64"
  shows "replay (map snd hist) [] = Some (lf_abs s)
    \<and> (\<forall>t < threads. alternates (thread_events t hist))
    \<and> (\<forall>t < threads. \<forall>op r. pcs ! t = Pc_done op r \<longrightarrow> (\<exists>pre e. thread_events t hist = pre @ [Ev_start op, e] \<and> lf_returned op r e))
    \<and> mset (lf_nodes s) + mset (lf_spare s) + held_nodes pcs = mset [0..<length raw]"
proof -
  obtain cs where c: "sinv n s pcs cs" "replay (map snd hist) [] = Some (values_of s cs)" "\<forall>u < threads. ev_ok s (pcs ! u) (thread_events u hist)"
    using lf_reach_inv [OF assms] by blast
  have "mset (lf_nodes s) + mset (lf_spare s) + held_nodes pcs = mset [0..<length raw]"
    using c(1) sinv_nodes [OF c(1)] lf_reach_buffer [OF assms(1)] by (simp add: sinv_def chains_ok_def)
  moreover have "replay (map snd hist) [] = Some (lf_abs s)" using c(2) sinv_nodes [OF c(1)] by (simp add: values_of_def lf_abs_def)
  moreover have "\<exists>pre e. thread_events t hist = pre @ [Ev_start op, e] \<and> lf_returned op r e" if "t < threads" "pcs ! t = Pc_done op r" for t op r
    using c(3) that unfolding hist_finished_def by (metis ev_ok.simps(9) hist_finished_def)
  ultimately show ?thesis using c(3) ev_ok_alternates by blast
qed

text \<open>A schedule: who starts what, and who takes the next step.\<close>

datatype lf_action = Act_start nat stack_op | Act_go nat bool

fun lf_sched :: "lf_action list \<Rightarrow> (head_sel \<Rightarrow> nat) \<times> LockFreeStack \<times> lf_pc list \<times> (nat \<times> lf_event) list \<Rightarrow>
    (head_sel \<Rightarrow> nat) \<times> LockFreeStack \<times> lf_pc list \<times> (nat \<times> lf_event) list" where
  "lf_sched [] c = c"
| "lf_sched (Act_start t op # as) (n, s, pcs, hist) =
     (if at_rest (pcs ! t) then lf_sched as (n, s, pcs[t := Pc_pop_load op], hist @ [(t, Ev_start op)]) else (n, s, pcs, hist))"
| "lf_sched (Act_go t weak # as) (n, s, pcs, hist) = (case lf_step weak (pcs ! t) s of (s', pc') \<Rightarrow>
     lf_sched as (\<lambda>sel. n sel + cas_done (pcs ! t) pc' sel, s', pcs[t := pc'], hist @ map (Pair t) (lf_events (pcs ! t) pc' s)))"

lemma lf_sched_reach:
  assumes "lf_reach raw threads n s pcs hist" "\<forall>a \<in> set as. case a of Act_start t op \<Rightarrow> t < threads | Act_go t weak \<Rightarrow> t < threads"
    and "lf_sched as (n, s, pcs, hist) = (n', s', pcs', hist')"
  shows "lf_reach raw threads n' s' pcs' hist'"
  using assms
proof (induction as "(n, s, pcs, hist)" arbitrary: n s pcs hist rule: lf_sched.induct)
  case (2 t op as n s pcs hist)
  then show ?case using lf_start by (auto split: if_splits)
next
  case (3 t weak as n s pcs hist)
  then show ?case using lf_go by (auto split: prod.splits)
qed auto

text \<open>
  Two threads push 7 and 9 at once: the second takes the spare node the first was about to take, so that
  the first has to load the head again; then both finish and the first pops the 7 again.
\<close>

theorem lfstack_linearizable_witness:
  "\<exists>n s pcs hist. lf_reach [\<lparr>nvalue = 0, nnext = None\<rparr>, \<lparr>nvalue = 0, nnext = None\<rparr>] 2 n s pcs hist \<and> lf_abs s = [9]
     \<and> map snd hist = [Ev_start (SPush 7), Ev_start (SPush 9), Ev_push 9, Ev_push 7, Ev_start SPop, Ev_pop 7]"
proof -
  let ?raw = "[\<lparr>nvalue = 0, nnext = None\<rparr>, \<lparr>nvalue = 0, nnext = None\<rparr>] :: lfstack_node list"
  let ?as = "[Act_start 0 (SPush 7), Act_start 1 (SPush 9), Act_go 0 False, Act_go 0 False, Act_go 1 False, Act_go 1 False, Act_go 1 False, Act_go 0 False, Act_go 0 False,
      Act_go 1 False, Act_go 1 False, Act_go 1 False, Act_go 1 False, Act_go 0 False, Act_go 0 False, Act_go 0 False, Act_go 0 True, Act_go 0 False, Act_go 0 False,
      Act_start 0 SPop, Act_go 0 False, Act_go 0 False, Act_go 0 False]"
  let ?s0 = "\<lparr>node_buffer = [\<lparr>nvalue = 0, nnext = Some 1\<rparr>, \<lparr>nvalue = 0, nnext = None\<rparr>], head = \<lparr>aba = 0, hnode = None\<rparr>, free = \<lparr>aba = 0, hnode = Some 0\<rparr>\<rparr>"
  let ?run = "lf_sched ?as (\<lambda>_. 0, ?s0, [Pc_idle, Pc_idle], [])"
  have s0: "LockFreeStack_new ?raw = Some ?s0" by (simp add: LockFreeStack_new_def upt_rec)
  obtain n s pcs hist where r: "?run = (n, s, pcs, hist)" by (metis prod_cases4)
  have start: "lf_reach ?raw 2 (\<lambda>_. 0) ?s0 [Pc_idle, Pc_idle] []" using lf_new [OF s0, of 2] by (simp add: numeral_2_eq_2)
  have reach: "lf_reach ?raw 2 n s pcs hist" by (rule lf_sched_reach [OF start _ r]) simp
  have "map snd (snd (snd (snd ?run))) = [Ev_start (SPush 7), Ev_start (SPush 9), Ev_push 9, Ev_push 7, Ev_start SPop, Ev_pop 7]" by code_simp
  then have h: "map snd hist = [Ev_start (SPush 7), Ev_start (SPush 9), Ev_push 9, Ev_push 7, Ev_start SPop, Ev_pop 7]" unfolding r by simp
  have "fst ?run Stack_head = 3" "fst ?run Free_head = 2" by code_simp+
  then have "n Stack_head = 3" "n Free_head = 2" unfolding r by simp_all
  then have "n sel < 2 ^ 64" for sel by (cases sel) simp_all
  then have "replay (map snd hist) [] = Some (lf_abs s)" using lfstack_linearizable [OF reach] by simp
  then have "lf_abs s = [9]" unfolding h by simp
  then show ?thesis using reach h by (intro exI [of _ n] exI [of _ s] exI [of _ pcs] exI [of _ hist]) simp
qed

text \<open>A thread that runs alone does what the operations without contention do.\<close>

lemma lf_alone:
  "((\<lambda>(s, pc). lf_step False pc s) ^^ 7) (s, Pc_pop_load (SPush v)) = (case stack_push v s of (s', r) \<Rightarrow> (s', Pc_done (SPush v) (RPush r)))"
  "((\<lambda>(s, pc). lf_step False pc s) ^^ 7) (s, Pc_pop_load SPop) = (case stack_pop s of (s', r) \<Rightarrow> (s', Pc_done SPop (RPop r)))"
  by (cases "hnode (free s)"; simp add: numeral_eq_Suc stack_push_def lf_pop_def lf_push_def lf_cas_def get_head_def put_head_def fail_res_def ok_res_def Let_def;
      cases "hnode (head s)"; simp add: numeral_eq_Suc stack_pop_def lf_pop_def lf_push_def lf_cas_def get_head_def put_head_def fail_res_def ok_res_def Let_def)+

end
