(* ===== verification/Lpa_Steps.thy ===== *)
theory Lpa_Steps
  imports Linear_Probing "HOL-Library.Multiset"
begin

text \<open>
  The index of the daemon under contention (\<^verbatim>\<open>daemon/hash-table/linear_probing_approx.cpp\<close>): the pollers, the
  request handlers and the evictor threads of all clients call it at the same time.  Every call is a sequence of
  steps, one per bucket, between the locking and unlocking of the ranges of 16 buckets; the steps of any number
  of threads interleave in any order.  The searches of \<open>Linear_Probing\<close> are the loops of this theory run by one
  thread.
\<close>

section \<open>Calls and control points\<close>

datatype lpa_call =
    C_insert Key_t Value_t Key_t
  | C_delete Key_t
  | C_get Key_t
  | C_flag Key_t bool
  | C_evict

datatype lpa_ret =
    R_insert int Key_t Value_t
  | R_value Value_t
  | R_evict Key_t Value_t
  | R_throw lpa_error

fun call_key :: "lpa_call \<Rightarrow> Key_t" where
  "call_key (C_insert k v ek) = k"
| "call_key (C_delete k) = k"
| "call_key (C_get k) = k"
| "call_key (C_flag k b) = k"
| "call_key C_evict = INVALID"

text \<open>
  Where a thread stands: in front of the lock of the next range of \<^verbatim>\<open>Delete\<close>, \<^verbatim>\<open>Insert\<close>, \<^verbatim>\<open>Get\<close> (also with the
  flag) or \<^verbatim>\<open>ApproxLRUEvict\<close>, or at a bucket with that lock held; \<open>Lp_ev_start\<close> is the label RETRY.  An insertion
  starts with a deletion.
\<close>

datatype lpa_pc =
    Lp_idle
  | Lp_del_lock lpa_call nat
  | Lp_del lpa_call nat
  | Lp_ins_lock lpa_call nat victim_scan
  | Lp_ins lpa_call nat victim_scan
  | Lp_get_lock lpa_call nat
  | Lp_get lpa_call nat
  | Lp_ev_start nat victim_scan
  | Lp_ev_lock nat nat nat victim_scan
  | Lp_ev nat nat nat victim_scan
  | Lp_done lpa_call lpa_ret

definition lock_of :: "LinearProbingApprox \<Rightarrow> nat \<Rightarrow> nat" where
  "lock_of t slot = slot div lock_size t"

text \<open>The lock that a thread holds alone, or shares.\<close>

fun holds_x :: "LinearProbingApprox \<Rightarrow> lpa_pc \<Rightarrow> nat option" where
  "holds_x t (Lp_del c i) = Some (lock_of t (slot_of t (call_key c) i))"
| "holds_x t (Lp_ins c i sc) = Some (lock_of t (slot_of t (call_key c) i))"
| "holds_x t (Lp_ev n loc i sc) = Some (lock_of t ((loc + i) mod capacity t))"
| "holds_x t _ = None"

fun holds_s :: "LinearProbingApprox \<Rightarrow> lpa_pc \<Rightarrow> nat option" where
  "holds_s t (Lp_get c i) = Some (lock_of t (slot_of t (call_key c) i))"
| "holds_s t _ = None"

section \<open>Steps\<close>

definition start_pc :: "lpa_call \<Rightarrow> lpa_pc" where
  "start_pc c = (case c of C_insert k v ek \<Rightarrow> Lp_del_lock c 0 | C_delete k \<Rightarrow> Lp_del_lock c 0 | C_get k \<Rightarrow> Lp_get_lock c 0
     | C_flag k b \<Rightarrow> Lp_get_lock c 0 | C_evict \<Rightarrow> Lp_ev_start 0 scan_init)"

text \<open>What follows a deletion with the given result.\<close>

definition after_delete :: "lpa_call \<Rightarrow> Value_t \<Rightarrow> lpa_pc" where
  "after_delete c v = (case c of
       C_insert k value ek \<Rightarrow> if v \<noteq> NONE then Lp_done c (R_insert 0 ek v) else Lp_ins_lock c 0 scan_init
     | _ \<Rightarrow> Lp_done c (R_value v))"

definition same_range :: "LinearProbingApprox \<Rightarrow> nat \<Rightarrow> nat \<Rightarrow> bool" where
  "same_range t i slot' \<longleftrightarrow> i < capacity t \<and> slot' mod lock_size t \<noteq> 0"

definition del_step :: "lpa_call \<Rightarrow> nat \<Rightarrow> LinearProbingApprox \<Rightarrow> LinearProbingApprox \<times> lpa_pc" where
  "del_step c i t =
     (let key = call_key c; slot = slot_of t key i
      in if bkt_key (buckets t ! slot) = key then
           (t\<lparr>buckets := (buckets t)[slot := (buckets t ! slot)\<lparr>bkt_key := TOMBSTONE\<rparr>]\<rparr>, after_delete c (bkt_value (buckets t ! slot)))
         else if bkt_key (buckets t ! slot) = INVALID then (t, after_delete c NONE)
         else if i \<ge> MAX_PROBING_LEN then (t, after_delete c NONE)
         else (t, if same_range t (i + 1) (slot_of t key (i + 1)) then Lp_del c (i + 1) else Lp_del_lock c (i + 1)))"

definition ins_result :: "lpa_call \<Rightarrow> LinearProbingApprox \<Rightarrow> insert_result \<Rightarrow> LinearProbingApprox \<times> lpa_pc" where
  "ins_result c t r = (case r of Inl x \<Rightarrow> (t, Lp_done c (R_throw x)) | Inr (t', ret, ek, ev) \<Rightarrow> (t', Lp_done c (R_insert ret ek ev)))"

definition ins_step :: "u32 \<Rightarrow> (nat \<Rightarrow> bool) \<Rightarrow> lpa_call \<Rightarrow> nat \<Rightarrow> victim_scan \<Rightarrow> LinearProbingApprox \<Rightarrow> LinearProbingApprox \<times> lpa_pc" where
  "ins_step now try_lock c i sc t = (case c of
       C_insert key value ek \<Rightarrow>
         (let slot = slot_of t key i
          in if IsVacantBucket t slot then
               (if bkt_key (buckets t ! slot) = key then (t, Lp_done c (R_throw KeyDuplicated))
                else (SetBucket now slot key value t, Lp_done c (R_insert 0 ek NONE)))
             else let sc1 = note_victim t slot sc
                  in if i \<ge> MAX_PROBING_LEN then ins_result c t (Insert_collide now try_lock key value ek sc1 t)
                     else (t, if same_range t (i + 1) (slot_of t key (i + 1)) then Lp_ins c (i + 1) sc1
                              else Lp_ins_lock c (i + 1) (next_range (lock_of t slot) sc1)))
     | _ \<Rightarrow> (t, Lp_ins c i sc))"

definition get_step :: "u32 \<Rightarrow> lpa_call \<Rightarrow> nat \<Rightarrow> LinearProbingApprox \<Rightarrow> LinearProbingApprox \<times> lpa_pc" where
  "get_step now c i t =
     (let key = call_key c; slot = slot_of t key i; b = buckets t ! slot
      in if bkt_key b = key then (case c of
             C_flag k fl \<Rightarrow> (if fl then (t\<lparr>buckets := (buckets t)[slot := b\<lparr>busy := fl, timestamp := now\<rparr>]\<rparr>, Lp_done c (R_value (bkt_value b)))
                            else (t\<lparr>buckets := (buckets t)[slot := b\<lparr>busy := fl\<rparr>]\<rparr>, Lp_done c (R_value NONE)))
           | _ \<Rightarrow> (t\<lparr>buckets := (buckets t)[slot := b\<lparr>timestamp := now\<rparr>]\<rparr>, Lp_done c (R_value (bkt_value b))))
         else if bkt_key b = INVALID \<or> i \<ge> MAX_PROBING_LEN then (t, Lp_done c (R_value NONE))
         else (t, Lp_get_lock c (i + 1)))"

definition ev_result :: "nat \<Rightarrow> LinearProbingApprox \<Rightarrow> evict_outcome \<Rightarrow> LinearProbingApprox \<times> lpa_pc" where
  "ev_result n t r = (case r of
       EvictRetry sc \<Rightarrow> (t, Lp_ev_start (n + 1) sc)
     | EvictEnd \<Rightarrow> (t, Lp_done C_evict (R_throw EvictKeyReserved))
     | Evicted t' key value \<Rightarrow> (t', Lp_done C_evict
         (if key = INVALID \<or> key = TOMBSTONE then R_throw EvictKeyReserved else if value = NONE then R_throw EvictValueNone else R_evict key value)))"

definition ev_step :: "(nat \<Rightarrow> bool) \<Rightarrow> nat \<Rightarrow> nat \<Rightarrow> nat \<Rightarrow> victim_scan \<Rightarrow> LinearProbingApprox \<Rightarrow> LinearProbingApprox \<times> lpa_pc" where
  "ev_step try_lock n loc i sc t =
     (let slot = (loc + i) mod capacity t
      in if IsValidBucket t slot \<and> busy (buckets t ! slot) then (t, Lp_ev_start (n + 1) sc)
         else if IsValidBucket t slot \<and> n > 2 then
           ev_result n t (Evict_direct try_lock (sc\<lparr>prev_victim_slot := None, victim_slot := Some slot\<rparr>) t)
         else let sc1 = (if IsValidBucket t slot then note_victim t slot sc else sc)
              in if i \<ge> MAX_PROBING_LEN then ev_result n t (Evict_direct try_lock sc1 t)
                 else (t, if same_range t (i + 1) ((loc + (i + 1)) mod capacity t) then Lp_ev n loc (i + 1) sc1
                          else Lp_ev_lock n loc (i + 1) (next_range (lock_of t slot) sc1)))"

text \<open>
  One step of a thread.  \<open>free_x l\<close> says that no other thread holds the lock \<open>l\<close> in any way, \<open>free_s l\<close> that none
  holds it alone; a thread waits in front of a lock that is taken.  \<open>weak\<close> lets a \<^verbatim>\<open>try_lock\<close> fail although
  the lock is free; one for the lock the thread holds itself fails.  The lock of the previous range is taken, used
  and given back within one step, while the lock of the current range is held.
\<close>

fun lpa_step :: "u32 \<Rightarrow> nat \<Rightarrow> bool \<Rightarrow> (nat \<Rightarrow> bool) \<Rightarrow> (nat \<Rightarrow> bool) \<Rightarrow> lpa_pc \<Rightarrow> LinearProbingApprox \<Rightarrow> LinearProbingApprox \<times> lpa_pc" where
  "lpa_step now rand weak free_x free_s Lp_idle t = (t, Lp_idle)"
| "lpa_step now rand weak free_x free_s (Lp_del_lock c i) t =
     (if \<not> i < capacity t then (t, after_delete c NONE)
      else (t, if free_x (lock_of t (slot_of t (call_key c) i)) then Lp_del c i else Lp_del_lock c i))"
| "lpa_step now rand weak free_x free_s (Lp_del c i) t = del_step c i t"
| "lpa_step now rand weak free_x free_s (Lp_ins_lock c i sc) t =
     (if \<not> i < capacity t then (t, case c of C_insert k v ek \<Rightarrow> Lp_done c (R_insert 0 ek NONE) | _ \<Rightarrow> Lp_ins_lock c i sc)
      else (t, if free_x (lock_of t (slot_of t (call_key c) i)) then Lp_ins c i sc else Lp_ins_lock c i sc))"
| "lpa_step now rand weak free_x free_s (Lp_ins c i sc) t =
     ins_step now (\<lambda>l. \<not> weak \<and> free_x l \<and> holds_x t (Lp_ins c i sc) \<noteq> Some l) c i sc t"
| "lpa_step now rand weak free_x free_s (Lp_get_lock c i) t =
     (if \<not> i < capacity t then (t, Lp_done c (R_value NONE))
      else (t, if free_s (lock_of t (slot_of t (call_key c) i)) then Lp_get c i else Lp_get_lock c i))"
| "lpa_step now rand weak free_x free_s (Lp_get c i) t = get_step now c i t"
| "lpa_step now rand weak free_x free_s (Lp_ev_start n sc) t =
     (t, Lp_ev_lock n (rand mod capacity t) 0 (sc\<lparr>prev_min_timestamp := - 1, prev_lock_idx := None, prev_victim_slot := None\<rparr>))"
| "lpa_step now rand weak free_x free_s (Lp_ev_lock n loc i sc) t =
     (if \<not> i < capacity t then (t, Lp_done C_evict (R_throw EvictKeyReserved))
      else if \<not> weak \<and> free_x (lock_of t ((loc + i) mod capacity t)) then (t, Lp_ev n loc i sc)
      else (t, Lp_ev_start (n + 1) sc))"
| "lpa_step now rand weak free_x free_s (Lp_ev n loc i sc) t =
     ev_step (\<lambda>l. \<not> weak \<and> free_x l \<and> holds_x t (Lp_ev n loc i sc) \<noteq> Some l) n loc i sc t"
| "lpa_step now rand weak free_x free_s (Lp_done c r) t = (t, Lp_done c r)"

section \<open>Interleaving\<close>

definition free_x :: "LinearProbingApprox \<Rightarrow> lpa_pc list \<Rightarrow> nat \<Rightarrow> nat \<Rightarrow> bool" where
  "free_x t pcs j l \<longleftrightarrow> (\<forall>k < length pcs. k \<noteq> j \<longrightarrow> holds_x t (pcs ! k) \<noteq> Some l \<and> holds_s t (pcs ! k) \<noteq> Some l)"

definition free_s :: "LinearProbingApprox \<Rightarrow> lpa_pc list \<Rightarrow> nat \<Rightarrow> nat \<Rightarrow> bool" where
  "free_s t pcs j l \<longleftrightarrow> (\<forall>k < length pcs. k \<noteq> j \<longrightarrow> holds_x t (pcs ! k) \<noteq> Some l)"

fun lpa_rest :: "lpa_pc \<Rightarrow> bool" where
  "lpa_rest Lp_idle = True"
| "lpa_rest (Lp_done c r) = True"
| "lpa_rest _ = False"

text \<open>The calls that the store makes: the page of an insertion is one, and the evicted key is preset to INVALID.\<close>

fun call_ok :: "lpa_call \<Rightarrow> bool" where
  "call_ok (C_insert k v ek) \<longleftrightarrow> unreserved k \<and> v \<noteq> NONE \<and> ek = INVALID"
| "call_ok (C_delete k) \<longleftrightarrow> unreserved k"
| "call_ok _ \<longleftrightarrow> True"

text \<open>
  The pages in the hands of a thread: the page it inserts until that is stored, and the pages that came out
  of the table.  After an insertion the caller tells the cases apart by the result and the evicted key.
\<close>

fun call_pages :: "lpa_call \<Rightarrow> Value_t multiset" where
  "call_pages (C_insert k v ek) = {#v#}"
| "call_pages _ = {#}"

fun held_pages :: "lpa_pc \<Rightarrow> Value_t multiset" where
  "held_pages (Lp_del_lock c i) = call_pages c"
| "held_pages (Lp_del c i) = call_pages c"
| "held_pages (Lp_ins_lock c i sc) = call_pages c"
| "held_pages (Lp_ins c i sc) = call_pages c"
| "held_pages (Lp_done (C_insert k v ek) (R_insert ret ek' ev)) =
     (if ret \<noteq> 0 then {#v#} else if ev = NONE then {#} else if ek' = ek then {#v, ev#} else {#ev#})"
| "held_pages (Lp_done (C_delete k) (R_value v)) = (if v = NONE then {#} else {#v#})"
| "held_pages (Lp_done C_evict (R_evict k v)) = {#v#}"
| "held_pages _ = {#}"

text \<open>The pages in the table: the values of the buckets in use.\<close>

definition bkt_pages :: "LPA_Bkt_t \<Rightarrow> Value_t multiset" where
  "bkt_pages b = (if unreserved (bkt_key b) then {#bkt_value b#} else {#})"

definition table_pages :: "LinearProbingApprox \<Rightarrow> Value_t multiset" where
  "table_pages t = sum_list (map bkt_pages (buckets t))"

text \<open>An eviction that starts over although it has noted a victim keeps it, without its lock.\<close>

fun keeps_victim :: "lpa_pc \<Rightarrow> bool" where
  "keeps_victim (Lp_ev_start n sc) \<longleftrightarrow> victim_slot sc \<noteq> None"
| "keeps_victim _ \<longleftrightarrow> False"

text \<open>
  \<open>lpa_reach t0 m stale t pcs given taken\<close>: from the table \<open>t0\<close> the \<open>m\<close> threads came to \<open>t\<close> and \<open>pcs\<close>; the callers have handed
  in the pages \<open>given\<close> and have taken over \<open>taken\<close>, and \<open>stale\<close> says that an eviction has kept a victim.
\<close>

inductive lpa_reach :: "LinearProbingApprox \<Rightarrow> nat \<Rightarrow> bool \<Rightarrow> LinearProbingApprox \<Rightarrow> lpa_pc list \<Rightarrow> Value_t multiset \<Rightarrow> Value_t multiset \<Rightarrow> bool"
  for t0 m where
  lpa_new: "lpa_reach t0 m False t0 (replicate m Lp_idle) {#} {#}"
| lpa_call: "lpa_reach t0 m stale t pcs given taken \<Longrightarrow> j < m \<Longrightarrow> lpa_rest (pcs ! j) \<Longrightarrow> call_ok c \<Longrightarrow>
    lpa_reach t0 m stale t (pcs[j := start_pc c]) (given + call_pages c) (taken + held_pages (pcs ! j))"
| lpa_go: "lpa_reach t0 m stale t pcs given taken \<Longrightarrow> j < m \<Longrightarrow>
    lpa_step now rand weak (free_x t pcs j) (free_s t pcs j) (pcs ! j) t = (t', pc) \<Longrightarrow>
    lpa_reach t0 m (stale \<or> keeps_victim pc) t' (pcs[j := pc]) given taken"

section \<open>What a thread may rely on\<close>

definition lpa_wf :: "LinearProbingApprox \<Rightarrow> bool" where
  "lpa_wf t \<longleftrightarrow> length (buckets t) = capacity t \<and> 16 \<le> capacity t \<and> lock_size t = 16
     \<and> (\<forall>s < capacity t. unreserved (lpa_key t s) \<longrightarrow> bkt_value (buckets t ! s) \<noteq> NONE)"

text \<open>A victim lies in the range whose lock is held and is in use; one of the range before goes with its lock.\<close>

definition scan_ok :: "LinearProbingApprox \<Rightarrow> nat option \<Rightarrow> victim_scan \<Rightarrow> bool" where
  "scan_ok t l sc \<longleftrightarrow> (\<forall>v. victim_slot sc = Some v \<longrightarrow> v < capacity t \<and> l = Some (lock_of t v) \<and> unreserved (lpa_key t v))
     \<and> (\<forall>p. prev_victim_slot sc = Some p \<longrightarrow> p < capacity t \<and> prev_lock_idx sc = Some (lock_of t p))"

fun lpc_ok :: "LinearProbingApprox \<Rightarrow> lpa_pc \<Rightarrow> bool" where
  "lpc_ok t Lp_idle = True"
| "lpc_ok t (Lp_del_lock c i) = (call_ok c \<and> ((\<exists>k v ek. c = C_insert k v ek) \<or> (\<exists>k. c = C_delete k)) \<and> i \<le> 15)"
| "lpc_ok t (Lp_del c i) = (call_ok c \<and> ((\<exists>k v ek. c = C_insert k v ek) \<or> (\<exists>k. c = C_delete k)) \<and> i \<le> 15)"
| "lpc_ok t (Lp_ins_lock c i sc) = (call_ok c \<and> (\<exists>k v ek. c = C_insert k v ek) \<and> i \<le> 15 \<and> scan_ok t None sc)"
| "lpc_ok t (Lp_ins c i sc) = (call_ok c \<and> (\<exists>k v ek. c = C_insert k v ek) \<and> i \<le> 15 \<and> scan_ok t (holds_x t (Lp_ins c i sc)) sc)"
| "lpc_ok t (Lp_get_lock c i) = (((\<exists>k. c = C_get k) \<or> (\<exists>k b. c = C_flag k b)) \<and> i \<le> 15)"
| "lpc_ok t (Lp_get c i) = (((\<exists>k. c = C_get k) \<or> (\<exists>k b. c = C_flag k b)) \<and> i \<le> 15)"
| "lpc_ok t (Lp_ev_start n sc) = (victim_slot sc = None)"
| "lpc_ok t (Lp_ev_lock n loc i sc) = (i \<le> 15 \<and> scan_ok t None sc)"
| "lpc_ok t (Lp_ev n loc i sc) = (i \<le> 15 \<and> scan_ok t (holds_x t (Lp_ev n loc i sc)) sc)"
| "lpc_ok t (Lp_done c r) = (\<forall>x. r \<noteq> R_throw x)"

text \<open>What a step leaves alone: the keys and values of the ranges whose lock is neither held nor free.\<close>

definition changes_only :: "LinearProbingApprox \<Rightarrow> LinearProbingApprox \<Rightarrow> nat set \<Rightarrow> bool" where
  "changes_only t t' L \<longleftrightarrow> capacity t' = capacity t \<and> lock_size t' = lock_size t
     \<and> (\<forall>s < capacity t. lock_of t s \<notin> L \<longrightarrow> lpa_key t' s = lpa_key t s \<and> bkt_value (buckets t' ! s) = bkt_value (buckets t ! s))"

definition good_step :: "LinearProbingApprox \<Rightarrow> nat set \<Rightarrow> Value_t multiset \<Rightarrow> LinearProbingApprox \<times> lpa_pc \<Rightarrow> bool" where
  "good_step t L hp = (\<lambda>(t', pc'). lpa_wf t' \<and> changes_only t t' L \<and> table_pages t' + held_pages pc' = table_pages t + hp \<and> (keeps_victim pc' \<or> lpc_ok t' pc'))"

lemma changes_only_refl [simp]: "changes_only t t L"
  by (simp add: changes_only_def)

lemma good_stay: "lpa_wf t \<Longrightarrow> good_step t L hp (t, pc) \<longleftrightarrow> held_pages pc = hp \<and> (keeps_victim pc \<or> lpc_ok t pc)"
  by (simp add: good_step_def)

lemma lock_of_cong: "lock_size t' = lock_size t \<Longrightarrow> lock_of t' s = lock_of t s"
  by (simp add: lock_of_def)

lemma slot_of_cong: "capacity t' = capacity t \<Longrightarrow> slot_of t' k i = slot_of t k i"
  by (simp add: slot_of_def GetHashedKey_def)

lemma holds_cong:
  "capacity t' = capacity t \<Longrightarrow> lock_size t' = lock_size t \<Longrightarrow> holds_x t' pc = holds_x t pc"
  "capacity t' = capacity t \<Longrightarrow> lock_size t' = lock_size t \<Longrightarrow> holds_s t' pc = holds_s t pc"
  by (cases pc; simp add: lock_of_def slot_of_def GetHashedKey_def)+

text \<open>The next slot of a walk is in the same range unless a range begins there.\<close>

lemma same_range_lock:
  assumes "lock_size t = 16" "same_range t j ((loc + (i + 1)) mod capacity t)"
  shows "lock_of t ((loc + (i + 1)) mod capacity t) = lock_of t ((loc + i) mod capacity t)"
proof -
  let ?a = "(loc + i) mod capacity t"
  have "(loc + (i + 1)) mod capacity t = (if Suc ?a = capacity t then 0 else Suc ?a)" by (simp add: mod_Suc)
  moreover have "(loc + (i + 1)) mod capacity t mod 16 \<noteq> 0" using assms by (simp add: same_range_def)
  ultimately have "(loc + (i + 1)) mod capacity t = Suc ?a" "Suc ?a mod 16 \<noteq> 0" by (auto split: if_splits)
  then show ?thesis using assms(1) by (simp add: lock_of_def div_Suc dvd_eq_mod_eq_0)
qed

text \<open>One bucket changes.\<close>

lemma table_pages_put: "s < length (buckets t) \<Longrightarrow> table_pages (put_bucket t s b) + bkt_pages (buckets t ! s) = table_pages t + bkt_pages b"
  unfolding table_pages_def put_bucket_def using sum_list_update_at [of s "buckets t" bkt_pages b] by simp

lemma lpa_wf_put: "lpa_wf t \<Longrightarrow> s < capacity t \<Longrightarrow> (unreserved (bkt_key b) \<Longrightarrow> bkt_value b \<noteq> NONE) \<Longrightarrow> lpa_wf (put_bucket t s b)"
  by (auto simp: lpa_wf_def put_bucket_nth)

lemma changes_only_put: "lpa_wf t \<Longrightarrow> s < capacity t \<Longrightarrow> lock_of t s \<in> L \<Longrightarrow> changes_only t (put_bucket t s b) L"
  by (auto simp: changes_only_def put_bucket_nth lpa_wf_def)

lemma changes_only_touch:
  "lpa_wf t \<Longrightarrow> s < capacity t \<Longrightarrow> bkt_key b = lpa_key t s \<Longrightarrow> bkt_value b = bkt_value (buckets t ! s) \<Longrightarrow> changes_only t (put_bucket t s b) L"
  by (auto simp: changes_only_def put_bucket_nth lpa_wf_def)

lemma good_put:
  assumes "lpa_wf t" "s < capacity t" "lock_of t s \<in> L" "unreserved (bkt_key b) \<Longrightarrow> bkt_value b \<noteq> NONE"
    and "bkt_pages b + held_pages pc' = bkt_pages (buckets t ! s) + hp" "keeps_victim pc' \<or> lpc_ok (put_bucket t s b) pc'"
  shows "good_step t L hp (put_bucket t s b, pc')"
proof -
  have "s < length (buckets t)" using assms(1,2) by (simp add: lpa_wf_def)
  have "table_pages (put_bucket t s b) + held_pages pc' + bkt_pages (buckets t ! s) = table_pages t + (bkt_pages b + held_pages pc')"
    using table_pages_put [OF \<open>s < length (buckets t)\<close>, of b] by (simp add: ac_simps)
  then have "table_pages (put_bucket t s b) + held_pages pc' = table_pages t + hp" unfolding assms(5) by (simp add: ac_simps)
  then show ?thesis using assms lpa_wf_put changes_only_put by (simp add: good_step_def)
qed

lemma good_touch:
  assumes "lpa_wf t" "s < capacity t" "bkt_key b = lpa_key t s" "bkt_value b = bkt_value (buckets t ! s)" "held_pages pc' = hp" "lpc_ok (put_bucket t s b) pc'"
  shows "good_step t L hp (put_bucket t s b, pc')"
proof -
  have s: "s < length (buckets t)" using assms(1,2) by (simp add: lpa_wf_def)
  have "bkt_pages b = bkt_pages (buckets t ! s)" using assms(3,4) by (simp add: bkt_pages_def)
  then have "table_pages (put_bucket t s b) = table_pages t" using table_pages_put [OF s, of b] by simp
  moreover have "lpa_wf (put_bucket t s b)"
  proof (rule lpa_wf_put [OF assms(1,2)])
    assume "unreserved (bkt_key b)"
    then show "bkt_value b \<noteq> NONE" using assms(1-4) unfolding lpa_wf_def by metis
  qed
  ultimately show ?thesis using assms changes_only_touch by (simp add: good_step_def)
qed

section \<open>Every step keeps the pages\<close>

lemma scan_init_ok: "scan_ok t l scan_init"
  by (simp add: scan_ok_def scan_init_def)

lemma next_range_ok: "scan_ok t (Some l) sc \<Longrightarrow> scan_ok t l' (next_range l sc)"
  by (auto simp: scan_ok_def next_range_def)

lemma note_victim_ok:
  "scan_ok t (Some (lock_of t s)) sc \<Longrightarrow> s < capacity t \<Longrightarrow> unreserved (lpa_key t s) \<Longrightarrow> scan_ok t (Some (lock_of t s)) (note_victim t s sc)"
  by (auto simp: scan_ok_def note_victim_def)

lemma slot_range: "lpa_wf t \<Longrightarrow> slot_of t k i < capacity t" "lpa_wf t \<Longrightarrow> (loc + i) mod capacity t < capacity t"
  by (auto simp: lpa_wf_def)

lemma after_delete_good:
  assumes "call_ok c" "(\<exists>k v ek. c = C_insert k v ek) \<or> (\<exists>k. c = C_delete k)"
  shows "held_pages (after_delete c v) = call_pages c + (if v = NONE then {#} else {#v#})" "lpc_ok t (after_delete c v)" "\<not> keeps_victim (after_delete c v)"
  using assms by (auto simp: after_delete_def scan_init_ok split: if_splits)

lemma del_step_good:
  assumes wf: "lpa_wf t" and ok: "lpc_ok t (Lp_del c i)" and L: "lock_of t (slot_of t (call_key c) i) \<in> L"
  shows "good_step t L (call_pages c) (del_step c i t)"
proof -
  let ?s = "slot_of t (call_key c) i"
  have c: "call_ok c" "(\<exists>k v ek. c = C_insert k v ek) \<or> (\<exists>k. c = C_delete k)" and i: "i \<le> 15" using ok by auto
  have k: "unreserved (call_key c)" using c by auto
  note s = slot_range(1) [OF wf, of "call_key c" i]
  show ?thesis
  proof (cases "lpa_key t ?s = call_key c")
    case True
    have v: "bkt_value (buckets t ! ?s) \<noteq> NONE" using wf s k True by (simp add: lpa_wf_def)
    have "good_step t L (call_pages c) (put_bucket t ?s ((buckets t ! ?s)\<lparr>bkt_key := TOMBSTONE\<rparr>), after_delete c (bkt_value (buckets t ! ?s)))"
      by (rule good_put [OF wf s L]) (use v k True after_delete_good [OF c] in \<open>simp_all add: bkt_pages_def\<close>)
    then show ?thesis using True by (simp add: del_step_def Let_def put_bucket_def)
  next
    case False
    then show ?thesis using after_delete_good [OF c] c i by (auto simp: del_step_def Let_def good_stay [OF wf])
  qed
qed

lemma get_step_good:
  assumes wf: "lpa_wf t" and ok: "lpc_ok t (Lp_get c i)"
  shows "good_step t L {#} (get_step now c i t)"
proof -
  let ?s = "slot_of t (call_key c) i"
  have c: "(\<exists>k. c = C_get k) \<or> (\<exists>k b. c = C_flag k b)" and i: "i \<le> 15" using ok by auto
  note s = slot_range(1) [OF wf, of "call_key c" i]
  show ?thesis
  proof (cases "lpa_key t ?s = call_key c")
    case True
    have t: "good_step t L {#} (put_bucket t ?s b, Lp_done c (R_value v))"
      if "bkt_key b = lpa_key t ?s" "bkt_value b = bkt_value (buckets t ! ?s)" for b v
      by (rule good_touch [OF wf s that]) (use c in auto)
    show ?thesis using c True t by (auto simp: get_step_def Let_def put_bucket_def)
  next
    case False
    then show ?thesis using c i by (auto simp: get_step_def Let_def good_stay [OF wf])
  qed
qed

lemma set_bucket_good:
  assumes "lpa_wf t" "p < capacity t" "lock_of t p \<in> L" "\<not> unreserved (lpa_key t p)" "unreserved k" "v \<noteq> NONE" "c = C_insert k v INVALID"
  shows "good_step t L {#v#} (SetBucket now p k v t, Lp_done c (R_insert 0 INVALID NONE))"
  unfolding SetBucket_put by (rule good_put [OF assms(1-3)]) (use assms(4-7) in \<open>simp_all add: bkt_pages_def\<close>)

lemma coll_evict_good:
  assumes "lpa_wf t" "p < capacity t" "lock_of t p \<in> L" "unreserved (lpa_key t p)" "unreserved k" "v \<noteq> NONE" "c = C_insert k v INVALID"
  shows "good_step t L {#v#} (ins_result c t (CollEvict now p k v t))"
proof -
  have n: "lpa_key t p \<noteq> INVALID" "bkt_value (buckets t ! p) \<noteq> NONE" using assms(1,2,4) by (auto simp: lpa_wf_def)
  then have r: "ins_result c t (CollEvict now p k v t) = (SetBucket now p k v t, Lp_done c (R_insert 0 (lpa_key t p) (bkt_value (buckets t ! p))))"
    by (simp add: ins_result_def CollEvict_def Let_def)
  show ?thesis unfolding r SetBucket_put by (rule good_put [OF assms(1-3)]) (use n assms(4-7) in \<open>simp_all add: bkt_pages_def\<close>)
qed

lemma prev_older_slot:
  assumes "prev_is_older lck sc" "scan_ok t l sc"
  obtains p where "prev_victim_slot sc = Some p" "p < capacity t" "lck (lock_of t p)"
  using assms by (auto simp: prev_is_older_def scan_ok_def split: option.splits)

lemma ins_collide_good:
  assumes wf: "lpa_wf t" and sc: "scan_ok t (Some l) sc" and L: "l \<in> L" "\<And>l'. lck l' \<Longrightarrow> l' \<in> L" and c: "unreserved k" "v \<noteq> NONE" "c = C_insert k v INVALID"
  shows "good_step t L {#v#} (ins_result c t (Insert_collide now lck k v INVALID sc t))"
proof -
  have refuse: "good_step t L {#v#} (ins_result c t (Inr (t, - 1, k, v)))" using c by (simp add: ins_result_def good_stay [OF wf])
  show ?thesis
  proof (cases "prev_is_older lck sc")
    case True
    then obtain p where p: "prev_victim_slot sc = Some p" "p < capacity t" "lck (lock_of t p)" using sc by (rule prev_older_slot)
    note pL = L(2) [OF p(3)]
    show ?thesis using True p(1) refuse set_bucket_good [OF wf p(2) pL _ c] coll_evict_good [OF wf p(2) pL _ c]
      by (simp add: Insert_collide_def ins_result_def split: if_splits)
  next
    case False
    show ?thesis
    proof (cases "victim_slot sc")
      case None
      then show ?thesis using False refuse by (simp add: Insert_collide_def)
    next
      case (Some w)
      then have w: "w < capacity t" "lock_of t w \<in> L" "unreserved (lpa_key t w)" using sc L(1) by (auto simp: scan_ok_def)
      then show ?thesis using False Some refuse coll_evict_good [OF wf w c] by (simp add: Insert_collide_def)
    qed
  qed
qed

lemma ins_step_good:
  assumes wf: "lpa_wf t" and ok: "lpc_ok t (Lp_ins c i sc)" and L: "lock_of t (slot_of t (call_key c) i) \<in> L" "\<And>l'. lck l' \<Longrightarrow> l' \<in> L"
  shows "good_step t L (call_pages c) (ins_step now lck c i sc t)"
proof -
  obtain k v where c: "c = C_insert k v INVALID" "unreserved k" "v \<noteq> NONE" using ok by auto
  let ?s = "slot_of t k i"
  have i: "i \<le> 15" and sc: "scan_ok t (Some (lock_of t ?s)) sc" using ok c by auto
  have ls: "lock_size t = 16" using wf by (simp add: lpa_wf_def)
  note s = slot_range(1) [OF wf, of k i]
  show ?thesis
  proof (cases "unreserved (lpa_key t ?s)")
    case False
    then have "lpa_key t ?s \<noteq> k" using c(2) by auto
    then show ?thesis using False set_bucket_good [OF wf s _ False c(2,3,1), of L now] L(1) c(1) by (simp add: ins_step_def Let_def)
  next
    case True
    let ?sc = "note_victim t ?s sc"
    note sc1 = note_victim_ok [OF sc s True]
    have same: "lock_of t (slot_of t k (i + 1)) = lock_of t ?s" if "same_range t (i + 1) (slot_of t k (i + 1))"
      using that same_range_lock [OF ls] unfolding slot_of_def by blast
    show ?thesis
    proof (cases "15 \<le> i")
      case True
      then show ?thesis using \<open>unreserved (lpa_key t ?s)\<close> ins_collide_good [OF wf sc1 _ L(2) c(2,3,1), where now = now] L(1) c(1) by (simp add: ins_step_def Let_def)
    next
      case False
      then show ?thesis using \<open>unreserved (lpa_key t ?s)\<close> c i sc1 same next_range_ok [OF sc1, of None]
        by (auto simp: ins_step_def Let_def good_stay [OF wf])
    qed
  qed
qed

lemma evict_slot_good:
  assumes "lpa_wf t" "p < capacity t" "lock_of t p \<in> L" "unreserved (lpa_key t p)"
  shows "good_step t L {#} (ev_result n t (evict_slot t p))"
proof -
  have v: "bkt_value (buckets t ! p) \<noteq> NONE" "lpa_key t p \<noteq> INVALID" "lpa_key t p \<noteq> TOMBSTONE" using assms(1,2,4) by (auto simp: lpa_wf_def unreserved_def)
  then have r: "ev_result n t (evict_slot t p) = (put_bucket t p ((buckets t ! p)\<lparr>bkt_key := TOMBSTONE\<rparr>), Lp_done C_evict (R_evict (lpa_key t p) (bkt_value (buckets t ! p))))"
    by (simp add: ev_result_def evict_slot_def put_bucket_def)
  show ?thesis unfolding r by (rule good_put [OF assms(1-3)]) (use v assms(4) in \<open>simp_all add: bkt_pages_def\<close>)
qed

lemma ev_direct_good:
  assumes wf: "lpa_wf t" and sc: "scan_ok t (Some l) sc" and L: "l \<in> L" "\<And>l'. lck l' \<Longrightarrow> l' \<in> L"
  shows "good_step t L {#} (ev_result n t (Evict_direct lck sc t))"
proof (cases "victim_slot sc")
  case None
  then show ?thesis by (simp add: Evict_direct_def ev_result_def good_stay [OF wf])
next
  case (Some w)
  then have w: "w < capacity t" "lock_of t w \<in> L" "unreserved (lpa_key t w)" using sc L(1) by (auto simp: scan_ok_def)
  show ?thesis
  proof (cases "prev_is_older lck sc \<and> unreserved (lpa_key t (the (prev_victim_slot sc)))")
    case True
    then obtain p where p: "prev_victim_slot sc = Some p" "p < capacity t" "lck (lock_of t p)" using sc by (blast intro: prev_older_slot)
    then show ?thesis using True Some evict_slot_good [OF wf p(2) L(2) [OF p(3)], where n = n] by (simp add: Evict_direct_def)
  next
    case False
    then show ?thesis using Some evict_slot_good [OF wf w, where n = n] by (auto simp: Evict_direct_def)
  qed
qed

lemma ev_step_good:
  assumes wf: "lpa_wf t" and ok: "lpc_ok t (Lp_ev n loc i sc)" and L: "lock_of t ((loc + i) mod capacity t) \<in> L" "\<And>l'. lck l' \<Longrightarrow> l' \<in> L"
  shows "good_step t L {#} (ev_step lck n loc i sc t)"
proof -
  let ?s = "(loc + i) mod capacity t"
  let ?sc = "if IsValidBucket t ?s then note_victim t ?s sc else sc"
  have i: "i \<le> 15" and sc: "scan_ok t (Some (lock_of t ?s)) sc" using ok by auto
  have ls: "lock_size t = 16" using wf by (simp add: lpa_wf_def)
  note s = slot_range(2) [OF wf, of loc i]
  have sc1: "scan_ok t (Some (lock_of t ?s)) ?sc" using sc note_victim_ok [OF sc s] by simp
  consider (busy) "IsValidBucket t ?s" "busy (buckets t ! ?s)" | (direct) "IsValidBucket t ?s" "\<not> busy (buckets t ! ?s)" "n > 2"
    | (full) "\<not> (IsValidBucket t ?s \<and> (busy (buckets t ! ?s) \<or> n > 2))" "15 \<le> i" | (go) "\<not> (IsValidBucket t ?s \<and> (busy (buckets t ! ?s) \<or> n > 2))" "\<not> 15 \<le> i" by blast
  then show ?thesis
  proof cases
    case busy
    then show ?thesis by (auto simp: ev_step_def Let_def good_stay [OF wf])
  next
    case direct
    then have "scan_ok t (Some (lock_of t ?s)) (sc\<lparr>prev_victim_slot := None, victim_slot := Some ?s\<rparr>)" using s by (simp add: scan_ok_def)
    from ev_direct_good [OF wf this L, where n = n] show ?thesis using direct by (simp add: ev_step_def Let_def)
  next
    case full
    then show ?thesis using ev_direct_good [OF wf sc1 L, where n = n] by (auto simp: ev_step_def Let_def)
  next
    case go
    have same: "lock_of t ((loc + (i + 1)) mod capacity t) = lock_of t ?s" if "same_range t (i + 1) ((loc + (i + 1)) mod capacity t)"
      using that same_range_lock [OF ls] by blast
    have r: "ev_step lck n loc i sc t = (t, if same_range t (i + 1) ((loc + (i + 1)) mod capacity t) then Lp_ev n loc (i + 1) ?sc
        else Lp_ev_lock n loc (i + 1) (next_range (lock_of t ?s) ?sc))" using go by (auto simp: ev_step_def Let_def)
    show ?thesis unfolding r using go(2) sc1 same next_range_ok [OF sc1, of None] by (auto simp: good_stay [OF wf] simp del: IsValidBucket_iff)
  qed
qed

lemma lpa_step_good:
  assumes wf: "lpa_wf t" and ok: "lpc_ok t pc"
  shows "good_step t ({l. holds_x t pc = Some l} \<union> {l. fx l}) (held_pages pc) (lpa_step now rand weak fx fs pc t)"
proof -
  have cap: "i < capacity t" if "i \<le> 15" for i using wf that by (simp add: lpa_wf_def)
  show ?thesis
  proof (cases pc)
    case (Lp_del c i)
    then show ?thesis using del_step_good [OF wf, of c i] ok by simp
  next
    case (Lp_ins c i sc)
    show ?thesis unfolding Lp_ins lpa_step.simps held_pages.simps by (rule ins_step_good [OF wf]) (use ok Lp_ins in auto)
  next
    case (Lp_get c i)
    then show ?thesis using get_step_good [OF wf, of c i] ok by simp
  next
    case (Lp_ev n loc i sc)
    show ?thesis unfolding Lp_ev lpa_step.simps held_pages.simps by (rule ev_step_good [OF wf]) (use ok Lp_ev in auto)
  next
    case (Lp_ev_start n sc)
    then show ?thesis using ok by (simp add: good_stay [OF wf] scan_ok_def)
  next
    case (Lp_ev_lock n loc i sc)
    then show ?thesis using ok cap [of i] by (auto simp: good_stay [OF wf] scan_ok_def)
  next
    case (Lp_ins_lock c i sc)
    then show ?thesis using ok cap [of i] by (auto simp: good_stay [OF wf] scan_ok_def)
  qed (use ok cap in \<open>auto simp: good_stay [OF wf]\<close>)
qed

text \<open>A lock that a thread holds after a step was held before or free.\<close>

lemma after_delete_locks: "holds_x t (after_delete c v) = None" "holds_s t (after_delete c v) = None"
  by (auto simp: after_delete_def split: lpa_call.splits)

lemma lpa_step_locks:
  assumes wf: "lpa_wf t" and st: "lpa_step now rand weak fx fs pc t = (t', pc')"
  shows "holds_x t pc' = Some l \<Longrightarrow> holds_x t pc = Some l \<or> fx l" "holds_s t pc' = Some l \<Longrightarrow> fs l"
proof -
  have ls: "lock_size t = 16" using wf by (simp add: lpa_wf_def)
  have same: "lock_of t (slot_of t k (i + 1)) = lock_of t (slot_of t k i)" if "same_range t (i + 1) (slot_of t k (i + 1))" for k i
    using that same_range_lock [OF ls] unfolding slot_of_def by blast
  have "(holds_x t pc' = Some l \<longrightarrow> holds_x t pc = Some l \<or> fx l) \<and> (holds_s t pc' = Some l \<longrightarrow> fs l)"
  proof (cases pc)
    case (Lp_del c i)
    then show ?thesis using st same [of i "call_key c"] by (auto simp: del_step_def Let_def after_delete_locks split: if_splits)
  next
    case (Lp_ins c i sc)
    have r: "holds_x t (snd (ins_result c t r)) = None \<and> holds_s t (snd (ins_result c t r)) = None" for r by (auto simp: ins_result_def split: sum.splits)
    have p: "holds_x t pc' = None \<and> holds_s t pc' = None" if "ins_result c t r = (t', pc')" for r using r [of r] that by simp
    show ?thesis using st same [of i "call_key c"] Lp_ins p by (cases c) (auto simp: ins_step_def Let_def split: if_splits)
  next
    case (Lp_get c i)
    then show ?thesis using st by (auto simp: get_step_def Let_def split: if_splits lpa_call.splits)
  next
    case (Lp_ev n loc i sc)
    have r: "holds_x t (snd (ev_result n t r)) = None \<and> holds_s t (snd (ev_result n t r)) = None" for r by (auto simp: ev_result_def split: evict_outcome.splits)
    have p: "holds_x t pc' = None \<and> holds_s t pc' = None" if "ev_result n t r = (t', pc')" for r using r [of r] that by simp
    show ?thesis using st Lp_ev p same_range_lock [OF ls, of "i + 1" loc i]
      by (auto simp: ev_step_def Let_def split: if_splits simp del: IsValidBucket_iff)
  qed (use st in \<open>auto simp: after_delete_locks split: if_splits lpa_call.splits\<close>)
  then show "holds_x t pc' = Some l \<Longrightarrow> holds_x t pc = Some l \<or> fx l" "holds_s t pc' = Some l \<Longrightarrow> fs l" by blast+
qed

text \<open>What one thread relies on survives the steps of the others.\<close>

lemma scan_ok_stable:
  assumes "scan_ok t l sc" "changes_only t t' L" "\<And>l'. l = Some l' \<Longrightarrow> l' \<notin> L"
  shows "scan_ok t' l sc"
  using assms by (auto simp: scan_ok_def changes_only_def lock_of_def)

lemma lpc_ok_stable:
  assumes "lpc_ok t pc" "changes_only t t' L" "\<And>l. holds_x t pc = Some l \<Longrightarrow> l \<notin> L"
  shows "lpc_ok t' pc"
proof -
  have h: "holds_x t' pc = holds_x t pc" using assms(2) by (intro holds_cong) (auto simp: changes_only_def)
  have s: "scan_ok t' None sc" if "scan_ok t None sc" for sc using scan_ok_stable [OF that assms(2)] by simp
  have x: "scan_ok t' (holds_x t' pc) sc" if "scan_ok t (holds_x t pc) sc" for sc
    unfolding h using scan_ok_stable [OF that assms(2)] assms(3) by blast
  show ?thesis using assms(1) s x by (cases pc) simp_all
qed

section \<open>Reachable states\<close>

definition excl :: "LinearProbingApprox \<Rightarrow> lpa_pc list \<Rightarrow> bool" where
  "excl t pcs \<longleftrightarrow> (\<forall>j < length pcs. \<forall>l. holds_x t (pcs ! j) = Some l \<longrightarrow> free_x t pcs j l)"

definition lpa_invs :: "LinearProbingApprox \<Rightarrow> LinearProbingApprox \<Rightarrow> lpa_pc list \<Rightarrow> Value_t multiset \<Rightarrow> Value_t multiset \<Rightarrow> bool" where
  "lpa_invs t0 t pcs given taken \<longleftrightarrow> lpa_wf t \<and> (\<forall>pc \<in> set pcs. lpc_ok t pc) \<and> excl t pcs
     \<and> table_pages t + sum_list (map held_pages pcs) + taken = table_pages t0 + given"

lemma excl_step:
  assumes ex: "excl t pcs" and wf: "lpa_wf t" and j: "j < length pcs"
    and st: "lpa_step now rand weak (free_x t pcs j) (free_s t pcs j) (pcs ! j) t = (t', pc)" and same: "capacity t' = capacity t" "lock_size t' = lock_size t"
  shows "excl t' (pcs[j := pc])"
proof -
  have x: "holds_x t pc = Some l \<Longrightarrow> free_x t pcs j l" for l
    using lpa_step_locks(1) [OF wf st] ex j by (auto simp: excl_def)
  have s: "holds_s t pc = Some l \<Longrightarrow> free_s t pcs j l" for l using lpa_step_locks(2) [OF wf st] by blast
  have "free_x t (pcs[j := pc]) k l" if k: "k < length pcs" "holds_x t (pcs[j := pc] ! k) = Some l" for k l
  proof (cases "k = j")
    case True
    then show ?thesis using x [of l] k j by (auto simp: free_x_def)
  next
    case False
    then have h: "holds_x t (pcs ! k) = Some l" using k by simp
    then have f: "free_x t pcs k l" using ex k(1) by (auto simp: excl_def)
    have "holds_x t pc \<noteq> Some l" "holds_s t pc \<noteq> Some l" using x [of l] s [of l] h k(1) False by (auto simp: free_x_def free_s_def)
    then show ?thesis using f j by (auto simp: free_x_def nth_list_update)
  qed
  then show ?thesis using holds_cong [OF same] by (simp add: excl_def free_x_def)
qed

lemma swap_sums:
  fixes a :: "'a::cancel_comm_monoid_add"
  assumes "a' + h = a + h'" "s' + h' = s + h"
  shows "a' + s' = a + s"
proof -
  have "(a' + s') + (h + h') = (a' + h) + (s' + h')" by (simp add: ac_simps)
  also have "\<dots> = (a + s) + (h + h')" unfolding assms by (simp add: ac_simps)
  finally show ?thesis by simp
qed

lemma lpa_invs_step:
  assumes I: "lpa_invs t0 t pcs given taken" and j: "j < length pcs"
    and st: "lpa_step now rand weak (free_x t pcs j) (free_s t pcs j) (pcs ! j) t = (t', pc)" and k: "\<not> keeps_victim pc"
  shows "lpa_invs t0 t' (pcs[j := pc]) given taken"
proof -
  have wf: "lpa_wf t" and ok: "\<forall>pc \<in> set pcs. lpc_ok t pc" and ex: "excl t pcs"
    and pages: "table_pages t + sum_list (map held_pages pcs) + taken = table_pages t0 + given" using I by (simp_all add: lpa_invs_def)
  let ?L = "{l. holds_x t (pcs ! j) = Some l} \<union> {l. free_x t pcs j l}"
  have "good_step t ?L (held_pages (pcs ! j)) (t', pc)" using lpa_step_good [OF wf, of "pcs ! j"] ok j unfolding st [symmetric] by simp
  then have g: "lpa_wf t'" "changes_only t t' ?L" "table_pages t' + held_pages pc = table_pages t + held_pages (pcs ! j)" "lpc_ok t' pc" using k by (simp_all add: good_step_def)
  have c: "capacity t' = capacity t" "lock_size t' = lock_size t" using g(2) by (simp_all add: changes_only_def)
  have "lpc_ok t' (pcs ! i)" if i: "i < length pcs" "i \<noteq> j" for i
  proof (rule lpc_ok_stable [OF _ g(2)])
    show "lpc_ok t (pcs ! i)" using ok i(1) by simp
    fix l assume l: "holds_x t (pcs ! i) = Some l"
    then have "holds_x t (pcs ! j) \<noteq> Some l" using ex i j unfolding excl_def free_x_def by metis
    moreover have "\<not> free_x t pcs j l" using l i unfolding free_x_def by blast
    ultimately show "l \<notin> ?L" by simp
  qed
  then have o: "\<forall>p \<in> set (pcs[j := pc]). lpc_ok t' p" using g(4) j unfolding all_set_conv_all_nth length_list_update by (simp add: nth_list_update)
  have "table_pages t' + sum_list (map held_pages (pcs[j := pc])) = table_pages t + sum_list (map held_pages pcs)"
    by (rule swap_sums [OF g(3) sum_list_update_at [OF j]])
  then have "table_pages t' + sum_list (map held_pages (pcs[j := pc])) + taken = table_pages t0 + given" using pages by simp
  then show ?thesis using g(1) o excl_step [OF ex wf j st c] by (simp add: lpa_invs_def)
qed

lemma start_pc_simps: "holds_x t (start_pc c) = None" "holds_s t (start_pc c) = None" "held_pages (start_pc c) = call_pages c" "call_ok c \<Longrightarrow> lpc_ok t (start_pc c)"
  by (auto simp: start_pc_def scan_init_def split: lpa_call.splits)

lemma excl_idle:
  assumes "holds_x t pc = None" "holds_s t pc = None" "excl t pcs" "j < length pcs"
  shows "excl t (pcs[j := pc])"
proof -
  have f: "free_x t pcs k l \<Longrightarrow> free_x t (pcs[j := pc]) k l" for k l
    unfolding free_x_def using assms(1,2,4) by (metis length_list_update nth_list_update option.distinct(1))
  have "free_x t (pcs[j := pc]) k l" if k: "k < length pcs" "holds_x t (pcs[j := pc] ! k) = Some l" for k l
  proof (rule f)
    have "k \<noteq> j" using k assms(1,4) by auto
    then show "free_x t pcs k l" using k assms(3) by (simp add: excl_def)
  qed
  then show ?thesis by (simp add: excl_def)
qed

lemma lpa_invs_call:
  assumes I: "lpa_invs t0 t pcs given taken" and j: "j < length pcs" and c: "call_ok c"
  shows "lpa_invs t0 t (pcs[j := start_pc c]) (given + call_pages c) (taken + held_pages (pcs ! j))"
proof -
  have pages: "table_pages t + sum_list (map held_pages pcs) + taken = table_pages t0 + given" using I by (simp add: lpa_invs_def)
  have "sum_list (map held_pages (pcs[j := start_pc c])) + held_pages (pcs ! j) = sum_list (map held_pages pcs) + call_pages c"
    using sum_list_update_at [OF j, of held_pages "start_pc c"] by (simp add: start_pc_simps)
  then have "table_pages t + (sum_list (map held_pages (pcs[j := start_pc c])) + held_pages (pcs ! j)) + taken = (table_pages t + sum_list (map held_pages pcs) + taken) + call_pages c"
    by (simp add: ac_simps)
  then have "table_pages t + sum_list (map held_pages (pcs[j := start_pc c])) + (taken + held_pages (pcs ! j)) = table_pages t0 + (given + call_pages c)"
    unfolding pages by (simp add: ac_simps)
  moreover have "\<forall>p \<in> set (pcs[j := start_pc c]). lpc_ok t p" using I c start_pc_simps(4) set_update_subset_insert [of pcs j "start_pc c"] by (auto simp: lpa_invs_def)
  moreover have "excl t (pcs[j := start_pc c])" using I j excl_idle [OF start_pc_simps(1,2)] by (simp add: lpa_invs_def)
  ultimately show ?thesis using I by (simp add: lpa_invs_def)
qed

lemma lpa_reach_invs:
  assumes "lpa_reach t0 m stale t pcs given taken" "lpa_wf t0"
  shows "length pcs = m \<and> (\<not> stale \<longrightarrow> lpa_invs t0 t pcs given taken)"
  using assms
proof (induction rule: lpa_reach.induct)
  case lpa_new
  have "sum_list (replicate m ({#} :: Value_t multiset)) = {#}" by (induction m) simp_all
  then show ?case using lpa_new by (simp add: lpa_invs_def excl_def)
next
  case (lpa_call stale t pcs given taken j c)
  then show ?case using lpa_invs_call by simp
next
  case (lpa_go stale t pcs given taken j now rand weak t' pc)
  then show ?case using lpa_invs_step by simp blast
qed

section \<open>Keys and results\<close>

text \<open>The call a thread is in, the keys of a table, and the results that the calls give.\<close>

fun pc_call :: "lpa_pc \<Rightarrow> lpa_call option" where
  "pc_call Lp_idle = None"
| "pc_call (Lp_del_lock c i) = Some c"
| "pc_call (Lp_del c i) = Some c"
| "pc_call (Lp_ins_lock c i sc) = Some c"
| "pc_call (Lp_ins c i sc) = Some c"
| "pc_call (Lp_get_lock c i) = Some c"
| "pc_call (Lp_get c i) = Some c"
| "pc_call (Lp_ev_start n sc) = Some C_evict"
| "pc_call (Lp_ev_lock n loc i sc) = Some C_evict"
| "pc_call (Lp_ev n loc i sc) = Some C_evict"
| "pc_call (Lp_done c r) = Some c"

definition keys_in :: "(Key_t \<Rightarrow> bool) \<Rightarrow> LinearProbingApprox \<Rightarrow> bool" where
  "keys_in P t \<longleftrightarrow> (\<forall>s < capacity t. unreserved (lpa_key t s) \<longrightarrow> P (lpa_key t s))"

fun ret_ok :: "(Key_t \<Rightarrow> bool) \<Rightarrow> lpa_call \<Rightarrow> lpa_ret \<Rightarrow> bool" where
  "ret_ok P c (R_throw x) = True"
| "ret_ok P (C_insert k v ek) (R_insert ret ek' ev) =
     (if ret \<noteq> 0 then ek' = k \<and> ev = v else ev = NONE \<or> ek' = ek \<or> (unreserved ek' \<and> P ek'))"
| "ret_ok P (C_delete k) (R_value v) = True"
| "ret_ok P (C_get k) (R_value v) = True"
| "ret_ok P (C_flag k b) (R_value v) = True"
| "ret_ok P C_evict (R_evict k v) = (P k \<and> v \<noteq> NONE)"
| "ret_ok P _ _ = False"

fun pc_ret_ok :: "(Key_t \<Rightarrow> bool) \<Rightarrow> lpa_pc \<Rightarrow> bool" where
  "pc_ret_ok P (Lp_done c r) = ret_ok P c r"
| "pc_ret_ok P _ = True"

fun call_key_ok :: "(Key_t \<Rightarrow> bool) \<Rightarrow> lpa_call \<Rightarrow> bool" where
  "call_key_ok P (C_insert k v ek) = P k"
| "call_key_ok P _ = True"

definition keys_step :: "(Key_t \<Rightarrow> bool) \<Rightarrow> lpa_call \<Rightarrow> LinearProbingApprox \<times> lpa_pc \<Rightarrow> bool" where
  "keys_step P c = (\<lambda>(t', pc'). keys_in P t' \<and> pc_call pc' = Some c \<and> pc_ret_ok P pc')"

lemma keys_stay: "keys_in P t \<Longrightarrow> keys_step P c (t, pc) \<longleftrightarrow> pc_call pc = Some c \<and> pc_ret_ok P pc"
  by (simp add: keys_step_def)

lemma keys_put:
  assumes "lpa_wf t" "keys_in P t" "unreserved (bkt_key b) \<Longrightarrow> P (bkt_key b)" "pc_call pc = Some c" "pc_ret_ok P pc"
  shows "keys_step P c (put_bucket t s b, pc)"
proof -
  have "P (lpa_key (put_bucket t s b) x)" if "x < capacity t" "unreserved (lpa_key (put_bucket t s b) x)" for x
    using that assms(1-3) by (cases "x = s") (auto simp: keys_in_def put_bucket_def lpa_wf_def)
  then have "keys_in P (put_bucket t s b)" by (simp add: keys_in_def put_bucket_def)
  then show ?thesis using assms(4,5) by (simp add: keys_step_def)
qed

lemma after_delete_call:
  "(\<exists>k v ek. c = C_insert k v ek) \<or> (\<exists>k. c = C_delete k) \<Longrightarrow> pc_call (after_delete c v) = Some c \<and> pc_ret_ok P (after_delete c v)"
  by (auto simp: after_delete_def)

lemma keys_del:
  assumes "lpa_wf t" "keys_in P t" "lpc_ok t (Lp_del c i)"
  shows "keys_step P c (del_step c i t)"
proof -
  have c: "(\<exists>k v ek. c = C_insert k v ek) \<or> (\<exists>k. c = C_delete k)" using assms(3) by auto
  let ?s = "slot_of t (call_key c) i"
  have "keys_step P c (put_bucket t ?s ((buckets t ! ?s)\<lparr>bkt_key := TOMBSTONE\<rparr>), after_delete c (bkt_value (buckets t ! ?s)))"
    by (rule keys_put [OF assms(1,2)]) (use after_delete_call [OF c] in simp_all)
  then show ?thesis using after_delete_call [OF c] by (simp add: del_step_def Let_def put_bucket_def keys_stay [OF assms(2)])
qed

lemma keys_touch:
  assumes "lpa_wf t" "keys_in P t" "s < capacity t" "bkt_key b = lpa_key t s" "pc_call pc = Some c" "pc_ret_ok P pc"
  shows "keys_step P c (put_bucket t s b, pc)"
  by (rule keys_put [OF assms(1,2) _ assms(5,6)]) (use assms(2-4) in \<open>simp add: keys_in_def\<close>)

lemma keys_get:
  assumes "lpa_wf t" "keys_in P t" "lpc_ok t (Lp_get c i)"
  shows "keys_step P c (get_step now c i t)"
proof -
  have c: "(\<exists>k. c = C_get k) \<or> (\<exists>k b. c = C_flag k b)" using assms(3) by auto
  let ?s = "slot_of t (call_key c) i"
  note s = slot_range(1) [OF assms(1), of "call_key c" i]
  have u: "keys_step P c (put_bucket t ?s b, Lp_done c (R_value v))" if "bkt_key b = lpa_key t ?s" for b v
    by (rule keys_touch [OF assms(1,2) s that]) (use c in auto)
  show ?thesis using c u by (auto simp: get_step_def Let_def put_bucket_def keys_stay [OF assms(2)])
qed

lemma keys_coll:
  assumes "lpa_wf t" "keys_in P t" "p < capacity t" "unreserved (lpa_key t p)" "P k" "c = C_insert k v INVALID"
  shows "keys_step P c (ins_result c t (CollEvict now p k v t))"
proof -
  have "lpa_key t p \<noteq> INVALID" "P (lpa_key t p)" "bkt_value (buckets t ! p) \<noteq> NONE" using assms(1-4) by (auto simp: keys_in_def lpa_wf_def)
  then have r: "ins_result c t (CollEvict now p k v t) = (SetBucket now p k v t, Lp_done c (R_insert 0 (lpa_key t p) (bkt_value (buckets t ! p))))"
    by (simp add: ins_result_def CollEvict_def Let_def)
  show ?thesis unfolding r SetBucket_put by (rule keys_put [OF assms(1,2)]) (use assms \<open>P (lpa_key t p)\<close> in simp_all)
qed

lemma keys_ins:
  assumes wf: "lpa_wf t" and kin: "keys_in P t" and ok: "lpc_ok t (Lp_ins c i sc)" and k: "call_key_ok P c"
  shows "keys_step P c (ins_step now lck c i sc t)"
proof -
  obtain key v where c: "c = C_insert key v INVALID" "unreserved key" using ok by auto
  let ?s = "slot_of t key i"
  have P: "P key" and sc: "scan_ok t (Some (lock_of t ?s)) sc" using ok c k by auto
  note s = slot_range(1) [OF wf, of key i]
  have set: "keys_step P c (SetBucket now p key v t, Lp_done c (R_insert 0 INVALID NONE))" for p
    unfolding SetBucket_put by (rule keys_put [OF wf kin]) (use c P in simp_all)
  have coll: "keys_step P c (ins_result c t (Insert_collide now lck key v INVALID sc1 t))" if sc1: "scan_ok t (Some l) sc1" for l sc1
  proof -
    have ref: "keys_step P c (ins_result c t (Inr (t, - 1, key, v)))" using c by (simp add: ins_result_def keys_stay [OF kin])
    show ?thesis
    proof (cases "prev_is_older lck sc1")
      case True
      then obtain p where p: "prev_victim_slot sc1 = Some p" "p < capacity t" using sc1 by (rule prev_older_slot)
      show ?thesis using True p(1) ref set [of p] keys_coll [OF wf kin p(2) _ P c(1)]
        by (simp add: Insert_collide_def ins_result_def split: if_splits)
    next
      case False
      then show ?thesis using ref keys_coll [OF wf kin _ _ P c(1)] sc1
        by (auto simp: Insert_collide_def scan_ok_def split: option.splits)
    qed
  qed
  show ?thesis
  proof (cases "unreserved (lpa_key t ?s)")
    case False
    then show ?thesis using set [of ?s] c by (auto simp: ins_step_def Let_def)
  next
    case True
    then show ?thesis using coll [OF note_victim_ok [OF sc s True]] c by (auto simp: ins_step_def Let_def keys_stay [OF kin])
  qed
qed

lemma keys_ev_result:
  assumes "lpa_wf t" "keys_in P t" "p < capacity t" "unreserved (lpa_key t p)"
  shows "keys_step P C_evict (ev_result n t (evict_slot t p))"
proof -
  have v: "bkt_value (buckets t ! p) \<noteq> NONE" "lpa_key t p \<noteq> INVALID" "lpa_key t p \<noteq> TOMBSTONE" "P (lpa_key t p)"
    using assms by (auto simp: lpa_wf_def unreserved_def keys_in_def)
  then have r: "ev_result n t (evict_slot t p) = (put_bucket t p ((buckets t ! p)\<lparr>bkt_key := TOMBSTONE\<rparr>), Lp_done C_evict (R_evict (lpa_key t p) (bkt_value (buckets t ! p))))"
    by (simp add: ev_result_def evict_slot_def put_bucket_def)
  show ?thesis unfolding r by (rule keys_put [OF assms(1,2)]) (use v in simp_all)
qed

lemma keys_ev:
  assumes wf: "lpa_wf t" and kin: "keys_in P t" and ok: "lpc_ok t (Lp_ev n loc i sc)"
  shows "keys_step P C_evict (ev_step lck n loc i sc t)"
proof -
  let ?s = "(loc + i) mod capacity t"
  have sc: "scan_ok t (Some (lock_of t ?s)) sc" using ok by auto
  note s = slot_range(2) [OF wf, of loc i]
  have dir: "keys_step P C_evict (ev_result n t (Evict_direct lck sc1 t))" if sc1: "scan_ok t (Some l) sc1" for l sc1
  proof (cases "victim_slot sc1")
    case None
    then show ?thesis by (simp add: Evict_direct_def ev_result_def keys_stay [OF kin])
  next
    case (Some w)
    then have w: "w < capacity t" "unreserved (lpa_key t w)" using sc1 by (auto simp: scan_ok_def)
    show ?thesis
    proof (cases "prev_is_older lck sc1 \<and> unreserved (lpa_key t (the (prev_victim_slot sc1)))")
      case True
      then obtain p where p: "prev_victim_slot sc1 = Some p" "p < capacity t" using sc1 by (blast intro: prev_older_slot)
      then show ?thesis using True Some keys_ev_result [OF wf kin p(2)] by (simp add: Evict_direct_def)
    next
      case False
      then show ?thesis using Some keys_ev_result [OF wf kin w] by (auto simp: Evict_direct_def)
    qed
  qed
  have start: "pc_ret_ok P (Lp_ev_start n' sc')" "pc_call (Lp_ev_start n' sc') = Some C_evict" for n' sc' by simp_all
  have one: "scan_ok t (Some (lock_of t ?s)) (sc\<lparr>prev_victim_slot := None, victim_slot := Some ?s\<rparr>)" if "unreserved (lpa_key t ?s)"
    using that s by (simp add: scan_ok_def)
  show ?thesis
    using dir [OF sc] dir [OF note_victim_ok [OF sc s]] dir [OF one] by (auto simp: ev_step_def Let_def keys_stay [OF kin])
qed

lemma lpa_step_keys:
  assumes wf: "lpa_wf t" and kin: "keys_in P t" and ok: "lpc_ok t pc" and c: "pc_call pc = Some c" "call_key_ok P c" "pc_ret_ok P pc"
  shows "keys_step P c (lpa_step now rand weak fx fs pc t)"
proof (cases pc)
  case (Lp_del c' i)
  then show ?thesis using keys_del [OF wf kin, of c' i] ok c by simp
next
  case (Lp_ins c' i sc)
  show ?thesis unfolding Lp_ins lpa_step.simps using keys_ins [OF wf kin, of c' i sc] ok c Lp_ins by simp
next
  case (Lp_get c' i)
  then show ?thesis using keys_get [OF wf kin, of c' i] ok c by simp
next
  case (Lp_ev n loc i sc)
  show ?thesis unfolding Lp_ev lpa_step.simps using keys_ev [OF wf kin, of n loc i sc] ok c Lp_ev by simp
next
  case (Lp_del_lock c' i)
  then have "(\<exists>k v ek. c = C_insert k v ek) \<or> (\<exists>k. c = C_delete k)" using ok c by auto
  then show ?thesis using Lp_del_lock c after_delete_call by (simp add: keys_stay [OF kin])
qed (use c ok in \<open>auto simp: keys_stay [OF kin]\<close>)

section \<open>One thread alone\<close>

text \<open>The steps of a thread that meets no other give the searches of \<open>Linear_Probing\<close>.\<close>

definition lpa_alone :: "u32 \<Rightarrow> LinearProbingApprox \<times> lpa_pc \<Rightarrow> LinearProbingApprox \<times> lpa_pc \<Rightarrow> bool" where
  "lpa_alone now x y \<longleftrightarrow> (\<exists>rand. y = lpa_step now rand False (\<lambda>_. True) (\<lambda>_. True) (snd x) (fst x))"

lemma alone_one: "lpa_step now rand False (\<lambda>_. True) (\<lambda>_. True) pc t = y \<Longrightarrow> (lpa_alone now)\<^sup>*\<^sup>* y z \<Longrightarrow> (lpa_alone now)\<^sup>*\<^sup>* (t, pc) z"
  by (rule converse_rtranclp_into_rtranclp) (auto simp: lpa_alone_def)

lemma Delete_loop_slot:
  assumes "i < capacity t"
  shows "Delete_loop k (GetHashedKey t k) i t =
    (if lpa_key t (slot_of t k i) = k then
       (t\<lparr>buckets := (buckets t)[slot_of t k i := (buckets t ! slot_of t k i)\<lparr>bkt_key := TOMBSTONE\<rparr>]\<rparr>, bkt_value (buckets t ! slot_of t k i))
     else if lpa_key t (slot_of t k i) = INVALID then (t, NONE) else if 15 \<le> i then (t, NONE) else Delete_loop k (GetHashedKey t k) (i + 1) t)"
  using assms by (subst Delete_loop.simps) (simp add: Let_def slot_of_def)

lemma Get_loop_slot:
  assumes "i < capacity t"
  shows "Get_loop now k (GetHashedKey t k) i t =
    (if lpa_key t (slot_of t k i) = k then
       (t\<lparr>buckets := (buckets t)[slot_of t k i := (buckets t ! slot_of t k i)\<lparr>timestamp := now\<rparr>]\<rparr>, bkt_value (buckets t ! slot_of t k i))
     else if lpa_key t (slot_of t k i) = INVALID then (t, NONE) else if 15 \<le> i then (t, NONE) else Get_loop now k (GetHashedKey t k) (i + 1) t)"
  using assms by (subst Get_loop.simps) (simp add: Let_def slot_of_def)

lemma delete_alone:
  "lpa_wf t \<Longrightarrow> i \<le> 15 \<Longrightarrow> Delete_loop (call_key c) (GetHashedKey t (call_key c)) i t = (t', v) \<Longrightarrow> (lpa_alone now)\<^sup>*\<^sup>* (t, Lp_del c i) (t', after_delete c v)"
proof (induction "15 - i" arbitrary: i)
  case 0
  then have "i < capacity t" by (simp add: lpa_wf_def)
  then show ?case using 0 by (intro alone_one [OF refl]) (auto simp: del_step_def Let_def Delete_loop_slot split: if_splits)
next
  case (Suc n)
  have i: "i < capacity t" "i + 1 < capacity t" "i + 1 \<le> 15" using Suc.prems(1) Suc.hyps(2) unfolding lpa_wf_def by linarith+
  let ?k = "call_key c"
  show ?case
  proof (cases "lpa_key t (slot_of t ?k i) = ?k \<or> lpa_key t (slot_of t ?k i) = INVALID")
    case True
    then show ?thesis using i Suc.prems(3) by (intro alone_one [OF refl]) (auto simp: del_step_def Let_def Delete_loop_slot split: if_splits)
  next
    case False
    then have "Delete_loop ?k (GetHashedKey t ?k) (i + 1) t = (t', v)" using Suc.prems(3) i Delete_loop_slot [of i t ?k] by simp
    then have ih: "(lpa_alone now)\<^sup>*\<^sup>* (t, Lp_del c (i + 1)) (t', after_delete c v)" using Suc i(3) by simp
    have lk: "(lpa_alone now)\<^sup>*\<^sup>* (t, Lp_del_lock c (i + 1)) (t', after_delete c v)" by (rule alone_one [OF _ ih]) (use i in simp)
    have "lpa_step now 0 False (\<lambda>_. True) (\<lambda>_. True) (Lp_del c i) t = (t, if same_range t (i + 1) (slot_of t ?k (i + 1)) then Lp_del c (i + 1) else Lp_del_lock c (i + 1))"
      using False i by (simp add: del_step_def Let_def)
    then show ?thesis by (rule alone_one) (use ih lk in simp)
  qed
qed

lemma Delete_alone:
  assumes "lpa_wf t"
  shows "(lpa_alone now)\<^sup>*\<^sup>* (t, start_pc (C_delete k)) (fst (lpa_Delete k t), Lp_done (C_delete k) (R_value (snd (lpa_Delete k t))))"
proof -
  have "0 < capacity t" using assms by (simp add: lpa_wf_def)
  then have "(lpa_alone now)\<^sup>*\<^sup>* (t, start_pc (C_delete k)) (fst (lpa_Delete k t), after_delete (C_delete k) (snd (lpa_Delete k t)))"
    using delete_alone [OF assms, of 0 "C_delete k" "fst (lpa_Delete k t)" "snd (lpa_Delete k t)" now]
    by (intro alone_one [where rand = 0, OF refl]) (simp add: start_pc_def lpa_Delete_def)
  then show ?thesis by (simp add: after_delete_def)
qed

lemma get_alone:
  "lpa_wf t \<Longrightarrow> i \<le> 15 \<Longrightarrow> Get_loop now k (GetHashedKey t k) i t = (t', v) \<Longrightarrow> (lpa_alone now)\<^sup>*\<^sup>* (t, Lp_get (C_get k) i) (t', Lp_done (C_get k) (R_value v))"
proof (induction "15 - i" arbitrary: i)
  case 0
  then have "i < capacity t" by (simp add: lpa_wf_def)
  then show ?case using 0 by (intro alone_one [OF refl]) (auto simp: get_step_def Let_def Get_loop_slot split: if_splits)
next
  case (Suc n)
  have i: "i < capacity t" "i + 1 < capacity t" "i + 1 \<le> 15" using Suc.prems(1) Suc.hyps(2) unfolding lpa_wf_def by linarith+
  show ?case
  proof (cases "lpa_key t (slot_of t k i) = k \<or> lpa_key t (slot_of t k i) = INVALID")
    case True
    then show ?thesis using i Suc.prems(3) by (intro alone_one [OF refl]) (auto simp: get_step_def Let_def Get_loop_slot split: if_splits)
  next
    case False
    then have "Get_loop now k (GetHashedKey t k) (i + 1) t = (t', v)" using Suc.prems(3) i Get_loop_slot [of i t now k] by simp
    then have ih: "(lpa_alone now)\<^sup>*\<^sup>* (t, Lp_get (C_get k) (i + 1)) (t', Lp_done (C_get k) (R_value v))" using Suc i(3) by simp
    have lk: "(lpa_alone now)\<^sup>*\<^sup>* (t, Lp_get_lock (C_get k) (i + 1)) (t', Lp_done (C_get k) (R_value v))" by (rule alone_one [OF _ ih]) (use i in simp)
    have "lpa_step now 0 False (\<lambda>_. True) (\<lambda>_. True) (Lp_get (C_get k) i) t = (t, Lp_get_lock (C_get k) (i + 1))"
      using False i by (simp add: get_step_def Let_def)
    then show ?thesis by (rule alone_one) (rule lk)
  qed
qed

lemma Get_alone:
  assumes "lpa_wf t"
  shows "(lpa_alone now)\<^sup>*\<^sup>* (t, start_pc (C_get k)) (fst (lpa_Get now k t), Lp_done (C_get k) (R_value (snd (lpa_Get now k t))))"
proof -
  have "0 < capacity t" using assms by (simp add: lpa_wf_def)
  then show ?thesis
    using get_alone [OF assms, of 0 now k "fst (lpa_Get now k t)" "snd (lpa_Get now k t)"]
    by (intro alone_one [where rand = 0, OF refl]) (simp add: start_pc_def lpa_Get_def)
qed

section \<open>Properties of the contended index\<close>

text \<open>Among threads that are not at rest there is always one whose next step is not a wait for a lock.\<close>

lemma lpa_some_runs:
  assumes "lpa_wf t" "\<forall>pc \<in> set pcs. lpc_ok t pc" "j < length pcs" "\<not> lpa_rest (pcs ! j)"
  shows "\<exists>k < length pcs. \<not> lpa_rest (pcs ! k) \<and> snd (lpa_step now rand weak (free_x t pcs k) (free_s t pcs k) (pcs ! k) t) \<noteq> pcs ! k"
proof -
  have go: "\<not> lpa_rest (pcs ! k) \<and> snd (lpa_step now rand weak fx fs (pcs ! k) t) \<noteq> pcs ! k" if h: "k < length pcs" "holds_x t (pcs ! k) = Some l \<or> holds_s t (pcs ! k) = Some l" for k l fx fs
  proof -
    have "lpc_ok t (pcs ! k)" using assms(2) h(1) by simp
    then show ?thesis using h(2)
      by (cases "pcs ! k") (auto simp: del_step_def ins_step_def get_step_def ev_step_def Let_def after_delete_def ins_result_def ev_result_def
        split: lpa_call.splits if_splits sum.splits evict_outcome.splits)
  qed
  show ?thesis
  proof (cases "snd (lpa_step now rand weak (free_x t pcs j) (free_s t pcs j) (pcs ! j) t) \<noteq> pcs ! j")
    case False
    have ok: "lpc_ok t (pcs ! j)" using assms(2,3) by simp
    have cap: "i < capacity t" if "i \<le> 15" for i using assms(1) that by (simp add: lpa_wf_def)
    have "\<exists>k < length pcs. \<exists>l. holds_x t (pcs ! k) = Some l \<or> holds_s t (pcs ! k) = Some l"
    proof (rule ccontr)
      assume n: "\<not> ?thesis"
      then have f: "free_x t pcs j l" "free_s t pcs j l" for l by (auto simp: free_x_def free_s_def)
      show False using False ok f cap n assms(3,4) by (cases "pcs ! j") (auto split: if_splits)
    qed
    then show ?thesis using go by blast
  qed (use assms(3,4) in blast)
qed

lemma lpa_never_deadlocks:
  assumes "lpa_reach t0 m False t pcs given taken" "lpa_wf t0" "j < m" "\<not> lpa_rest (pcs ! j)"
  shows "\<exists>k < m. \<not> lpa_rest (pcs ! k) \<and> snd (lpa_step now rand weak (free_x t pcs k) (free_s t pcs k) (pcs ! k) t) \<noteq> pcs ! k"
  using lpa_some_runs [of t pcs j now rand weak] lpa_reach_invs [OF assms(1,2)] assms(3,4) by (auto simp: lpa_invs_def)

text \<open>
  C6. The index keeps the pages under contention: however the steps of the threads interleave, the pages in the
  table, those in the hands of the threads and those already taken over by the callers are together exactly
  the pages that were there and that were handed in, and no call ends in an exception, as long as no
  eviction starts over with a victim it has already noted.
\<close>

theorem lpa_steps_conserve_pages:
  assumes "lpa_reach t0 m False t pcs given taken" "lpa_wf t0"
  shows "table_pages t + sum_list (map held_pages pcs) + taken = table_pages t0 + given \<and> (\<forall>c x. Lp_done c (R_throw x) \<notin> set pcs)"
  using lpa_reach_invs [OF assms] by (auto simp: lpa_invs_def dest!: bspec)

text \<open>A new table of 16 buckets: one thread inserts a page while the other has not started.\<close>

theorem lpa_steps_conserve_pages_witness:
  "\<exists>t. lpa_reach (LinearProbingApprox_new 16) 2 False t [Lp_done (C_insert 77 8192 INVALID) (R_insert 0 INVALID NONE), Lp_idle] {#8192#} {#}
     \<and> table_pages t = {#8192#}"
proof -
  let ?t0 = "LinearProbingApprox_new 16" and ?c = "C_insert 77 8192 INVALID"
  let ?s = "slot_of ?t0 77 0"
  have wf: "lpa_wf ?t0" by (simp add: lpa_wf_def LinearProbingApprox_new_def LPA_Bkt_default_def)
  have key: "lpa_key ?t0 ?s = INVALID" using slot_range(1) [OF wf, of 77 0] by (simp add: LinearProbingApprox_new_def LPA_Bkt_default_def)
  have n: "(77 :: Key_t) \<noteq> INVALID" "unreserved 77" "(8192 :: Value_t) \<noteq> NONE" by (simp_all add: INVALID_def unreserved_def TOMBSTONE_def NONE_def)
  have cap: "0 < capacity ?t0" by (simp add: LinearProbingApprox_new_def)
  have free: "free_x ?t0 [pc, Lp_idle] 0 l" for pc l by (auto simp: free_x_def less_Suc_eq)
  have 0: "lpa_reach ?t0 2 False ?t0 [Lp_idle, Lp_idle] {#} {#}" using lpa_new [of ?t0 2] by (simp add: numeral_2_eq_2)
  have 1: "lpa_reach ?t0 2 False ?t0 [Lp_del_lock ?c 0, Lp_idle] {#8192#} {#}" using lpa_call [OF 0, of 0 ?c] n by (simp add: start_pc_def)
  have 2: "lpa_reach ?t0 2 False ?t0 [Lp_del ?c 0, Lp_idle] {#8192#} {#}"
    using lpa_go [OF 1, of 0 0 0 False ?t0 "Lp_del ?c 0"] cap free by simp
  have 3: "lpa_reach ?t0 2 False ?t0 [Lp_ins_lock ?c 0 scan_init, Lp_idle] {#8192#} {#}"
    using lpa_go [OF 2, of 0 0 0 False ?t0 "Lp_ins_lock ?c 0 scan_init"] key n by (simp add: del_step_def Let_def after_delete_def)
  have 4: "lpa_reach ?t0 2 False ?t0 [Lp_ins ?c 0 scan_init, Lp_idle] {#8192#} {#}"
    using lpa_go [OF 3, of 0 0 0 False ?t0 "Lp_ins ?c 0 scan_init"] cap free by simp
  have 5: "lpa_reach ?t0 2 False (SetBucket 0 ?s 77 8192 ?t0) [Lp_done ?c (R_insert 0 INVALID NONE), Lp_idle] {#8192#} {#}"
    using lpa_go [OF 4, of 0 0 0 False "SetBucket 0 ?s 77 8192 ?t0" "Lp_done ?c (R_insert 0 INVALID NONE)"] key n by (simp add: ins_step_def Let_def)
  have "sum_list (replicate 16 (bkt_pages LPA_Bkt_default)) = {#}" by (simp add: bkt_pages_def LPA_Bkt_default_def eval_nat_numeral)
  then have "table_pages ?t0 = {#}" by (simp add: table_pages_def LinearProbingApprox_new_def)
  then have "table_pages (SetBucket 0 ?s 77 8192 ?t0) = {#8192#}" using lpa_steps_conserve_pages [OF 5 wf] by simp
  then show ?thesis using 5 by blast
qed

section \<open>The kept victim\<close>

text \<open>
  A schedule: the thread that makes a step with the random number it would draw.  \<open>lpa_run\<close> makes the
  steps one after the other, without spurious failures.
\<close>

fun lpa_run :: "(nat \<times> nat) list \<Rightarrow> bool \<times> LinearProbingApprox \<times> lpa_pc list \<Rightarrow> bool \<times> LinearProbingApprox \<times> lpa_pc list" where
  "lpa_run [] x = x"
| "lpa_run ((j, rand) # acts) (stale, t, pcs) =
     (case lpa_step 0 rand False (free_x t pcs j) (free_s t pcs j) (pcs ! j) t of (t', pc) \<Rightarrow> lpa_run acts (stale \<or> keeps_victim pc, t', pcs[j := pc]))"

lemma lpa_run_reach:
  "lpa_reach t0 m stale t pcs given taken \<Longrightarrow> \<forall>(j, r) \<in> set acts. j < m \<Longrightarrow> lpa_run acts (stale, t, pcs) = (stale', t', pcs') \<Longrightarrow> lpa_reach t0 m stale' t' pcs' given taken"
proof (induction acts arbitrary: stale t pcs)
  case (Cons a acts)
  obtain j r where a: "a = (j, r)" by fastforce
  obtain t1 pc where s: "lpa_step 0 r False (free_x t pcs j) (free_s t pcs j) (pcs ! j) t = (t1, pc)" by fastforce
  have "lpa_reach t0 m (stale \<or> keeps_victim pc) t1 (pcs[j := pc]) given taken" using lpa_go [OF Cons.prems(1) _ s] Cons.prems(2) a by simp
  then show ?case using Cons.IH Cons.prems(2,3) a s by simp
qed simp

text \<open>Two ranges of buckets, of which the first two are in use and the second is busy.\<close>

definition two_pages :: LinearProbingApprox where
  "two_pages = \<lparr>capacity = 32, buckets = [\<lparr>bkt_key = 5, bkt_value = 4096, timestamp = 1, busy = False\<rparr>,
       \<lparr>bkt_key = 6, bkt_value = 8192, timestamp = 2, busy = True\<rparr>] @ replicate 30 LPA_Bkt_default, lock_size = 16, num_locks = 3\<rparr>"

definition kept_schedule :: "(nat \<times> nat) list" where
  "kept_schedule = [(0, 0), (0, 0), (0, 0), (0, 0)] @ replicate 20 (1, 17) @ replicate 18 (0, 16)"

lemma kept_run:
  "(case lpa_run kept_schedule (False, two_pages, [Lp_ev_start 0 scan_init, Lp_ev_start 0 scan_init]) of (stale, t, pcs) \<Rightarrow>
     stale \<and> pcs = [Lp_done C_evict (R_throw EvictKeyReserved), Lp_done C_evict (R_evict 5 4096)])"
  by code_simp

text \<open>
  C35. An eviction that starts over keeps the victim it has noted: the first thread notes the first bucket, meets
  the busy one and starts over; meanwhile the second thread evicts that bucket; the first then finds an empty
  window, takes its old victim, a tombstone, and throws, which nothing catches.
\<close>

theorem kept_victim_throws:
  "lpa_wf two_pages \<and> (\<exists>t. lpa_reach two_pages 2 True t [Lp_done C_evict (R_throw EvictKeyReserved), Lp_done C_evict (R_evict 5 4096)] {#} {#})"
proof -
  have wf: "lpa_wf two_pages" by (auto simp: lpa_wf_def two_pages_def LPA_Bkt_default_def NONE_def nth_Cons' split: if_splits)
  have 0: "lpa_reach two_pages 2 False two_pages [Lp_idle, Lp_idle] {#} {#}" using lpa_new [of two_pages 2] by (simp add: numeral_2_eq_2)
  have 1: "lpa_reach two_pages 2 False two_pages [Lp_ev_start 0 scan_init, Lp_idle] {#} {#}" using lpa_call [OF 0, of 0 C_evict] by (simp add: start_pc_def)
  have 2: "lpa_reach two_pages 2 False two_pages [Lp_ev_start 0 scan_init, Lp_ev_start 0 scan_init] {#} {#}"
    using lpa_call [OF 1, of 1 C_evict] by (simp add: start_pc_def)
  obtain t where run: "lpa_run kept_schedule (False, two_pages, [Lp_ev_start 0 scan_init, Lp_ev_start 0 scan_init])
      = (True, t, [Lp_done C_evict (R_throw EvictKeyReserved), Lp_done C_evict (R_evict 5 4096)])"
    using kept_run by (cases "lpa_run kept_schedule (False, two_pages, [Lp_ev_start 0 scan_init, Lp_ev_start 0 scan_init])") auto
  have s: "\<forall>(j, r) \<in> set kept_schedule. j < 2" by (simp add: kept_schedule_def)
  show ?thesis using wf lpa_run_reach [OF 2 s run] by blast
qed

section \<open>Two insertions of one key\<close>

text \<open>
  C36. An insertion deletes the old page of its key and then looks for a bucket, and gives up the lock in between:
  two threads that insert the same key at the same time both find nothing to delete, and each fills a bucket
  of its own.  Both succeed; a deletion of the key then removes only one of the two pages, and the next lookup
  returns the other.
\<close>

theorem concurrent_inserts_duplicate_key:
  "\<exists>t. lpa_reach (LinearProbingApprox_new 16) 2 False t
      [Lp_done (C_insert 77 8192 INVALID) (R_insert 0 INVALID NONE), Lp_done (C_insert 77 8193 INVALID) (R_insert 0 INVALID NONE)] {#8192, 8193#} {#}
    \<and> snd (lpa_Delete 77 t) = 8192 \<and> snd (lpa_Get now 77 (fst (lpa_Delete 77 t))) = 8193"
proof -
  let ?t0 = "LinearProbingApprox_new 16" and ?c = "C_insert 77 8192 INVALID" and ?d = "C_insert 77 8193 INVALID"
  let ?s = "slot_of ?t0 77 0" and ?r = "slot_of ?t0 77 1"
  let ?t1 = "SetBucket 0 ?s 77 8192 ?t0"
  let ?t2 = "SetBucket 0 ?r 77 8193 ?t1"
  let ?done = "\<lambda>c. Lp_done c (R_insert 0 INVALID NONE)"
  have wf: "lpa_wf ?t0" by (simp add: lpa_wf_def LinearProbingApprox_new_def LPA_Bkt_default_def)
  have cap: "capacity ?t0 = 16" "lock_size ?t0 = 16" "length (buckets ?t0) = 16" by (simp_all add: LinearProbingApprox_new_def)
  have s: "?s < 16" "?r < 16" using slot_range(1) [OF wf, of 77] by (simp_all add: cap)
  have "(h + 1) mod 16 \<noteq> h mod 16" for h :: nat by (simp add: mod_Suc)
  then have sr: "?r \<noteq> ?s" by (simp add: slot_of_def cap del: One_nat_def)
  have b: "buckets ?t0 = replicate 16 LPA_Bkt_default" by (simp add: LinearProbingApprox_new_def)
  have key: "buckets ?t0 ! ?s = LPA_Bkt_default" "buckets ?t0 ! ?r = LPA_Bkt_default" unfolding b by (rule nth_replicate, rule s)+
  have def: "bkt_key LPA_Bkt_default = INVALID" by (simp add: LPA_Bkt_default_def)
  have n: "(77 :: Key_t) \<noteq> INVALID" "unreserved 77" "(8192 :: Value_t) \<noteq> NONE" "(8193 :: Value_t) \<noteq> NONE" by (simp_all add: INVALID_def unreserved_def TOMBSTONE_def NONE_def)
  have t1: "slot_of ?t1 = slot_of ?t0" "capacity ?t1 = 16" "lock_size ?t1 = 16" "lock_of ?t1 = lock_of ?t0" by (simp_all add: SetBucket_def slot_of_def GetHashedKey_def fun_eq_iff cap lock_of_def)
  have k1: "bkt_key (buckets ?t1 ! ?s) = 77" "bkt_value (buckets ?t1 ! ?s) = 8192" "bkt_key (buckets ?t1 ! ?r) = INVALID" using s sr key by (simp_all add: SetBucket_def cap def)
  have k2: "bkt_key (buckets ?t2 ! ?s) = 77" "bkt_value (buckets ?t2 ! ?s) = 8192" "bkt_key (buckets ?t2 ! ?r) = 77" "bkt_value (buckets ?t2 ! ?r) = 8193"
    using s sr key by (simp_all add: SetBucket_def cap def)
  have f0: "free_x t [pc, Lp_ins_lock ?d i sc] 0 l" "free_x t [pc, Lp_del_lock ?d i] 0 l" "free_x t [Lp_ins_lock ?c i sc, pc] 1 l" "free_x t [?done ?c, pc] 1 l" for t pc l i sc
    by (auto simp: free_x_def less_Suc_eq)
  have 0: "lpa_reach ?t0 2 False ?t0 [Lp_idle, Lp_idle] {#} {#}" using lpa_new [of ?t0 2] by (simp add: numeral_2_eq_2)
  have 1: "lpa_reach ?t0 2 False ?t0 [Lp_del_lock ?c 0, Lp_idle] {#8192#} {#}" using lpa_call [OF 0, of 0 ?c] n by (simp add: start_pc_def)
  have 2: "lpa_reach ?t0 2 False ?t0 [Lp_del_lock ?c 0, Lp_del_lock ?d 0] {#8192, 8193#} {#}" using lpa_call [OF 1, of 1 ?d] n by (simp add: start_pc_def add_mset_commute)
  have 3: "lpa_reach ?t0 2 False ?t0 [Lp_del ?c 0, Lp_del_lock ?d 0] {#8192, 8193#} {#}" using lpa_go [OF 2, of 0 0 0 False ?t0 "Lp_del ?c 0"] f0 cap by simp
  have 4: "lpa_reach ?t0 2 False ?t0 [Lp_ins_lock ?c 0 scan_init, Lp_del_lock ?d 0] {#8192, 8193#} {#}"
    using lpa_go [OF 3, of 0 0 0 False ?t0 "Lp_ins_lock ?c 0 scan_init"] n key def by (simp add: del_step_def Let_def after_delete_def)
  have 5: "lpa_reach ?t0 2 False ?t0 [Lp_ins_lock ?c 0 scan_init, Lp_del ?d 0] {#8192, 8193#} {#}" using lpa_go [OF 4, of 1 0 0 False ?t0 "Lp_del ?d 0"] f0 cap by simp
  have 6: "lpa_reach ?t0 2 False ?t0 [Lp_ins_lock ?c 0 scan_init, Lp_ins_lock ?d 0 scan_init] {#8192, 8193#} {#}"
    using lpa_go [OF 5, of 1 0 0 False ?t0 "Lp_ins_lock ?d 0 scan_init"] n key def by (simp add: del_step_def Let_def after_delete_def)
  have 7: "lpa_reach ?t0 2 False ?t0 [Lp_ins ?c 0 scan_init, Lp_ins_lock ?d 0 scan_init] {#8192, 8193#} {#}" using lpa_go [OF 6, of 0 0 0 False ?t0 "Lp_ins ?c 0 scan_init"] f0 cap by simp
  have 8: "lpa_reach ?t0 2 False ?t1 [?done ?c, Lp_ins_lock ?d 0 scan_init] {#8192, 8193#} {#}"
    using lpa_go [OF 7, of 0 0 0 False ?t1 "?done ?c"] n key def by (simp add: ins_step_def Let_def)
  have 9: "lpa_reach ?t0 2 False ?t1 [?done ?c, Lp_ins ?d 0 scan_init] {#8192, 8193#} {#}" using lpa_go [OF 8, of 1 0 0 False ?t1 "Lp_ins ?d 0 scan_init"] f0 t1 by simp
  have "\<exists>sc. lpa_reach ?t0 2 False ?t1 [?done ?c, Lp_ins ?d 1 sc] {#8192, 8193#} {#}"
  proof (cases "same_range ?t1 1 ?r")
    case True
    let ?p = "Lp_ins ?d 1 (note_victim ?t1 ?s scan_init)"
    have "lpa_reach ?t0 2 False ?t1 [?done ?c, ?p] {#8192, 8193#} {#}"
      using lpa_go [OF 9, of 1 0 0 False ?t1 ?p] True n k1 t1 by (simp add: ins_step_def Let_def)
    then show ?thesis by (rule exI [of _ "note_victim ?t1 ?s scan_init"])
  next
    case False
    let ?sc = "next_range (lock_of ?t0 ?s) (note_victim ?t1 ?s scan_init)"
    have a: "lpa_reach ?t0 2 False ?t1 [?done ?c, Lp_ins_lock ?d 1 ?sc] {#8192, 8193#} {#}"
      using lpa_go [OF 9, of 1 0 0 False ?t1 "Lp_ins_lock ?d 1 ?sc"] False n k1 t1 by (simp add: ins_step_def Let_def)
    have "lpa_reach ?t0 2 False ?t1 [?done ?c, Lp_ins ?d 1 ?sc] {#8192, 8193#} {#}" using lpa_go [OF a, of 1 0 0 False ?t1 "Lp_ins ?d 1 ?sc"] f0 t1 by simp
    then show ?thesis by (rule exI [of _ ?sc])
  qed
  then obtain sc where 10: "lpa_reach ?t0 2 False ?t1 [?done ?c, Lp_ins ?d 1 sc] {#8192, 8193#} {#}" by (elim exE)
  have 11: "lpa_reach ?t0 2 False ?t2 [?done ?c, ?done ?d] {#8192, 8193#} {#}"
    using lpa_go [OF 10, of 1 0 0 False ?t2 "?done ?d"] n k1 t1 by (simp add: ins_step_def Let_def)
  let ?t3 = "?t2\<lparr>buckets := (buckets ?t2)[?s := (buckets ?t2 ! ?s)\<lparr>bkt_key := TOMBSTONE\<rparr>]\<rparr>"
  have t2: "slot_of ?t2 = slot_of ?t0" "capacity ?t2 = 16" "length (buckets ?t2) = 16" by (simp_all add: SetBucket_def slot_of_def GetHashedKey_def fun_eq_iff cap)
  have d: "lpa_Delete 77 ?t2 = (?t3, 8192)" using Delete_loop_slot [of 0 ?t2 77] k2 t2 by (simp add: lpa_Delete_def)
  have t3: "slot_of ?t3 = slot_of ?t0" "capacity ?t3 = 16" using t2 by (simp_all add: slot_of_def GetHashedKey_def fun_eq_iff)
  have k3: "bkt_key (buckets ?t3 ! ?s) = TOMBSTONE" "bkt_key (buckets ?t3 ! ?r) = 77" "bkt_value (buckets ?t3 ! ?r) = 8193" using s sr k2 t2 by simp_all
  have tn: "TOMBSTONE \<noteq> INVALID" "TOMBSTONE \<noteq> 77" by (simp_all add: TOMBSTONE_def INVALID_def)
  have "snd (Get_loop now 77 (GetHashedKey ?t3 77) 0 ?t3) = 8193"
    using Get_loop_slot [of 0 ?t3 now 77] Get_loop_slot [of 1 ?t3 now 77] k3 tn unfolding t3 by simp
  then show ?thesis using 11 d by (intro exI [of _ ?t2]) (simp add: lpa_Get_def)
qed

end
