(* ===== verification/Worker_Thread.thy ===== *)
theory Worker_Thread
  imports Prelude
begin

text \<open>
  The thread pool of the daemon (\<^verbatim>\<open>daemon/worker_thread.hpp\<close>): a queue of jobs behind a mutex, worker
  threads that poll it, callers that enqueue and a destructor that asks the workers to stop.  Every access
  to the mutex, the queue and the flag is one step; the steps of workers and callers interleave.  Jobs are
  numbers; a job that runs does not touch the pool.
\<close>

section \<open>State and steps\<close>

text \<open>
  Where a worker stands: at the label RETRY before the sleep, at RETRY2 before \<^verbatim>\<open>try_lock\<close>, holding the
  mutex, running a job, waiting for the mutex after a job, holding it for the check, or returned.
\<close>

datatype pool_pc = Wk_retry | Wk_retry2 | Wk_locked | Wk_job nat | Wk_wait | Wk_check | Wk_returned

text \<open>A caller of \<^verbatim>\<open>EnqueueJob\<close>: before the test of the flag, past it, holding the mutex, done or thrown.\<close>

datatype caller_pc = Enq_test | Enq_wait | Enq_locked | Enq_done | Enq_thrown

record worker_pool =
  jobs :: "nat list"
  m_job_q :: bool
  stop_all :: bool

definition WorkerThread_new :: worker_pool where
  "WorkerThread_new = \<lparr>jobs = [], m_job_q = False, stop_all = False\<rparr>"

text \<open>One step of \<^verbatim>\<open>Work\<close>; \<open>spurious\<close> lets \<^verbatim>\<open>try_lock\<close> fail although the mutex is free.  Waiting for a taken mutex changes nothing.\<close>

fun Work :: "bool \<Rightarrow> pool_pc \<Rightarrow> worker_pool \<Rightarrow> worker_pool \<times> pool_pc" where
  "Work spurious Wk_retry p = (p, Wk_retry2)"
| "Work spurious Wk_retry2 p = (if spurious \<or> m_job_q p then (p, Wk_retry) else (p\<lparr>m_job_q := True\<rparr>, Wk_locked))"
| "Work spurious Wk_locked p =
     (if \<not> stop_all p \<and> jobs p = [] then (p\<lparr>m_job_q := False\<rparr>, Wk_retry)
      else if stop_all p \<and> jobs p = [] then (p\<lparr>m_job_q := False\<rparr>, Wk_returned)
      else (p\<lparr>jobs := tl (jobs p), m_job_q := False\<rparr>, Wk_job (hd (jobs p))))"
| "Work spurious (Wk_job j) p = (p, Wk_wait)"
| "Work spurious Wk_wait p = (if m_job_q p then (p, Wk_wait) else (p\<lparr>m_job_q := True\<rparr>, Wk_check))"
| "Work spurious Wk_check p =
     (if \<not> stop_all p \<and> jobs p \<noteq> [] then (p\<lparr>m_job_q := False\<rparr>, Wk_retry2) else (p\<lparr>m_job_q := False\<rparr>, Wk_retry))"
| "Work spurious Wk_returned p = (p, Wk_returned)"

fun EnqueueJob :: "nat \<Rightarrow> caller_pc \<Rightarrow> worker_pool \<Rightarrow> worker_pool \<times> caller_pc" where
  "EnqueueJob j Enq_test p = (if stop_all p then (p, Enq_thrown) else (p, Enq_wait))"
| "EnqueueJob j Enq_wait p = (if m_job_q p then (p, Enq_wait) else (p\<lparr>m_job_q := True\<rparr>, Enq_locked))"
| "EnqueueJob j Enq_locked p = (p\<lparr>jobs := jobs p @ [j], m_job_q := False\<rparr>, Enq_done)"
| "EnqueueJob j Enq_done p = (p, Enq_done)"
| "EnqueueJob j Enq_thrown p = (p, Enq_thrown)"

text \<open>The destructor sets the flag and waits for every worker to return.\<close>

definition WorkerThread_stop :: "worker_pool \<Rightarrow> worker_pool" where
  "WorkerThread_stop p = p\<lparr>stop_all := True\<rparr>"

definition joined :: "pool_pc list \<Rightarrow> bool" where
  "joined ws \<longleftrightarrow> (\<forall>w \<in> set ws. w = Wk_returned)"

section \<open>Interleaving\<close>

text \<open>
  \<open>ws\<close> are the workers, \<open>cs\<close> the callers with their jobs; \<open>enq\<close> records the jobs in the order they were put
  into the queue, \<open>run\<close> in the order they were taken out.
\<close>

inductive wp_reach :: "nat \<Rightarrow> worker_pool \<Rightarrow> pool_pc list \<Rightarrow> (nat \<times> caller_pc) list \<Rightarrow> nat list \<Rightarrow> nat list \<Rightarrow> bool" for num_threads where
  wp_new: "wp_reach num_threads WorkerThread_new (replicate num_threads Wk_retry) [] [] []"
| wp_call: "wp_reach num_threads p ws cs enq run \<Longrightarrow> wp_reach num_threads p ws (cs @ [(j, Enq_test)]) enq run"
| wp_work: "wp_reach num_threads p ws cs enq run \<Longrightarrow> i < num_threads \<Longrightarrow> Work spurious (ws ! i) p = (p', w) \<Longrightarrow>
    wp_reach num_threads p' (ws[i := w]) cs enq (run @ (case (ws ! i, w) of (Wk_locked, Wk_job j) \<Rightarrow> [j] | _ \<Rightarrow> []))"
| wp_enqueue: "wp_reach num_threads p ws cs enq run \<Longrightarrow> i < length cs \<Longrightarrow> cs ! i = (j, c) \<Longrightarrow> EnqueueJob j c p = (p', c') \<Longrightarrow>
    wp_reach num_threads p' ws (cs[i := (j, c')]) (enq @ (if c = Enq_locked then [j] else [])) run"
| wp_stop: "wp_reach num_threads p ws cs enq run \<Longrightarrow> wp_reach num_threads (WorkerThread_stop p) ws cs enq run"

section \<open>Properties\<close>

text \<open>Jobs leave the queue in the order they entered it, each once.\<close>

lemma wp_fifo: "wp_reach num_threads p ws cs enq run \<Longrightarrow> enq = run @ jobs p"
proof (induction rule: wp_reach.induct)
  case (wp_work p ws cs enq run i spurious p' w)
  then show ?case by (cases "ws ! i") (auto split: if_splits)
next
  case (wp_enqueue p ws cs enq run i j c p' c')
  then show ?case by (cases c) (auto split: if_splits)
qed (simp_all add: WorkerThread_new_def WorkerThread_stop_def)

text \<open>The threads that hold the mutex: at most one, and one exactly when the mutex is taken.\<close>

definition worker_holds :: "pool_pc \<Rightarrow> nat" where
  "worker_holds w = of_bool (w = Wk_locked \<or> w = Wk_check)"

definition caller_holds :: "nat \<times> caller_pc \<Rightarrow> nat" where
  "caller_holds c = of_bool (snd c = Enq_locked)"

definition holders :: "pool_pc list \<Rightarrow> (nat \<times> caller_pc) list \<Rightarrow> nat" where
  "holders ws cs = sum_list (map worker_holds ws) + sum_list (map caller_holds cs)"

lemma wp_workers: "wp_reach num_threads p ws cs enq run \<Longrightarrow> length ws = num_threads"
  by (induction rule: wp_reach.induct) simp_all

lemma wp_mutex: "wp_reach num_threads p ws cs enq run \<Longrightarrow> holders ws cs = of_bool (m_job_q p)"
proof (induction rule: wp_reach.induct)
  case wp_new
  show ?case by (simp add: holders_def WorkerThread_new_def worker_holds_def sum_list_replicate)
next
  case (wp_work p ws cs enq run i spurious p' w)
  have "sum_list (map worker_holds (ws[i := w])) + worker_holds (ws ! i) = sum_list (map worker_holds ws) + worker_holds w"
    by (rule sum_list_update_at) (simp add: wp_work(2) wp_workers [OF wp_work(1)])
  moreover have "worker_holds (ws ! i) \<le> of_bool (m_job_q p)"
    using member_le_sum_list [of "worker_holds (ws ! i)" "map worker_holds ws"] wp_work(2,4) wp_workers [OF wp_work(1)] unfolding holders_def by simp
  then have "of_bool (m_job_q p') + worker_holds (ws ! i) = of_bool (m_job_q p) + worker_holds w"
    using wp_work(3) by (cases "m_job_q p"; cases "ws ! i"; auto simp: worker_holds_def split: if_splits)
  ultimately show ?case using wp_work(4) unfolding holders_def by linarith
next
  case (wp_enqueue p ws cs enq run i j c p' c')
  have "sum_list (map caller_holds (cs[i := (j, c')])) + caller_holds (cs ! i) = sum_list (map caller_holds cs) + caller_holds (j, c')"
    by (rule sum_list_update_at [OF wp_enqueue(2)])
  moreover have "caller_holds (cs ! i) \<le> of_bool (m_job_q p)"
    using member_le_sum_list [of "caller_holds (cs ! i)" "map caller_holds cs"] wp_enqueue(2,5) unfolding holders_def by simp
  then have "of_bool (m_job_q p') + caller_holds (cs ! i) = of_bool (m_job_q p) + caller_holds (j, c')"
    using wp_enqueue(3,4) by (cases "m_job_q p"; cases c; auto simp: caller_holds_def split: if_splits)
  ultimately show ?case using wp_enqueue(5) unfolding holders_def by linarith
qed (simp_all add: WorkerThread_stop_def holders_def caller_holds_def)

text \<open>
  A worker that runs alone once the flag is set takes every job that is left, in order, and returns: six
  steps a job and three at the end.
\<close>

fun run_alone :: "nat \<Rightarrow> pool_pc \<Rightarrow> worker_pool \<Rightarrow> worker_pool \<times> pool_pc" where
  "run_alone 0 w p = (p, w)"
| "run_alone (Suc k) w p = (case Work False w p of (p', w') \<Rightarrow> run_alone k w' p')"

lemma run_alone_job:
  "stop_all p \<Longrightarrow> \<not> m_job_q p \<Longrightarrow> jobs p = j # js \<Longrightarrow> run_alone (6 + k) Wk_retry p = run_alone k Wk_retry (p\<lparr>jobs := js\<rparr>)"
  by (cases p) (simp add: numeral_eq_Suc)

lemma stop_drains:
  "stop_all p \<Longrightarrow> \<not> m_job_q p \<Longrightarrow> run_alone (6 * length (jobs p) + 3) Wk_retry p = (p\<lparr>jobs := []\<rparr>, Wk_returned)"
proof (induction "jobs p" arbitrary: p)
  case Nil
  then have "p\<lparr>jobs := [], m_job_q := False\<rparr> = p\<lparr>jobs := []\<rparr>" by (cases p) simp
  with Nil show ?case by (cases p) (simp add: numeral_eq_Suc)
next
  case (Cons j js)
  then have "run_alone (6 * length (jobs p) + 3) Wk_retry p = run_alone (6 * length js + 3) Wk_retry (p\<lparr>jobs := js\<rparr>)"
    using run_alone_job [of p j js "6 * length js + 3"] by (simp add: Cons(2) [symmetric] algebra_simps)
  also have "\<dots> = (p\<lparr>jobs := []\<rparr>, Wk_returned)" using Cons(1) [of "p\<lparr>jobs := js\<rparr>"] Cons(3,4) by simp
  finally show ?case .
qed

text \<open>
  The shutdown as seen from the moment the flag is set: workers and callers go on, new callers may come.
  Callers that are done, were refused or have not tested the flag yet put nothing into the queue.
\<close>

definition callers_idle :: "(nat \<times> caller_pc) list \<Rightarrow> bool" where
  "callers_idle cs \<longleftrightarrow> (\<forall>c \<in> set cs. snd c \<in> {Enq_test, Enq_done, Enq_thrown})"

inductive shutdown :: "worker_pool \<Rightarrow> pool_pc list \<Rightarrow> (nat \<times> caller_pc) list \<Rightarrow> worker_pool \<Rightarrow> pool_pc list \<Rightarrow> (nat \<times> caller_pc) list \<Rightarrow> bool" for p ws cs where
  sd_refl: "shutdown p ws cs p ws cs"
| sd_call: "shutdown p ws cs p1 ws1 cs1 \<Longrightarrow> shutdown p ws cs p1 ws1 (cs1 @ [(j, Enq_test)])"
| sd_work: "shutdown p ws cs p1 ws1 cs1 \<Longrightarrow> i < length ws1 \<Longrightarrow> Work spurious (ws1 ! i) p1 = (p2, w) \<Longrightarrow> shutdown p ws cs p2 (ws1[i := w]) cs1"
| sd_enqueue: "shutdown p ws cs p1 ws1 cs1 \<Longrightarrow> i < length cs1 \<Longrightarrow> cs1 ! i = (j, c) \<Longrightarrow> EnqueueJob j c p1 = (p2, c') \<Longrightarrow> shutdown p ws cs p2 ws1 (cs1[i := (j, c')])"

lemma shutdown_inv:
  assumes "shutdown p ws cs p1 ws1 cs1" "stop_all p" "callers_idle cs" "Wk_returned \<notin> set ws"
  shows "stop_all p1 \<and> callers_idle cs1 \<and> (Wk_returned \<in> set ws1 \<longrightarrow> jobs p1 = [])"
  using assms
proof (induction rule: shutdown.induct)
  case (sd_call p1 ws1 cs1 j)
  then show ?case by (auto simp: callers_idle_def)
next
  case (sd_work p1 ws1 cs1 i spurious p2 w)
  then have p1: "stop_all p1" "callers_idle cs1" "Wk_returned \<in> set ws1 \<longrightarrow> jobs p1 = []" by blast+
  have "Wk_returned \<in> set (ws1[i := w]) \<longrightarrow> w = Wk_returned \<or> Wk_returned \<in> set ws1" using set_update_subset_insert by fastforce
  moreover have "stop_all p2" "w = Wk_returned \<longrightarrow> jobs p2 = []" "jobs p1 = [] \<longrightarrow> jobs p2 = []"
    using sd_work(2,3) p1 nth_mem [of i ws1] by (cases "ws1 ! i"; auto split: if_splits)+
  ultimately show ?case using p1 by blast
next
  case (sd_enqueue p1 ws1 cs1 i j c p2 c')
  then have p1: "stop_all p1" "callers_idle cs1" "Wk_returned \<in> set ws1 \<longrightarrow> jobs p1 = []" by blast+
  have "c \<in> {Enq_test, Enq_done, Enq_thrown}" using p1(2) sd_enqueue(2,3) nth_mem [of i cs1] by (auto simp: callers_idle_def)
  then have "p2 = p1" "c' \<in> {Enq_done, Enq_thrown}" using sd_enqueue(4) p1(1) by auto
  moreover have "callers_idle (cs1[i := (j, c')])" if "c' \<in> {Enq_done, Enq_thrown}"
    using p1(2) that set_update_subset_insert [of cs1 i "(j, c')"] by (fastforce simp: callers_idle_def)
  ultimately show ?case using p1 by blast
qed blast

lemma shutdown_reach:
  assumes "shutdown p ws cs p1 ws1 cs1" "wp_reach n p ws cs enq run" "stop_all p" "callers_idle cs" "Wk_returned \<notin> set ws"
  shows "\<exists>run1. wp_reach n p1 ws1 cs1 enq run1"
  using assms
proof (induction rule: shutdown.induct)
  case (sd_call p1 ws1 cs1 j)
  then show ?case using wp_call by blast
next
  case (sd_work p1 ws1 cs1 i spurious p2 w)
  then obtain run1 where r: "wp_reach n p1 ws1 cs1 enq run1" by blast
  then show ?case using wp_work [OF r _ sd_work(3)] wp_workers [OF r] sd_work(2) by auto
next
  case (sd_enqueue p1 ws1 cs1 i j c p2 c')
  then obtain run1 where r: "wp_reach n p1 ws1 cs1 enq run1" by blast
  have "c \<noteq> Enq_locked" using shutdown_inv [OF sd_enqueue(1) sd_enqueue.prems(2-4)] sd_enqueue(2,3) nth_mem [of i cs1] by (auto simp: callers_idle_def)
  then show ?case using wp_enqueue [OF r sd_enqueue(2-4)] by auto
qed blast

lemma shutdown_workers: "shutdown p ws cs p1 ws1 cs1 \<Longrightarrow> length ws1 = length ws"
  by (induction rule: shutdown.induct) simp_all

text \<open>
  C16. The shutdown of the pool loses no job: when no caller is between the test of the flag and the end of
  its call, every job that was enqueued has been taken by a worker, in the order of enqueueing, once all
  workers have returned, whatever workers and later callers do in between.
\<close>

theorem shutdown_runs_every_job:
  assumes "wp_reach num_threads p ws cs enq run" "0 < num_threads" "Wk_returned \<notin> set ws" "callers_idle cs"
    and "shutdown (WorkerThread_stop p) ws cs p1 ws1 cs1" "joined ws1"
  shows "jobs p1 = [] \<and> (\<exists>run1. wp_reach num_threads p1 ws1 cs1 enq run1 \<and> run1 = enq)"
proof -
  have "ws1 \<noteq> []" using shutdown_workers [OF assms(5)] wp_workers [OF assms(1)] assms(2) by auto
  then have "Wk_returned \<in> set ws1" using assms(6) by (cases ws1) (auto simp: joined_def)
  then have j: "jobs p1 = []" using shutdown_inv [OF assms(5) _ assms(4,3)] by (simp add: WorkerThread_stop_def)
  obtain run1 where r: "wp_reach num_threads p1 ws1 cs1 enq run1"
    using shutdown_reach [OF assms(5) wp_stop [OF assms(1)] _ assms(4,3)] by (auto simp: WorkerThread_stop_def)
  then have "run1 = enq" using wp_fifo [OF r] j by simp
  then show ?thesis using r j by blast
qed

text \<open>One worker, one job, and a shutdown after the call of its owner has ended.\<close>

lemma run_alone_shutdown: "shutdown p ws cs p1 [w] cs1 \<Longrightarrow> run_alone k w p1 = (p2, w2) \<Longrightarrow> shutdown p ws cs p2 [w2] cs1"
proof (induction k arbitrary: p1 w)
  case (Suc k)
  obtain p3 w3 where s: "Work False w p1 = (p3, w3)" by (cases "Work False w p1")
  have "shutdown p ws cs p3 [w3] cs1" using sd_work [OF Suc.prems(1), of 0 False] s by simp
  then show ?case using Suc.IH Suc.prems(2) s by simp
qed simp

theorem shutdown_runs_every_job_witness:
  "\<exists>p p1. wp_reach 1 p [Wk_retry] [(5, Enq_done)] [5] [] \<and> shutdown (WorkerThread_stop p) [Wk_retry] [(5, Enq_done)] p1 [Wk_returned] [(5, Enq_done)]
     \<and> jobs p1 = [] \<and> wp_reach 1 p1 [Wk_returned] [(5, Enq_done)] [5] [5]"
proof -
  let ?p = "WorkerThread_new\<lparr>jobs := [5]\<rparr>"
  have p: "wp_reach 1 WorkerThread_new [Wk_retry] [] [] []" using wp_new [of 1] by simp
  have "wp_reach 1 WorkerThread_new [Wk_retry] [(5, Enq_wait)] [] []"
    using wp_enqueue [OF wp_call [OF p, of 5], of 0 5 Enq_test] by (simp add: WorkerThread_new_def)
  from wp_enqueue [OF this, of 0 5 Enq_wait] have "wp_reach 1 (WorkerThread_new\<lparr>m_job_q := True\<rparr>) [Wk_retry] [(5, Enq_locked)] [] []"
    by (simp add: WorkerThread_new_def)
  from wp_enqueue [OF this, of 0 5 Enq_locked] have r: "wp_reach 1 ?p [Wk_retry] [(5, Enq_done)] [5] []" by (simp add: WorkerThread_new_def)
  obtain p1 where "run_alone 9 Wk_retry (WorkerThread_stop ?p) = (p1, Wk_returned)"
    using stop_drains [of "WorkerThread_stop ?p"] by (simp add: WorkerThread_stop_def WorkerThread_new_def)
  then have s: "shutdown (WorkerThread_stop ?p) [Wk_retry] [(5, Enq_done)] p1 [Wk_returned] [(5, Enq_done)]"
    by (rule run_alone_shutdown [OF sd_refl])
  have "jobs p1 = [] \<and> (\<exists>run1. wp_reach 1 p1 [Wk_returned] [(5, Enq_done)] [5] run1 \<and> run1 = [5])"
    by (rule shutdown_runs_every_job [OF r _ _ _ s]) (simp_all add: callers_idle_def joined_def)
  then show ?thesis using r s by blast
qed

text \<open>
  A caller that was past the test of the flag when the destructor set it puts its job into the queue after
  all workers have returned: the job never runs.
\<close>

lemma late_job_lost:
  "\<exists>p ws cs. wp_reach 1 p ws cs [5] [] \<and> joined ws \<and> cs = [(5, Enq_done)] \<and> jobs p = [5] \<and> stop_all p"
proof -
  let ?p = "WorkerThread_stop WorkerThread_new"
  have p: "wp_reach 1 WorkerThread_new [Wk_retry] [] [] []" using wp_new [of 1] by simp
  have "wp_reach 1 WorkerThread_new [Wk_retry] [(5, Enq_wait)] [] []"
    using wp_enqueue [OF wp_call [OF p, of 5], of 0 5 Enq_test] by (simp add: WorkerThread_new_def)
  from wp_stop [OF this] have s: "wp_reach 1 ?p [Wk_retry] [(5, Enq_wait)] [] []" .
  have "wp_reach 1 ?p [Wk_retry2] [(5, Enq_wait)] [] []" using wp_work [OF s, of 0 False] by simp
  from wp_work [OF this, of 0 False] have "wp_reach 1 (?p\<lparr>m_job_q := True\<rparr>) [Wk_locked] [(5, Enq_wait)] [] []"
    by (simp add: WorkerThread_stop_def WorkerThread_new_def)
  from wp_work [OF this, of 0 False] have "wp_reach 1 ?p [Wk_returned] [(5, Enq_wait)] [] []"
    by (simp add: WorkerThread_stop_def WorkerThread_new_def)
  from wp_enqueue [OF this, of 0 5 Enq_wait] have "wp_reach 1 (?p\<lparr>m_job_q := True\<rparr>) [Wk_returned] [(5, Enq_locked)] [] []"
    by (simp add: WorkerThread_stop_def WorkerThread_new_def)
  from wp_enqueue [OF this, of 0 5 Enq_locked] have "wp_reach 1 (?p\<lparr>jobs := [5]\<rparr>) [Wk_returned] [(5, Enq_done)] [5] []"
    by (simp add: WorkerThread_stop_def WorkerThread_new_def)
  then show ?thesis by (intro exI conjI, assumption) (simp_all add: joined_def WorkerThread_stop_def)
qed

end
