(* ===== verification/Text_IO.thy ===== *)
theory Text_IO
  imports Main
begin

text \<open>
  Text as the daemon reads and writes it: white space, digits, decimal numbers as the C++ streams extract
  them and as \<^verbatim>\<open>printf\<close> prints them.
\<close>

definition is_space :: "char \<Rightarrow> bool" where
  "is_space c \<longleftrightarrow> c \<in> {CHR '' '', CHR 0x09, CHR 0x0A, CHR 0x0B, CHR 0x0C, CHR 0x0D}"

definition is_digit :: "char \<Rightarrow> bool" where
  "is_digit c \<longleftrightarrow> 48 \<le> (of_char c :: nat) \<and> (of_char c :: nat) \<le> 57"

definition skip_ws :: "string \<Rightarrow> string" where
  "skip_ws s = dropWhile is_space s"

definition digits_val :: "string \<Rightarrow> nat" where
  "digits_val ds = foldl (\<lambda>v c. 10 * v + (of_char c - 48)) 0 ds"

text \<open>A number in decimal.\<close>

fun show_nat :: "nat \<Rightarrow> string" where
  "show_nat n = (if n < 10 then [char_of (48 + n)] else show_nat (n div 10) @ [char_of (48 + n mod 10)])"

declare show_nat.simps [simp del]

lemma is_digit_char: "k < (10 :: nat) \<Longrightarrow> is_digit (char_of (48 + k))"
  by (simp add: is_digit_def)

lemma show_nat_digits: "\<forall>c \<in> set (show_nat n). is_digit c" "show_nat n \<noteq> []"
  by (induction n rule: show_nat.induct; subst show_nat.simps; simp add: is_digit_char)+

lemma digits_val_show: "digits_val (show_nat n) = n"
proof (induction n rule: show_nat.induct)
  case (1 n)
  show ?case
  proof (cases "n < 10")
    case True
    then show ?thesis by (subst show_nat.simps) (simp add: digits_val_def)
  next
    case False
    have "digits_val (show_nat n) = 10 * digits_val (show_nat (n div 10)) + n mod 10"
      using False by (subst show_nat.simps) (simp add: digits_val_def)
    then show ?thesis using 1 [OF False] by simp
  qed
qed

lemma is_digit_not_space: "is_digit c \<Longrightarrow> \<not> is_space c" "is_digit c \<Longrightarrow> c \<noteq> CHR ''-''" "is_digit c \<Longrightarrow> c \<noteq> CHR ''+''"
  by (auto simp: is_digit_def is_space_def)

text \<open>A number printed with at least two digits (\<^verbatim>\<open>setfill('0') << setw(2)\<close>).\<close>

definition pad2 :: "nat \<Rightarrow> string" where
  "pad2 n = (if n < 10 then ''0'' else []) @ show_nat n"

lemma length_show_nat: "n < 10 ^ k \<Longrightarrow> 0 < k \<Longrightarrow> length (show_nat n) \<le> k"
proof (induction n arbitrary: k rule: show_nat.induct)
  case (1 n)
  show ?case
  proof (cases "n < 10")
    case False
    then obtain j where j: "k = Suc j" "0 < j" using 1(2,3) by (cases k; cases "k - 1") auto
    then have "length (show_nat (n div 10)) \<le> j" using 1(1) [OF False] 1(2) by simp
    then show ?thesis using j False by (subst show_nat.simps) simp
  qed (use 1(3) in \<open>subst show_nat.simps, simp\<close>)
qed

lemma length_pad2: "n < 100 \<Longrightarrow> length (pad2 n) = 2"
proof (cases "n < 10")
  case False
  assume "n < 100"
  then have "n div 10 < 10" by (simp add: less_mult_imp_div_less)
  then have "show_nat n = [char_of (48 + n div 10), char_of (48 + n mod 10)]" using False show_nat.simps [of n] show_nat.simps [of "n div 10"] by simp
  then show ?thesis using False by (simp add: pad2_def)
qed (simp add: pad2_def show_nat.simps [of n])

end
