(* ===== verification/Cpu_Stats.thy ===== *)
theory Cpu_Stats
  imports Prelude Text_IO
begin

text \<open>
  Processor times of the daemon (\<^verbatim>\<open>daemon/cpu-stats\<close>): the lines of \<^verbatim>\<open>/proc/stat\<close> that describe processors are
  read into entries of ten 64-bit counters.  The file is a list of lines; extraction from a stream is
  modelled as the C++ library defines it: white space is skipped, a failed extraction sets the fail state,
  and extractions in the fail state leave their variable alone.  The percentages that
  \<^verbatim>\<open>CPUMonitor\<close> computes from two snapshots are in \<open>Cpu_Util\<close>.
\<close>

section \<open>Extraction from a stream\<close>

text \<open>\<^verbatim>\<open>ss >> std::string\<close>: the stream is the rest of the line, \<^const>\<open>None\<close> once it has failed.\<close>

definition read_word :: "string option \<Rightarrow> string \<Rightarrow> string option \<times> string" where
  "read_word st old = (case st of None \<Rightarrow> (None, old) | Some s \<Rightarrow>
     (let r = skip_ws s in if r = [] then (None, old)
      else (Some (dropWhile (\<lambda>c. \<not> is_space c) r), takeWhile (\<lambda>c. \<not> is_space c) r)))"

text \<open>
  \<^verbatim>\<open>ss >> std::size_t\<close>: an optional sign and digits; without digits the value is 0, above 64 bits it is the
  largest one, and both set the fail state.
\<close>

definition read_size :: "string option \<Rightarrow> u64 \<Rightarrow> string option \<times> u64" where
  "read_size st old = (case st of None \<Rightarrow> (None, old) | Some s \<Rightarrow>
     (let r = skip_ws s in if r = [] then (None, old)
      else let neg = (hd r = CHR ''-''); r' = (if hd r = CHR ''-'' \<or> hd r = CHR ''+'' then tl r else r);
               ds = takeWhile is_digit r'
           in if ds = [] then (None, 0)
              else if digits_val ds \<ge> 2 ^ 64 then (None, - 1)
              else (Some (dropWhile is_digit r'), if neg then - of_nat (digits_val ds) else of_nat (digits_val ds))))"

section \<open>One processor\<close>

datatype CPUStates = S_USER | S_NICE | S_SYSTEM | S_IDLE | S_IOWAIT | S_IRQ | S_SOFTIRQ | S_STEAL | S_GUEST | S_GUEST_NICE

fun state_idx :: "CPUStates \<Rightarrow> nat" where
  "state_idx S_USER = 0"
| "state_idx S_NICE = 1"
| "state_idx S_SYSTEM = 2"
| "state_idx S_IDLE = 3"
| "state_idx S_IOWAIT = 4"
| "state_idx S_IRQ = 5"
| "state_idx S_SOFTIRQ = 6"
| "state_idx S_STEAL = 7"
| "state_idx S_GUEST = 8"
| "state_idx S_GUEST_NICE = 9"

definition NUM_CPU_STATES :: nat where
  "NUM_CPU_STATES = 10"

record CPUData =
  mLabel :: string
  mTimes :: "u64 list"

fun read_times :: "string option \<Rightarrow> u64 list \<Rightarrow> u64 list" where
  "read_times st [] = []"
| "read_times st (old # olds) = (case read_size st old of (st', v) \<Rightarrow> v # read_times st' olds)"

text \<open>The entry is a fresh object: its times hold whatever was in memory.\<close>

definition ReadData :: "string \<Rightarrow> CPUData \<Rightarrow> CPUData" where
  "ReadData line d =
     (case read_word (Some line) (mLabel d) of (st, lbl) \<Rightarrow>
        \<lparr>mLabel = (if length lbl > 3 then drop 3 lbl else ''tot''), mTimes = read_times st (mTimes d)\<rparr>)"

definition time_of :: "CPUStates \<Rightarrow> CPUData \<Rightarrow> u64" where
  "time_of st d = mTimes d ! state_idx st"

definition GetActiveTime :: "CPUData \<Rightarrow> u64" where
  "GetActiveTime d = time_of S_USER d + time_of S_NICE d + time_of S_SYSTEM d + time_of S_IRQ d + time_of S_SOFTIRQ d
     + time_of S_STEAL d + time_of S_GUEST d + time_of S_GUEST_NICE d"

definition GetIdleTime :: "CPUData \<Rightarrow> u64" where
  "GetIdleTime d = time_of S_IDLE d + time_of S_IOWAIT d"

definition GetStateTime :: "nat \<Rightarrow> CPUData \<Rightarrow> u64" where
  "GetStateTime state d = (if state < NUM_CPU_STATES then mTimes d ! state else 0)"

definition GetTotalTime :: "CPUData \<Rightarrow> u64" where
  "GetTotalTime d = time_of S_USER d + time_of S_NICE d + time_of S_SYSTEM d + time_of S_IDLE d + time_of S_IOWAIT d + time_of S_IRQ d
     + time_of S_SOFTIRQ d + time_of S_STEAL d + time_of S_GUEST d + time_of S_GUEST_NICE d"

definition IsDataCPUStats :: "string \<Rightarrow> bool" where
  "IsDataCPUStats line \<longleftrightarrow> take 3 line = ''cpu''"

section \<open>A snapshot\<close>

text \<open>\<open>raw i\<close> is what the memory of the \<open>i\<close>-th entry held.\<close>

fun snapshot_from :: "(nat \<Rightarrow> u64 list) \<Rightarrow> nat \<Rightarrow> string list \<Rightarrow> CPUData list" where
  "snapshot_from raw i [] = []"
| "snapshot_from raw i (line # lines) =
     (if IsDataCPUStats line then ReadData line \<lparr>mLabel = [], mTimes = raw i\<rparr> # snapshot_from raw (i + 1) lines
      else snapshot_from raw i lines)"

definition CPUSnapshot_new :: "(nat \<Rightarrow> u64 list) \<Rightarrow> string list \<Rightarrow> CPUData list" where
  "CPUSnapshot_new raw lines = snapshot_from raw 0 lines"

text \<open>The number of processors is computed in \<^verbatim>\<open>size_t\<close>: a snapshot without entries has 2^64 - 1.\<close>

definition GetNumEntries :: "CPUData list \<Rightarrow> u64" where
  "GetNumEntries es = of_nat (length es) - 1"

text \<open>The accessors skip the entry of the total; the number is an unsigned int that wraps.\<close>

definition entry :: "u32 \<Rightarrow> CPUData list \<Rightarrow> CPUData option" where
  "entry cpu es = (let cpu = cpu + 1 in if unat cpu < length es then Some (es ! unat cpu) else None)"

definition Snap_GetLabel :: "u32 \<Rightarrow> CPUData list \<Rightarrow> string option" where
  "Snap_GetLabel cpu es = map_option mLabel (entry cpu es)"

definition Snap_GetActiveTime :: "u32 \<Rightarrow> CPUData list \<Rightarrow> u64" where
  "Snap_GetActiveTime cpu es = (case entry cpu es of Some d \<Rightarrow> GetActiveTime d | None \<Rightarrow> 0)"

definition Snap_GetIdleTime :: "u32 \<Rightarrow> CPUData list \<Rightarrow> u64" where
  "Snap_GetIdleTime cpu es = (case entry cpu es of Some d \<Rightarrow> GetIdleTime d | None \<Rightarrow> 0)"

definition Snap_GetStateTime :: "nat \<Rightarrow> u32 \<Rightarrow> CPUData list \<Rightarrow> u64" where
  "Snap_GetStateTime state cpu es = (case entry cpu es of Some d \<Rightarrow> GetStateTime state d | None \<Rightarrow> 0)"

definition Snap_GetTotalTime :: "u32 \<Rightarrow> CPUData list \<Rightarrow> u64" where
  "Snap_GetTotalTime cpu es = (case entry cpu es of Some d \<Rightarrow> GetTotalTime d | None \<Rightarrow> 0)"

text \<open>The accessors of the total take the first entry; without one there is no result.\<close>

definition total_entry :: "CPUData list \<Rightarrow> CPUData option" where
  "total_entry es = (if es = [] then None else Some (es ! 0))"

definition GetLabelTotal :: "CPUData list \<Rightarrow> string option" where
  "GetLabelTotal es = map_option mLabel (total_entry es)"

definition GetActiveTimeTotal :: "CPUData list \<Rightarrow> u64 option" where
  "GetActiveTimeTotal es = map_option GetActiveTime (total_entry es)"

definition GetIdleTimeTotal :: "CPUData list \<Rightarrow> u64 option" where
  "GetIdleTimeTotal es = map_option GetIdleTime (total_entry es)"

definition GetStateTimeTotal :: "nat \<Rightarrow> CPUData list \<Rightarrow> u64 option" where
  "GetStateTimeTotal state es = map_option (GetStateTime state) (total_entry es)"

definition GetTotalTimeTotal :: "CPUData list \<Rightarrow> u64 option" where
  "GetTotalTimeTotal es = map_option GetTotalTime (total_entry es)"

section \<open>Reading what the kernel prints\<close>

text \<open>A line of ten or fewer numbers.\<close>

definition show_times :: "nat list \<Rightarrow> string" where
  "show_times ts = concat (map (\<lambda>t. '' '' @ show_nat t) ts)"

lemma read_size_show:
  assumes "n < 2 ^ 64" "rest = [] \<or> is_space (hd rest)"
  shows "read_size (Some (CHR '' '' # show_nat n @ rest)) old = (Some rest, of_nat n)"
proof -
  obtain c cs where c: "show_nat n = c # cs" "is_digit c" using show_nat_digits [of n] by (cases "show_nat n") auto
  have w: "skip_ws (CHR '' '' # show_nat n @ rest) = show_nat n @ rest"
    using c is_digit_not_space by (simp add: skip_ws_def is_space_def)
  have r: "rest = [] \<or> \<not> is_digit (hd rest)" using assms(2) is_digit_not_space by blast
  have "takeWhile is_digit (show_nat n @ rest) = show_nat n" "dropWhile is_digit (show_nat n @ rest) = rest"
    using show_nat_digits(1) [of n] r by (cases rest; simp add: takeWhile_append2 dropWhile_append2)+
  moreover have "hd (show_nat n @ rest) \<noteq> CHR ''-''" "hd (show_nat n @ rest) \<noteq> CHR ''+''" using c is_digit_not_space by auto
  ultimately show ?thesis using w show_nat_digits(2) [of n] assms(1) by (simp add: read_size_def digits_val_show)
qed

lemma show_times_space: "show_times ts = [] \<or> is_space (hd (show_times ts))"
  by (cases ts) (simp_all add: show_times_def is_space_def)

lemma read_times_end: "read_times (Some []) olds = olds" "read_times None olds = olds"
proof -
  show n: "read_times None olds = olds" for olds by (induction olds) (simp_all add: read_size_def)
  show "read_times (Some []) olds = olds" by (cases olds) (simp_all add: read_size_def skip_ws_def n)
qed

lemma read_times_show:
  "\<forall>t \<in> set ts. t < 2 ^ 64 \<Longrightarrow> length ts \<le> length olds \<Longrightarrow>
    read_times (Some (show_times ts)) olds = map of_nat ts @ drop (length ts) olds"
proof (induction ts arbitrary: olds)
  case Nil
  then show ?case by (simp add: show_times_def read_times_end)
next
  case (Cons t ts)
  then obtain old olds' where o: "olds = old # olds'" by (cases olds) auto
  have "show_times (t # ts) = CHR '' '' # show_nat t @ show_times ts" by (simp add: show_times_def)
  then show ?case using Cons o read_size_show [OF _ show_times_space, of t ts old] by simp
qed

lemma read_times_space: "read_times (Some (CHR '' '' # s)) olds = read_times (Some s) olds"
  by (cases olds) (simp_all add: read_size_def skip_ws_def is_space_def)

text \<open>
  What the kernel prints for a processor is read back: the label without its prefix, or the name of the
  total, whose line has two spaces, and the times in their order; times that an older kernel does not
  print keep what was in memory.
\<close>

theorem cpu_line_roundtrip:
  assumes "\<forall>c \<in> set lbl. \<not> is_space c" "\<forall>t \<in> set ts. t < 2 ^ 64" "length ts \<le> length (mTimes d)" "sp = [] \<or> sp = '' ''"
  shows "IsDataCPUStats (''cpu'' @ lbl @ sp @ show_times ts)
    \<and> ReadData (''cpu'' @ lbl @ sp @ show_times ts) d = \<lparr>mLabel = (if lbl = [] then ''tot'' else lbl), mTimes = map of_nat ts @ drop (length ts) (mTimes d)\<rparr>"
proof -
  have w: "\<forall>c \<in> set (''cpu'' @ lbl). \<not> is_space c" using assms(1) by (simp add: is_space_def)
  have s: "sp @ show_times ts = [] \<or> is_space (hd (sp @ show_times ts))" using assms(4) show_times_space [of ts] by (auto simp: is_space_def)
  have "takeWhile (\<lambda>c. \<not> is_space c) ((''cpu'' @ lbl) @ sp @ show_times ts) = ''cpu'' @ lbl"
      "dropWhile (\<lambda>c. \<not> is_space c) ((''cpu'' @ lbl) @ sp @ show_times ts) = sp @ show_times ts"
    using w s by (cases "sp @ show_times ts"; simp add: takeWhile_append2 dropWhile_append2)+
  moreover have "skip_ws (''cpu'' @ lbl @ sp @ show_times ts) = ''cpu'' @ lbl @ sp @ show_times ts" by (simp add: skip_ws_def is_space_def)
  ultimately have "read_word (Some (''cpu'' @ lbl @ sp @ show_times ts)) (mLabel d) = (Some (sp @ show_times ts), ''cpu'' @ lbl)" by (simp add: read_word_def)
  moreover have "read_times (Some (sp @ show_times ts)) (mTimes d) = read_times (Some (show_times ts)) (mTimes d)" using assms(4) read_times_space by auto
  ultimately show ?thesis using read_times_show [OF assms(2,3)] by (simp add: ReadData_def IsDataCPUStats_def)
qed

text \<open>Active and idle time make up the total.\<close>

lemma total_is_active_and_idle: "GetTotalTime d = GetActiveTime d + GetIdleTime d"
  by (simp add: GetTotalTime_def GetActiveTime_def GetIdleTime_def)

text \<open>A snapshot has one entry per processor line, and entry 0 is the total the kernel prints first.\<close>

lemma snapshot_from_append: "snapshot_from raw i (xs @ ys) = snapshot_from raw i xs @ snapshot_from raw (i + length (snapshot_from raw i xs)) ys"
  by (induction raw i xs rule: snapshot_from.induct) simp_all

lemma snapshot_entries: "length (snapshot_from raw i lines) = length (filter IsDataCPUStats lines)"
  by (induction raw i lines rule: snapshot_from.induct) simp_all

lemma empty_snapshot_counts_wrong: "\<forall>l \<in> set lines. \<not> IsDataCPUStats l \<Longrightarrow> GetNumEntries (CPUSnapshot_new raw lines) = - 1 \<and> GetActiveTimeTotal (CPUSnapshot_new raw lines) = None"
  by (simp add: CPUSnapshot_new_def GetNumEntries_def GetActiveTimeTotal_def total_entry_def snapshot_entries flip: length_0_conv)

end
