(* ===== verification/Cpu_Profile.thy ===== *)
theory Cpu_Profile
  imports Cpu_Stats
begin

text \<open>
  Processor time of the daemon's own process and of the machine (\<^verbatim>\<open>daemon/cpu_stats.hpp\<close>,
  \<^verbatim>\<open>daemon/cpu-stats/CPUMonitor.hpp\<close>): reading the files of the kernel with \<^verbatim>\<open>fscanf\<close>, and the differences
  between two readings, all in 64-bit arithmetic.  \<open>Cpu_Util\<close> has the quotients of the differences.
\<close>

section \<open>fscanf\<close>

text \<open>
  The conversions of the two formats: a number that is skipped, read as \<^verbatim>\<open>unsigned long\<close> or as \<^verbatim>\<open>long\<close>, a word
  and a character that are skipped.  Every one is preceded by white space, which matches any amount of it.
\<close>

datatype scan_dir = Skip_num | Skip_word | Skip_char | Read_ulong | Read_long

definition scan_num :: "string \<Rightarrow> (bool \<times> nat \<times> string) option" where
  "scan_num s = (let r = skip_ws s; r' = (if r \<noteq> [] \<and> (hd r = CHR ''-'' \<or> hd r = CHR ''+'') then tl r else r); ds = takeWhile is_digit r'
     in if ds = [] then None else Some (r \<noteq> [] \<and> hd r = CHR ''-'', digits_val ds, dropWhile is_digit r'))"

text \<open>Values outside the type become the nearest one; a negative one is negated in the type.\<close>

definition to_ulong :: "bool \<Rightarrow> nat \<Rightarrow> u64" where
  "to_ulong neg n = (if n \<ge> 2 ^ 64 then - 1 else if neg then - of_nat n else of_nat n)"

definition to_long :: "bool \<Rightarrow> nat \<Rightarrow> u64" where
  "to_long neg n = (if neg then (if n > 2 ^ 63 then of_nat (2 ^ 63) else - of_nat n) else (if n \<ge> 2 ^ 63 then of_nat (2 ^ 63 - 1) else of_nat n))"

text \<open>The values assigned before the first conversion that fails.\<close>

fun scan :: "scan_dir list \<Rightarrow> string \<Rightarrow> u64 list" where
  "scan [] s = []"
| "scan (Skip_num # ds) s = (case scan_num s of None \<Rightarrow> [] | Some (_, _, r) \<Rightarrow> scan ds r)"
| "scan (Read_ulong # ds) s = (case scan_num s of None \<Rightarrow> [] | Some (neg, n, r) \<Rightarrow> to_ulong neg n # scan ds r)"
| "scan (Read_long # ds) s = (case scan_num s of None \<Rightarrow> [] | Some (neg, n, r) \<Rightarrow> to_long neg n # scan ds r)"
| "scan (Skip_word # ds) s = (let r = skip_ws s in if r = [] then [] else scan ds (dropWhile (\<lambda>c. \<not> is_space c) r))"
| "scan (Skip_char # ds) s = (case skip_ws s of [] \<Rightarrow> [] | c # r \<Rightarrow> scan ds r)"

text \<open>\<^verbatim>\<open>EOF\<close> is returned when the input ends before the first conversion.\<close>

definition scan_eof :: "string \<Rightarrow> bool" where
  "scan_eof s \<longleftrightarrow> skip_ws s = []"

section \<open>CPUStats\<close>

record cpu_stat =
  utime_ticks :: u64
  cutime_ticks :: u64
  stime_ticks :: u64
  cstime_ticks :: u64
  cpu_total_time :: u64

definition cpu_stat_zero :: cpu_stat where
  "cpu_stat_zero = \<lparr>utime_ticks = 0, cutime_ticks = 0, stime_ticks = 0, cstime_ticks = 0, cpu_total_time = 0\<rparr>"

definition pid_format :: "scan_dir list" where
  "pid_format = [Skip_num, Skip_word, Skip_char] @ replicate 5 Skip_num @ replicate 5 Skip_num
     @ [Read_ulong, Read_ulong, Read_long, Read_long] @ replicate 7 Skip_num"

definition stat_format :: "scan_dir list" where
  "stat_format = Skip_word # replicate 10 Read_ulong"

text \<open>A variable keeps its value when its conversion was not reached.\<close>

definition nth_or :: "u64 list \<Rightarrow> nat \<Rightarrow> u64 \<Rightarrow> u64" where
  "nth_or vs i old = (if i < length vs then vs ! i else old)"

text \<open>A file that cannot be opened is \<^const>\<open>None\<close>.  When the second cannot, the null pointer is closed, which has no result.\<close>

definition Profile :: "string option \<Rightarrow> string option \<Rightarrow> cpu_stat \<Rightarrow> (cpu_stat \<times> int) option" where
  "Profile pid_stat stat result =
     (case pid_stat of None \<Rightarrow> Some (result, - 1)
      | Some p \<Rightarrow> (case stat of None \<Rightarrow> None
          | Some q \<Rightarrow>
              if scan_eof p then Some (cpu_stat_zero, - 1)
              else let vs = scan pid_format p;
                       r = cpu_stat_zero\<lparr>utime_ticks := nth_or vs 0 0, stime_ticks := nth_or vs 1 0, cutime_ticks := nth_or vs 2 0, cstime_ticks := nth_or vs 3 0\<rparr>
                   in if scan_eof q then Some (r, - 1)
                      else let cpu_time = scan stat_format q
                           in Some (r\<lparr>cpu_total_time := sum_list (map (\<lambda>i. nth_or cpu_time i 0) [0..<10])\<rparr>, 0)))"

text \<open>
  The terms of \<^verbatim>\<open>CalcUtil\<close>: the ticks in user and in kernel mode since the last reading, and the time that
  passed; no time leaves the utilisation as it is.
\<close>

definition CalcUtil_terms :: "cpu_stat \<Rightarrow> cpu_stat \<Rightarrow> (u64 \<times> u64 \<times> u64) option" where
  "CalcUtil_terms last_usage cur_usage =
     (let total_time_diff = cpu_total_time cur_usage - cpu_total_time last_usage
      in if total_time_diff = 0 then None
         else Some ((utime_ticks cur_usage + cutime_ticks cur_usage) - (utime_ticks last_usage + cutime_ticks last_usage),
                    (stime_ticks cur_usage + cstime_ticks cur_usage) - (stime_ticks last_usage + cstime_ticks last_usage), total_time_diff))"

section \<open>CPUMonitor\<close>

text \<open>The active and the idle time between two snapshots; a snapshot without entries has no total.\<close>

definition usage_terms :: "CPUData list \<Rightarrow> CPUData list \<Rightarrow> (u64 \<times> u64) option" where
  "usage_terms previousSnap curSnap =
     (case (GetActiveTimeTotal curSnap, GetActiveTimeTotal previousSnap, GetIdleTimeTotal curSnap, GetIdleTimeTotal previousSnap) of
        (Some a1, Some a0, Some i1, Some i0) \<Rightarrow> Some (a1 - a0, i1 - i0)
      | _ \<Rightarrow> None)"

section \<open>Properties\<close>

text \<open>Integers as the kernel prints them.\<close>

definition show_int :: "int \<Rightarrow> string" where
  "show_int n = (if n < 0 then CHR ''-'' # show_nat (nat (- n)) else show_nat (nat n))"

definition show_ints :: "int list \<Rightarrow> string" where
  "show_ints ns = concat (map (\<lambda>n. CHR '' '' # show_int n) ns)"

lemma show_ints_space: "show_ints ns = [] \<or> is_space (hd (show_ints ns))"
  by (cases ns) (simp_all add: show_ints_def is_space_def)

lemma scan_num_show:
  assumes "rest = [] \<or> is_space (hd rest)"
  shows "scan_num (CHR '' '' # show_int n @ rest) = Some (n < 0, nat \<bar>n\<bar>, rest)"
proof -
  define ds where "ds = show_nat (nat \<bar>n\<bar>)"
  obtain c cs where c: "ds = c # cs" "is_digit c" using show_nat_digits [of "nat \<bar>n\<bar>"] unfolding ds_def by (cases "show_nat (nat \<bar>n\<bar>)") auto
  have r: "rest = [] \<or> \<not> is_digit (hd rest)" using assms is_digit_not_space by blast
  have d: "takeWhile is_digit (ds @ rest) = ds" "dropWhile is_digit (ds @ rest) = rest"
    using show_nat_digits(1) [of "nat \<bar>n\<bar>"] r unfolding ds_def by (cases rest; simp add: takeWhile_append2 dropWhile_append2)+
  have s: "show_int n = (if n < 0 then [CHR ''-''] else []) @ ds" by (simp add: show_int_def ds_def)
  have w: "skip_ws (CHR '' '' # show_int n @ rest) = show_int n @ rest" using c is_digit_not_space by (auto simp: s skip_ws_def is_space_def)
  have h: "c \<noteq> CHR ''-''" "c \<noteq> CHR ''+''" using c(2) is_digit_not_space by auto
  have "digits_val ds = nat \<bar>n\<bar>" by (simp add: ds_def digits_val_show)
  then show ?thesis using w d c(1) h by (cases "n < 0") (simp_all add: scan_num_def s)
qed

text \<open>A list of numbers read by conversions of one kind.\<close>

lemma scan_skip_nums:
  "rest = [] \<or> is_space (hd rest) \<Longrightarrow> scan (replicate (length ns) Skip_num @ ds) (show_ints ns @ rest) = scan ds rest"
proof (induction ns)
  case (Cons n ns)
  have "show_ints (n # ns) @ rest = CHR '' '' # show_int n @ show_ints ns @ rest" by (simp add: show_ints_def)
  moreover have "show_ints ns @ rest = [] \<or> is_space (hd (show_ints ns @ rest))" using Cons.prems show_ints_space [of ns] by (cases "show_ints ns = []") auto
  ultimately show ?case using Cons.IH [OF Cons.prems] by (simp add: scan_num_show)
qed (simp add: show_ints_def)

lemma scan_read_num:
  assumes "rest = [] \<or> is_space (hd rest)"
  shows "0 \<le> n \<Longrightarrow> n < 2 ^ 64 \<Longrightarrow> scan (Read_ulong # ds) (CHR '' '' # show_int n @ rest) = of_int n # scan ds rest"
    and "- (2 ^ 63) \<le> n \<Longrightarrow> n < 2 ^ 63 \<Longrightarrow> scan (Read_long # ds) (CHR '' '' # show_int n @ rest) = of_int n # scan ds rest"
proof -
  assume n: "0 \<le> n" "n < 2 ^ 64"
  then have "nat \<bar>n\<bar> < 2 ^ 64" by (simp add: nat_less_iff)
  moreover have "of_nat (nat \<bar>n\<bar>) = (of_int n :: u64)" using n(1) by simp
  ultimately show "scan (Read_ulong # ds) (CHR '' '' # show_int n @ rest) = of_int n # scan ds rest"
    using n(1) scan_num_show [OF assms, of n] by (simp add: to_ulong_def)
next
  assume n: "- (2 ^ 63) \<le> n" "n < 2 ^ 63"
  have "to_long (n < 0) (nat \<bar>n\<bar>) = of_int n"
  proof (cases "n < 0")
    case True
    then have "\<not> nat \<bar>n\<bar> > 2 ^ 63" "of_nat (nat \<bar>n\<bar>) = (of_int (- n) :: u64)" using n(1) by (simp_all add: not_less nat_le_iff)
    then show ?thesis using True unfolding to_long_def by (simp only: if_True if_False of_int_minus minus_minus)
  next
    case False
    then have "\<not> nat \<bar>n\<bar> \<ge> 2 ^ 63" "of_nat (nat \<bar>n\<bar>) = (of_int n :: u64)" using n(2) by (simp_all add: not_le nat_less_iff)
    then show ?thesis using False unfolding to_long_def by (simp only: if_False)
  qed
  then show "scan (Read_long # ds) (CHR '' '' # show_int n @ rest) = of_int n # scan ds rest" using scan_num_show [OF assms, of n] by simp
qed

lemma scan_num_ws: "scan_num (CHR '' '' # s) = scan_num s"
  by (simp add: scan_num_def skip_ws_def is_space_def)

lemma scan_read_nums:
  "rest = [] \<or> is_space (hd rest) \<Longrightarrow> \<forall>n \<in> set ns. 0 \<le> n \<and> n < 2 ^ 64 \<Longrightarrow>
    scan (replicate (length ns) Read_ulong @ ds) (show_ints ns @ rest) = map of_int ns @ scan ds rest"
proof (induction ns)
  case (Cons n ns)
  have e: "show_ints (n # ns) @ rest = CHR '' '' # show_int n @ show_ints ns @ rest" by (simp add: show_ints_def)
  have "show_ints ns @ rest = [] \<or> is_space (hd (show_ints ns @ rest))" using Cons.prems(1) show_ints_space [of ns] by (cases "show_ints ns = []") auto
  from scan_read_num(1) [OF this, of n "replicate (length ns) Read_ulong @ ds"] Cons show ?case unfolding e by simp
qed (simp add: show_ints_def)

lemma scan_skip_word:
  assumes "w \<noteq> []" "\<forall>c \<in> set w. \<not> is_space c" "rest = [] \<or> is_space (hd rest)" "sp = [] \<or> sp = '' ''"
  shows "scan (Skip_word # ds) (sp @ w @ rest) = scan ds rest"
proof -
  obtain c cs where w: "w = c # cs" using assms(1) by (cases w) auto
  then have "\<not> is_space c" using assms(2) by simp
  then have "skip_ws (w @ rest) = w @ rest" by (simp add: w skip_ws_def)
  moreover have "skip_ws ('' '' @ v) = skip_ws v" for v by (simp add: skip_ws_def is_space_def)
  ultimately have "skip_ws (sp @ w @ rest) = w @ rest" using assms(4) by auto
  moreover have "dropWhile (\<lambda>c. \<not> is_space c) (w @ rest) = rest" using assms(2,3) by (cases rest) (simp_all add: dropWhile_append2)
  ultimately show ?thesis using assms(1) by simp
qed

definition pid_line :: "int \<Rightarrow> string \<Rightarrow> char \<Rightarrow> int list \<Rightarrow> string" where
  "pid_line pid name st ns = show_int pid @ '' '' @ ''('' @ name @ '')'' @ '' '' @ [st] @ show_ints ns @ [CHR 0x0A]"

lemma show_int_start: "show_int n \<noteq> []" "skip_ws (show_int n @ rest) = show_int n @ rest"
proof -
  obtain c cs where c: "show_nat (nat \<bar>n\<bar>) = c # cs" "is_digit c" using show_nat_digits [of "nat \<bar>n\<bar>"] by (cases "show_nat (nat \<bar>n\<bar>)") auto
  then show "show_int n \<noteq> []" "skip_ws (show_int n @ rest) = show_int n @ rest"
    using is_digit_not_space(1) [OF c(2)] by (cases "n < 0"; simp add: show_int_def skip_ws_def is_space_def)+
qed

lemma scan_pid_line:
  assumes "\<forall>c \<in> set name. \<not> is_space c" "\<not> is_space st" "length xs = 10"
    and "0 \<le> u" "u < 2 ^ 64" "0 \<le> s" "s < 2 ^ 64" "- (2 ^ 63) \<le> cu" "cu < 2 ^ 63" "- (2 ^ 63) \<le> cs" "cs < 2 ^ 63" "7 \<le> length ys"
  shows "scan pid_format (pid_line pid name st (xs @ [u, s, cu, cs] @ ys)) = [of_int u, of_int s, of_int cu, of_int cs]"
proof -
  define e1 where "e1 = show_ints ys @ [CHR 0x0A]"
  define e2 where "e2 = show_ints [u, s, cu, cs] @ e1"
  have sp: "show_ints ns @ rest = [] \<or> is_space (hd (show_ints ns @ rest))" if "rest = [] \<or> is_space (hd rest)" for ns rest
    using that show_ints_space [of ns] by (cases "show_ints ns = []") auto
  have nl: "[CHR 0x0A] = [] \<or> is_space (hd [CHR 0x0A])" by (simp add: is_space_def)
  have h1: "e1 = [] \<or> is_space (hd e1)" unfolding e1_def by (rule sp [OF nl])
  have h2: "e2 = [] \<or> is_space (hd e2)" unfolding e2_def by (rule sp [OF h1])
  have app: "show_ints (as @ bs) = show_ints as @ show_ints bs" for as bs by (simp add: show_ints_def)
  have nil: "show_ints [] @ v = v" for v by (simp add: show_ints_def)
  have one: "show_ints (n # ns) = CHR '' '' # show_int n @ show_ints ns" for n ns by (simp add: show_ints_def)
  have line: "pid_line pid name st (xs @ [u, s, cu, cs] @ ys) = show_int pid @ '' '' @ (''('' @ name @ '')'') @ '' '' @ [st] @ show_ints xs @ e2"
    by (simp only: pid_line_def app e1_def e2_def append_assoc)
  have p1: "scan (Skip_num # ds) (show_int pid @ '' '' @ r) = scan ds ('' '' @ r)" for ds r
    using scan_num_show [of "'' '' @ r" pid] by (simp add: scan_num_ws is_space_def)
  have p2: "scan (Skip_word # ds) ('' '' @ (''('' @ name @ '')'') @ '' '' @ r) = scan ds ('' '' @ r)" for ds r
    by (rule scan_skip_word) (use assms(1) in \<open>auto simp: is_space_def\<close>)
  have p3: "scan (Skip_char # ds) ('' '' @ [st] @ r) = scan ds r" for ds r using assms(2) by (simp add: skip_ws_def is_space_def)
  have p4: "scan (replicate 10 Skip_num @ ds) (show_ints xs @ e2) = scan ds e2" for ds using scan_skip_nums [OF h2, of xs ds] assms(3) by simp
  have p5: "scan [Read_ulong, Read_ulong, Read_long, Read_long] e2 = [of_int u, of_int s, of_int cu, of_int cs]"
  proof -
    have b: "CHR '' '' # v = [] \<or> is_space (hd (CHR '' '' # v))" for v by (simp add: is_space_def)
    show ?thesis unfolding e2_def one append_Cons append_assoc
      by (simp only: scan_read_num(1) [OF b assms(4,5)] scan_read_num(1) [OF b assms(6,7)] scan_read_num(2) [OF b assms(8,9)] nil scan_read_num(2) [OF h1 assms(10,11)] scan.simps(1))
  qed
  have tl: "scan (ds @ replicate k Skip_num) r = scan ds r" for ds k r
    by (induction ds r rule: scan.induct; (induction k arbitrary: r)?) (auto split: option.splits list.splits prod.splits simp: Let_def)
  have f: "pid_format = (Skip_num # Skip_word # Skip_char # replicate 10 Skip_num @ [Read_ulong, Read_ulong, Read_long, Read_long]) @ replicate 7 Skip_num"
    by (simp add: pid_format_def eval_nat_numeral)
  show ?thesis unfolding line f tl p1 p2 p3 p4 p5 by (rule refl)
qed

text \<open>
  What the kernel prints is read back: the times of the process, the terminal group of which may be
  negative, and the sum of the ten times of the machine.
\<close>

lemma Profile_reads_back:
  assumes "\<forall>c \<in> set name. \<not> is_space c" "\<not> is_space st" "length xs = 10"
    and "0 \<le> u" "u < 2 ^ 64" "0 \<le> s" "s < 2 ^ 64" "- (2 ^ 63) \<le> cu" "cu < 2 ^ 63" "- (2 ^ 63) \<le> cs" "cs < 2 ^ 63" "7 \<le> length ys"
    and "length ts = 10" "\<forall>t \<in> set ts. 0 \<le> t \<and> t < 2 ^ 64"
  shows "Profile (Some (pid_line pid name st (xs @ [u, s, cu, cs] @ ys))) (Some (''cpu'' @ show_ints ts @ CHR 0x0A # lines)) r
    = Some (\<lparr>utime_ticks = of_int u, cutime_ticks = of_int cu, stime_ticks = of_int s, cstime_ticks = of_int cs, cpu_total_time = of_int (sum_list ts)\<rparr>, 0)"
proof -
  let ?p = "pid_line pid name st (xs @ [u, s, cu, cs] @ ys)" and ?q = "''cpu'' @ show_ints ts @ CHR 0x0A # lines"
  have e: "\<not> scan_eof ?p" "\<not> scan_eof ?q"
    using show_int_start by (simp_all add: scan_eof_def pid_line_def) (simp add: skip_ws_def is_space_def)
  have nl: "CHR 0x0A # lines = [] \<or> is_space (hd (CHR 0x0A # lines))" by (simp add: is_space_def)
  have sp: "show_ints ts @ CHR 0x0A # lines = [] \<or> is_space (hd (show_ints ts @ CHR 0x0A # lines))"
    using nl show_ints_space [of ts] by (cases "show_ints ts = []") auto
  have w: "scan (Skip_word # ds) ([] @ ''cpu'' @ show_ints ts @ CHR 0x0A # lines) = scan ds (show_ints ts @ CHR 0x0A # lines)" for ds
    by (rule scan_skip_word [OF _ _ sp]) (simp_all add: is_space_def)
  have "scan (replicate 10 Read_ulong) (show_ints ts @ CHR 0x0A # lines) = map of_int ts" using scan_read_nums [OF nl assms(14), of "[]"] assms(13) by simp
  then have q: "scan stat_format ?q = map of_int ts" using w [of "replicate 10 Read_ulong"] unfolding stat_format_def by (simp only: append_Nil)
  have "map (\<lambda>i. nth_or (map of_int ts) i 0) [0..<10] = (map of_int ts :: u64 list)" using assms(13) by (intro nth_equalityI) (simp_all add: nth_or_def)
  moreover have "sum_list (map of_int ts) = (of_int (sum_list ts) :: u64)" by (induction ts) simp_all
  ultimately have m: "(\<Sum>i\<leftarrow>[0..<10]. nth_or (map of_int ts) i 0) = (of_int (sum_list ts) :: u64)" by simp
  have "Profile (Some p) (Some q) r = Some (\<lparr>utime_ticks = nth_or vs 0 0, cutime_ticks = nth_or vs 2 0, stime_ticks = nth_or vs 1 0, cstime_ticks = nth_or vs 3 0,
      cpu_total_time = sum_list (map (\<lambda>i. nth_or ws i 0) [0..<10])\<rparr>, 0)"
    if "\<not> scan_eof p" "\<not> scan_eof q" "scan pid_format p = vs" "scan stat_format q = ws" for p q vs ws
    using that by (simp add: Profile_def Let_def cpu_stat_zero_def)
  from this [OF e scan_pid_line [OF assms(1-12)] q] show ?thesis unfolding m by (simp add: nth_or_def)
qed

text \<open>A process whose name has a space is read with all its times off by one field.\<close>

lemma name_with_space_misread:
  "scan pid_format ''7 (a b) S 1 1 1 0 -1 4 5 6 7 8 901 902 903 904 20 0 1 0 3 4 5'' \<noteq> [901, 902, 903, 904]"
  by code_simp

end
