(* ===== verification/Logger.thy ===== *)
theory Logger
  imports Text_IO
begin

text \<open>
  The log of the daemon (\<^verbatim>\<open>daemon/logger.cpp\<close>): the text of a time stamp and of a log line, the memory that
  is allocated for it, what goes to the file and to the terminal, and how a log is opened.  The arguments that \<^verbatim>\<open>vfprintf\<close>
  substitutes into the line are not modelled.
\<close>

datatype log_config = LOG_LEVEL_OFF | LOG_LEVEL_FATAL | LOG_LEVEL_ERROR | LOG_LEVEL_WARN | LOG_LEVEL_INFO | LOG_LEVEL_DEBUG | LOG_LEVEL_TRACE | LOG_LEVEL_ALL

fun log_num :: "log_config \<Rightarrow> nat" where
  "log_num LOG_LEVEL_OFF = 0"
| "log_num LOG_LEVEL_FATAL = 1"
| "log_num LOG_LEVEL_ERROR = 2"
| "log_num LOG_LEVEL_WARN = 3"
| "log_num LOG_LEVEL_INFO = 4"
| "log_num LOG_LEVEL_DEBUG = 5"
| "log_num LOG_LEVEL_TRACE = 6"
| "log_num LOG_LEVEL_ALL = 7"

record tm =
  tm_sec :: nat
  tm_min :: nat
  tm_hour :: nat
  tm_mday :: nat
  tm_mon :: nat
  tm_year :: nat

definition month_names :: "string list" where
  "month_names = [''Jan'', ''Feb'', ''Mar'', ''Apr'', ''May'', ''Jun'', ''Jul'', ''Aug'', ''Sep'', ''Oct'', ''Nov'', ''Dec'']"

text \<open>The stream appends a zero byte, which the string keeps and \<^verbatim>\<open>c_str\<close> ends at.\<close>

definition getTimestamp :: "tm \<Rightarrow> string" where
  "getTimestamp t = (if tm_mon t < 12 then month_names ! tm_mon t else []) @ '' '' @ pad2 (tm_mday t) @ '' '' @ show_nat (tm_year t + 1900)
     @ '' '' @ pad2 (tm_hour t) @ '':'' @ pad2 (tm_min t) @ '':'' @ pad2 (tm_sec t) @ [CHR 0x00]"

definition c_str :: "string \<Rightarrow> string" where
  "c_str s = takeWhile (\<lambda>c. c \<noteq> CHR 0x00) s"

definition level_name :: "log_config \<Rightarrow> string" where
  "level_name lv = (case lv of LOG_LEVEL_FATAL \<Rightarrow> ''[FATAL]'' | LOG_LEVEL_ERROR \<Rightarrow> ''[ERROR]'' | LOG_LEVEL_WARN \<Rightarrow> ''[WARN] ''
     | LOG_LEVEL_INFO \<Rightarrow> ''[INFO] '' | LOG_LEVEL_DEBUG \<Rightarrow> ''[DEBUG]'' | LOG_LEVEL_TRACE \<Rightarrow> ''[TRACE]'' | _ \<Rightarrow> [])"

text \<open>The line and the number of bytes allocated for it; \<^verbatim>\<open>sprintf\<close> writes the line and a zero byte.\<close>

definition log_line :: "bool \<Rightarrow> log_config \<Rightarrow> tm \<Rightarrow> string \<Rightarrow> nat \<Rightarrow> string \<Rightarrow> string \<times> nat" where
  "log_line simple_log lv t funcName line str =
     (if \<not> simple_log
      then (level_name lv @ '' '' @ c_str (getTimestamp t) @ '' ['' @ funcName @ '':'' @ show_nat line @ ''] : '' @ str @ [CHR 0x0A],
            21 + length funcName + length str + 30)
      else (str @ [CHR 0x0A], length str))"

text \<open>What a call writes: to the file when it can be opened, and to the terminal when the level is high enough.\<close>

definition writeLog :: "bool \<Rightarrow> log_config \<Rightarrow> bool \<Rightarrow> log_config \<Rightarrow> tm \<Rightarrow> string \<Rightarrow> nat \<Rightarrow> string \<Rightarrow> string option \<times> string option" where
  "writeLog open_ok logLevel simple_log lv t funcName line str =
     (if \<not> open_ok then (None, None)
      else (Some (fst (log_line simple_log lv t funcName line str)),
            if log_num lv \<le> log_num logLevel then Some (fst (log_line simple_log lv t funcName line str)) else None))"

text \<open>
  The constructor: the path is copied into an array of 100 zero bytes and the mode into an array of one, a
  file that cannot be opened ends the program, and a first line is written.  \<open>overrun\<close> is the number of bytes
  that a copy with its zero byte writes past an array of \<open>buf\<close> bytes.
\<close>

definition overrun :: "nat \<Rightarrow> string \<Rightarrow> nat" where
  "overrun buf s = length s + 1 - buf"

record logger_t =
  logLevel :: log_config
  simple_log :: bool
  logfile :: string
  open_mode :: string

definition Logger_new :: "bool \<Rightarrow> tm \<Rightarrow> log_config \<Rightarrow> string \<Rightarrow> bool \<Rightarrow> (logger_t \<times> string option \<times> string option) option" where
  "Logger_new open_ok t level path app =
     (let l = \<lparr>logLevel = level, simple_log = True, logfile = path, open_mode = (if app then ''a'' else ''w'')\<rparr>
      in if \<not> open_ok then None
         else Some (l, writeLog open_ok (logLevel l) (simple_log l) LOG_LEVEL_INFO t ''Logger'' 35 (''Open Log: %s'' @ [CHR 0x0A])))"

text \<open>The path of a log as the store and the pool build it, with the number of bytes allocated for it.\<close>

definition LOGDIR :: string where
  "LOGDIR = ''/root/dcc-log/''"

definition log_file :: "string \<Rightarrow> string \<times> nat" where
  "log_file filename = (LOGDIR @ filename, length LOGDIR + length filename)"

section \<open>Properties\<close>

definition overruns :: "string \<times> nat \<Rightarrow> bool" where
  "overruns x \<longleftrightarrow> snd x < length (fst x) + 1"

text \<open>The simple form, which the constructor selects, always writes two bytes past the end of its memory.\<close>

lemma simple_log_overruns: "overruns (log_line True lv t f l str) \<and> length (fst (log_line True lv t f l str)) + 1 = snd (log_line True lv t f l str) + 2"
  by (simp add: overruns_def log_line_def)

text \<open>A time stamp of a proper date has 20 characters, and the long form fits while the line number has at most 10 digits.\<close>

definition tm_ok :: "tm \<Rightarrow> bool" where
  "tm_ok t \<longleftrightarrow> tm_sec t < 100 \<and> tm_min t < 60 \<and> tm_hour t < 24 \<and> tm_mday t < 32 \<and> tm_mon t < 12 \<and> tm_year t < 8100"

lemma show_nat_nonzero: "\<forall>c \<in> set (show_nat n). c \<noteq> CHR 0x00" "\<forall>c \<in> set (pad2 n). c \<noteq> CHR 0x00"
proof -
  have "\<not> is_digit (CHR 0x00)" by (simp add: is_digit_def)
  then show s: "\<forall>c \<in> set (show_nat n). c \<noteq> CHR 0x00" using show_nat_digits(1) [of n] by metis
  then show "\<forall>c \<in> set (pad2 n). c \<noteq> CHR 0x00" by (auto simp: pad2_def)
qed

lemma month_names_nth: "m < 12 \<Longrightarrow> length (month_names ! m) = 3 \<and> (\<forall>c \<in> set (month_names ! m). c \<noteq> CHR 0x00)"
proof -
  assume "m < 12"
  moreover have "length month_names = 12" by (simp add: month_names_def)
  ultimately have "month_names ! m \<in> set month_names" by (metis nth_mem)
  then show ?thesis by (auto simp: month_names_def)
qed

lemma timestamp_length:
  assumes "tm_ok t"
  shows "length (c_str (getTimestamp t)) \<le> 20"
proof -
  let ?s = "month_names ! tm_mon t @ '' '' @ pad2 (tm_mday t) @ '' '' @ show_nat (tm_year t + 1900) @ '' '' @ pad2 (tm_hour t) @ '':'' @ pad2 (tm_min t) @ '':'' @ pad2 (tm_sec t)"
  have z: "\<forall>c \<in> set ?s. c \<noteq> CHR 0x00" using show_nat_nonzero month_names_nth [of "tm_mon t"] assms by (auto simp: tm_ok_def)
  have g: "getTimestamp t = ?s @ [CHR 0x00]" using assms by (simp add: getTimestamp_def tm_ok_def)
  have "c_str (getTimestamp t) = ?s" unfolding c_str_def g using z by (subst takeWhile_append2) auto
  moreover have "length (show_nat (tm_year t + 1900)) \<le> 4" using length_show_nat [of "tm_year t + 1900" 4] assms by (simp add: tm_ok_def)
  ultimately show ?thesis using month_names_nth [of "tm_mon t"] assms by (simp add: tm_ok_def length_pad2)
qed

theorem long_log_fits:
  assumes "tm_ok t" "line < 10 ^ 10"
  shows "\<not> overruns (log_line False lv t f line str)"
proof -
  have "length (level_name lv) \<le> 7" by (cases lv) (simp_all add: level_name_def)
  moreover have "length (show_nat line) \<le> 10" using length_show_nat [OF assms(2)] by simp
  ultimately show ?thesis using timestamp_length [OF assms(1)] by (simp add: overruns_def log_line_def)
qed

text \<open>
  Opening a log always writes past two buffers by one byte: past the mode, and past the memory of the path.
  The array of the path itself is long enough for the two logs of the daemon.
\<close>

lemma log_open_overruns:
  assumes "Logger_new open_ok t level (fst (log_file filename)) app = Some (l, out)"
  shows "overrun 1 (open_mode l) = 1 \<and> overrun (snd (log_file filename)) (fst (log_file filename)) = 1 \<and> (length filename \<le> 85 \<longrightarrow> overrun 100 (logfile l) = 0)"
  using assms by (auto simp: Logger_new_def overrun_def log_file_def LOGDIR_def Let_def split: if_splits)

end
