(* ===== verification/Data_Mem.thy ===== *)
theory Data_Mem
  imports Main
begin

text \<open>
  Blocks of memory that can be registered with the network card (\<^verbatim>\<open>daemon/data_mem.hpp\<close>): 256 blocks of 16
  MiB.  \<open>reg i\<close> says whether the registration of the block \<open>i\<close> succeeds, a memory region is the number it
  was given.  The memory of a block is never allocated by the class, so its pointer stays null.
\<close>

record memblock =
  mb_mr :: "nat option"
  is_registered :: bool

definition max_num_memblocks :: nat where
  "max_num_memblocks = 4 * 2 ^ 30 div (16 * 2 ^ 20)"

definition DataMem_new :: "memblock list" where
  "DataMem_new = replicate max_num_memblocks \<lparr>mb_mr = None, is_registered = False\<rparr>"

text \<open>The search; the result is the block it stopped at, \<open>mb\<close> the one it had before.  A failed registration returns its block too.\<close>

fun Register_from :: "(nat \<Rightarrow> nat option) \<Rightarrow> bool \<Rightarrow> nat \<Rightarrow> nat option \<Rightarrow> memblock list \<Rightarrow> memblock list \<times> nat option" where
  "Register_from reg prealloc i mb [] = ([], mb)"
| "Register_from reg prealloc i mb (b # bs) =
     (if is_registered b then (case Register_from reg prealloc (i + 1) mb bs of (bs', r) \<Rightarrow> (b # bs', r))
      else (case reg i of
              None \<Rightarrow> (b\<lparr>mb_mr := None\<rparr> # bs, Some i)
            | Some mr \<Rightarrow>
                (let b' = b\<lparr>mb_mr := Some mr, is_registered := True\<rparr>
                 in if \<not> prealloc then (b' # bs, Some i)
                    else (case Register_from reg prealloc (i + 1) (Some i) bs of (bs', r) \<Rightarrow> (b' # bs', r)))))"

definition DataMem_Register :: "(nat \<Rightarrow> nat option) \<Rightarrow> bool \<Rightarrow> memblock list \<Rightarrow> memblock list \<times> nat option" where
  "DataMem_Register reg prealloc bs = Register_from reg prealloc 0 None bs"

definition DataMem_Deregister :: "bool \<Rightarrow> memblock \<Rightarrow> memblock \<times> int" where
  "DataMem_Deregister dereg_ok b = (b\<lparr>is_registered := False\<rparr>, if dereg_ok then 0 else - 1)"

section \<open>Properties\<close>

lemma Register_from_length: "length (fst (Register_from reg prealloc i mb bs)) = length bs"
  by (induction reg prealloc i mb bs rule: Register_from.induct) (auto split: option.splits prod.splits simp: Let_def)

lemma Register_first:
  "Register_from reg False i mb bs =
     (case find (\<lambda>k. \<not> is_registered (bs ! k)) [0..<length bs] of
        None \<Rightarrow> (bs, mb)
      | Some k \<Rightarrow> (case reg (i + k) of
            None \<Rightarrow> (bs[k := (bs ! k)\<lparr>mb_mr := None\<rparr>], Some (i + k))
          | Some mr \<Rightarrow> (bs[k := (bs ! k)\<lparr>mb_mr := Some mr, is_registered := True\<rparr>], Some (i + k))))"
proof (induction bs arbitrary: i)
  case (Cons b bs)
  have u: "[0..<length (b # bs)] = 0 # map Suc [0..<length bs]" by (simp add: upt_conv_Cons map_Suc_upt del: upt_Suc)
  have f: "find P (map Suc xs) = map_option Suc (find (P \<circ> Suc) xs)" for P xs by (induction xs) simp_all
  show ?case
  proof (cases "is_registered b")
    case True
    then show ?thesis unfolding u using Cons [of "i + 1"] by (simp add: f comp_def split: option.splits)
  next
    case False
    then show ?thesis unfolding u by (simp split: option.splits)
  qed
qed simp

text \<open>A registration takes the first block that is not registered; none left is a null result.\<close>

lemma Register_none: "snd (DataMem_Register reg False bs) = None \<longleftrightarrow> (\<forall>b \<in> set bs. is_registered b)"
proof -
  have "find (\<lambda>k. \<not> is_registered (bs ! k)) [0..<length bs] = None \<longleftrightarrow> (\<forall>b \<in> set bs. is_registered b)"
    unfolding find_None_iff by (simp add: all_set_conv_all_nth)
  then show ?thesis by (auto simp: DataMem_Register_def Register_first split: option.splits)
qed

text \<open>A failed registration is not told from a successful one by the result.\<close>

lemma Register_failure_unnoticed:
  assumes "reg 0 = None"
  shows "snd (DataMem_Register reg False DataMem_new) = Some 0"
proof -
  have "0 < max_num_memblocks" by (simp add: max_num_memblocks_def)
  then obtain n where n: "max_num_memblocks = Suc n" using gr0_implies_Suc by blast
  show ?thesis unfolding DataMem_Register_def DataMem_new_def n using assms by simp
qed

end
