(* ===== verification/Drv_Filters.thy ===== *)
theory Drv_Filters
  imports Counting_Bloom Hash_Driver
begin

text \<open>
  What the driver remembers about remote pages: the Bloom filter that is updated from the daemon
  (\<^verbatim>\<open>driver/filter/bloom_filter.h\<close> and \<^verbatim>\<open>.c\<close>), the counting Bloom filter
  (\<^verbatim>\<open>driver/filter/counting_bloom_filter.c\<close>), the hash table (\<^verbatim>\<open>driver/hashtable.c\<close>), the access filter
  (\<^verbatim>\<open>driver/access_filter.h\<close>), the fixed stack (\<^verbatim>\<open>driver/util/fixed_stack.h\<close>) and the dispatch over the
  kinds of metadata (\<^verbatim>\<open>driver/metadata.h\<close>).  Memory for a key is the byte list of the key.  The result of
  every checked allocation is an argument; every operation is one step here, the locks of the hash table are in \<open>Ht_Steps\<close>.
\<close>

section \<open>Bloom filter\<close>

record bf_t =
  is_ordinary_bf :: bool
  bf_num_hash :: nat
  bf_num_bits :: nat
  bitmap_size :: nat
  bitmap :: "u64 list"
  tmp_bitmap :: "u64 list"
  merging :: int

text \<open>\<open>ptr\<close> is the memory given by the caller, which is cleared; \<open>a0\<close> and \<open>a1\<close> say whether the two checked allocations succeed.\<close>

definition bf_init :: "nat \<Rightarrow> nat \<Rightarrow> u64 list option \<Rightarrow> bool \<Rightarrow> bool \<Rightarrow> bf_t option" where
  "bf_init nh nb ptr a0 a1 =
     (if \<not> a0 then None
      else let f = \<lparr>is_ordinary_bf = (ptr = None), bf_num_hash = nh, bf_num_bits = nb, bitmap_size = BITS_TO_LONGS nb * 8,
                    bitmap = replicate (BITS_TO_LONGS nb) 0, tmp_bitmap = [], merging = 0\<rparr>
           in if \<not> a1 then None else Some (f\<lparr>tmp_bitmap := replicate (BITS_TO_LONGS nb) 0\<rparr>))"

definition compute_hash :: "bf_t \<Rightarrow> nat \<Rightarrow> bytes \<Rightarrow> nat" where
  "compute_hash f i data = unat (drv_hash_funcs i data drv_f_seed) mod bf_num_bits f"

definition calc_bitidx :: "nat \<Rightarrow> nat \<times> u64" where
  "calc_bitidx key_hash = (key_hash div 64, push_bit (key_hash mod 64) 1)"

definition or_bit :: "nat \<Rightarrow> u64 list \<Rightarrow> u64 list" where
  "or_bit key_hash arr = (case calc_bitidx key_hash of (long_idx, check_bit) \<Rightarrow> arr[long_idx := arr ! long_idx OR check_bit])"

definition bit_set :: "nat \<Rightarrow> u64 list \<Rightarrow> bool" where
  "bit_set key_hash arr = (case calc_bitidx key_hash of (long_idx, check_bit) \<Rightarrow> arr ! long_idx AND check_bit \<noteq> 0)"

definition check_merging :: "bf_t \<Rightarrow> bool" where
  "check_merging f \<longleftrightarrow> merging f > 0"

definition bf_merge :: "bf_t \<Rightarrow> bf_t" where
  "bf_merge f = f\<lparr>bitmap := fold (\<lambda>i arr. arr[i := arr ! i OR tmp_bitmap f ! i]) [0..<BITS_TO_LONGS (bf_num_bits f)] (bitmap f)\<rparr>"

definition bf_blocking :: "bf_t \<Rightarrow> bf_t" where
  "bf_blocking f = f\<lparr>tmp_bitmap := fold (\<lambda>i arr. arr[i := 0]) [0..<BITS_TO_LONGS (bf_num_bits f)] (tmp_bitmap f), merging := 1\<rparr>"

definition bf_unblocking :: "bf_t \<Rightarrow> bf_t" where
  "bf_unblocking f = bf_merge (f\<lparr>merging := 0\<rparr>)"

definition bf_add :: "bytes \<Rightarrow> bf_t \<Rightarrow> bf_t" where
  "bf_add data f =
     (if check_merging f
      then f\<lparr>tmp_bitmap := fold (\<lambda>i. or_bit (compute_hash f i data)) [0..<bf_num_hash f] (tmp_bitmap f)\<rparr>
      else f\<lparr>bitmap := fold (\<lambda>i. or_bit (compute_hash f i data)) [0..<bf_num_hash f] (bitmap f)\<rparr>)"

fun all_bits :: "bf_t \<Rightarrow> bytes \<Rightarrow> u64 list \<Rightarrow> nat list \<Rightarrow> bool" where
  "all_bits f data arr [] = True"
| "all_bits f data arr (i # is) = (if \<not> bit_set (compute_hash f i data) arr then False else all_bits f data arr is)"

definition bf_might_contain :: "bytes \<Rightarrow> bf_t \<Rightarrow> bool" where
  "bf_might_contain data f =
     (if check_merging f \<and> all_bits f data (tmp_bitmap f) [0..<bf_num_hash f] then True
      else all_bits f data (bitmap f) [0..<bf_num_hash f])"


section \<open>Counting Bloom filter\<close>

record cbf_t =
  c_num_hash :: nat
  c_num_bits :: nat
  c_bitmap_size :: nat
  byte_bitmap :: "u8 list"

definition cbf_init :: "nat \<Rightarrow> nat \<Rightarrow> bool \<Rightarrow> bool \<Rightarrow> cbf_t option" where
  "cbf_init nh nb a0 a1 =
     (if \<not> a0 then None else if \<not> a1 then None
      else Some \<lparr>c_num_hash = nh, c_num_bits = nb, c_bitmap_size = nb * 8, byte_bitmap = replicate (nb * 8) 0\<rparr>)"

definition c_compute_hash :: "cbf_t \<Rightarrow> nat \<Rightarrow> bytes \<Rightarrow> nat" where
  "c_compute_hash f i data = unat (drv_hash_funcs i data drv_f_seed) mod c_bitmap_size f mod 2 ^ 32"

definition cbf_add :: "bytes \<Rightarrow> cbf_t \<Rightarrow> cbf_t" where
  "cbf_add data f = f\<lparr>byte_bitmap :=
     fold (\<lambda>i arr. let index = c_compute_hash f i data in if arr ! index < 255 then arr[index := arr ! index + 1] else arr)
       [0..<c_num_hash f] (byte_bitmap f)\<rparr>"

fun cbf_might_contain_loop :: "bytes \<Rightarrow> cbf_t \<Rightarrow> nat list \<Rightarrow> bool" where
  "cbf_might_contain_loop data f [] = True"
| "cbf_might_contain_loop data f (i # is) =
     (if byte_bitmap f ! c_compute_hash f i data = 0 then False else cbf_might_contain_loop data f is)"

definition cbf_might_contain :: "bytes \<Rightarrow> cbf_t \<Rightarrow> bool" where
  "cbf_might_contain data f = cbf_might_contain_loop data f [0..<c_num_hash f]"

definition cbf_remove :: "bytes \<Rightarrow> cbf_t \<Rightarrow> cbf_t \<times> bool" where
  "cbf_remove data f =
     (if cbf_might_contain data f
      then (f\<lparr>byte_bitmap := fold (\<lambda>i arr. let index = c_compute_hash f i data in if arr ! index \<ge> 0 then arr[index := arr ! index - 1] else arr)
              [0..<c_num_hash f] (byte_bitmap f)\<rparr>, True)
      else (f, False))"


section \<open>Hash table\<close>

record ht_node_t =
  ht_key :: u64
  ht_value :: u64

record hashtable_t =
  num_buckets :: nat
  ht_lock_size :: nat
  num_locks :: nat
  hlistheads :: "ht_node_t list list"

definition hashtable_init :: "nat \<Rightarrow> bool \<Rightarrow> bool \<Rightarrow> bool \<Rightarrow> hashtable_t option" where
  "hashtable_init num_entries a0 a1 a2 =
     (if \<not> a0 then None else if \<not> a1 then None else if \<not> a2 then None
      else let nb = num_entries * 75 div 100
           in Some \<lparr>num_buckets = nb, ht_lock_size = 16, num_locks = nb div 16 + 1, hlistheads = replicate nb []\<rparr>)"

definition get_bkt_id :: "hashtable_t \<Rightarrow> u64 \<Rightarrow> nat" where
  "get_bkt_id ht key = unat (drv_hash_funcs 0 (le_bytes key) drv_f_seed) mod num_buckets ht mod 2 ^ 32"

definition allocate_node :: "u64 \<Rightarrow> u64 \<Rightarrow> ht_node_t" where
  "allocate_node key value = \<lparr>ht_key = key, ht_value = value\<rparr>"

fun bkt_find :: "u64 \<Rightarrow> ht_node_t list \<Rightarrow> u64" where
  "bkt_find key [] = - 1"
| "bkt_find key (cur # rest) = (if ht_key cur = key then ht_value cur else bkt_find key rest)"

fun bkt_del :: "u64 \<Rightarrow> ht_node_t list \<Rightarrow> ht_node_t list \<times> u64" where
  "bkt_del key [] = ([], - 1)"
| "bkt_del key (cur # rest) =
     (if ht_key cur = key then (rest, ht_value cur) else (case bkt_del key rest of (rest', v) \<Rightarrow> (cur # rest', v)))"

definition hashtable_get :: "hashtable_t \<Rightarrow> u64 \<Rightarrow> u64" where
  "hashtable_get ht key = bkt_find key (hlistheads ht ! get_bkt_id ht key)"

definition hashtable_remove :: "hashtable_t \<Rightarrow> u64 \<Rightarrow> hashtable_t \<times> u64" where
  "hashtable_remove ht key =
     (let bkt_id = get_bkt_id ht key
      in case bkt_del key (hlistheads ht ! bkt_id) of
           (bkt, value) \<Rightarrow> (ht\<lparr>hlistheads := (hlistheads ht)[bkt_id := bkt]\<rparr>, value))"

definition hashtable_insert :: "hashtable_t \<Rightarrow> u64 \<Rightarrow> u64 \<Rightarrow> hashtable_t" where
  "hashtable_insert ht key value =
     (let ht1 = fst (hashtable_remove ht key); bkt_id = get_bkt_id ht1 key; item = allocate_node key value
      in ht1\<lparr>hlistheads := (hlistheads ht1)[bkt_id := item # hlistheads ht1 ! bkt_id]\<rparr>)"


section \<open>Access filter\<close>

record af_bucket =
  af_ino :: u64
  af_index :: u64

record access_filter_t =
  af_num_buckets :: nat
  af_lock_size :: nat
  af_num_locks :: nat
  af_buckets :: "af_bucket list"

definition af_init :: "bool \<Rightarrow> bool \<Rightarrow> bool \<Rightarrow> access_filter_t option" where
  "af_init a0 a1 a2 =
     (if \<not> a0 then None else if \<not> a1 then None else if \<not> a2 then None
      else Some \<lparr>af_num_buckets = 4096, af_lock_size = 16, af_num_locks = 4096 div 16 + 1, af_buckets = replicate 4096 \<lparr>af_ino = 0, af_index = 0\<rparr>\<rparr>)"

definition DIFF_ABS :: "u64 \<Rightarrow> u64 \<Rightarrow> u64" where
  "DIFF_ABS x y = (if x > y then x - y else y - x)"

text \<open>\<open>golden\<close> is the constant \<^verbatim>\<open>GOLDEN_RATIO_64\<close> of the kernel.\<close>

definition af_bkt_id :: "u64 \<Rightarrow> access_filter_t \<Rightarrow> u64 \<Rightarrow> nat" where
  "af_bkt_id golden af ino = unat (ino * golden) mod af_num_buckets af"

definition af_upsert :: "u64 \<Rightarrow> access_filter_t \<Rightarrow> u64 \<Rightarrow> u64 \<Rightarrow> access_filter_t \<times> bool" where
  "af_upsert golden af ino index =
     (let bkt_id = af_bkt_id golden af ino;
          bucket = af_buckets af ! bkt_id;
          (bucket1, ret) = (if af_ino bucket = ino then (bucket, \<not> DIFF_ABS (af_index bucket) index < 32) else (bucket\<lparr>af_ino := ino\<rparr>, True))
      in (af\<lparr>af_buckets := (af_buckets af)[bkt_id := bucket1\<lparr>af_index := index\<rparr>]\<rparr>, ret))"


section \<open>Fixed stack\<close>

text \<open>A write outside the array is \<^const>\<open>None\<close>.\<close>

record fstack_t =
  nodes :: "u64 list"
  num_elems :: nat
  top :: int

definition is_full :: "fstack_t \<Rightarrow> bool" where
  "is_full s \<longleftrightarrow> top s \<ge> int (num_elems s)"

definition is_empty :: "fstack_t \<Rightarrow> bool" where
  "is_empty s \<longleftrightarrow> top s = - 1"

definition fs_push :: "u64 \<Rightarrow> fstack_t \<Rightarrow> (fstack_t \<times> int) option" where
  "fs_push item s =
     (if \<not> is_full s
      then let t = top s + 1
           in if 0 \<le> t \<and> t < int (length (nodes s)) then Some (s\<lparr>nodes := (nodes s)[nat t := item], top := t\<rparr>, 0) else None
      else Some (s, - 1))"

definition fs_pop :: "fstack_t \<Rightarrow> fstack_t \<times> u64" where
  "fs_pop s = (if \<not> is_empty s then (s\<lparr>top := top s - 1\<rparr>, nodes s ! nat (top s)) else (s, - 1))"

definition fs_init :: "nat \<Rightarrow> bool \<Rightarrow> bool \<Rightarrow> fstack_t option" where
  "fs_init n a0 a1 = (if \<not> a0 then None else if \<not> a1 then None else Some \<lparr>nodes = replicate n 0, num_elems = n, top = - 1\<rparr>)"


section \<open>Metadata\<close>

datatype metadata_type_t = FILTER_OFF | COOP_BF | ORDINARY_BF | COUNTING_BF | HASH_TABLE

record metadata_t =
  meta_bf :: "bf_t option"
  meta_cbf :: "cbf_t option"
  meta_ht :: "hashtable_t option"
  meta_type :: metadata_type_t

definition metadata_init :: "nat \<Rightarrow> nat \<Rightarrow> u64 list option \<Rightarrow> nat \<Rightarrow> metadata_type_t \<Rightarrow> bool \<Rightarrow> bool \<Rightarrow> bool \<Rightarrow> bool \<Rightarrow> metadata_t option" where
  "metadata_init nh nb ptr num_rmem_pages ty a a0 a1 a2 =
     (if \<not> a then None
      else let meta = \<lparr>meta_bf = None, meta_cbf = None, meta_ht = None, meta_type = ty\<rparr>
           in Some (case ty of
                COOP_BF \<Rightarrow> meta\<lparr>meta_bf := bf_init nh nb ptr a0 a1\<rparr>
              | ORDINARY_BF \<Rightarrow> meta\<lparr>meta_bf := bf_init nh nb ptr a0 a1\<rparr>
              | COUNTING_BF \<Rightarrow> meta\<lparr>meta_cbf := cbf_init nh nb a0 a1\<rparr>
              | HASH_TABLE \<Rightarrow> meta\<lparr>meta_ht := hashtable_init num_rmem_pages a0 a1 a2\<rparr>
              | FILTER_OFF \<Rightarrow> meta))"

text \<open>The operations dereference the pointer of their kind; a null pointer there is \<^const>\<open>None\<close>.\<close>

definition metadata_add :: "u64 \<Rightarrow> metadata_t \<Rightarrow> metadata_t option" where
  "metadata_add key meta = (let data = le_bytes key in case meta_type meta of
       COOP_BF \<Rightarrow> map_option (\<lambda>f. meta\<lparr>meta_bf := Some (bf_add data f)\<rparr>) (meta_bf meta)
     | ORDINARY_BF \<Rightarrow> map_option (\<lambda>f. meta\<lparr>meta_bf := Some (bf_add data f)\<rparr>) (meta_bf meta)
     | COUNTING_BF \<Rightarrow> map_option (\<lambda>f. meta\<lparr>meta_cbf := Some (cbf_add data f)\<rparr>) (meta_cbf meta)
     | HASH_TABLE \<Rightarrow> map_option (\<lambda>h. meta\<lparr>meta_ht := Some (hashtable_insert h key 0)\<rparr>) (meta_ht meta)
     | FILTER_OFF \<Rightarrow> Some meta)"

definition metadata_contain :: "u64 \<Rightarrow> metadata_t \<Rightarrow> bool option" where
  "metadata_contain key meta = (let data = le_bytes key in case meta_type meta of
       COOP_BF \<Rightarrow> map_option (bf_might_contain data) (meta_bf meta)
     | ORDINARY_BF \<Rightarrow> map_option (bf_might_contain data) (meta_bf meta)
     | COUNTING_BF \<Rightarrow> map_option (cbf_might_contain data) (meta_cbf meta)
     | HASH_TABLE \<Rightarrow> map_option (\<lambda>h. \<not> hashtable_get h key = - 1) (meta_ht meta)
     | FILTER_OFF \<Rightarrow> Some False)"

definition metadata_remove :: "u64 \<Rightarrow> metadata_t \<Rightarrow> (metadata_t \<times> bool) option" where
  "metadata_remove key meta = (let data = le_bytes key in case meta_type meta of
       COOP_BF \<Rightarrow> Some (meta, True)
     | ORDINARY_BF \<Rightarrow> Some (meta, True)
     | COUNTING_BF \<Rightarrow> map_option (\<lambda>f. case cbf_remove data f of (f', r) \<Rightarrow> (meta\<lparr>meta_cbf := Some f'\<rparr>, r)) (meta_cbf meta)
     | HASH_TABLE \<Rightarrow> map_option (\<lambda>h. case hashtable_remove h key of (h', v) \<Rightarrow> (meta\<lparr>meta_ht := Some h'\<rparr>, \<not> v = - 1)) (meta_ht meta)
     | FILTER_OFF \<Rightarrow> Some (meta, False))"

definition metadata_is_merging :: "metadata_t \<Rightarrow> bool option" where
  "metadata_is_merging meta = (if meta_type meta \<noteq> COOP_BF then None else map_option check_merging (meta_bf meta))"

definition metadata_blocking :: "metadata_t \<Rightarrow> metadata_t option" where
  "metadata_blocking meta = (if meta_type meta = COOP_BF then map_option (\<lambda>f. meta\<lparr>meta_bf := Some (bf_blocking f)\<rparr>) (meta_bf meta) else Some meta)"

definition metadata_unblocking :: "metadata_t \<Rightarrow> metadata_t option" where
  "metadata_unblocking meta = (if meta_type meta = COOP_BF then map_option (\<lambda>f. meta\<lparr>meta_bf := Some (bf_unblocking f)\<rparr>) (meta_bf meta) else Some meta)"


section \<open>Bits of the Bloom filter\<close>

definition bf_indices :: "bf_t \<Rightarrow> bytes \<Rightarrow> nat list" where
  "bf_indices f data = map (\<lambda>i. compute_hash f i data) [0..<bf_num_hash f]"

definition bf_shape :: "bf_t \<Rightarrow> bool" where
  "bf_shape f \<longleftrightarrow> 0 < bf_num_bits f \<and> length (bitmap f) = BITS_TO_LONGS (bf_num_bits f) \<and> length (tmp_bitmap f) = BITS_TO_LONGS (bf_num_bits f)"

definition bits_cover :: "bf_t \<Rightarrow> bytes \<Rightarrow> u64 list \<Rightarrow> bool" where
  "bits_cover f data arr \<longleftrightarrow> (\<forall>j \<in> set (bf_indices f data). test_bit_at j arr)"

lemma or_bit_eq: "or_bit = set_bit_at" "bit_set = test_bit_at"
  by (simp_all add: fun_eq_iff or_bit_def bit_set_def calc_bitidx_def set_bit_at_def test_bit_at_def)

lemma bf_params [simp]:
  "bf_indices (f\<lparr>bitmap := b\<rparr>) = bf_indices f" "bf_indices (f\<lparr>tmp_bitmap := b\<rparr>) = bf_indices f" "bf_indices (f\<lparr>merging := m\<rparr>) = bf_indices f"
  by (simp_all add: fun_eq_iff bf_indices_def compute_hash_def)

lemma bits_cover_params [simp]:
  "bits_cover (f\<lparr>bitmap := b\<rparr>) = bits_cover f" "bits_cover (f\<lparr>tmp_bitmap := b\<rparr>) = bits_cover f" "bits_cover (f\<lparr>merging := m\<rparr>) = bits_cover f"
  by (simp_all add: fun_eq_iff bits_cover_def)

lemma all_bits_cover: "all_bits f data arr [0..<bf_num_hash f] \<longleftrightarrow> bits_cover f data arr"
proof -
  have "all_bits f data arr is \<longleftrightarrow> (\<forall>i \<in> set is. test_bit_at (compute_hash f i data) arr)" for "is"
    by (induction "is") (auto simp: or_bit_eq)
  then show ?thesis by (auto simp: bits_cover_def bf_indices_def)
qed

lemma bf_might_contain_cover:
  "bf_might_contain data f \<longleftrightarrow> check_merging f \<and> bits_cover f data (tmp_bitmap f) \<or> bits_cover f data (bitmap f)"
  by (auto simp: bf_might_contain_def all_bits_cover)

lemma bf_indices_less: "bf_shape f \<Longrightarrow> j \<in> set (bf_indices f data) \<Longrightarrow> j < bf_num_bits f \<and> j div 64 < BITS_TO_LONGS (bf_num_bits f)"
  using long_index [of j "bf_num_bits f"] by (auto simp: bf_indices_def compute_hash_def bf_shape_def)

lemma fold_or_bits:
  assumes "\<forall>i \<in> set is. h i div 64 < length arr"
  shows "length (fold (\<lambda>i. or_bit (h i)) is arr) = length arr"
    and "test_bit_at j (fold (\<lambda>i. or_bit (h i)) is arr) \<longleftrightarrow> j \<in> h ` set is \<or> test_bit_at j arr"
  using assms
proof (induction "is" arbitrary: arr)
  case (Cons i "is")
  { case 1 then show ?case using Cons.IH(1) [of "set_bit_at (h i) arr"] by (simp add: or_bit_eq) }
  { case 2 then show ?case using Cons.IH(2) [of "set_bit_at (h i) arr"] by (auto simp: or_bit_eq test_set_bit_at) }
qed simp_all

lemma bits_after_add:
  assumes "bf_shape f" "length arr = BITS_TO_LONGS (bf_num_bits f)"
  shows "length (fold (\<lambda>i. or_bit (compute_hash f i data)) [0..<bf_num_hash f] arr) = BITS_TO_LONGS (bf_num_bits f)"
    and "bits_cover f data (fold (\<lambda>i. or_bit (compute_hash f i data)) [0..<bf_num_hash f] arr)"
    and "bits_cover f d' arr \<Longrightarrow> bits_cover f d' (fold (\<lambda>i. or_bit (compute_hash f i data)) [0..<bf_num_hash f] arr)"
proof -
  have less: "\<forall>i \<in> set [0..<bf_num_hash f]. compute_hash f i data div 64 < length arr"
    using bf_indices_less [OF assms(1), of _ data] assms(2) by (auto simp: bf_indices_def)
  note F = fold_or_bits [where h = "\<lambda>i. compute_hash f i data", OF less]
  show "length (fold (\<lambda>i. or_bit (compute_hash f i data)) [0..<bf_num_hash f] arr) = BITS_TO_LONGS (bf_num_bits f)"
    using F(1) assms(2) by simp
  show "bits_cover f data (fold (\<lambda>i. or_bit (compute_hash f i data)) [0..<bf_num_hash f] arr)"
    using F(2) by (auto simp: bits_cover_def bf_indices_def)
  show "bits_cover f d' (fold (\<lambda>i. or_bit (compute_hash f i data)) [0..<bf_num_hash f] arr)" if "bits_cover f d' arr"
    using F(2) that by (auto simp: bits_cover_def)
qed

lemma bf_add_spec:
  assumes "bf_shape f"
  shows "bf_shape (bf_add data f)" "check_merging (bf_add data f) = check_merging f" "bf_indices (bf_add data f) = bf_indices f"
    "bf_might_contain data (bf_add data f)" "bf_might_contain d' f \<Longrightarrow> bf_might_contain d' (bf_add data f)"
    "bits_cover f data (if check_merging f then tmp_bitmap (bf_add data f) else bitmap (bf_add data f))"
    "bits_cover f d' (bitmap f) \<Longrightarrow> bits_cover f d' (bitmap (bf_add data f))"
    "bits_cover f d' (tmp_bitmap f) \<Longrightarrow> bits_cover f d' (tmp_bitmap (bf_add data f))"
proof -
  have l: "length (bitmap f) = BITS_TO_LONGS (bf_num_bits f)" "length (tmp_bitmap f) = BITS_TO_LONGS (bf_num_bits f)" using assms by (simp_all add: bf_shape_def)
  note B = bits_after_add [OF assms l(1), where data = data] and T = bits_after_add [OF assms l(2), where data = data]
  show "bf_shape (bf_add data f)" using assms B(1) T(1) by (simp add: bf_add_def bf_shape_def)
  show c: "check_merging (bf_add data f) = check_merging f" by (simp add: bf_add_def check_merging_def)
  show "bf_indices (bf_add data f) = bf_indices f" by (simp add: bf_add_def)
  show "bf_might_contain data (bf_add data f)" using B(2) T(2) by (auto simp: bf_might_contain_cover bf_add_def check_merging_def)
  show "bf_might_contain d' (bf_add data f)" if "bf_might_contain d' f"
    using that B(3) T(3) by (auto simp: bf_might_contain_cover bf_add_def check_merging_def)
  show "bits_cover f data (if check_merging f then tmp_bitmap (bf_add data f) else bitmap (bf_add data f))" using B(2) T(2) by (auto simp: bf_add_def)
  show "bits_cover f d' (bitmap f) \<Longrightarrow> bits_cover f d' (bitmap (bf_add data f))" using B(3) by (simp add: bf_add_def)
  show "bits_cover f d' (tmp_bitmap f) \<Longrightarrow> bits_cover f d' (tmp_bitmap (bf_add data f))" using T(3) by (simp add: bf_add_def)
qed

lemma fold_or_all:
  assumes "length a = n" "length b = n"
  shows "fold (\<lambda>i arr. arr[i := arr ! i OR b ! i]) [0..<n] a = map2 (OR) a (b :: u64 list)"
proof -
  have "m \<le> n \<Longrightarrow> fold (\<lambda>i arr. arr[i := arr ! i OR b ! i]) [0..<m] a = map2 (OR) (take m a) (take m b) @ drop m a" for m
  proof (induction m)
    case (Suc m)
    then show ?case using assms by (simp add: take_Suc_conv_app_nth nth_append list_update_append Cons_nth_drop_Suc [symmetric])
  qed simp
  then show ?thesis using assms by simp
qed

lemma bf_merge_bits:
  assumes "bf_shape f"
  shows "bitmap (bf_merge f) = map2 (OR) (bitmap f) (tmp_bitmap f)" "bf_indices (bf_merge f) = bf_indices f" "merging (bf_merge f) = merging f"
    "tmp_bitmap (bf_merge f) = tmp_bitmap f"
  using fold_or_all [of "bitmap f" "BITS_TO_LONGS (bf_num_bits f)" "tmp_bitmap f"] assms by (simp_all add: bf_merge_def bf_shape_def)

lemma bf_merge_spec:
  assumes "bf_shape f"
  shows "bf_shape (bf_merge f)" "bits_cover f d (bitmap f) \<or> bits_cover f d (tmp_bitmap f) \<Longrightarrow> bits_cover f d (bitmap (bf_merge f))"
proof -
  have l: "length (bitmap f) = BITS_TO_LONGS (bf_num_bits f)" "length (tmp_bitmap f) = BITS_TO_LONGS (bf_num_bits f)" using assms by (simp_all add: bf_shape_def)
  note m = bf_merge_bits(1) [OF assms]
  show "bf_shape (bf_merge f)" using assms m l by (simp add: bf_shape_def) (simp add: bf_merge_def)
  have "test_bit_at j (bitmap (bf_merge f)) \<longleftrightarrow> test_bit_at j (bitmap f) \<or> test_bit_at j (tmp_bitmap f)" if "j \<in> set (bf_indices f d)" for j
    using bf_indices_less [OF assms that] l unfolding test_bit_at_bit m by (simp add: bit_or_iff)
  then show "bits_cover f d (bitmap (bf_merge f))" if "bits_cover f d (bitmap f) \<or> bits_cover f d (tmp_bitmap f)"
    using that by (auto simp: bits_cover_def)
qed

lemma bf_blocking_spec:
  assumes "bf_shape f"
  shows "bf_shape (bf_blocking f)" "check_merging (bf_blocking f)" "bitmap (bf_blocking f) = bitmap f" "bf_indices (bf_blocking f) = bf_indices f"
    "tmp_bitmap (bf_blocking f) = replicate (BITS_TO_LONGS (bf_num_bits f)) 0"
  using assms fold_zero [of "tmp_bitmap f"] by (simp_all add: bf_blocking_def bf_shape_def check_merging_def)

lemma bf_unblocking_spec:
  assumes "bf_shape f"
  shows "bf_shape (bf_unblocking f)" "\<not> check_merging (bf_unblocking f)"
    "bits_cover f d (bitmap f) \<or> bits_cover f d (tmp_bitmap f) \<Longrightarrow> bf_might_contain d (bf_unblocking f)"
proof -
  have "bf_shape (f\<lparr>merging := 0\<rparr>)" using assms by (simp add: bf_shape_def)
  note M = bf_merge_spec [OF this]
  show "bf_shape (bf_unblocking f)" using M(1) by (simp add: bf_unblocking_def)
  show "\<not> check_merging (bf_unblocking f)" by (simp add: bf_unblocking_def bf_merge_def check_merging_def)
  have "bf_indices (bf_unblocking f) = bf_indices f" by (simp add: bf_unblocking_def bf_merge_def)
  then show "bf_might_contain d (bf_unblocking f)" if "bits_cover f d (bitmap f) \<or> bits_cover f d (tmp_bitmap f)"
    using M(2) [of d] that by (simp add: bf_might_contain_cover bf_unblocking_def bits_cover_def)
qed

text \<open>The filter as an approximate set of keys, whether it is being updated or not.\<close>

definition drv_bf_rep :: "bf_t \<Rightarrow> Key_t multiset \<Rightarrow> bool" where
  "drv_bf_rep f M \<longleftrightarrow> bf_shape f \<and> (\<forall>k \<in># M. bf_might_contain (le_bytes k) f)"

interpretation bf: approx_filter drv_bf_rep "\<lambda>k. bf_might_contain (le_bytes k)" "\<lambda>k. bf_add (le_bytes k)" "\<lambda>f M k. True"
  by unfold_locales (auto simp: drv_bf_rep_def bf_add_spec)

lemma bf_init_rep: "0 < nb \<Longrightarrow> bf_init nh nb ptr True True = Some f \<Longrightarrow> drv_bf_rep f {#} \<and> \<not> check_merging f"
  by (auto simp: bf_init_def drv_bf_rep_def bf_shape_def check_merging_def)


section \<open>The counting filter against the daemon's\<close>

text \<open>The driver hashes into \<open>bitmap_size\<close> counters and saturates; otherwise it counts as the filter of the daemon does.\<close>

definition cbf_abs :: "cbf_t \<Rightarrow> CountingBloomFilter" where
  "cbf_abs f = \<lparr>num_hash = c_num_hash f, num_bits = c_bitmap_size f, num_longs = BITS_TO_LONGS (c_bitmap_size f),
     cbf_byte_bitarr = byte_bitmap f, bf_long_bitarr = replicate (BITS_TO_LONGS (c_bitmap_size f)) 0\<rparr>"

text \<open>An index of the driver is a 32-bit number, which only matters for a filter of more than 4 GB.\<close>

definition cbf_small :: "cbf_t \<Rightarrow> bool" where
  "cbf_small f \<longleftrightarrow> 0 < c_bitmap_size f \<and> c_bitmap_size f \<le> 2 ^ 32"

lemma c_compute_hash_abs:
  assumes "cbf_small f" shows "c_compute_hash f i (le_bytes k) = computeHash (cbf_abs f) k i"
proof -
  have "unat h mod c_bitmap_size f < 2 ^ 32" for h :: u64
    using assms mod_less_divisor [of "c_bitmap_size f" "unat h"] unfolding cbf_small_def by linarith
  then show ?thesis by (simp add: c_compute_hash_def computeHash_def cbf_abs_def drv_hash_funcs_eq drv_seed_eq)
qed

lemma cbf_abs_update: "cbf_abs (f\<lparr>byte_bitmap := b\<rparr>) = (cbf_abs f)\<lparr>cbf_byte_bitarr := b\<rparr>"
  by (simp add: cbf_abs_def)

lemma cbf_might_contain_abs: "cbf_small f \<Longrightarrow> cbf_might_contain (le_bytes k) f = MightContain k (cbf_abs f)"
proof -
  assume "cbf_small f"
  then have "cbf_might_contain_loop (le_bytes k) f is = MightContain_loop (cbf_abs f) k is" for "is"
    by (induction "is") (simp_all add: c_compute_hash_abs, simp add: cbf_abs_def)
  then show ?thesis by (simp add: cbf_might_contain_def MightContain_def) (simp add: cbf_abs_def)
qed

lemma cbf_remove_abs: "cbf_small f \<Longrightarrow> cbf_remove (le_bytes k) f = (let r = cbf_Remove k (cbf_abs f) in (f\<lparr>byte_bitmap := cbf_byte_bitarr (fst r)\<rparr>, snd r))"
proof -
  assume s: "cbf_small f"
  then have "fold (\<lambda>i arr. let index = c_compute_hash f i (le_bytes k) in if arr ! index \<ge> 0 then arr[index := arr ! index - 1] else arr) [0..<c_num_hash f] (byte_bitmap f)
      = fold (\<lambda>idx arr. arr[idx := arr ! idx - 1]) (cbf_indices (cbf_abs f) k) (cbf_byte_bitarr (cbf_abs f))"
    by (simp add: c_compute_hash_abs cbf_indices_def fold_map_at [where g = "\<lambda>x. x - 1"]) (simp add: cbf_abs_def)
  then show ?thesis by (simp add: cbf_remove_def cbf_Remove_fold cbf_might_contain_abs [OF s] Let_def) (simp add: cbf_abs_def)
qed

text \<open>As long as no counter on the way is at 255, saturation and the wrap-around of the daemon do not differ.\<close>

lemma fold_saturate:
  assumes "\<forall>j < length b. unat (b ! j) + count_list is j \<le> 255" "set is \<subseteq> {..<length b}"
  shows "fold (\<lambda>idx arr. if arr ! idx < 255 then arr[idx := arr ! idx + 1] else arr) is b = fold (\<lambda>idx arr. arr[idx := cbf_inc (arr ! idx)]) is (b :: u8 list)"
  using assms
proof (induction "is" arbitrary: b)
  case (Cons i "is")
  have i: "i < length b" using Cons.prems(2) by simp
  then have "unat (b ! i) + count_list (i # is) i \<le> 255" using Cons.prems(1) by blast
  then have lt: "unat (b ! i) < 255" by simp
  then have e: "b ! i < 255" "cbf_inc (b ! i) = b ! i + 1" by (simp_all add: word_less_nat_alt cbf_inc_def)
  have "\<forall>j < length (b[i := b ! i + 1]). unat (b[i := b ! i + 1] ! j) + count_list is j \<le> 255"
  proof (intro allI impI)
    fix j assume "j < length (b[i := b ! i + 1])"
    then show "unat (b[i := b ! i + 1] ! j) + count_list is j \<le> 255"
      using Cons.prems(1) [rule_format, of j] i cbf_inc_unat [OF lt] e(2) by (auto simp: nth_list_update split: if_splits)
  qed
  then show ?case using Cons.IH [of "b[i := b ! i + 1]"] Cons.prems(2) e by simp
qed simp

lemma cbf_add_abs:
  assumes "cbf_rep (cbf_abs f) M" "cbf_room (cbf_abs f) M k" and s: "cbf_small f"
  shows "cbf_abs (cbf_add (le_bytes k) f) = cbf_Insert k (cbf_abs f)"
proof -
  let ?f = "cbf_abs f"
  have sh: "cbf_shape ?f" "length (cbf_byte_bitarr ?f) = num_bits ?f" using assms(1) by (simp_all add: cbf_rep_def cbf_shape_def)
  have "\<forall>j < length (cbf_byte_bitarr ?f). unat (cbf_byte_bitarr ?f ! j) + count_list (cbf_indices ?f k) j \<le> 255"
    using assms(1,2) sh by (auto simp: cbf_rep_def cbf_room_def hits_def key_hits_def add.commute)
  note F = fold_saturate [OF this]
  have fm: "fold (\<lambda>i arr. let index = h i in if arr ! index < 255 then arr[index := arr ! index + 1] else arr) is b
      = fold (\<lambda>idx arr. if arr ! idx < 255 then arr[idx := arr ! idx + 1] else arr) (map h is) b" for h "is" and b :: "u8 list"
    by (induction "is" arbitrary: b) (simp_all add: Let_def)
  have "set (cbf_indices ?f k) \<subseteq> {..<length (cbf_byte_bitarr ?f)}" using cbf_indices_bounded [OF sh(1)] sh(2) by simp
  from F [OF this] show ?thesis
    unfolding cbf_add_def cbf_abs_update cbf_Insert_fold fm c_compute_hash_abs [OF s] cbf_indices_def by (simp add: cbf_abs_def)
qed

definition drv_cbf_rep :: "cbf_t \<Rightarrow> Key_t multiset \<Rightarrow> bool" where
  "drv_cbf_rep f M \<longleftrightarrow> cbf_rep (cbf_abs f) M \<and> cbf_small f"

lemma cbf_small_step [simp]: "cbf_small (f\<lparr>byte_bitmap := b\<rparr>) = cbf_small f" "cbf_small (cbf_add d f) = cbf_small f"
  by (simp_all add: cbf_small_def cbf_add_def)

interpretation drv_cbf: deletable_filter drv_cbf_rep "\<lambda>k. cbf_might_contain (le_bytes k)" "\<lambda>k. cbf_add (le_bytes k)"
  "\<lambda>f M k. cbf_room (cbf_abs f) M k" "\<lambda>k. cbf_remove (le_bytes k)"
proof
  fix f M k assume r: "drv_cbf_rep f M"
  then have r': "cbf_rep (cbf_abs f) M" and s: "cbf_small f" by (simp_all add: drv_cbf_rep_def)
  show "cbf_might_contain (le_bytes k) f" if "k \<in># M" using cbf.no_false_negative [OF r' that] by (simp add: cbf_might_contain_abs [OF s])
  show "drv_cbf_rep (cbf_add (le_bytes k) f) (add_mset k M)" if "cbf_room (cbf_abs f) M k"
    using cbf.add_rep [OF r' that] cbf_add_abs [OF r' that s] s by (simp add: drv_cbf_rep_def)
  show "snd (cbf_remove (le_bytes k) f) \<and> drv_cbf_rep (fst (cbf_remove (le_bytes k) f)) (M - {#k#})" if k: "k \<in># M"
  proof -
    have "cbf_abs (fst (cbf_remove (le_bytes k) f)) = fst (cbf_Remove k (cbf_abs f))"
      by (simp add: cbf_remove_abs [OF s] Let_def cbf_abs_update cbf_Remove_fold)
    then show ?thesis using cbf.del_rep [OF r' k] s by (simp add: drv_cbf_rep_def) (simp add: cbf_remove_abs [OF s] Let_def)
  qed
qed


section \<open>The hash table as a map\<close>

text \<open>The contract of an exact map with a reserved value for absence.\<close>

locale exact_map =
  fixes amap :: "'t \<Rightarrow> u64 \<rightharpoonup> u64" and inv :: "'t \<Rightarrow> bool" and none :: u64
    and ins :: "'t \<Rightarrow> u64 \<Rightarrow> u64 \<Rightarrow> 't" and get :: "'t \<Rightarrow> u64 \<Rightarrow> u64" and del :: "'t \<Rightarrow> u64 \<Rightarrow> 't \<times> u64"
  assumes get_law: "inv t \<Longrightarrow> get t k = (case amap t k of None \<Rightarrow> none | Some v \<Rightarrow> v)"
    and ins_law: "inv t \<Longrightarrow> inv (ins t k v) \<and> amap (ins t k v) = (amap t)(k \<mapsto> v)"
    and del_law: "inv t \<Longrightarrow> inv (fst (del t k)) \<and> amap (fst (del t k)) = (amap t)(k := None) \<and> snd (del t k) = get t k"
begin

lemma get_ins: "inv t \<Longrightarrow> get (ins t k v) k' = (if k' = k then v else get t k')"
  using ins_law [of t k v] get_law [of "ins t k v" k'] get_law [of t k'] by simp

lemma get_del: "inv t \<Longrightarrow> get (fst (del t k)) k' = (if k' = k then none else get t k')"
  using del_law [of t k] get_law [of "fst (del t k)" k'] get_law [of t k'] by simp

lemma ins_present: "inv t \<Longrightarrow> v \<noteq> none \<Longrightarrow> get (ins t k v) k \<noteq> none"
  by (simp add: get_ins)

end

definition bkt_map :: "ht_node_t list \<Rightarrow> u64 \<rightharpoonup> u64" where
  "bkt_map b = map_of (map (\<lambda>n. (ht_key n, ht_value n)) b)"

definition ht_map :: "hashtable_t \<Rightarrow> u64 \<rightharpoonup> u64" where
  "ht_map ht k = bkt_map (hlistheads ht ! get_bkt_id ht k) k"

definition ht_inv :: "hashtable_t \<Rightarrow> bool" where
  "ht_inv ht \<longleftrightarrow> 0 < num_buckets ht \<and> length (hlistheads ht) = num_buckets ht \<and> (\<forall>b \<in> set (hlistheads ht). distinct (map ht_key b))"

lemma get_bkt_id_heads [simp]: "get_bkt_id (ht\<lparr>hlistheads := x\<rparr>) = get_bkt_id ht"
  by (simp add: fun_eq_iff get_bkt_id_def)

lemma bkt_find_map: "bkt_find k b = (case bkt_map b k of None \<Rightarrow> - 1 | Some v \<Rightarrow> v)"
  by (induction b) (auto simp: bkt_map_def)

lemma bkt_del_keys: "set (fst (bkt_del k b)) \<subseteq> set b"
  by (induction b) (auto split: prod.splits)

lemma bkt_del_spec:
  assumes "distinct (map ht_key b)"
  shows "distinct (map ht_key (fst (bkt_del k b))) \<and> bkt_map (fst (bkt_del k b)) = (bkt_map b)(k := None) \<and> snd (bkt_del k b) = bkt_find k b
    \<and> k \<notin> set (map ht_key (fst (bkt_del k b)))"
  using assms
proof (induction b)
  case (Cons n b)
  then have "bkt_map b (ht_key n) = None" unfolding bkt_map_def map_of_eq_None_iff by auto
  then show ?case using Cons bkt_del_keys [of k b] by (auto simp: bkt_map_def fun_eq_iff split: prod.splits if_splits)
qed (simp add: bkt_map_def fun_eq_iff)

lemma bkt_less: "ht_inv ht \<Longrightarrow> get_bkt_id ht k < length (hlistheads ht)"
  by (auto simp: ht_inv_def get_bkt_id_def intro: le_less_trans [OF mod_less_eq_dividend])

lemma ht_set_bkt:
  assumes "ht_inv ht" "distinct (map ht_key b)" "\<And>k'. k' \<noteq> k \<Longrightarrow> bkt_map b k' = bkt_map (hlistheads ht ! get_bkt_id ht k) k'"
  shows "ht_inv (ht\<lparr>hlistheads := (hlistheads ht)[get_bkt_id ht k := b]\<rparr>)"
    "ht_map (ht\<lparr>hlistheads := (hlistheads ht)[get_bkt_id ht k := b]\<rparr>) = (ht_map ht)(k := bkt_map b k)"
  using assms bkt_less [OF assms(1)] by (auto simp: ht_inv_def ht_map_def fun_eq_iff nth_list_update dest!: set_update_subset_insert [THEN subsetD])

lemma ht_bkt_distinct: "ht_inv ht \<Longrightarrow> distinct (map ht_key (hlistheads ht ! get_bkt_id ht k))"
  using bkt_less [of ht k] nth_mem [of "get_bkt_id ht k" "hlistheads ht"] by (auto simp: ht_inv_def)

lemma hashtable_remove_spec:
  assumes "ht_inv ht"
  shows "ht_inv (fst (hashtable_remove ht k))" "ht_map (fst (hashtable_remove ht k)) = (ht_map ht)(k := None)"
    "snd (hashtable_remove ht k) = hashtable_get ht k" "k \<notin> set (map ht_key (hlistheads (fst (hashtable_remove ht k)) ! get_bkt_id ht k))"
    "get_bkt_id (fst (hashtable_remove ht k)) = get_bkt_id ht"
proof -
  let ?b = "hlistheads ht ! get_bkt_id ht k"
  note D = bkt_del_spec [OF ht_bkt_distinct [OF assms, of k], of k]
  have r: "hashtable_remove ht k = (ht\<lparr>hlistheads := (hlistheads ht)[get_bkt_id ht k := fst (bkt_del k ?b)]\<rparr>, snd (bkt_del k ?b))"
    by (simp add: hashtable_remove_def Let_def split: prod.splits)
  show "get_bkt_id (fst (hashtable_remove ht k)) = get_bkt_id ht" using r by simp
  show "snd (hashtable_remove ht k) = hashtable_get ht k" using r D by (simp add: hashtable_get_def)
  show "k \<notin> set (map ht_key (hlistheads (fst (hashtable_remove ht k)) ! get_bkt_id ht k))" using r D bkt_less [OF assms, of k] by simp
  note S = ht_set_bkt [OF assms, of "fst (bkt_del k ?b)" k]
  show "ht_inv (fst (hashtable_remove ht k))" using S(1) D r by simp
  show "ht_map (fst (hashtable_remove ht k)) = (ht_map ht)(k := None)" using S(2) D r by simp
qed

interpretation drv_ht: exact_map ht_map ht_inv "- 1" hashtable_insert hashtable_get hashtable_remove
proof
  fix t :: hashtable_t and k v assume t: "ht_inv t"
  show "hashtable_get t k = (case ht_map t k of None \<Rightarrow> - 1 | Some v \<Rightarrow> v)" by (simp add: hashtable_get_def bkt_find_map ht_map_def)
  note R = hashtable_remove_spec [OF t, of k]
  let ?t = "fst (hashtable_remove t k)"
  let ?b = "hlistheads ?t ! get_bkt_id ?t k"
  have "distinct (map ht_key (allocate_node k v # ?b))" using R(4,5) ht_bkt_distinct [OF R(1), of k] by (simp add: allocate_node_def)
  note S = ht_set_bkt [OF R(1) this, of k]
  have "bkt_map (allocate_node k v # ?b) k' = (if k' = k then Some v else bkt_map ?b k')" for k' by (simp add: bkt_map_def allocate_node_def)
  then show "ht_inv (hashtable_insert t k v) \<and> ht_map (hashtable_insert t k v) = (ht_map t)(k \<mapsto> v)"
    using S R(2) by (simp add: hashtable_insert_def Let_def)
  show "ht_inv (fst (hashtable_remove t k)) \<and> ht_map (fst (hashtable_remove t k)) = (ht_map t)(k := None) \<and> snd (hashtable_remove t k) = hashtable_get t k"
    using R by blast
qed

lemma hashtable_init_spec:
  assumes "2 \<le> n" "hashtable_init n True True True = Some t"
  shows "ht_inv t" "ht_map t = (\<lambda>_. None)"
proof -
  have nb: "0 < n * 75 div 100" using assms(1) by (simp add: div_greater_zero_iff)
  have t: "t = \<lparr>num_buckets = n * 75 div 100, ht_lock_size = 16, num_locks = n * 75 div 100 div 16 + 1, hlistheads = replicate (n * 75 div 100) []\<rparr>"
    using assms(2) by (simp add: hashtable_init_def Let_def)
  show i: "ht_inv t" using nb unfolding t ht_inv_def by simp
  have "get_bkt_id t k < n * 75 div 100" for k using bkt_less [OF i, of k] by (simp add: t)
  then show "ht_map t = (\<lambda>_. None)" by (simp add: ht_map_def bkt_map_def fun_eq_iff) (simp add: t)
qed


section \<open>Properties of the driver's data structures\<close>

text \<open>Operations on the hash table, and what they do to a map.\<close>

datatype ht_op = HInsert u64 u64 | HRemove u64

fun ht_run :: "ht_op list \<Rightarrow> hashtable_t \<Rightarrow> hashtable_t" where
  "ht_run [] t = t"
| "ht_run (HInsert k v # ops) t = ht_run ops (hashtable_insert t k v)"
| "ht_run (HRemove k # ops) t = ht_run ops (fst (hashtable_remove t k))"

fun map_run :: "ht_op list \<Rightarrow> (u64 \<rightharpoonup> u64) \<Rightarrow> u64 \<rightharpoonup> u64" where
  "map_run [] m = m"
| "map_run (HInsert k v # ops) m = map_run ops (m(k \<mapsto> v))"
| "map_run (HRemove k # ops) m = map_run ops (m(k := None))"

lemma ht_run_map: "ht_inv t \<Longrightarrow> ht_inv (ht_run ops t) \<and> ht_map (ht_run ops t) = map_run ops (ht_map t)"
proof (induction ops arbitrary: t)
  case (Cons a ops) then show ?case by (cases a) (simp_all add: drv_ht.ins_law drv_ht.del_law fun_upd_def)
qed simp

text \<open>
  The hash table of the driver is a map: after any sequence of insertions and removals on a table
  made for at least two entries, a lookup and a removal return the value last inserted under the key and
  not removed since, or -1.
\<close>

theorem hashtable_refines_map:
  assumes "2 \<le> n" "hashtable_init n True True True = Some t"
  shows "hashtable_get (ht_run ops t) k = (case map_run ops (\<lambda>_. None) k of None \<Rightarrow> - 1 | Some v \<Rightarrow> v)
    \<and> snd (hashtable_remove (ht_run ops t) k) = hashtable_get (ht_run ops t) k"
  using ht_run_map [of t ops] hashtable_init_spec [OF assms] drv_ht.get_law drv_ht.del_law by simp

theorem hashtable_refines_map_witness:
  "\<exists>t. hashtable_init 128 True True True = Some t \<and> hashtable_get (ht_run [HInsert 7 1, HInsert 7 2, HInsert 9 3, HRemove 9] t) 7 = 2
     \<and> hashtable_get (ht_run [HInsert 7 1, HInsert 7 2, HInsert 9 3, HRemove 9] t) 9 = - 1"
proof -
  obtain t where t: "hashtable_init 128 True True True = Some t" by (simp add: hashtable_init_def Let_def)
  show ?thesis
    using t hashtable_refines_map [OF _ t, of "[HInsert 7 1, HInsert 7 2, HInsert 9 3, HRemove 9]" 7]
      hashtable_refines_map [OF _ t, of "[HInsert 7 1, HInsert 7 2, HInsert 9 3, HRemove 9]" 9] by simp
qed

text \<open>The fixed stack has room for one push too few in its check: a push on a stack of \<open>num_elems\<close> items writes behind the array.\<close>

lemma fs_push_overruns:
  assumes "length (nodes s) = num_elems s" "top s = int (num_elems s) - 1"
  shows "\<not> is_full s \<and> fs_push item s = None"
  using assms by (simp add: is_full_def fs_push_def Let_def)

text \<open>An access is filtered exactly when the last access that used its bucket was to the same inode and less than 32 pages away.\<close>

lemma af_upsert_filters:
  assumes "0 < af_num_buckets af" "length (af_buckets af) = af_num_buckets af"
  shows "snd (af_upsert g (fst (af_upsert g af ino index)) ino index') \<longleftrightarrow> \<not> DIFF_ABS index index' < 32"
  using assms by (simp add: af_upsert_def af_bkt_id_def Let_def split: prod.splits)

end
