(* ===== verification/Drv_Rdma.thy ===== *)
theory Drv_Rdma
  imports Rdma_Proto Crc "HOL-Library.Multiset"
begin

text \<open>
  The data path of the driver (\<^verbatim>\<open>driver/rdma.c\<close>, lines 23 to 366, and \<^verbatim>\<open>driver/rdma.h\<close>): puts are collected
  in a buffer of 512 (page, key) slots and sent in batches of 32 by a work queue, gets and invalidations
  are single messages.  The buffer is a memory of bytes.  What the network and other threads decide is an
  argument: the outcomes of successive tests of a wait bit, the immediate data of a reply, return values
  of the verbs, the processor id and the address of a mapped page.
\<close>

section \<open>State\<close>

text \<open>Remainder of signed numbers in C: the sign is that of the dividend.\<close>

definition c_rem :: "int \<Rightarrow> int \<Rightarrow> int" where
  "c_rem a b = (if a < 0 then - ((- a) mod b) else a mod b)"

record drv_ctrl =
  put_msg_id :: u32
  inv_msg_id :: u32
  wait_bits :: u64
  keypage :: "int \<Rightarrow> u8"
  works :: "int list"

record drv_mm =
  keypage_dma :: u64
  svr_baseaddr :: u64
  svr_key :: u32
  svr_cli_id :: u32
  local_lkey :: u32

record drv_sge =
  d_addr :: u64
  d_length :: nat
  d_lkey :: u32

record drv_wr =
  d_sges :: "drv_sge list"
  d_imm :: u32
  d_signaled :: bool
  d_inline :: bool
  d_remote_addr :: u64
  d_rkey :: u32
  d_with_imm :: bool


section \<open>Completions and replies\<close>

text \<open>
  Polling takes a completion as soon as a poll finds one; \<open>polls\<close> are the results of the successive polls,
  and \<^const>\<open>None\<close> means that all of them found nothing.  A failed completion is only logged.
\<close>

fun drv_poll_cq :: "(int \<times> 'wc) list \<Rightarrow> 'wc option" where
  "drv_poll_cq [] = None"
| "drv_poll_cq ((ne, wc) # polls) = (if ne < 1 then drv_poll_cq polls else Some wc)"

definition drv_post_recv :: "drv_mm \<Rightarrow> u64 \<Rightarrow> nat \<Rightarrow> int \<Rightarrow> drv_sge list \<times> int" where
  "drv_post_recv mm dma_addr buf_size post_ret =
     (if dma_addr = 0 then [] else [\<lparr>d_addr = dma_addr, d_length = buf_size, d_lkey = local_lkey mm\<rparr>], post_ret)"

definition drv_pre_post_recvs :: "drv_rdma_config_t \<Rightarrow> drv_mm \<Rightarrow> (drv_sge list \<times> int) list list" where
  "drv_pre_post_recvs cfg mm = map (\<lambda>i. map (\<lambda>j. drv_post_recv mm 0 0 0) [0..<MAX_QPS_RECVS]) [0..<num_qps cfg]"

definition drv_poll_recv_cq :: "u32 \<Rightarrow> int \<times> (u32 \<times> u32) option" where
  "drv_poll_recv_cq imm_data =
     (if imm_data = 0 then (0, None)
      else let (mid, msg, tx, etc, crc) = drv_bit_unmask (ntohl imm_data)
           in (if tx = tx_num TX_WRITE_COMMITTED \<or> tx = tx_num TX_INV_PAGE_COMMITED then 0
               else if tx = tx_num TX_READ_COMMITTED then 0
               else if tx = tx_num TX_READ_ABORTED \<or> tx = tx_num TX_INV_PAGE_ABORTED then 1
               else - 1, Some (etc, crc)))"


section \<open>Puts\<close>

definition write_bytes :: "int \<Rightarrow> bytes \<Rightarrow> (int \<Rightarrow> u8) \<Rightarrow> int \<Rightarrow> u8" where
  "write_bytes off bs mem = (\<lambda>a. if off \<le> a \<and> a < off + int (length bs) then bs ! nat (a - off) else mem a)"

definition read_bytes :: "int \<Rightarrow> nat \<Rightarrow> (int \<Rightarrow> u8) \<Rightarrow> bytes" where
  "read_bytes off n mem = map (\<lambda>i. mem (off + int i)) [0..<n]"

definition copy_to_send_buffer :: "u64 \<Rightarrow> bytes \<Rightarrow> int \<Rightarrow> drv_ctrl \<Rightarrow> drv_ctrl" where
  "copy_to_send_buffer key pg msg_id c =
     (let off = msg_id * (4096 + 8); page_loc = off; key_loc = page_loc + 4096
      in c\<lparr>keypage := write_bytes key_loc (le_bytes key) (write_bytes page_loc (take 4096 pg) (keypage c))\<rparr>)"

text \<open>The wait for the batch to be sent: \<open>test j\<close> is what the \<open>j\<close>-th test of the bit finds; false means giving up.\<close>

function wait_loop :: "(nat \<Rightarrow> bool) \<Rightarrow> nat \<Rightarrow> bool" where
  "wait_loop test num_retry = (if test num_retry then (if num_retry > 5 then False else wait_loop test (num_retry + 1)) else True)"
  by pat_completeness auto
termination by (relation "measure (\<lambda>(test, n). 7 - n)") auto

declare wait_loop.simps [simp del]

text \<open>A message id outside the buffer is \<^const>\<open>None\<close>.\<close>

definition dcc_rdma_send_page :: "drv_rdma_config_t \<Rightarrow> (nat \<Rightarrow> bool) \<Rightarrow> bytes \<Rightarrow> u64 \<Rightarrow> drv_ctrl \<Rightarrow> (drv_ctrl \<times> int) option" where
  "dcc_rdma_send_page cfg test pg key c =
     (let msg_id = c_rem (sint (put_msg_id c)) (int (num_msgs cfg));
          batch = int (num_put_batch cfg);
          c1 = c\<lparr>put_msg_id := put_msg_id c + 1\<rparr>
      in if msg_id < 0 then None
         else if \<not> wait_loop test 0 then Some (c1\<lparr>put_msg_id := put_msg_id c1 - 1\<rparr>, - 6)
         else let c2 = copy_to_send_buffer key pg msg_id c1
              in if msg_id mod batch \<noteq> batch - 1 then Some (c2, 0)
                 else Some (c2\<lparr>wait_bits := Bit_Operations.set_bit (nat (msg_id div batch)) (wait_bits c2), works := works c2 @ [msg_id]\<rparr>, 0))"

text \<open>The requests of one batch, in order; only the last one is signalled.\<close>

definition batch_wr :: "drv_rdma_config_t \<Rightarrow> drv_mm \<Rightarrow> int \<Rightarrow> nat \<Rightarrow> drv_wr" where
  "batch_wr cfg mm msg_id i =
     (let len = 8 + 4096; sending_msg_id = msg_id - (int (num_put_batch cfg) - 1) + int i;
          imm = htonl (drv_bit_mask (of_int sending_msg_id) (msg_num MSG_WRITE) (tx_num TX_WRITE_BEGIN) 0 0)
      in \<lparr>d_sges = [\<lparr>d_addr = keypage_dma mm + of_int (len * sending_msg_id), d_length = nat len, d_lkey = local_lkey mm\<rparr>],
          d_imm = imm, d_signaled = (int i \<ge> int (num_put_batch cfg) - 1), d_inline = False, d_remote_addr = 0, d_rkey = 0, d_with_imm = True\<rparr>)"

definition batch_wrs :: "drv_rdma_config_t \<Rightarrow> drv_mm \<Rightarrow> int \<Rightarrow> drv_wr list" where
  "batch_wrs cfg mm msg_id = map (batch_wr cfg mm msg_id) [0..<num_put_batch cfg]"

text \<open>
  What the device sends for the request \<open>i\<close> of the batch: the bytes at offset \<open>len * sending_msg_id\<close> of the
  buffer.  The handler waits for the send completion, frees the batch, and takes a reply (\<open>imm\<close>) after the
  last slot of the buffer.
\<close>

definition batch_bytes :: "drv_rdma_config_t \<Rightarrow> int \<Rightarrow> drv_ctrl \<Rightarrow> nat \<Rightarrow> bytes" where
  "batch_bytes cfg msg_id c i = read_bytes ((8 + 4096) * (msg_id - (int (num_put_batch cfg) - 1) + int i)) (8 + 4096) (keypage c)"

definition send_page_work_handler :: "drv_rdma_config_t \<Rightarrow> drv_mm \<Rightarrow> u32 \<Rightarrow> int \<Rightarrow> drv_ctrl \<Rightarrow> drv_ctrl \<times> (drv_wr \<times> bytes) list \<times> int option" where
  "send_page_work_handler cfg mm imm msg_id c =
     (let sent = zip (batch_wrs cfg mm msg_id) (map (batch_bytes cfg msg_id c) [0..<num_put_batch cfg]);
          c1 = c\<lparr>wait_bits := Bit_Operations.unset_bit (nat (msg_id div int (num_put_batch cfg))) (wait_bits c), works := remove1 msg_id (works c)\<rparr>
      in if msg_id = int (num_msgs cfg) - 1 then (c1, sent, Some (fst (drv_poll_recv_cq imm))) else (c1, sent, None))"


section \<open>Gets and invalidations\<close>

definition get_queue :: "drv_rdma_config_t \<Rightarrow> nat \<Rightarrow> nat" where
  "get_queue cfg cpu = cpu mod num_get_qps cfg + 2"

text \<open>
  The mapping of the page of a get.  The test for a failed allocation reads the address of the variable,
  not the variable, and after a failed mapping the address of the variable is freed.
\<close>

datatype drv_error = NULL_DEREF | BAD_FREE

definition get_req_for_page :: "bool \<Rightarrow> u64 \<Rightarrow> bool \<Rightarrow> drv_error + int \<times> u64" where
  "get_req_for_page alloc_ok dma mapping_error =
     (if \<not> alloc_ok then Inl NULL_DEREF else if mapping_error then Inl BAD_FREE else Inr (0, dma))"

text \<open>
  The request of a get and the result of its reply; \<open>pg\<close> is the page after the reply, \<open>crc0\<close> what the
  uninitialised variable for the checksum holds when the reply has no immediate data.
\<close>

definition write_msg_wr :: "drv_rdma_config_t \<Rightarrow> drv_mm \<Rightarrow> nat \<Rightarrow> u64 \<Rightarrow> u64 \<Rightarrow> drv_wr \<times> bytes" where
  "write_msg_wr cfg mm qid key dma =
     (\<lparr>d_sges = [\<lparr>d_addr = 0, d_length = 16, d_lkey = local_lkey mm\<rparr>],
       d_imm = htonl (drv_bit_mask 0 (msg_num MSG_READ) (tx_num TX_READ_BEGIN) 0 0), d_signaled = True, d_inline = True,
       d_remote_addr = svr_baseaddr mm + GET_METADATA_OFFSET cfg qid 0 (msg_num MSG_READ), d_rkey = svr_key mm, d_with_imm = True\<rparr>,
      le_bytes key @ le_bytes dma)"

definition write_msg_result :: "bool \<Rightarrow> u32 \<Rightarrow> u32 \<Rightarrow> bytes \<Rightarrow> int" where
  "write_msg_result crc_check crc0 imm pg =
     (case drv_poll_recv_cq imm of (ret, x) \<Rightarrow>
        (let crc = (case x of None \<Rightarrow> crc0 | Some (_, crc) \<Rightarrow> crc)
         in if ret = 0 \<and> (ucast crc :: u8) \<noteq> drv_CRC8 crc_check pg then - 4 else ret))"

definition dcc_rdma_write_msg :: "drv_rdma_config_t \<Rightarrow> drv_mm \<Rightarrow> nat \<Rightarrow> u64 \<Rightarrow> bool \<times> u64 \<times> bool \<Rightarrow> bool \<Rightarrow> u32 \<Rightarrow> u32 \<Rightarrow> bytes \<Rightarrow>
    drv_error + (nat \<times> drv_wr \<times> bytes) \<times> int" where
  "dcc_rdma_write_msg cfg mm cpu key mapping crc_check crc0 imm pg =
     (let qid = get_queue cfg cpu; (alloc_ok, dma, mapping_error) = mapping
      in case get_req_for_page alloc_ok dma mapping_error of
           Inl e \<Rightarrow> Inl e
         | Inr (_, dma) \<Rightarrow> Inr ((qid, write_msg_wr cfg mm qid key dma), write_msg_result crc_check crc0 imm pg))"

text \<open>An invalidation; only the one in the last slot waits for its reply.\<close>

definition dcc_rdma_write_msg2 :: "drv_rdma_config_t \<Rightarrow> drv_mm \<Rightarrow> u64 \<Rightarrow> int \<Rightarrow> u32 \<Rightarrow> drv_ctrl \<Rightarrow> (drv_ctrl \<times> (drv_wr \<times> bytes) \<times> int) option" where
  "dcc_rdma_write_msg2 cfg mm key post_ret imm c =
     (let msg_id = c_rem (sint (inv_msg_id c)) (int (num_msgs cfg));
          c1 = c\<lparr>inv_msg_id := inv_msg_id c + 1\<rparr>;
          last = \<not> msg_id < int (num_msgs cfg) - 1;
          wr = \<lparr>d_sges = [\<lparr>d_addr = 0, d_length = 8, d_lkey = local_lkey mm\<rparr>],
                d_imm = htonl (drv_bit_mask (of_int msg_id) (msg_num MSG_INV_PAGE) (tx_num TX_INV_PAGE_BEGIN) 0 0),
                d_signaled = last, d_inline = True,
                d_remote_addr = svr_baseaddr mm + GET_METADATA_OFFSET cfg 1 (nat msg_id) (msg_num MSG_INV_PAGE), d_rkey = svr_key mm, d_with_imm = True\<rparr>
      in if msg_id < 0 then None
         else Some (c1, (wr, le_bytes key), if last then fst (drv_poll_recv_cq imm) else post_ret))"

definition dcc_rdma_send_msg :: "drv_mm \<Rightarrow> u64 \<Rightarrow> nat \<Rightarrow> u32 \<Rightarrow> int \<Rightarrow> drv_wr \<times> int" where
  "dcc_rdma_send_msg mm addr bufsize imm post_ret =
     (\<lparr>d_sges = (if addr = 0 then [] else [\<lparr>d_addr = addr, d_length = bufsize, d_lkey = local_lkey mm\<rparr>]), d_imm = imm,
       d_signaled = True, d_inline = True, d_remote_addr = 0, d_rkey = 0, d_with_imm = (imm \<noteq> 0)\<rparr>, post_ret)"


text \<open>A completion without immediate data, as a failed one has, counts as success; a get then compares the page with an uninitialised checksum.\<close>

lemma reply_without_data_accepted:
  "fst (drv_poll_recv_cq 0) = 0" "write_msg_result crc_check crc0 0 pg = 0 \<longleftrightarrow> (ucast crc0 :: u8) = drv_CRC8 crc_check pg"
  by (simp_all add: drv_poll_recv_cq_def write_msg_result_def)


section \<open>The buffer of puts\<close>

text \<open>
  \<open>put_reach mm c log outs\<close>: the driver is in state \<open>c\<close> after it accepted the pages of \<open>log\<close>, in this order, and
  sent the messages \<open>outs\<close>.  Puts, invalidations and the handlers of scheduled batches interleave in any
  way, and the handlers run in any order.
\<close>

abbreviation put_cfg :: drv_rdma_config_t where
  "put_cfg \<equiv> drv_rdma_set_default_config"

definition wait_test :: "drv_ctrl \<Rightarrow> nat \<Rightarrow> bool" where
  "wait_test c j = bit (wait_bits c) (nat (c_rem (sint (put_msg_id c)) 512 div 32))"

inductive put_reach :: "drv_mm \<Rightarrow> drv_ctrl \<Rightarrow> (bytes \<times> u64) list \<Rightarrow> bytes list \<Rightarrow> bool" for mm where
  put_start: "put_msg_id c = 0 \<Longrightarrow> wait_bits c = 0 \<Longrightarrow> works c = [] \<Longrightarrow> put_reach mm c [] []"
| put_one: "put_reach mm c log outs \<Longrightarrow> length log < 2 ^ 31 - 1 \<Longrightarrow> length pg = 4096 \<Longrightarrow>
    dcc_rdma_send_page put_cfg (wait_test c) pg key c = Some (c', ret) \<Longrightarrow> put_reach mm c' (if ret = 0 then log @ [(pg, key)] else log) outs"
| put_work: "put_reach mm c log outs \<Longrightarrow> m \<in> set (works c) \<Longrightarrow> send_page_work_handler put_cfg mm imm m c = (c', sent, r) \<Longrightarrow>
    put_reach mm c' log (outs @ map snd sent)"
| put_inval: "put_reach mm c log outs \<Longrightarrow> dcc_rdma_write_msg2 put_cfg mm key post_ret imm c = Some (c', req, ret) \<Longrightarrow> put_reach mm c' log outs"

text \<open>What goes over the wire for a page and its key.\<close>

definition keypage_msg :: "bytes \<times> u64 \<Rightarrow> bytes" where
  "keypage_msg = (\<lambda>(pg, key). pg @ le_bytes key)"

definition slot_ok :: "drv_ctrl \<Rightarrow> (bytes \<times> u64) list \<Rightarrow> nat \<Rightarrow> bool" where
  "slot_ok c log i \<longleftrightarrow> read_bytes (4104 * int (i mod 512)) 4104 (keypage c) = keypage_msg (log ! i)"

text \<open>The batches \<open>bs\<close> (numbered from the start) are scheduled and not yet sent.\<close>

definition pending_ok :: "drv_ctrl \<Rightarrow> (bytes \<times> u64) list \<Rightarrow> nat \<Rightarrow> bool" where
  "pending_ok c log b \<longleftrightarrow> 32 * b + 32 \<le> length log \<and> length log \<le> 32 * b + 512 \<and> (\<forall>i. 32 * b \<le> i \<and> i < 32 * b + 32 \<longrightarrow> slot_ok c log i)"

definition put_inv :: "drv_ctrl \<Rightarrow> (bytes \<times> u64) list \<Rightarrow> nat list \<Rightarrow> bool" where
  "put_inv c log bs \<longleftrightarrow> put_msg_id c = of_nat (length log) \<and> length log < 2 ^ 31 \<and> distinct bs
     \<and> works c = map (\<lambda>b. 32 * int (b mod 16) + 31) bs \<and> (\<forall>b \<in> set bs. pending_ok c log b)
     \<and> (\<forall>n. bit (wait_bits c) n \<longleftrightarrow> n \<in> (\<lambda>b. b mod 16) ` set bs)
     \<and> (\<forall>i. 32 * (length log div 32) \<le> i \<and> i < length log \<longrightarrow> slot_ok c log i)"

lemma length_write_bytes: "read_bytes off (length bs) (write_bytes off bs mem) = bs"
  by (rule nth_equalityI) (simp_all add: read_bytes_def write_bytes_def)

lemma read_bytes_add: "read_bytes off (n + m) mem = read_bytes off n mem @ read_bytes (off + int n) m mem"
  by (rule nth_equalityI) (auto simp: read_bytes_def nth_append)

lemma read_write_other: "off + int n \<le> w \<or> w + int (length bs) \<le> off \<Longrightarrow> read_bytes off n (write_bytes w bs mem) = read_bytes off n mem"
  by (rule nth_equalityI) (auto simp: read_bytes_def write_bytes_def)

lemma copy_slot:
  assumes "length pg = 4096"
  shows "read_bytes (4104 * m) 4104 (keypage (copy_to_send_buffer key pg m c)) = pg @ le_bytes key"
    "m \<noteq> m' \<Longrightarrow> read_bytes (4104 * m') 4104 (keypage (copy_to_send_buffer key pg m c)) = read_bytes (4104 * m') 4104 (keypage c)"
proof -
  have k: "keypage (copy_to_send_buffer key pg m c) = write_bytes (4104 * m + 4096) (le_bytes key) (write_bytes (4104 * m) pg (keypage c))"
    using assms by (simp add: copy_to_send_buffer_def Let_def mult.commute)
  have "read_bytes (4104 * m) (4096 + 8) (keypage (copy_to_send_buffer key pg m c)) = pg @ le_bytes key"
    using length_write_bytes [of "4104 * m + 4096" "le_bytes key"] length_write_bytes [of "4104 * m" pg] assms
    unfolding k read_bytes_add by (simp add: read_write_other)
  then show "read_bytes (4104 * m) 4104 (keypage (copy_to_send_buffer key pg m c)) = pg @ le_bytes key" by simp
  show "read_bytes (4104 * m') 4104 (keypage (copy_to_send_buffer key pg m c)) = read_bytes (4104 * m') 4104 (keypage c)" if "m \<noteq> m'"
  proof -
    have "4104 * m' + 4104 \<le> 4104 * m \<or> 4104 * m + 4104 \<le> 4104 * m'" 
    proof (cases "m < m'")
      case True then show ?thesis by simp
    next
      case False then have "m' + 1 \<le> m" using that by simp then show ?thesis by simp
    qed
    then show ?thesis using assms unfolding k
      by (auto simp: read_write_other [where w = "4104 * m + 4096"] read_write_other [where w = "4104 * m"])
  qed
qed

lemma put_index:
  assumes "n < 2 ^ 31"
  shows "c_rem (sint (of_nat n :: u32)) 512 = int (n mod 512)" "int (n mod 512) div 32 = int (n div 32 mod 16)" "int (n mod 512) mod 32 = int (n mod 32)"
proof -
  have "sint (of_nat n :: u32) = int n" using assms by (simp add: signed_of_nat signed_take_bit_int_eq_self)
  then show "c_rem (sint (of_nat n :: u32)) 512 = int (n mod 512)" by (simp add: c_rem_def zmod_int)
  have "n mod 512 div 32 = n div 32 mod 16" using mod_mult2_eq [of n 32 16] by simp
  then show "int (n mod 512) div 32 = int (n div 32 mod 16)" by (metis of_nat_numeral zdiv_int)
  have "n mod 512 mod 32 = n mod 32" by (simp add: mod_mod_cancel)
  then show "int (n mod 512) mod 32 = int (n mod 32)" by (metis of_nat_numeral zmod_int)
qed


lemma put_cfg_simps [simp]: "num_msgs put_cfg = 512" "num_put_batch put_cfg = 32"
  by (simp_all add: drv_rdma_set_default_config_def Let_def)

lemma wait_loop_const: "wait_loop (\<lambda>_. x) 0 = (\<not> x)"
  by (cases x) (simp_all add: wait_loop.simps)

lemma slot_other:
  assumes "slot_ok c log i" "i < length log" "length log < i + 512" "keypage c' = keypage (copy_to_send_buffer key pg (int (length log mod 512)) c)" "length pg = 4096"
  shows "slot_ok c' (log @ [x]) i"
proof -
  have "i mod 512 \<noteq> length log mod 512"
  proof
    assume "i mod 512 = length log mod 512"
    then have "512 dvd length log - i" using assms(2) by (metis mod_eq_dvd_iff_nat less_imp_le)
    then show False using assms(2,3) by (auto dest: dvd_imp_le)
  qed
  then have "int (length log mod 512) \<noteq> int (i mod 512)" by linarith
  then show ?thesis using assms(1,2) copy_slot(2) [OF assms(5), of "int (length log mod 512)" "int (i mod 512)" key c] by (simp add: slot_ok_def assms(4) nth_append)
qed

lemma put_step:
  assumes inv: "put_inv c log bs" and n: "length log < 2 ^ 31 - 1" and pg: "length pg = 4096"
    and s: "dcc_rdma_send_page put_cfg (wait_test c) pg key c = Some (c', ret)"
  shows "put_inv c' (if ret = 0 then log @ [(pg, key)] else log) (if ret = 0 \<and> length log mod 32 = 31 then bs @ [length log div 32] else bs)"
    "ret \<in> {0, - 6}" "ret = - 6 \<longleftrightarrow> length log div 32 mod 16 \<in> (\<lambda>b. b mod 16) ` set bs"
proof -
  let ?n = "length log" and ?log = "log @ [(pg, key)]"
  have mid: "put_msg_id c = of_nat ?n" and lt: "?n < 2 ^ 31" and w: "\<And>n. bit (wait_bits c) n \<longleftrightarrow> n \<in> (\<lambda>b. b mod 16) ` set bs"
    using inv by (auto simp: put_inv_def)
  note I = put_index [OF lt]
  have test: "wait_test c = (\<lambda>_. bit (wait_bits c) (?n div 32 mod 16))" by (simp add: wait_test_def mid I fun_eq_iff)
  let ?c2 = "copy_to_send_buffer key pg (int (?n mod 512)) (c\<lparr>put_msg_id := put_msg_id c + 1\<rparr>)"
  have kp: "keypage ?c2 = keypage (copy_to_send_buffer key pg (int (?n mod 512)) c)" by (simp add: copy_to_send_buffer_def Let_def)
  have mid2: "put_msg_id ?c2 = of_nat (length ?log)" "works ?c2 = works c" "wait_bits ?c2 = wait_bits c" using mid by (simp_all add: copy_to_send_buffer_def Let_def)
  have run: "dcc_rdma_send_page put_cfg (wait_test c) pg key c =
      (if bit (wait_bits c) (?n div 32 mod 16) then Some (c, - 6)
       else if ?n mod 32 \<noteq> 31 then Some (?c2, 0)
       else Some (?c2\<lparr>wait_bits := Bit_Operations.set_bit (?n div 32 mod 16) (wait_bits c), works := works c @ [int (?n mod 512)]\<rparr>, 0))"
    using mid mid2 by (simp add: dcc_rdma_send_page_def test wait_loop_const I Let_def)
  show "ret \<in> {0, - 6}" "ret = - 6 \<longleftrightarrow> ?n div 32 mod 16 \<in> (\<lambda>b. b mod 16) ` set bs" using s w by (auto simp: run split: if_splits)
  show "put_inv c' (if ret = 0 then ?log else log) (if ret = 0 \<and> ?n mod 32 = 31 then bs @ [?n div 32] else bs)"
  proof (cases "bit (wait_bits c) (?n div 32 mod 16)")
    case True
    then show ?thesis using s inv by (auto simp: run)
  next
    case free: False
    have old: "pending_ok x ?log b" if "b \<in> set bs" "keypage x = keypage ?c2" for b x
    proof -
      have p: "pending_ok c log b" using inv that by (simp add: put_inv_def)
      have "?n \<noteq> 32 * b + 512"
      proof
        assume "?n = 32 * b + 512"
        then have "?n div 32 mod 16 = b mod 16" by simp
        then show False using free w that(1) by blast
      qed
      then show ?thesis using p slot_other [of c log _ x key pg "(pg, key)"] that(2) kp pg by (auto simp: pending_ok_def)
    qed
    have here: "slot_ok x ?log i" if "32 * (?n div 32) \<le> i" "i < Suc ?n" "keypage x = keypage ?c2" for i x
    proof (cases "i = ?n")
      case True
      then show ?thesis using copy_slot(1) [OF pg] that(3) kp by (simp add: slot_ok_def keypage_msg_def)
    next
      case False
      then have "slot_ok c log i" using that inv by (simp add: put_inv_def)
      moreover have "?n < i + 512" using that(1) mult_div_mod_eq [of 32 ?n] mod_less_divisor [of 32 ?n] by linarith
      ultimately show ?thesis using slot_other [of c log i x key pg "(pg, key)"] that False kp pg by simp
    qed
    show ?thesis
    proof (cases "?n mod 32 = 31")
      case False
      then have "Suc ?n div 32 = ?n div 32" by (simp add: div_Suc mod_Suc)
      then have "put_inv ?c2 ?log bs" using inv n mid2 old here by (auto simp: put_inv_def)
      then show ?thesis using s free False by (auto simp: run)
    next
      case True
      let ?c3 = "?c2\<lparr>wait_bits := Bit_Operations.set_bit (?n div 32 mod 16) (wait_bits c), works := works c @ [int (?n mod 512)]\<rparr>"
      let ?b = "?n div 32"
      have nb: "?n = 32 * ?b + 31" using True by (metis mult.commute div_mult_mod_eq)
      have "?b \<notin> set bs" using free w by blast
      moreover have "int (?n mod 512) = 32 * int (?b mod 16) + 31" using mod_mult2_eq [of ?n 32 16] True by simp
      moreover have "pending_ok ?c3 ?log ?b" using nb here by (auto simp: pending_ok_def)
      moreover have "Suc ?n div 32 = Suc ?b" by (simp add: div_Suc mod_Suc True)
      moreover have "32 * Suc ?b = Suc ?n" using nb by simp
      moreover have "bit (Bit_Operations.set_bit (?b mod 16) (wait_bits c)) m \<longleftrightarrow> m \<in> (\<lambda>b. b mod 16) ` set (bs @ [?b])" for m
        using w [of m] by (auto simp: bit_set_bit_iff)
      ultimately have "put_inv ?c3 ?log (bs @ [?b])" using inv n mid2 old by (auto simp: put_inv_def)
      then show ?thesis using s free True by (auto simp: run)
    qed
  qed
qed


lemma pending_inj: "pending_ok c log b \<Longrightarrow> pending_ok c log b' \<Longrightarrow> b mod 16 = b' mod 16 \<Longrightarrow> b = b'"
proof (induction b b' rule: linorder_wlog)
  case (le b b')
  then have "16 dvd b' - b" by (metis mod_eq_dvd_iff_nat)
  moreover have "b' - b < 16" using le unfolding pending_ok_def by linarith
  ultimately show ?case using le(1) by (metis dvd_imp_le diff_is_0_eq' le_antisym linorder_not_less neq0_conv zero_less_diff)
qed simp

lemma batch_slot: "32 * int (b mod 16) + 31 - 31 + int i = int ((32 * b + i) mod 512)" if "i < 32"
proof -
  have "(32 * b + i) mod (32 * 16) = 32 * (b mod 16) + i" using that mod_mult2_eq [of "32 * b + i" 32 16] by simp
  then show ?thesis by simp
qed

definition batch_msgs :: "(bytes \<times> u64) list \<Rightarrow> nat \<Rightarrow> bytes list" where
  "batch_msgs log b = map (\<lambda>i. keypage_msg (log ! (32 * b + i))) [0..<32]"

lemma work_step:
  assumes inv: "put_inv c log bs" and b: "b \<in> set bs" and m: "m = 32 * int (b mod 16) + 31"
    and h: "send_page_work_handler put_cfg mm imm m c = (c', sent, r)"
  shows "put_inv c' log (remove1 b bs)" "map snd sent = batch_msgs log b" "map (d_imm \<circ> fst) sent =
    map (\<lambda>i. htonl (drv_bit_mask (of_nat ((32 * b + i) mod 512)) (msg_num MSG_WRITE) (tx_num TX_WRITE_BEGIN) 0 0)) [0..<32]"
proof -
  have sent: "sent = zip (batch_wrs put_cfg mm m) (map (batch_bytes put_cfg m c) [0..<32])"
    and c': "c' = c\<lparr>wait_bits := Bit_Operations.unset_bit (nat (m div 32)) (wait_bits c), works := remove1 m (works c)\<rparr>"
    using h by (auto simp: send_page_work_handler_def Let_def split: if_splits)
  have p: "\<And>b'. b' \<in> set bs \<Longrightarrow> pending_ok c log b'" using inv by (simp add: put_inv_def)
  have slot: "batch_bytes put_cfg m c i = keypage_msg (log ! (32 * b + i))" if "i < 32" for i
  proof -
    have "slot_ok c log (32 * b + i)" using p [OF b] that by (simp add: pending_ok_def)
    then show ?thesis using batch_slot [OF that, of b] m by (simp add: batch_bytes_def slot_ok_def)
  qed
  then show "map snd sent = batch_msgs log b" by (simp add: sent batch_wrs_def batch_msgs_def)
  have "d_imm (batch_wr put_cfg mm m i) = htonl (drv_bit_mask (of_nat ((32 * b + i) mod 512)) (msg_num MSG_WRITE) (tx_num TX_WRITE_BEGIN) 0 0)" if "i < 32" for i
    using batch_slot [OF that, of b] m by (simp add: batch_wr_def Let_def del: of_nat_mod)
  then show "map (d_imm \<circ> fst) sent = map (\<lambda>i. htonl (drv_bit_mask (of_nat ((32 * b + i) mod 512)) (msg_num MSG_WRITE) (tx_num TX_WRITE_BEGIN) 0 0)) [0..<32]"
    by (auto simp: sent batch_wrs_def intro!: nth_equalityI)
  have inj: "b' mod 16 = b mod 16 \<longleftrightarrow> b' = b" if "b' \<in> set bs" for b' using pending_inj [OF p [OF that] p [OF b]] by blast
  have "remove1 m (map (\<lambda>b. 32 * int (b mod 16) + 31) xs) = map (\<lambda>b. 32 * int (b mod 16) + 31) (remove1 b xs)" if "set xs \<subseteq> set bs" for xs
    using that
  proof (induction xs)
    case (Cons x xs)
    then have "32 * int (x mod 16) + 31 = m \<longleftrightarrow> x = b" using inj [of x] m by (simp del: of_nat_mod)
    then show ?case using Cons by auto
  qed simp
  then have "works c' = map (\<lambda>b. 32 * int (b mod 16) + 31) (remove1 b bs)" using inv c' by (simp add: put_inv_def)
  moreover have "nat (m div 32) = b mod 16" using m by (simp add: nat_div_distrib del: of_nat_mod)
  then have "bit (wait_bits c') n \<longleftrightarrow> n \<in> (\<lambda>b. b mod 16) ` set bs \<and> n \<noteq> b mod 16" for n
    using inv c' by (auto simp: put_inv_def bit_unset_bit_iff)
  moreover have "(\<lambda>b. b mod 16) ` set (remove1 b bs) = (\<lambda>b. b mod 16) ` set bs - {b mod 16}"
    using inv inj by (auto simp: put_inv_def image_iff)
  moreover have "slot_ok c' = slot_ok c" "pending_ok c' = pending_ok c" "put_msg_id c' = put_msg_id c"
    using c' by (simp_all add: fun_eq_iff slot_ok_def pending_ok_def)
  ultimately show "put_inv c' log (remove1 b bs)" using inv by (auto simp: put_inv_def distinct_remove1 dest: notin_set_remove1)
qed


text \<open>The batches that were sent, \<open>ds\<close>, and those that are scheduled, \<open>bs\<close>, are all complete batches, each once.\<close>

definition sent_inv :: "drv_ctrl \<Rightarrow> (bytes \<times> u64) list \<Rightarrow> bytes list \<Rightarrow> nat list \<Rightarrow> nat list \<Rightarrow> bool" where
  "sent_inv c log outs bs ds \<longleftrightarrow> put_inv c log bs \<and> distinct (bs @ ds) \<and> set (bs @ ds) = {..<length log div 32} \<and> outs = concat (map (batch_msgs log) ds)"

lemma batch_msgs_append: "b < length log div 32 \<Longrightarrow> batch_msgs (log @ [x]) b = batch_msgs log b"
  by (auto simp: batch_msgs_def nth_append)


lemma put_reach_inv:
  assumes "put_reach mm c log outs"
  shows "\<exists>bs ds. sent_inv c log outs bs ds"
  using assms
proof induction
  case (put_start c)
  then have "sent_inv c [] [] [] []" by (simp add: sent_inv_def put_inv_def)
  then show ?case by blast
next
  case (put_one c log outs pg key c' ret)
  then obtain bs ds where I: "sent_inv c log outs bs ds" by blast
  let ?n = "length log" and ?full = "ret = 0 \<and> length log mod 32 = 31"
  let ?log = "if ret = 0 then log @ [(pg, key)] else log"
  let ?bs = "if ?full then bs @ [?n div 32] else bs"
  have p: "put_inv c' ?log ?bs" using put_step(1) [OF _ put_one.hyps(2-4)] I by (simp add: sent_inv_def)
  have "length ?log div 32 = (if ?full then Suc (?n div 32) else ?n div 32)" by (simp add: div_Suc mod_Suc)
  moreover have "map (batch_msgs ?log) ds = map (batch_msgs log) ds" using I by (auto simp: sent_inv_def batch_msgs_append)
  then have "concat (map (batch_msgs ?log) ds) = outs" using I by (simp only: sent_inv_def)
  ultimately have "sent_inv c' ?log outs ?bs ds" using p I by (auto simp: sent_inv_def lessThan_Suc)
  then show ?case by blast
next
  case (put_work c log outs m imm c' sent r)
  then obtain bs ds where I: "sent_inv c log outs bs ds" by blast
  then obtain b where b: "b \<in> set bs" "m = 32 * int (b mod 16) + 31" using put_work.hyps(2) by (auto simp: sent_inv_def put_inv_def)
  have pi: "put_inv c log bs" using I by (simp add: sent_inv_def)
  note W = work_step [OF pi b put_work.hyps(3)]
  have "distinct (remove1 b bs @ ds @ [b])" "set (remove1 b bs @ ds @ [b]) = set (bs @ ds)" using I b(1) by (auto simp: sent_inv_def)
  then have "sent_inv c' log (outs @ map snd sent) (remove1 b bs) (ds @ [b])" using I W(1,2) by (simp add: sent_inv_def)
  then show ?case by blast
next
  case (put_inval c log outs key post_ret imm c' req ret)
  then obtain bs ds where I: "sent_inv c log outs bs ds" by blast
  have "c' = c\<lparr>inv_msg_id := inv_msg_id c + 1\<rparr>" using put_inval.hyps(2) by (auto simp: dcc_rdma_write_msg2_def Let_def split: if_splits)
  then have "sent_inv c' log outs bs ds" using I by (simp add: sent_inv_def put_inv_def pending_ok_def slot_ok_def)
  then show ?case by blast
qed

lemma batch_msgs_take: "32 * n \<le> length log \<Longrightarrow> concat (map (batch_msgs log) [0..<n]) = map keypage_msg (take (32 * n) log)"
proof (induction n)
  case (Suc n)
  have "map keypage_msg (take (32 * n + 32) log) = map keypage_msg (take (32 * n) log) @ map keypage_msg (take 32 (drop (32 * n) log))"
    by (simp add: take_add)
  moreover have "map keypage_msg (take 32 (drop (32 * n) log)) = batch_msgs log n"
    using Suc.prems by (intro nth_equalityI) (simp_all add: batch_msgs_def)
  ultimately show ?case using Suc by (simp add: add.commute)
qed simp

lemma mset_concat_map: "mset (concat (map g ds)) = (\<Sum>d\<in>#mset ds. mset (g d))"
  by (induction ds) simp_all


lemma mset_sent:
  assumes "put_reach mm c log outs" "works c = []"
  shows "mset outs = mset (map keypage_msg (take (32 * (length log div 32)) log))"
proof -
  obtain bs ds where I: "sent_inv c log outs bs ds" using put_reach_inv [OF assms(1)] by blast
  then have "bs = []" using assms(2) by (simp add: sent_inv_def put_inv_def)
  with I have d: "distinct ds" "set ds = set [0..<length log div 32]" unfolding sent_inv_def by (simp_all add: lessThan_atLeast0)
  have "mset ds = mset [0..<length log div 32]" by (rule iffD1 [OF set_eq_iff_mset_eq_distinct [OF d(1) distinct_upt] d(2)])
  then have "mset (concat (map (batch_msgs log) ds)) = mset (concat (map (batch_msgs log) [0..<length log div 32]))"
    by (simp only: mset_concat_map)
  moreover have "outs = concat (map (batch_msgs log) ds)" using I by (simp add: sent_inv_def)
  ultimately have "mset outs = mset (concat (map (batch_msgs log) [0..<length log div 32]))" by (simp only:)
  then show ?thesis by (simp only: batch_msgs_take times_div_less_eq_dividend)
qed


section \<open>Properties of the data path\<close>

text \<open>
  C8. Puts are sent exactly once: whatever the interleaving of puts and batch handlers, once no batch is
  waiting the messages sent are exactly the accepted pages with their keys, all but the last fewer than 32
  that do not fill a batch.
\<close>

theorem puts_sent_exactly_once:
  assumes "put_reach mm c log outs" "works c = []"
  shows "mset outs = mset (map keypage_msg (take (32 * (length log div 32)) log))"
  using assms by (rule mset_sent)


text \<open>A driver that has sent nothing yet.\<close>

definition mm_idle :: drv_mm where
  "mm_idle = \<lparr>keypage_dma = 0, svr_baseaddr = 0, svr_key = 0, svr_cli_id = 0, local_lkey = 0\<rparr>"

definition ctrl_idle :: drv_ctrl where
  "ctrl_idle = \<lparr>put_msg_id = 0, inv_msg_id = 0, wait_bits = 0, keypage = (\<lambda>_. 0), works = []\<rparr>"

lemma ctrl_idle_reach: "put_reach mm ctrl_idle [] []"
  by (rule put_start) (simp_all add: ctrl_idle_def)

text \<open>Thirty-two puts into an idle driver and the handler of their batch.\<close>

lemma put_run:
  assumes "put_reach mm c log outs" "\<forall>x \<in> set xs. length (fst x) = 4096" "length log + length xs < 2 ^ 31" "works c = []" "length log mod 32 + length xs \<le> 32"
  shows "\<exists>c'. put_reach mm c' (log @ xs) outs \<and> (length log mod 32 + length xs < 32 \<longrightarrow> works c' = [])
    \<and> (xs \<noteq> [] \<and> length log mod 32 + length xs = 32 \<longrightarrow> works c' = [31 + 32 * int ((length log + length xs - 1) div 32 mod 16)])"
  using assms
proof (induction xs arbitrary: c log)
  case (Cons x xs)
  obtain pg key where x: "x = (pg, key)" by fastforce
  obtain bs ds where I: "sent_inv c log outs bs ds" using put_reach_inv [OF Cons.prems(1)] by blast
  then have bs: "bs = []" "put_inv c log []" using Cons.prems(4) by (auto simp: sent_inv_def put_inv_def)
  have n: "length log < 2 ^ 31 - 1" "length pg = 4096" using Cons.prems(2,3) x by auto
  have "c_rem (sint (put_msg_id c)) 512 \<ge> 0" using put_index(1) [of "length log"] bs(2) by (simp add: put_inv_def)
  then have "dcc_rdma_send_page put_cfg (wait_test c) pg key c \<noteq> None" by (simp add: dcc_rdma_send_page_def Let_def)
  then obtain c1 ret where s: "dcc_rdma_send_page put_cfg (wait_test c) pg key c = Some (c1, ret)" by auto
  note S = put_step [OF bs(2) n s]
  have ret: "ret = 0" using S(2,3) by auto
  have r1: "put_reach mm c1 (log @ [x]) outs" using put_one [OF Cons.prems(1) n s] ret x by simp
  have w1: "works c1 = (if length log mod 32 = 31 then [31 + 32 * int (length log div 32 mod 16)] else [])" using S(1) ret by (auto simp: put_inv_def)
  show ?case
  proof (cases "length log mod 32 = 31")
    case True
    then have "xs = []" using Cons.prems(5) by simp
    then show ?thesis using r1 w1 True by auto
  next
    case False
    then have m: "length (log @ [x]) mod 32 = Suc (length log mod 32)" by (simp add: mod_Suc)
    have "\<exists>c'. put_reach mm c' ((log @ [x]) @ xs) outs \<and> (length (log @ [x]) mod 32 + length xs < 32 \<longrightarrow> works c' = [])
      \<and> (xs \<noteq> [] \<and> length (log @ [x]) mod 32 + length xs = 32 \<longrightarrow> works c' = [31 + 32 * int ((length (log @ [x]) + length xs - 1) div 32 mod 16)])"
      using Cons.prems m w1 False by (intro Cons.IH [OF r1]) auto
    then show ?thesis using m w1 False r1 by (cases xs) auto
  qed
qed auto

theorem puts_sent_exactly_once_witness:
  "\<exists>mm c log outs. put_reach mm c log outs \<and> works c = [] \<and> length log = 32 \<and> mset outs = mset (map keypage_msg log)"
proof -
  define log where "log = map (\<lambda>i. (replicate 4096 (of_nat i) :: bytes, of_nat i :: u64)) [0..<32]"
  obtain c where c: "put_reach mm_idle c log []" "works c = [31]" using put_run [OF ctrl_idle_reach, of log mm_idle] by (auto simp: log_def ctrl_idle_def)
  obtain c' sent r where h: "send_page_work_handler put_cfg mm_idle 0 31 c = (c', sent, r)" by (cases "send_page_work_handler put_cfg mm_idle 0 31 c")
  have r: "put_reach mm_idle c' log (map snd sent)" using put_work [OF c(1) _ h] c(2) by simp
  moreover have "works c' = []" using h c(2) by (auto simp: send_page_work_handler_def Let_def split: if_splits)
  ultimately show ?thesis using puts_sent_exactly_once [OF r] by (intro exI [of _ mm_idle] exI [of _ c'] exI [of _ log] exI [of _ "map snd sent"]) (simp add: log_def)
qed

text \<open>What is sent never exceeds what was accepted.\<close>

lemma mset_sent_le:
  assumes "put_reach mm c log outs"
  shows "mset outs \<subseteq># mset (map keypage_msg log)"
proof -
  obtain bs ds where I: "sent_inv c log outs bs ds" using put_reach_inv [OF assms] by blast
  let ?n = "length log div 32"
  have d: "distinct ds" "set ds \<subseteq> {..<?n}" using I unfolding sent_inv_def by auto
  have "mset ds \<subseteq># mset [0..<?n]" using d by (auto simp: subseteq_mset_def distinct_count_atmost_1 count_eq_zero_iff count_mset_0_iff)
  then obtain R where R: "mset [0..<?n] = mset ds + R" by (metis subset_mset.add_diff_inverse)
  have "mset outs = (\<Sum>d\<in>#mset ds. mset (batch_msgs log d))" using I unfolding sent_inv_def mset_concat_map [symmetric] by blast
  then have "mset outs \<subseteq># (\<Sum>d\<in>#mset [0..<?n]. mset (batch_msgs log d))" unfolding R by simp
  also have "\<dots> = mset (concat (map (batch_msgs log) [0..<?n]))" by (rule mset_concat_map [symmetric])
  also have "\<dots> = mset (map keypage_msg (take (32 * ?n) log))" by (simp only: batch_msgs_take times_div_less_eq_dividend)
  also have "\<dots> \<subseteq># mset (map keypage_msg log)" by (metis append_take_drop_id map_append mset_append mset_subset_eq_add_left)
  finally show ?thesis .
qed

text \<open>
  C39. An invalidation overtakes a put that waits in an unfilled batch: it goes out at once and leaves the
  page in the buffer, and once the batch is filled and sent the page is among the messages sent after the
  invalidation.
\<close>

theorem invalidation_overtakes_put:
  assumes "put_reach mm c log outs" "length log < 2 ^ 31 - 1" "length pg = 4096" "length log mod 32 \<noteq> 31"
    and "dcc_rdma_send_page put_cfg (wait_test c) pg key c = Some (c1, 0)"
    and "dcc_rdma_write_msg2 put_cfg mm key post_ret imm c1 = Some (c2, (wr, msg), ret)"
  shows "msg = le_bytes key \<and> works c2 = works c \<and> put_reach mm c2 (log @ [(pg, key)]) outs
    \<and> (\<forall>c3 log3 outs3. put_reach mm c3 (log @ [(pg, key)] @ log3) (outs @ outs3) \<and> works c3 = [] \<and> 32 dvd length (log @ [(pg, key)] @ log3)
          \<longrightarrow> keypage_msg (pg, key) \<in> set outs3)"
proof (intro conjI allI impI)
  obtain bs ds where I: "sent_inv c log outs bs ds" using put_reach_inv [OF assms(1)] by blast
  then have pi: "put_inv c log bs" by (simp add: sent_inv_def)
  have w: "works c1 = works c" using put_step(1) [OF pi assms(2,3,5)] pi assms(4) by (simp add: put_inv_def)
  have c2: "c2 = c1\<lparr>inv_msg_id := inv_msg_id c1 + 1\<rparr>" "msg = le_bytes key"
    using assms(6) by (auto simp: dcc_rdma_write_msg2_def Let_def split: if_splits)
  then show "msg = le_bytes key" "works c2 = works c" using w by simp_all
  have "put_reach mm c1 (log @ [(pg, key)]) outs" using put_one [OF assms(1-3,5)] by simp
  from put_inval [OF this assms(6)] show "put_reach mm c2 (log @ [(pg, key)]) outs" .
  fix c3 log3 outs3
  assume A: "put_reach mm c3 (log @ [(pg, key)] @ log3) (outs @ outs3) \<and> works c3 = [] \<and> 32 dvd length (log @ [(pg, key)] @ log3)"
  let ?l = "log @ [(pg, key)] @ log3"
  have "mset (outs @ outs3) = mset (map keypage_msg (take (32 * (length ?l div 32)) ?l))" using A mset_sent by blast
  moreover have "32 * (length ?l div 32) = length ?l" using A by (metis dvd_mult_div_cancel)
  ultimately have "mset outs + mset outs3 = mset (map keypage_msg log) + {#keypage_msg (pg, key)#} + mset (map keypage_msg log3)" by simp
  moreover obtain D where "mset (map keypage_msg log) = mset outs + D" using mset_sent_le [OF assms(1)] by (metis subset_mset.add_diff_inverse)
  ultimately have "mset outs3 = D + {#keypage_msg (pg, key)#} + mset (map keypage_msg log3)" by (simp only: add.assoc add_left_cancel)
  then have "keypage_msg (pg, key) \<in># mset outs3" by simp
  then show "keypage_msg (pg, key) \<in> set outs3" by simp
qed

theorem invalidation_overtakes_put_witness:
  "\<exists>c1 c2 wr msg ret. dcc_rdma_send_page put_cfg (wait_test ctrl_idle) (replicate 4096 0) 77 ctrl_idle = Some (c1, 0)
     \<and> dcc_rdma_write_msg2 put_cfg mm_idle 77 0 0 c1 = Some (c2, (wr, msg), ret) \<and> msg = le_bytes 77 \<and> works c2 = []
     \<and> put_reach mm_idle c2 [(replicate 4096 0, 77)] []"
proof -
  obtain c1 where s: "dcc_rdma_send_page put_cfg (wait_test ctrl_idle) (replicate 4096 0) 77 ctrl_idle = Some (c1, 0)" and i: "inv_msg_id c1 = 0"
    by (simp add: dcc_rdma_send_page_def ctrl_idle_def wait_test_def c_rem_def wait_loop.simps copy_to_send_buffer_def Let_def)
  obtain c2 wr msg ret where v: "dcc_rdma_write_msg2 put_cfg mm_idle 77 0 0 c1 = Some (c2, (wr, msg), ret)"
    by (simp add: dcc_rdma_write_msg2_def i c_rem_def Let_def)
  show ?thesis using s v invalidation_overtakes_put [OF ctrl_idle_reach _ _ _ s v] by (auto simp: ctrl_idle_def)
qed

text \<open>
  The message counter is a signed 32-bit integer that is never reset: beyond 2^31 puts the remainder
  is negative, and the slot computed for the put lies outside the buffer.
\<close>

theorem put_counter_overflows:
  assumes "2 ^ 31 < n" "n < 2 ^ 32" "n mod 512 \<noteq> 0" "put_msg_id c = of_nat n"
  shows "dcc_rdma_send_page put_cfg test pg key c = None"
proof -
  have "sint (of_nat n :: u32) = int n - 2 ^ 32"
  proof -
    have "(int n + 2 ^ 31) mod 2 ^ 32 = (int n + 2 ^ 31 - 2 ^ 32) mod 2 ^ 32" by (simp only: minus_mod_self2)
    also have "\<dots> = int n + 2 ^ 31 - 2 ^ 32" using assms(1,2) by (intro mod_pos_pos_trivial) simp_all
    finally show ?thesis by (simp add: signed_of_nat signed_take_bit_eq_take_bit_shift take_bit_eq_mod)
  qed
  moreover have "0 < (2 ^ 32 - int n) mod 512"
  proof -
    have "(2 ^ 32 - int n) mod 512 = (- int n) mod 512" using mod_diff_left_eq [of "2 ^ 32 :: int" 512 "int n"] by simp
    moreover have "\<not> 512 dvd int n" using assms(3) by (simp add: mod_eq_0_iff_dvd) presburger
    ultimately show ?thesis using pos_mod_sign [of 512 "- int n"] by (metis dvd_minus_iff mod_eq_0_iff_dvd order_less_le zero_less_numeral)
  qed
  ultimately show ?thesis using assms(2,4) by (simp add: dcc_rdma_send_page_def Let_def c_rem_def)
qed

theorem put_counter_overflows_witness:
  "dcc_rdma_send_page put_cfg (\<lambda>_. False) [] 5 (ctrl_idle\<lparr>put_msg_id := of_nat (2 ^ 31 + 1)\<rparr>) = None"
  by (rule put_counter_overflows [where n = "2 ^ 31 + 1"]) simp_all

end
