(* ===== verification/Drv_Backend.thy ===== *)
theory Drv_Backend
  imports Drv_Filters Drv_Rdma Longkey
begin

text \<open>
  The backend of the driver (\<^verbatim>\<open>driver/backend.c\<close>, \<^verbatim>\<open>driver/backend.h\<close>), its cleancache operations
  (\<^verbatim>\<open>driver/main.c\<close>), and the update of the Bloom filter by the worker thread and the event handler
  (\<^verbatim>\<open>driver/worker.c\<close>, \<^verbatim>\<open>driver/rdma.c\<close> lines 368 to 426).  A null pointer that is followed, and a put
  outside its buffer, is \<^const>\<open>None\<close>.
\<close>

section \<open>Handlers\<close>

record dcc_config_t =
  num_svrs :: nat
  cfg_exclusive_policy :: bool
  metadata_type :: metadata_type_t
  filter_update_interval :: int
  af_enable :: bool

record dcc_backend =
  be_ctrl :: drv_ctrl
  be_mm :: drv_mm
  be_meta :: "metadata_t option"
  be_af :: "access_filter_t option"

text \<open>What one operation meets: the tests of the wait bit, the page, the dirtied mark, processor, addresses and replies.\<close>

record op_env =
  o_test :: "nat \<Rightarrow> bool"
  o_page :: bytes
  o_dirtied :: bool
  o_cpu :: nat
  o_mapping :: "bool \<times> u64 \<times> bool"
  o_crc_check :: bool
  o_crc0 :: u32
  o_reply :: u32
  o_post :: int

definition meta_add :: "u64 \<Rightarrow> dcc_backend \<Rightarrow> dcc_backend option" where
  "meta_add key b = map_option (\<lambda>m. b\<lparr>be_meta := Some m\<rparr>) (Option.bind (be_meta b) (metadata_add key))"

definition meta_contain :: "u64 \<Rightarrow> dcc_backend \<Rightarrow> bool option" where
  "meta_contain key b = Option.bind (be_meta b) (metadata_contain key)"

definition meta_remove :: "u64 \<Rightarrow> dcc_backend \<Rightarrow> dcc_backend option" where
  "meta_remove key b = map_option (\<lambda>(m, _). b\<lparr>be_meta := Some m\<rparr>) (Option.bind (be_meta b) (metadata_remove key))"

text \<open>The part of a put after the decision to send.\<close>

definition put_send :: "dcc_config_t \<Rightarrow> op_env \<Rightarrow> u64 \<Rightarrow> int \<Rightarrow> dcc_backend \<Rightarrow> (dcc_backend \<times> int) option" where
  "put_send cfg o' key ret b =
     (case dcc_rdma_send_page put_cfg (o_test o') (o_page o') key (be_ctrl b) of
        None \<Rightarrow> None
      | Some (c, ret2) \<Rightarrow>
          (let b1 = b\<lparr>be_ctrl := c\<rparr>
           in case (if metadata_type cfg \<noteq> FILTER_OFF \<and> ret2 = 0 then meta_add key b1 else Some b1) of
                None \<Rightarrow> None
              | Some b2 \<Rightarrow> Some (b2, if ret2 \<noteq> 0 then ret2 else ret)))"

definition handle_twosided_put_page :: "dcc_config_t \<Rightarrow> op_env \<Rightarrow> u64 \<Rightarrow> dcc_backend \<Rightarrow> (dcc_backend \<times> int) option" where
  "handle_twosided_put_page cfg o' key b =
     (if \<not> cfg_exclusive_policy cfg then
        (case (if metadata_type cfg \<noteq> FILTER_OFF then meta_contain key b else Some True) of
           None \<Rightarrow> None
         | Some ret \<Rightarrow>
             if ret then
               (if \<not> o_dirtied o' then Some (b, - 3)
                else let ret = (- 4 :: int); ret = (0 :: int) in put_send cfg o' key ret b)
             else put_send cfg o' key 0 b)
      else put_send cfg o' key 0 b)"

definition handle_twosided_get_page :: "dcc_config_t \<Rightarrow> op_env \<Rightarrow> u64 \<Rightarrow> dcc_backend \<Rightarrow> (dcc_backend \<times> (nat \<times> drv_wr \<times> bytes) option \<times> int) option" where
  "handle_twosided_get_page cfg o' key b =
     (case (if metadata_type cfg \<noteq> FILTER_OFF then meta_contain key b else Some True) of
        None \<Rightarrow> None
      | Some present \<Rightarrow>
          if \<not> present then Some (b, None, - 1)
          else (case dcc_rdma_write_msg put_cfg (be_mm b) (o_cpu o') key (o_mapping o') (o_crc_check o') (o_crc0 o') (o_reply o') (o_page o') of
                  Inl _ \<Rightarrow> None
                | Inr (wr, ret) \<Rightarrow>
                    if cfg_exclusive_policy cfg
                    then (if metadata_type cfg \<noteq> FILTER_OFF then map_option (\<lambda>b'. (b', Some wr, ret)) (meta_remove key b) else Some (b, Some wr, ret))
                    else (if ret \<noteq> 0 \<and> metadata_type cfg \<noteq> FILTER_OFF then map_option (\<lambda>b'. (b', Some wr, ret)) (meta_remove key b) else Some (b, Some wr, ret))))"

definition handle_twosided_invalidate_page :: "dcc_config_t \<Rightarrow> op_env \<Rightarrow> u64 \<Rightarrow> dcc_backend \<Rightarrow> (dcc_backend \<times> (drv_wr \<times> bytes) option \<times> int) option" where
  "handle_twosided_invalidate_page cfg o' key b =
     (case (if metadata_type cfg \<noteq> FILTER_OFF then meta_contain key b else Some True) of
        None \<Rightarrow> None
      | Some present \<Rightarrow>
          if \<not> present then Some (b, None, - 1)
          else (case dcc_rdma_write_msg2 put_cfg (be_mm b) key (o_post o') (o_reply o') (be_ctrl b) of
                  None \<Rightarrow> None
                | Some (c, wr, ret) \<Rightarrow>
                    (let b1 = b\<lparr>be_ctrl := c\<rparr>
                     in if metadata_type cfg \<noteq> FILTER_OFF then map_option (\<lambda>b'. (b', Some wr, ret)) (meta_remove key b1) else Some (b1, Some wr, ret))))"

definition get_backend_id :: "u64 \<Rightarrow> dcc_config_t \<Rightarrow> u64 \<Rightarrow> u64 \<Rightarrow> nat" where
  "get_backend_id golden cfg ino index =
     (if num_svrs cfg = 1 then 0 else unat ((push_bit 32 ino OR index) * golden) mod num_svrs cfg)"

definition backend_key :: "dcc_backend \<Rightarrow> u64 \<Rightarrow> u64 \<Rightarrow> u64" where
  "backend_key b ino index = drv_make_longkey (ucast (svr_cli_id (be_mm b))) ino index"

definition dcc_handle_put_page :: "u64 \<Rightarrow> dcc_config_t \<Rightarrow> op_env \<Rightarrow> u64 \<Rightarrow> u64 \<Rightarrow> dcc_backend list \<Rightarrow> (dcc_backend list \<times> int) option" where
  "dcc_handle_put_page golden cfg o' ino index bs =
     (let i = get_backend_id golden cfg ino index; b = bs ! i; key = backend_key b ino index
      in case (if af_enable cfg then map_option (\<lambda>af. case af_upsert golden af ino index of (af', r) \<Rightarrow> (b\<lparr>be_af := Some af'\<rparr>, r)) (be_af b)
               else Some (b, True)) of
           None \<Rightarrow> None
         | Some (b1, go) \<Rightarrow>
             if \<not> go then Some (bs[i := b1], - 5)
             else map_option (\<lambda>(b2, ret). (bs[i := b2], ret)) (handle_twosided_put_page cfg o' key b1))"

definition dcc_handle_get_page :: "u64 \<Rightarrow> dcc_config_t \<Rightarrow> op_env \<Rightarrow> u64 \<Rightarrow> u64 \<Rightarrow> dcc_backend list \<Rightarrow> (dcc_backend list \<times> int) option" where
  "dcc_handle_get_page golden cfg o' ino index bs =
     (let i = get_backend_id golden cfg ino index; b = bs ! i
      in map_option (\<lambda>(b', _, ret). (bs[i := b'], ret)) (handle_twosided_get_page cfg o' (backend_key b ino index) b))"

definition dcc_handle_invalidate_page :: "u64 \<Rightarrow> dcc_config_t \<Rightarrow> op_env \<Rightarrow> u64 \<Rightarrow> u64 \<Rightarrow> dcc_backend list \<Rightarrow> (dcc_backend list \<times> int) option" where
  "dcc_handle_invalidate_page golden cfg o' ino index bs =
     (let i = get_backend_id golden cfg ino index; b = bs ! i
      in map_option (\<lambda>(b', _, ret). (bs[i := b'], ret)) (handle_twosided_invalidate_page cfg o' (backend_key b ino index) b))"


section \<open>Configuration and start of a backend\<close>

text \<open>The module parameters; \<open>None\<close> is an address that was not given.\<close>

definition MAX_NUM_SVRS :: nat where
  "MAX_NUM_SVRS = 8"

definition count_svrs :: "string option list \<Rightarrow> nat" where
  "count_svrs svr_ips = length (takeWhile (\<lambda>x. x \<noteq> None) (take MAX_NUM_SVRS svr_ips))"

definition dcc_set_default_config :: "string option list \<Rightarrow> bool \<Rightarrow> metadata_type_t \<Rightarrow> int \<Rightarrow> bool \<Rightarrow> dcc_config_t" where
  "dcc_set_default_config svr_ips excl mtype interval af =
     \<lparr>num_svrs = count_svrs svr_ips, cfg_exclusive_policy = excl, metadata_type = mtype, filter_update_interval = interval, af_enable = af\<rparr>"

text \<open>
  Start and stop of a worker.  A worker is a valid pointer or an error pointer; \<open>be_init_env\<close> has the results
  of the allocations.  Stopping follows the pointer, so that it fails (\<^const>\<open>None\<close>) for an error pointer.
\<close>

datatype worker_ptr = WORKER | WORKER_ERR

record be_init_env =
  i_meta :: bool
  i_filter :: "bool \<times> bool \<times> bool"
  i_worker :: bool
  i_af :: "bool \<times> bool \<times> bool"

definition dcc_start_worker :: "be_init_env \<Rightarrow> worker_ptr" where
  "dcc_start_worker e = (if \<not> i_worker e then WORKER_ERR else WORKER)"

definition dcc_backend_stop_worker :: "worker_ptr \<Rightarrow> int option" where
  "dcc_backend_stop_worker w = (case w of WORKER \<Rightarrow> Some 0 | WORKER_ERR \<Rightarrow> None)"

text \<open>\<open>info\<close> are the three numbers the server sent: hash functions, bits, pages; \<open>pool\<close> is the memory for the filter.\<close>

definition dcc_backend_init :: "dcc_config_t \<Rightarrow> be_init_env \<Rightarrow> u32 \<times> u32 \<times> u32 \<Rightarrow> u64 list option \<Rightarrow> dcc_backend \<Rightarrow> (dcc_backend \<times> int) option" where
  "dcc_backend_init cfg e info pool b =
     (let (n0, n1, n2) = info; (a0, a1, a2) = i_filter e; (f0, f1, f2) = i_af e;
          num_hash = unat (ucast n0 :: u8);
          b1 = (if metadata_type cfg \<noteq> FILTER_OFF
                then b\<lparr>be_meta := metadata_init num_hash (unat n1) pool (unat n2) (metadata_type cfg) (i_meta e) a0 a1 a2\<rparr> else b);
          b2 = (if af_enable cfg then b1\<lparr>be_af := af_init f0 f1 f2\<rparr> else b1)
      in if metadata_type cfg = COOP_BF
         then (case dcc_start_worker e of
                 WORKER \<Rightarrow> Some (b2, 0)
               | WORKER_ERR \<Rightarrow> if num_svrs cfg = 0 then Some (b1, - 1) else map_option (\<lambda>_. (b1, - 1)) (dcc_backend_stop_worker WORKER_ERR))
         else Some (b2, 0))"


section \<open>Cleancache operations\<close>

datatype dcc_stats_type =
    BLOCKED_PUTS | REJECTED_PUTS | CLEAN_PUTS | REDIRTIED_PUTS | ACCESS_FILTERED_PUTS | FALSE_POSITIVE_GETS | CRC_ERROR_GETS | VALID_INVALIDATES

type_synonym dcc_stats_t = "dcc_stats_type \<Rightarrow> u64"

definition dcc_stats_inc :: "dcc_stats_type \<Rightarrow> dcc_stats_t \<Rightarrow> dcc_stats_t" where
  "dcc_stats_inc name st = st(name := st name + 1)"

definition put_stats :: "int \<Rightarrow> dcc_stats_t \<Rightarrow> dcc_stats_t" where
  "put_stats ret st =
     (if ret = - 3 then dcc_stats_inc CLEAN_PUTS st
      else if ret = - 4 then dcc_stats_inc REDIRTIED_PUTS st
      else if ret = - 5 then dcc_stats_inc ACCESS_FILTERED_PUTS st
      else if ret = - 6 then dcc_stats_inc BLOCKED_PUTS st
      else if ret = - 7 then dcc_stats_inc REJECTED_PUTS st
      else st)"

definition dcc_put_page :: "u64 \<Rightarrow> dcc_config_t \<Rightarrow> op_env \<Rightarrow> int \<Rightarrow> bool \<Rightarrow> u64 \<Rightarrow> u64 \<Rightarrow> u64 \<Rightarrow> dcc_backend list \<times> dcc_stats_t \<Rightarrow> (dcc_backend list \<times> dcc_stats_t) option" where
  "dcc_put_page golden cfg o' page_count page_locked host_ino ino index = (\<lambda>(bs, st).
     if page_count \<noteq> 0 \<or> \<not> page_locked \<or> host_ino < 2 then Some (bs, st)
     else map_option (\<lambda>(bs', ret). (bs', put_stats ret st)) (dcc_handle_put_page golden cfg o' ino index bs))"

definition dcc_get_page :: "u64 \<Rightarrow> dcc_config_t \<Rightarrow> op_env \<Rightarrow> u64 \<Rightarrow> u64 \<Rightarrow> dcc_backend list \<times> dcc_stats_t \<Rightarrow> ((dcc_backend list \<times> dcc_stats_t) \<times> int) option" where
  "dcc_get_page golden cfg o' ino index = (\<lambda>(bs, st).
     map_option (\<lambda>(bs', ret). ((bs', if ret > 0 then dcc_stats_inc FALSE_POSITIVE_GETS st else if ret = - 4 then dcc_stats_inc CRC_ERROR_GETS st else st), ret))
       (dcc_handle_get_page golden cfg o' ino index bs))"

definition dcc_invalidate_page :: "u64 \<Rightarrow> dcc_config_t \<Rightarrow> op_env \<Rightarrow> u64 \<Rightarrow> u64 \<Rightarrow> dcc_backend list \<times> dcc_stats_t \<Rightarrow> (dcc_backend list \<times> dcc_stats_t) option" where
  "dcc_invalidate_page golden cfg o' ino index = (\<lambda>(bs, st).
     map_option (\<lambda>(bs', ret). (bs', if ret = 0 then dcc_stats_inc VALID_INVALIDATES st else st)) (dcc_handle_invalidate_page golden cfg o' ino index bs))"


section \<open>Update of the Bloom filter\<close>

text \<open>
  Every server has a worker that sleeps, blocks its filter and requests an update, and waits for the flag
  that the event handler sets; the flag is one variable for all workers.  The request is answered by a
  write into the bitmap and a completion that runs the handler.
\<close>

datatype worker_pc = Sleeping | Waiting

record upd_state =
  filter_update_done :: bool
  filters :: "nat \<Rightarrow> bf_t"
  pcs :: "nat \<Rightarrow> worker_pc"
  requests :: "nat \<Rightarrow> nat"
  written :: "nat \<Rightarrow> nat"

definition do_update_filter_begin :: "nat \<Rightarrow> upd_state \<Rightarrow> upd_state" where
  "do_update_filter_begin i s = s\<lparr>filters := (filters s)(i := bf_blocking (filters s i)), requests := (requests s)(i := requests s i + 1),
     pcs := (pcs s)(i := Waiting)\<rparr>"

definition do_update_filter_end :: "nat \<Rightarrow> upd_state \<Rightarrow> upd_state" where
  "do_update_filter_end i s = s\<lparr>filter_update_done := False, pcs := (pcs s)(i := Sleeping)\<rparr>"

definition dcc_backend_update_filter :: "nat \<Rightarrow> upd_state \<Rightarrow> upd_state" where
  "dcc_backend_update_filter i s = s\<lparr>filter_update_done := True, filters := (filters s)(i := bf_unblocking (filters s i))\<rparr>"

definition filter_process_imm :: "nat \<Rightarrow> u32 \<Rightarrow> upd_state \<Rightarrow> upd_state" where
  "filter_process_imm i imm s = (if imm = FILTER_UPDATE_END then dcc_backend_update_filter i s else s)"

text \<open>The event handler takes completions until the queue is empty; a failed one or an unexpected opcode stops it.\<close>

datatype ib_wc_opcode = IB_WC_RDMA_WRITE | IB_WC_SEND | IB_WC_RECV | IB_WC_RECV_RDMA_WITH_IMM | IB_WC_OTHER

fun filter_event_handler :: "nat \<Rightarrow> (bool \<times> ib_wc_opcode \<times> u32) list \<Rightarrow> upd_state \<Rightarrow> upd_state" where
  "filter_event_handler i [] s = s"
| "filter_event_handler i ((ok, opc, imm) # wcs) s =
     (if \<not> ok then s
      else case opc of
             IB_WC_RDMA_WRITE \<Rightarrow> filter_event_handler i wcs s
           | IB_WC_SEND \<Rightarrow> filter_event_handler i wcs s
           | IB_WC_RECV \<Rightarrow> filter_event_handler i wcs (filter_process_imm i imm s)
           | IB_WC_RECV_RDMA_WITH_IMM \<Rightarrow> filter_event_handler i wcs (filter_process_imm i imm s)
           | IB_WC_OTHER \<Rightarrow> s)"


section \<open>Reachable states of the update\<close>

text \<open>
  Beside the state, \<open>pend i\<close> has for every unanswered request of server \<open>i\<close> the keys added since it was
  sent, and \<open>must i\<close> the keys that the filter has to report: those of the last snapshot from the daemon and
  those added since the request it answers.
\<close>

inductive upd_reach :: "nat \<Rightarrow> upd_state \<Rightarrow> (nat \<Rightarrow> Key_t set list) \<Rightarrow> (nat \<Rightarrow> Key_t set) \<Rightarrow> bool" for n where
  upd_start: "(\<And>i. i < n \<Longrightarrow> bf_shape (filters s i) \<and> \<not> check_merging (filters s i) \<and> pcs s i = Sleeping \<and> requests s i = 0 \<and> written s i = 0) \<Longrightarrow>
    \<not> filter_update_done s \<Longrightarrow> upd_reach n s (\<lambda>_. []) (\<lambda>_. {})"
| upd_begin: "upd_reach n s pend must \<Longrightarrow> i < n \<Longrightarrow> pcs s i = Sleeping \<Longrightarrow>
    upd_reach n (do_update_filter_begin i s) (pend(i := pend i @ [{}])) must"
| upd_end: "upd_reach n s pend must \<Longrightarrow> i < n \<Longrightarrow> pcs s i = Waiting \<Longrightarrow> filter_update_done s \<Longrightarrow>
    upd_reach n (do_update_filter_end i s) pend must"
| upd_add: "upd_reach n s pend must \<Longrightarrow> i < n \<Longrightarrow>
    upd_reach n (s\<lparr>filters := (filters s)(i := bf_add (le_bytes k) (filters s i))\<rparr>) (pend(i := map (insert k) (pend i))) (must(i := insert k (must i)))"
| upd_write: "upd_reach n s pend must \<Longrightarrow> i < n \<Longrightarrow> requests s i > 0 \<Longrightarrow> pend i = P # Ps \<Longrightarrow>
    length snap = BITS_TO_LONGS (bf_num_bits (filters s i)) \<Longrightarrow>
    upd_reach n (s\<lparr>filters := (filters s)(i := (filters s i)\<lparr>bitmap := snap\<rparr>), requests := (requests s)(i := requests s i - 1), written := (written s)(i := written s i + 1)\<rparr>)
      (pend(i := Ps)) (must(i := P \<union> {k. bits_cover (filters s i) (le_bytes k) snap}))"
| upd_handle: "upd_reach n s pend must \<Longrightarrow> i < n \<Longrightarrow> written s i > 0 \<Longrightarrow>
    upd_reach n ((filter_event_handler i [(True, IB_WC_RECV_RDMA_WITH_IMM, FILTER_UPDATE_END)] s)\<lparr>written := (written s)(i := written s i - 1)\<rparr>) pend must"

text \<open>With one server the worker and the handler take turns.\<close>

definition upd_phase :: "upd_state \<Rightarrow> (nat \<Rightarrow> Key_t set list) \<Rightarrow> bool" where
  "upd_phase s pend \<longleftrightarrow>
     (pcs s 0 = Sleeping \<and> \<not> check_merging (filters s 0) \<and> requests s 0 = 0 \<and> written s 0 = 0 \<and> \<not> filter_update_done s \<and> pend 0 = [])
   \<or> (pcs s 0 = Waiting \<and> check_merging (filters s 0) \<and> requests s 0 = 1 \<and> written s 0 = 0 \<and> \<not> filter_update_done s
        \<and> (\<exists>P. pend 0 = [P] \<and> (\<forall>k \<in> P. bits_cover (filters s 0) (le_bytes k) (tmp_bitmap (filters s 0)))))
   \<or> (pcs s 0 = Waiting \<and> check_merging (filters s 0) \<and> requests s 0 = 0 \<and> written s 0 = 1 \<and> \<not> filter_update_done s \<and> pend 0 = [])
   \<or> (pcs s 0 = Waiting \<and> \<not> check_merging (filters s 0) \<and> requests s 0 = 0 \<and> written s 0 = 0 \<and> filter_update_done s \<and> pend 0 = [])"

lemma bits_cover_add [simp]: "bf_shape f \<Longrightarrow> bits_cover (bf_add d f) = bits_cover f"
  by (simp add: fun_eq_iff bits_cover_def bf_add_spec(3))

lemma bits_cover_blocking [simp]: "bf_shape f \<Longrightarrow> bits_cover (bf_blocking f) = bits_cover f"
  by (simp add: fun_eq_iff bits_cover_def bf_blocking_spec(4))

lemma bf_shape_bitmap: "bf_shape f \<Longrightarrow> length snap = BITS_TO_LONGS (bf_num_bits f) \<Longrightarrow> bf_shape (f\<lparr>bitmap := snap\<rparr>)"
  by (simp add: bf_shape_def)

lemma upd_handle_filter:
  "filter_event_handler i [(True, IB_WC_RECV_RDMA_WITH_IMM, FILTER_UPDATE_END)] s = dcc_backend_update_filter i s"
  by (simp add: filter_process_imm_def)

lemma upd_single:
  assumes "upd_reach n s pend must" "n = 1"
  shows "bf_shape (filters s 0) \<and> upd_phase s pend \<and> (\<forall>k \<in> must 0. bf_might_contain (le_bytes k) (filters s 0))"
  using assms
proof induction
  case (upd_start s) then show ?case by (auto simp: upd_phase_def)
next
  case (upd_begin s pend must i)
  then have sh: "bf_shape (filters s 0)" "i = 0" and p: "upd_phase s pend" and m: "\<forall>k \<in> must 0. bits_cover (filters s 0) (le_bytes k) (bitmap (filters s 0))"
    by (auto simp: bf_might_contain_cover upd_phase_def)
  have "\<forall>k \<in> must 0. bf_might_contain (le_bytes k) (bf_blocking (filters s 0))" using m sh(1) by (simp add: bf_might_contain_cover bf_blocking_spec(3))
  then show ?case using p sh upd_begin.hyps(3) bf_blocking_spec(1,2) [OF sh(1)] by (auto simp: do_update_filter_begin_def upd_phase_def)
next
  case (upd_end s pend must i) then show ?case by (auto simp: do_update_filter_end_def upd_phase_def)
next
  case (upd_add s pend must i k)
  then have sh: "bf_shape (filters s 0)" "i = 0" and p: "upd_phase s pend" by auto
  let ?f = "filters s 0" and ?f' = "bf_add (le_bytes k) (filters s 0)"
  note A = bf_add_spec [OF sh(1), where data = "le_bytes k"]
  have "\<forall>x \<in> insert k (must 0). bf_might_contain (le_bytes x) ?f'" using upd_add.IH upd_add.prems A(4,5) by auto
  moreover have "upd_phase (s\<lparr>filters := (filters s)(0 := ?f')\<rparr>) (pend(0 := map (insert k) (pend 0)))"
  proof (cases "requests s 0 = 1")
    case True
    then obtain P where P: "pend 0 = [P]" "\<forall>x \<in> P. bits_cover ?f (le_bytes x) (tmp_bitmap ?f)" "check_merging ?f" using p by (auto simp: upd_phase_def)
    then have "\<forall>x \<in> insert k P. bits_cover ?f (le_bytes x) (tmp_bitmap ?f')" using A(6,8) by auto
    then show ?thesis using p True P(1) A(2) sh(1) by (simp add: upd_phase_def)
  next
    case False
    then show ?thesis using p A(2) by (auto simp: upd_phase_def)
  qed
  ultimately show ?case using A(1) sh(2) by (simp add: fun_upd_def)
next
  case (upd_write s pend must i P Ps snap)
  then have sh: "bf_shape (filters s 0)" "i = 0" and p: "upd_phase s pend" by auto
  then have m: "check_merging (filters s 0)" "pend 0 = [P]" "\<forall>k \<in> P. bits_cover (filters s 0) (le_bytes k) (tmp_bitmap (filters s 0))"
    "requests s 0 = 1" "written s 0 = 0" "pcs s 0 = Waiting" "\<not> filter_update_done s" using upd_write.hyps(3,4) by (auto simp: upd_phase_def)
  have "check_merging ((filters s 0)\<lparr>bitmap := snap\<rparr>)" using m(1) by (simp add: check_merging_def)
  then show ?case using upd_write.hyps(4,5) sh m by (auto simp: upd_phase_def bf_might_contain_cover bf_shape_bitmap)
next
  case (upd_handle s pend must i)
  then have sh: "bf_shape (filters s 0)" "i = 0" and p: "upd_phase s pend" by auto
  then have m: "check_merging (filters s 0)" "pend 0 = []" "requests s 0 = 0" "written s 0 = 1" "pcs s 0 = Waiting" using upd_handle.hyps(3) by (auto simp: upd_phase_def)
  note U = bf_unblocking_spec [OF sh(1)]
  have "\<forall>k \<in> must 0. bf_might_contain (le_bytes k) (bf_unblocking (filters s 0))" using upd_handle U(3) by (auto simp: bf_might_contain_cover)
  then show ?case using sh m U(1,2) unfolding upd_handle_filter by (auto simp: dcc_backend_update_filter_def upd_phase_def)
qed


section \<open>Properties of the update\<close>


definition upd_init :: "nat \<Rightarrow> nat \<Rightarrow> upd_state" where
  "upd_init nh nb = \<lparr>filter_update_done = False, filters = (\<lambda>_. the (bf_init nh nb (Some []) True True)), pcs = (\<lambda>_. Sleeping), requests = (\<lambda>_. 0), written = (\<lambda>_. 0)\<rparr>"

lemma upd_init_reach: "0 < nb \<Longrightarrow> upd_reach n (upd_init nh nb) (\<lambda>_. []) (\<lambda>_. {})"
  by (rule upd_start) (auto simp: upd_init_def bf_init_def bf_shape_def check_merging_def Let_def)


text \<open>A whole update of server 0 leaves the flag set and nothing else of server 1 changed.\<close>

lemma upd_other_round:
  assumes "upd_reach 2 s pend must" "pcs s 0 = Sleeping" "pend 0 = []"
  shows "\<exists>s' pend' must'. upd_reach 2 s' pend' must' \<and> filter_update_done s' \<and> filters s' 1 = filters s 1 \<and> pcs s' 1 = pcs s 1
    \<and> requests s' 1 = requests s 1 \<and> pend' 1 = pend 1 \<and> must' 1 = must 1"
proof -
  let ?s1 = "do_update_filter_begin 0 s"
  let ?z = "replicate (BITS_TO_LONGS (bf_num_bits (filters ?s1 0))) 0"
  have r1: "upd_reach 2 ?s1 (pend(0 := [{}])) must" using upd_begin [OF assms(1) _ assms(2)] assms(3) by simp
  note r2 = upd_write [OF r1, of 0 "{}" "[]" ?z]
  let ?s2 = "?s1\<lparr>filters := (filters ?s1)(0 := (filters ?s1 0)\<lparr>bitmap := ?z\<rparr>), requests := (requests ?s1)(0 := requests ?s1 0 - 1),
      written := (written ?s1)(0 := written ?s1 0 + 1)\<rparr>"
  obtain m2 where r2: "upd_reach 2 ?s2 ((pend(0 := [{}]))(0 := [])) (must(0 := m2))" using r2 by (simp add: do_update_filter_begin_def)
  have w: "0 < written ?s2 0" by simp
  from upd_handle [OF r2 _ w] have "upd_reach 2 ((dcc_backend_update_filter 0 ?s2)\<lparr>written := (written ?s2)(0 := written ?s2 0 - 1)\<rparr>)
      ((pend(0 := [{}]))(0 := [])) (must(0 := m2))" unfolding upd_handle_filter by simp
  then show ?thesis by (intro exI conjI, assumption) (simp_all add: dcc_backend_update_filter_def do_update_filter_begin_def)
qed

text \<open>Blocking a filter twice, with a key added in between, and then merging an empty snapshot: the key is gone.\<close>

lemma double_block_loses:
  assumes "bf_shape f" "0 < bf_num_hash f"
    and "f3 = (bf_blocking (bf_add d (bf_blocking f)))\<lparr>bitmap := replicate (BITS_TO_LONGS (bf_num_bits f)) 0\<rparr>"
  shows "\<not> bf_might_contain d (bf_unblocking f3)" "\<not> check_merging (bf_unblocking f3)" "bf_num_hash (bf_unblocking f3) = bf_num_hash f" "bf_num_bits (bf_unblocking f3) = bf_num_bits f"
proof -
  let ?z = "replicate (BITS_TO_LONGS (bf_num_bits f)) (0 :: u64)" and ?g = "bf_add d (bf_blocking f)"
  have g: "bf_shape ?g" "bf_num_bits ?g = bf_num_bits f" "bf_num_hash ?g = bf_num_hash f"
    using bf_add_spec(1) [OF bf_blocking_spec(1) [OF assms(1)]] by (simp_all add: bf_add_def bf_blocking_def)
  note b = bf_blocking_spec [OF g(1)]
  have s: "bf_shape f3" "bitmap f3 = ?z" "tmp_bitmap f3 = ?z" using b(1,5) g(2) by (simp_all add: assms(3) bf_shape_def)
  have p: "bf_num_bits f3 = bf_num_bits f" "bf_num_hash f3 = bf_num_hash f" using g(2,3) by (simp_all add: assms(3) bf_blocking_def)
  show q: "bf_num_hash (bf_unblocking f3) = bf_num_hash f" "bf_num_bits (bf_unblocking f3) = bf_num_bits f" using p by (simp_all add: bf_unblocking_def bf_merge_def)
  show c: "\<not> check_merging (bf_unblocking f3)" using bf_unblocking_spec(2) [OF s(1)] .
  have "bf_shape (f3\<lparr>merging := 0\<rparr>)" using s(1) by (simp add: bf_shape_def)
  then have "bitmap (bf_unblocking f3) = ?z" using bf_merge_bits(1) s(2,3) by (simp add: bf_unblocking_def zip_replicate)
  moreover let ?j = "compute_hash (bf_unblocking f3) 0 d"
  have "?j \<in> set (bf_indices (bf_unblocking f3) d)" using assms(2) q(1) by (simp add: bf_indices_def)
  moreover have "?j < bf_num_bits f" using assms(1) q(2) by (simp add: compute_hash_def bf_shape_def)
  ultimately have "\<not> bits_cover (bf_unblocking f3) d (bitmap (bf_unblocking f3))"
    using long_index [of ?j "bf_num_bits f"] by (auto simp: bits_cover_def test_bit_at_bit intro!: bexI [of _ ?j])
  then show "\<not> bf_might_contain d (bf_unblocking f3)" using c by (simp add: bf_might_contain_cover)
qed

text \<open>
  C40. The flag of the workers is shared between the servers: with two servers, the reply of one lets the
  worker of the other start over while its own request is still unanswered, the block clears the keys put
  in between, and after the late reply the filter denies a key that was put after the request.
\<close>

theorem shared_flag_loses_key:
  assumes "0 < nh" "0 < nb"
  shows "\<exists>s pend must. upd_reach 2 s pend must \<and> bf_num_hash (filters s 1) = nh \<and> bf_num_bits (filters s 1) = nb \<and> key \<in> must 1
    \<and> \<not> check_merging (filters s 1) \<and> \<not> bf_might_contain (le_bytes key) (filters s 1)"
proof -
  let ?f = "the (bf_init nh nb (Some []) True True)" and ?d = "le_bytes key"
  have f: "bf_shape ?f" "bf_num_bits ?f = nb" "bf_num_hash ?f = nh" using assms(2) by (simp_all add: bf_init_def bf_shape_def Let_def)
  have two: "(1::nat) < 2" by simp
  have r0: "upd_reach 2 (upd_init nh nb) (\<lambda>_. []) (\<lambda>_. {})" using assms(2) by (rule upd_init_reach)
  have "pcs (upd_init nh nb) 1 = Sleeping" by (simp add: upd_init_def)
  from upd_add [OF upd_begin [OF r0 two this] two, of key] obtain s2 p2 m2 where s2: "upd_reach 2 s2 p2 m2" "p2 1 = [{key}]" "p2 0 = []"
      "filters s2 1 = bf_add ?d (bf_blocking ?f)" "pcs s2 1 = Waiting" "pcs s2 0 = Sleeping" "requests s2 1 = 1"
    by (auto simp: do_update_filter_begin_def upd_init_def)
  obtain s5 p5 m5 where s5: "upd_reach 2 s5 p5 m5" "filter_update_done s5" "filters s5 1 = filters s2 1" "pcs s5 1 = Waiting" "requests s5 1 = 1" "p5 1 = [{key}]"
    using upd_other_round [OF s2(1,6,3)] s2 by metis
  note r6 = upd_end [OF s5(1) two s5(4,2)]
  have "pcs (do_update_filter_end 1 s5) 1 = Sleeping" by (simp add: do_update_filter_end_def)
  from upd_begin [OF r6 two this] obtain s7 p7 m7 where s7: "upd_reach 2 s7 p7 m7" "p7 1 = [{key}, {}]" "requests s7 1 > 0"
      "filters s7 1 = bf_blocking (bf_add ?d (bf_blocking ?f))"
    using s5 s2(4) by (auto simp: do_update_filter_begin_def do_update_filter_end_def)
  let ?z = "replicate (BITS_TO_LONGS (bf_num_bits ?f)) (0 :: u64)"
  have "bf_num_bits (filters s7 1) = bf_num_bits ?f" unfolding s7(4) by (simp add: bf_blocking_def bf_add_def)
  then have "length ?z = BITS_TO_LONGS (bf_num_bits (filters s7 1))" by simp
  from upd_write [OF s7(1) two s7(3,2) this] obtain s8 p8 m8 where s8: "upd_reach 2 s8 p8 m8" "key \<in> m8 1" "written s8 1 > 0"
      "filters s8 1 = (bf_blocking (bf_add ?d (bf_blocking ?f)))\<lparr>bitmap := ?z\<rparr>"
    using s7(4) by auto
  from upd_handle [OF s8(1) two s8(3)] obtain s9 where s9: "upd_reach 2 s9 p8 m8" "filters s9 1 = bf_unblocking (filters s8 1)"
    unfolding upd_handle_filter by (auto simp: dcc_backend_update_filter_def)
  have "0 < bf_num_hash ?f" using f(3) assms(1) by simp
  note D = double_block_loses [OF f(1) this s8(4), folded s9(2)]
  have "bf_num_hash (filters s9 1) = nh" "bf_num_bits (filters s9 1) = nb" using D(3,4) f(2,3) by simp_all
  then show ?thesis using s9(1) s8(2) D(1,2) by blast
qed

theorem shared_flag_loses_key_witness:
  "\<exists>s pend must. upd_reach 2 s pend must \<and> bf_num_hash (filters s 1) = 3 \<and> bf_num_bits (filters s 1) = 100 \<and> 77 \<in> must 1 \<and> \<not> check_merging (filters s 1) \<and> \<not> bf_might_contain (le_bytes 77) (filters s 1)"
  by (rule shared_flag_loses_key [of 3 100 77]) simp_all


section \<open>Properties of the handlers\<close>

lemma send_page_returns: "dcc_rdma_send_page cfg test pg key c = Some (c', ret) \<Longrightarrow> ret \<in> {0, - 6}"
  by (auto simp: dcc_rdma_send_page_def Let_def split: if_splits)

lemma put_send_returns: "put_send cfg o' key 0 b = Some (b', ret) \<Longrightarrow> ret \<in> {0, - 6}"
  using send_page_returns by (fastforce simp: put_send_def Let_def split: option.splits if_splits)

lemma put_page_returns: "handle_twosided_put_page cfg o' key b = Some (b', ret) \<Longrightarrow> ret \<in> {0, - 3, - 6}"
  using put_send_returns by (fastforce simp: handle_twosided_put_page_def Let_def split: option.splits if_splits)

text \<open>
  A put of a page that is already remote but was dirtied is meant to be counted as such, but the
  return value -4 is overwritten: no put ever counts in redirtied_puts, and a put returns only 0, -3, -5
  or -6.
\<close>

theorem redirtied_puts_never_counted:
  assumes "dcc_put_page golden cfg o' cnt locked host ino index (bs, st) = Some (bs', st')"
  shows "st' REDIRTIED_PUTS = st REDIRTIED_PUTS \<and> st' REJECTED_PUTS = st REJECTED_PUTS"
proof (cases "cnt \<noteq> 0 \<or> \<not> locked \<or> host < 2")
  case True then show ?thesis using assms by (auto simp: dcc_put_page_def)
next
  case False
  then obtain ret where h: "dcc_handle_put_page golden cfg o' ino index bs = Some (bs', ret)" and st: "st' = put_stats ret st"
    using assms by (auto simp: dcc_put_page_def)
  have "ret \<in> {0, - 3, - 5, - 6}"
    using h put_page_returns by (fastforce simp: dcc_handle_put_page_def Let_def split: option.splits if_splits)
  then show ?thesis unfolding st put_stats_def dcc_stats_inc_def by auto
qed

definition backend_idle :: dcc_backend where
  "backend_idle = \<lparr>be_ctrl = ctrl_idle, be_mm = mm_idle, be_meta = None, be_af = None\<rparr>"

definition op_idle :: op_env where
  "op_idle = \<lparr>o_test = (\<lambda>_. False), o_page = replicate 4096 0, o_dirtied = True, o_cpu = 0, o_mapping = (True, 0, False), o_crc_check = False, o_crc0 = 0, o_reply = 0, o_post = 0\<rparr>"

theorem redirtied_puts_never_counted_witness:
  "\<exists>bs' st'. dcc_put_page 3 \<lparr>num_svrs = 1, cfg_exclusive_policy = False, metadata_type = FILTER_OFF, filter_update_interval = 5, af_enable = False\<rparr>
      op_idle 0 True 5 5 7 ([backend_idle], \<lambda>_. 0) = Some (bs', st') \<and> st' REDIRTIED_PUTS = 0"
proof -
  let ?cfg = "\<lparr>num_svrs = 1, cfg_exclusive_policy = False, metadata_type = FILTER_OFF, filter_update_interval = 5, af_enable = False\<rparr>"
  have "dcc_put_page 3 ?cfg op_idle 0 True 5 5 7 ([backend_idle], \<lambda>_. 0) \<noteq> None"
    by (simp add: dcc_put_page_def dcc_handle_put_page_def handle_twosided_put_page_def put_send_def dcc_rdma_send_page_def
        get_backend_id_def op_idle_def backend_idle_def ctrl_idle_def c_rem_def Let_def split: option.splits prod.splits)
  then obtain bs' st' where "dcc_put_page 3 ?cfg op_idle 0 True 5 5 7 ([backend_idle], \<lambda>_. 0) = Some (bs', st')" by auto
  moreover from redirtied_puts_never_counted [OF this] have "st' REDIRTIED_PUTS = 0" by simp
  ultimately show ?thesis by blast
qed

text \<open>
  A backend is well-formed when the structure of its kind of metadata is there, and the access filter if
  it is enabled, and the message counters have not overflowed.
\<close>

definition meta_ok :: "metadata_type_t \<Rightarrow> metadata_t \<Rightarrow> bool" where
  "meta_ok ty m \<longleftrightarrow> meta_type m = ty \<and> (case ty of
       FILTER_OFF \<Rightarrow> True | COOP_BF \<Rightarrow> meta_bf m \<noteq> None | ORDINARY_BF \<Rightarrow> meta_bf m \<noteq> None | COUNTING_BF \<Rightarrow> meta_cbf m \<noteq> None | HASH_TABLE \<Rightarrow> meta_ht m \<noteq> None)"

definition backend_ok :: "dcc_config_t \<Rightarrow> dcc_backend \<Rightarrow> bool" where
  "backend_ok cfg b \<longleftrightarrow> (metadata_type cfg \<noteq> FILTER_OFF \<longrightarrow> (\<exists>m. be_meta b = Some m \<and> meta_ok (metadata_type cfg) m)) \<and> (af_enable cfg \<longrightarrow> be_af b \<noteq> None)"

definition counters_ok :: "dcc_backend \<Rightarrow> bool" where
  "counters_ok b \<longleftrightarrow> 0 \<le> sint (put_msg_id (be_ctrl b)) \<and> 0 \<le> sint (inv_msg_id (be_ctrl b))"

lemma meta_ops_ok:
  assumes "backend_ok cfg b" "metadata_type cfg \<noteq> FILTER_OFF"
  shows "\<exists>b'. meta_add k b = Some b' \<and> backend_ok cfg b'" "\<exists>x. meta_contain k b = Some x" "\<exists>b'. meta_remove k b = Some b' \<and> backend_ok cfg b'"
  using assms
  by (cases "metadata_type cfg"; fastforce simp: backend_ok_def meta_ok_def meta_add_def meta_contain_def meta_remove_def metadata_add_def
      metadata_contain_def metadata_remove_def Let_def split: prod.splits)+

lemma backend_ok_ctrl [simp]: "backend_ok cfg (b\<lparr>be_ctrl := c\<rparr>) = backend_ok cfg b"
  by (simp add: backend_ok_def)

lemma put_send_ok:
  assumes "backend_ok cfg b" "counters_ok b"
  shows "\<exists>b' ret'. put_send cfg o' key ret b = Some (b', ret') \<and> backend_ok cfg b'"
proof -
  have "\<not> c_rem (sint (put_msg_id (be_ctrl b))) 512 < 0" using assms(2) by (simp add: counters_ok_def c_rem_def)
  then have "dcc_rdma_send_page put_cfg (o_test o') (o_page o') key (be_ctrl b) \<noteq> None" by (simp add: dcc_rdma_send_page_def Let_def)
  then obtain c r where c: "dcc_rdma_send_page put_cfg (o_test o') (o_page o') key (be_ctrl b) = Some (c, r)" by fastforce
  show ?thesis
  proof (cases "metadata_type cfg \<noteq> FILTER_OFF \<and> r = 0")
    case True
    then obtain b' where "meta_add key (b\<lparr>be_ctrl := c\<rparr>) = Some b'" "backend_ok cfg b'" using meta_ops_ok(1) [of cfg "b\<lparr>be_ctrl := c\<rparr>"] assms(1) by auto
    then show ?thesis using c True by (simp add: put_send_def Let_def)
  next
    case False then show ?thesis using c assms(1) by (auto simp: put_send_def Let_def)
  qed
qed

lemma metadata_init_ok: "\<exists>m. metadata_init nh nb pool n ty True True True True = Some m \<and> meta_ok ty m"
  by (cases ty) (simp_all add: metadata_init_def meta_ok_def bf_init_def cbf_init_def hashtable_init_def Let_def)

lemma af_init_ok: "af_init True True True \<noteq> None"
  unfolding af_init_def by (simp only: not_True_eq_False if_False option.distinct not_False_eq_True)

lemma backend_init_ok:
  "\<exists>b' ret. dcc_backend_init cfg \<lparr>i_meta = True, i_filter = (True, True, True), i_worker = True, i_af = (True, True, True)\<rparr> info pool b = Some (b', ret) \<and> backend_ok cfg b'"
proof (cases info)
  case (fields n0 n1 n2)
  obtain m where "metadata_init (unat (ucast n0 :: u8)) (unat n1) pool (unat n2) (metadata_type cfg) True True True True = Some m" "meta_ok (metadata_type cfg) m"
    using metadata_init_ok by blast
  then show ?thesis using af_init_ok fields
    by (auto simp: dcc_backend_init_def dcc_start_worker_def backend_ok_def Let_def)
qed



text \<open>The error path of the start of a backend stops the worker that could not be started.\<close>

lemma backend_init_stops_failed_worker:
  "metadata_type cfg = COOP_BF \<Longrightarrow> \<not> i_worker e \<Longrightarrow> 0 < num_svrs cfg \<Longrightarrow> dcc_backend_init cfg e info pool b = None"
  by (simp add: dcc_backend_init_def dcc_start_worker_def dcc_backend_stop_worker_def Let_def split: prod.splits)

text \<open>A backend whose filter could not be allocated is reported as started; the first get follows the null pointer.\<close>

lemma backend_init_ignores_failed_filter:
  assumes "metadata_type cfg = COOP_BF" "i_worker e" "\<not> i_meta e" "dcc_backend_init cfg e info pool b = Some (b', ret)"
  shows "ret = 0 \<and> handle_twosided_get_page cfg o' key b' = None"
  using assms by (auto simp: dcc_backend_init_def dcc_start_worker_def metadata_init_def handle_twosided_get_page_def meta_contain_def
      Let_def split: prod.splits)

text \<open>Without metadata and under the inclusive policy a clean page is never sent.\<close>

lemma inclusive_without_filter_never_puts:
  "\<not> cfg_exclusive_policy cfg \<Longrightarrow> metadata_type cfg = FILTER_OFF \<Longrightarrow> \<not> o_dirtied o' \<Longrightarrow> handle_twosided_put_page cfg o' key b = Some (b, - 3)"
  by (simp add: handle_twosided_put_page_def)

end
