(* ===== verification/Drv_Conn.thy ===== *)
theory Drv_Conn
  imports Drv_Rdma Drv_Filters
begin

text \<open>
  Connection set-up of the driver (\<^verbatim>\<open>driver/rdma.c\<close>, lines 430 to 1000, and \<^verbatim>\<open>driver/rdma_mem.c\<close>): allocation
  of the control structure, the events of the connection manager, the set-up of all queues and its error
  paths, the memory regions, and the initialisation of all servers.  Results of the kernel and of the verbs are
  arguments.  Error numbers are those of the kernel.
\<close>

section \<open>Control structure\<close>

text \<open>What a pointer refers to when it is returned; \<^verbatim>\<open>IS_ERR\<close> only recognises encoded errors.\<close>

datatype ptr = Ptr_null | Ptr_err int | Ptr_freed | Ptr_live

definition is_err :: "ptr \<Rightarrow> bool" where
  "is_err p = (case p of Ptr_err _ \<Rightarrow> True | _ \<Rightarrow> False)"

text \<open>The checked steps: the structure, the queues, the memory descriptor, the hash table, and both addresses.\<close>

definition dcc_rdma_alloc_control :: "bool \<Rightarrow> bool \<Rightarrow> bool \<Rightarrow> bool \<Rightarrow> int \<Rightarrow> int \<Rightarrow> ptr" where
  "dcc_rdma_alloc_control a_ctrl a_queues a_mm a_ht parse_svr parse_cli =
     (if \<not> a_ctrl then Ptr_null
      else if \<not> a_queues then Ptr_freed
      else if \<not> a_mm then Ptr_freed
      else if \<not> a_ht then Ptr_freed
      else if parse_svr \<noteq> 0 then Ptr_freed
      else if parse_cli \<noteq> 0 then Ptr_freed
      else Ptr_live)"

text \<open>The address text is at most \<^verbatim>\<open>INET_ADDRSTRLEN\<close> = 16 characters; \<open>pton\<close> is the parser of the kernel.\<close>

definition dcc_rdma_parse_ipaddr :: "(string \<Rightarrow> u32 option) \<Rightarrow> string \<Rightarrow> int \<times> u32 option" where
  "dcc_rdma_parse_ipaddr pton ip =
     (if length ip > 16 then (- 22, None) else case pton ip of None \<Rightarrow> (- 22, None) | Some a \<Rightarrow> (0, Some a))"


section \<open>Queues\<close>

text \<open>State of a connection id: not created, usable, or destroyed.\<close>

datatype cm_id_state = Cm_none | Cm_live | Cm_destroyed

record cm_queue =
  cmq_id :: nat
  cm_error :: int
  cm_done :: bool
  cm_state :: cm_id_state
  cq_made :: bool

datatype drv_cm_event =
    EV_ADDR_RESOLVED | EV_ROUTE_RESOLVED | EV_ESTABLISHED | EV_REJECTED | EV_ADDR_ERROR | EV_ROUTE_ERROR | EV_CONNECT_ERROR
  | EV_UNREACHABLE | EV_DISCONNECTED | EV_ADDR_CHANGE | EV_TIMEWAIT_EXIT | EV_DEVICE_REMOVAL | EV_OTHER

record cm_env =
  ce_rdev :: bool
  ce_pd :: bool
  ce_create_qp :: int
  ce_route :: int
  ce_connect :: int

text \<open>The device is allocated once per control structure; \<open>dev\<close> says whether it is there.\<close>

definition dcc_rdma_get_device :: "cm_env \<Rightarrow> bool \<Rightarrow> bool" where
  "dcc_rdma_get_device e dev = (if \<not> dev then ce_rdev e \<and> ce_pd e else True)"

text \<open>The completion queues are made first; the result is that of creating the queue pair.\<close>

definition dcc_rdma_create_qp :: "cm_env \<Rightarrow> cm_queue \<Rightarrow> cm_queue \<times> int" where
  "dcc_rdma_create_qp e q = (q\<lparr>cq_made := True\<rparr>, ce_create_qp e)"

definition dcc_rdma_create_queue_ib :: "cm_env \<Rightarrow> cm_queue \<Rightarrow> cm_queue \<times> int" where
  "dcc_rdma_create_queue_ib e q = (case dcc_rdma_create_qp e q of (q1, ret) \<Rightarrow> (q1, if ret \<noteq> 0 then - 1 else 0))"

definition dcc_rdma_destroy_queue_ib :: "nat \<Rightarrow> cm_queue \<Rightarrow> cm_queue" where
  "dcc_rdma_destroy_queue_ib data_qps q = (if \<not> cmq_id q < data_qps then q\<lparr>cq_made := False\<rparr> else q)"

definition dcc_rdma_addr_resolved :: "cm_env \<Rightarrow> nat \<Rightarrow> bool \<Rightarrow> cm_queue \<Rightarrow> (bool \<times> cm_queue) \<times> int" where
  "dcc_rdma_addr_resolved e data_qps dev q =
     (let dev' = dcc_rdma_get_device e dev
      in if \<not> dev' then ((dev, q), - 19)
         else case dcc_rdma_create_queue_ib e q of
                (q1, ret) \<Rightarrow>
                  if ret \<noteq> 0 then ((dev', q1), ret)
                  else if ce_route e \<noteq> 0 then ((dev', dcc_rdma_destroy_queue_ib data_qps q1), 0)
                  else ((dev', q1), 0))"

definition dcc_rdma_route_resolved :: "cm_env \<Rightarrow> nat \<Rightarrow> cm_queue \<Rightarrow> cm_queue \<times> int" where
  "dcc_rdma_route_resolved e data_qps q = (if ce_connect e \<noteq> 0 then (dcc_rdma_destroy_queue_ib data_qps q, 0) else (q, 0))"

definition dcc_rdma_conn_established :: "cm_queue \<Rightarrow> int" where
  "dcc_rdma_conn_established q = 0"

definition set_cm_error :: "int \<Rightarrow> cm_queue \<Rightarrow> cm_queue" where
  "set_cm_error cm_err q = (if cm_err \<noteq> 0 then q\<lparr>cm_error := cm_err, cm_done := True\<rparr> else q)"

definition dcc_rdma_cm_handler :: "nat \<Rightarrow> cm_env \<times> drv_cm_event \<Rightarrow> bool \<times> cm_queue \<Rightarrow> bool \<times> cm_queue" where
  "dcc_rdma_cm_handler data_qps = (\<lambda>(e, ev) (dev, q). case ev of
       EV_ADDR_RESOLVED \<Rightarrow> (case dcc_rdma_addr_resolved e data_qps dev q of ((dev', q'), err) \<Rightarrow> (dev', set_cm_error err q'))
     | EV_ROUTE_RESOLVED \<Rightarrow> (case dcc_rdma_route_resolved e data_qps q of (q', err) \<Rightarrow> (dev, set_cm_error err q'))
     | EV_ESTABLISHED \<Rightarrow> (dev, q\<lparr>cm_error := dcc_rdma_conn_established q, cm_done := True\<rparr>)
     | EV_ADDR_ERROR \<Rightarrow> (dev, set_cm_error (- 104) q)
     | EV_ROUTE_ERROR \<Rightarrow> (dev, set_cm_error (- 104) q)
     | EV_CONNECT_ERROR \<Rightarrow> (dev, set_cm_error (- 104) q)
     | EV_UNREACHABLE \<Rightarrow> (dev, set_cm_error (- 104) q)
     | _ \<Rightarrow> (dev, q))"

text \<open>The wait ends with the first event that completes, or with the time limit, after the events given.\<close>

fun dcc_rdma_wait_for_cm :: "nat \<Rightarrow> (cm_env \<times> drv_cm_event) list \<Rightarrow> bool \<times> cm_queue \<Rightarrow> (bool \<times> cm_queue) \<times> int" where
  "dcc_rdma_wait_for_cm data_qps [] dq = (dq, cm_error (snd dq))"
| "dcc_rdma_wait_for_cm data_qps (ev # evs) dq =
     (let dq' = dcc_rdma_cm_handler data_qps ev dq
      in if cm_done (snd dq') then (dq', cm_error (snd dq')) else dcc_rdma_wait_for_cm data_qps evs dq')"

record init_env =
  ie_create_id :: bool
  ie_resolve :: int
  ie_events :: "(cm_env \<times> drv_cm_event) list"

definition init_one_queue :: "nat \<Rightarrow> init_env \<Rightarrow> nat \<Rightarrow> bool \<Rightarrow> (bool \<times> cm_queue) \<times> int" where
  "init_one_queue data_qps e idx dev =
     (let q = \<lparr>cmq_id = idx, cm_error = - 110, cm_done = False, cm_state = Cm_live, cq_made = False\<rparr>
      in if \<not> ie_create_id e then ((dev, q\<lparr>cm_state := Cm_none\<rparr>), - 19)
         else if ie_resolve e \<noteq> 0 then ((dev, q\<lparr>cm_state := Cm_destroyed\<rparr>), ie_resolve e)
         else case dcc_rdma_wait_for_cm data_qps (ie_events e) (dev, q) of
                ((dev', q'), ret) \<Rightarrow> if ret \<noteq> 0 then ((dev', q'\<lparr>cm_state := Cm_destroyed\<rparr>), ret) else ((dev', q'), 0))"

text \<open>
  Stopping and freeing a queue uses its connection id; with an id that was never created or is already
  destroyed this is \<^const>\<open>None\<close>.
\<close>

definition dcc_rdma_stop_and_free :: "cm_queue \<Rightarrow> cm_queue option" where
  "dcc_rdma_stop_and_free q = (if cm_state q = Cm_live then Some (q\<lparr>cm_state := Cm_destroyed, cq_made := False\<rparr>) else None)"

fun dcc_rdma_stopandfree_queues :: "cm_queue list \<Rightarrow> cm_queue list option" where
  "dcc_rdma_stopandfree_queues [] = Some []"
| "dcc_rdma_stopandfree_queues (q # qs) = (case dcc_rdma_stop_and_free q of
       None \<Rightarrow> None
     | Some q' \<Rightarrow> map_option (\<lambda>qs'. q' # qs') (dcc_rdma_stopandfree_queues qs))"

text \<open>The queues from \<open>i\<close> on are set up; the array starts zeroed.\<close>

definition queue_zero :: cm_queue where
  "queue_zero = \<lparr>cmq_id = 0, cm_error = 0, cm_done = False, cm_state = Cm_none, cq_made = False\<rparr>"

fun init_queues_from :: "nat \<Rightarrow> init_env list \<Rightarrow> nat \<Rightarrow> bool \<times> cm_queue list \<Rightarrow> ((bool \<times> cm_queue list) \<times> int) option" where
  "init_queues_from data_qps [] i (dev, qs) = Some ((dev, qs), 0)"
| "init_queues_from data_qps (e # es) i (dev, qs) =
     (case init_one_queue data_qps e i dev of
        ((dev', q), ret) \<Rightarrow>
          (let qs' = qs[i := q]
           in if ret \<noteq> 0 then map_option (\<lambda>qs''. ((dev', qs''), ret)) (dcc_rdma_stopandfree_queues qs')
              else init_queues_from data_qps es (Suc i) (dev', qs')))"

definition dcc_rdma_init_queue :: "nat \<Rightarrow> init_env list \<Rightarrow> ((bool \<times> cm_queue list) \<times> int) option" where
  "dcc_rdma_init_queue data_qps es = init_queues_from data_qps es 0 (False, replicate (length es) queue_zero)"


section \<open>Memory regions\<close>

record mem_env =
  me_mask :: int
  me_filter :: "u64"
  me_key :: "u64"
  me_pagebuf :: "u64"
  me_keypage :: "u64"
  me_rkey :: u32

record drv_regions =
  filter_dma :: u64
  filter_bytes :: nat
  filter_info_base :: u64
  filter_info_key :: u32
  key_bytes :: nat
  keypage_bytes :: nat

text \<open>\<open>dma_mem_for_filter\<close> is set for the cooperative filter only; a null address is a failed allocation.\<close>

definition rdma_mem_alloc_region :: "drv_rdma_config_t \<Rightarrow> bool \<Rightarrow> nat \<Rightarrow> mem_env \<Rightarrow> drv_regions \<Rightarrow> drv_regions \<times> int" where
  "rdma_mem_alloc_region cfg dma_mem_for_filter nb e r =
     (if me_mask e \<noteq> 0 then (r, - 22)
      else if dma_mem_for_filter \<and> me_filter e = 0 then (r\<lparr>filter_dma := 0\<rparr>, - 12)
      else let r1 = (if dma_mem_for_filter
                     then r\<lparr>filter_dma := me_filter e, filter_bytes := BITS_TO_LONGS nb * 8, filter_info_base := me_filter e\<rparr> else r);
               r2 = r1\<lparr>filter_info_key := me_rkey e\<rparr>
           in if me_key e = 0 then (r2, - 12)
              else if me_pagebuf e = 0 then (r2\<lparr>key_bytes := 8 * num_msgs cfg\<rparr>, - 12)
              else if me_keypage e = 0 then (r2\<lparr>key_bytes := 8 * num_msgs cfg\<rparr>, - 12)
              else (r2\<lparr>key_bytes := 8 * num_msgs cfg, keypage_bytes := (8 + 4096) * num_msgs cfg\<rparr>, 0))"


section \<open>Initialisation\<close>

text \<open>Registration of the memory; an error pointer gives its number.\<close>

definition rdma_mem_register_region :: "int option \<Rightarrow> int" where
  "rdma_mem_register_region mr_err = (case mr_err of Some err \<Rightarrow> err | None \<Rightarrow> 0)"

text \<open>The buffer for the message of the server is mapped like the page of a get.\<close>

definition get_req_for_buf :: "bool \<Rightarrow> u64 \<Rightarrow> bool \<Rightarrow> drv_error + int \<times> u64" where
  "get_req_for_buf alloc_ok dma mapping_error =
     (if \<not> alloc_ok then Inl NULL_DEREF else if mapping_error then Inl BAD_FREE else Inr (0, dma))"

definition dcc_rdma_recv_remotemr :: "bool \<times> u64 \<times> bool \<Rightarrow> int \<Rightarrow> int option" where
  "dcc_rdma_recv_remotemr buf post_ret = (case buf of (alloc_ok, dma, mapping_error) \<Rightarrow>
     (case get_req_for_buf alloc_ok dma mapping_error of
        Inl _ \<Rightarrow> None
      | Inr (ret, _) \<Rightarrow> if ret \<noteq> 0 then Some ret else Some post_ret))"

definition dcc_rdma_send_localmr :: "drv_mm \<Rightarrow> u64 \<Rightarrow> int \<Rightarrow> drv_wr \<times> int" where
  "dcc_rdma_send_localmr mm info_addr post_ret = dcc_rdma_send_msg mm info_addr 32 0 post_ret"

text \<open>
  What the set-up of one server meets.  The set-up of all servers stops at the first error; some of the
  errors clean up, others leave everything behind.  \<^const>\<open>None\<close> is the use of a pointer that does not refer to
  anything.
\<close>

record svr_env =
  se_ctrl :: ptr
  se_queues :: "init_env list"
  se_mr :: "int option"
  se_buf :: "bool \<times> u64 \<times> bool"
  se_post :: int
  se_region :: int
  se_send :: int
  se_backend :: int

text \<open>The servers set up so far have the queues \<open>ready\<close>.\<close>

fun free_all_queues :: "cm_queue list list \<Rightarrow> bool" where
  "free_all_queues [] = True"
| "free_all_queues (qs # qss) = (dcc_rdma_stopandfree_queues qs \<noteq> None \<and> free_all_queues qss)"

primrec init_servers :: "nat \<Rightarrow> drv_mm \<Rightarrow> u64 \<Rightarrow> svr_env list \<Rightarrow> cm_queue list list \<Rightarrow> (cm_queue list list \<times> int) option" where
  "init_servers data_qps mm info [] ready = Some (ready, 0)"
| "init_servers data_qps mm info (e # es) ready =
     (if is_err (se_ctrl e) then Some ([], - 1)
      else if se_ctrl e \<noteq> Ptr_live then None
      else case dcc_rdma_init_queue data_qps (se_queues e) of
             None \<Rightarrow> None
           | Some ((dev, qs), ret) \<Rightarrow>
               if ret \<noteq> 0 \<or> rdma_mem_register_region (se_mr e) \<noteq> 0
               then (if free_all_queues (ready @ [qs]) then Some ([], - 1) else None)
               else (case dcc_rdma_recv_remotemr (se_buf e) (se_post e) of
                       None \<Rightarrow> None
                     | Some ret \<Rightarrow>
                         if ret \<noteq> 0 then Some (ready @ [qs], - 12)
                         else if se_region e \<noteq> 0 then Some (ready @ [qs], - 12)
                         else if snd (dcc_rdma_send_localmr mm info (se_send e)) \<noteq> 0 then Some (ready @ [qs], - 19)
                         else if se_backend e \<noteq> 0 then Some (ready @ [qs], - 12)
                         else init_servers data_qps mm info es (ready @ [qs])))"

definition dcc_rdma_init :: "bool \<Rightarrow> bool \<Rightarrow> drv_mm \<Rightarrow> u64 \<Rightarrow> svr_env list \<Rightarrow> (cm_queue list list \<times> int) option" where
  "dcc_rdma_init a_cache a_ctrls mm info es =
     (if \<not> a_cache then Some ([], - 1) else if \<not> a_ctrls then Some ([], - 1)
      else init_servers (num_data_qps drv_rdma_set_default_config) mm info es [])"


section \<open>Properties of the connection\<close>

text \<open>No failure of the allocation is reported: the caller only tests \<^verbatim>\<open>IS_ERR\<close>.\<close>

lemma alloc_control_failure_unnoticed: "\<not> is_err (dcc_rdma_alloc_control a b c d p q)"
  by (simp add: dcc_rdma_alloc_control_def is_err_def)

lemma cm_handler_state: "cm_state (snd (dcc_rdma_cm_handler n ev dq)) = cm_state (snd dq)"
  by (cases dq; cases ev; cases "snd ev")
    (auto simp: dcc_rdma_cm_handler_def dcc_rdma_addr_resolved_def dcc_rdma_route_resolved_def dcc_rdma_create_queue_ib_def dcc_rdma_create_qp_def
      dcc_rdma_destroy_queue_ib_def set_cm_error_def Let_def)

lemma wait_state: "cm_state (snd (fst (dcc_rdma_wait_for_cm n evs dq))) = cm_state (snd dq)"
  by (induction evs arbitrary: dq) (simp_all add: Let_def cm_handler_state)

lemma init_one_queue_state:
  assumes "init_one_queue n e i dev = ((dev', q), ret)"
  shows "cm_state q = Cm_live \<longleftrightarrow> ret = 0"
proof -
  obtain dq r where w: "dcc_rdma_wait_for_cm n (ie_events e) (dev, \<lparr>cmq_id = i, cm_error = - 110, cm_done = False, cm_state = Cm_live, cq_made = False\<rparr>) = (dq, r)"
    by fastforce
  then have "cm_state (snd dq) = Cm_live"
    using wait_state [of n "ie_events e" "(dev, \<lparr>cmq_id = i, cm_error = - 110, cm_done = False, cm_state = Cm_live, cq_made = False\<rparr>)"] by simp
  then show ?thesis using assms w by (cases dq) (auto simp: init_one_queue_def Let_def split: if_splits)
qed

lemma stopandfree_bad: "q \<in> set qs \<Longrightarrow> cm_state q \<noteq> Cm_live \<Longrightarrow> dcc_rdma_stopandfree_queues qs = None"
  by (induction qs) (auto simp: dcc_rdma_stop_and_free_def split: option.splits)

lemma init_queues_from_spec:
  assumes "i + length es = length qs" "init_queues_from n es i (dev, qs) = Some ((dev', qs'), ret)" "\<forall>j < i. cm_state (qs ! j) = Cm_live"
  shows "ret = 0 \<and> length qs' = length qs \<and> (\<forall>q \<in> set qs'. cm_state q = Cm_live)"
  using assms
proof (induction es arbitrary: i dev qs)
  case Nil
  then show ?case by (auto simp: in_set_conv_nth)
next
  case (Cons e es)
  obtain d q r where o: "init_one_queue n e i dev = ((d, q), r)" by (cases "init_one_queue n e i dev") auto
  have i: "i < length qs" using Cons.prems(1) by simp
  show ?case
  proof (cases "r = 0")
    case True
    have "\<forall>j < Suc i. cm_state (qs[i := q] ! j) = Cm_live"
      using Cons.prems(3) init_one_queue_state [OF o] True i by (auto simp: less_Suc_eq)
    then show ?thesis using Cons.IH [of "Suc i" "qs[i := q]" d] Cons.prems(1,2) o True by simp
  next
    case False
    then have "dcc_rdma_stopandfree_queues (qs[i := q]) = None"
      using init_one_queue_state [OF o] i by (intro stopandfree_bad [of q]) (auto simp: set_update_memI)
    then show ?thesis using Cons.prems(2) o False by simp
  qed
qed

text \<open>
  Setting up the queues either connects every queue, or uses a connection id that was destroyed or
  never created: when one queue fails, its id is destroyed, and the clean-up then disconnects all queues,
  this one and those never set up included.
\<close>

theorem queue_setup_failure_uses_dead_id:
  "dcc_rdma_init_queue n es = None \<or> (\<exists>dev qs. dcc_rdma_init_queue n es = Some ((dev, qs), 0) \<and> length qs = length es \<and> (\<forall>q \<in> set qs. cm_state q = Cm_live))"
proof (cases "dcc_rdma_init_queue n es")
  case (Some x)
  then obtain dev qs ret where "init_queues_from n es 0 (False, replicate (length es) queue_zero) = Some ((dev, qs), ret)"
    by (cases x) (auto simp: dcc_rdma_init_queue_def)
  then show ?thesis using init_queues_from_spec [of 0 es "replicate (length es) queue_zero" n False dev qs ret] by (auto simp: dcc_rdma_init_queue_def)
qed simp

text \<open>A queue that connects, and one whose address is not resolved.\<close>

definition cm_good :: cm_env where
  "cm_good = \<lparr>ce_rdev = True, ce_pd = True, ce_create_qp = 0, ce_route = 0, ce_connect = 0\<rparr>"

definition init_good :: init_env where
  "init_good = \<lparr>ie_create_id = True, ie_resolve = 0, ie_events = [(cm_good, EV_ADDR_RESOLVED), (cm_good, EV_ROUTE_RESOLVED), (cm_good, EV_ESTABLISHED)]\<rparr>"

lemma init_good_connects: "\<exists>q. init_one_queue n init_good i dev = ((True, q), 0)"
  by (simp add: init_one_queue_def init_good_def cm_good_def dcc_rdma_cm_handler_def dcc_rdma_addr_resolved_def dcc_rdma_route_resolved_def
      dcc_rdma_get_device_def dcc_rdma_create_queue_ib_def dcc_rdma_create_qp_def dcc_rdma_conn_established_def set_cm_error_def Let_def)

lemma init_queue_good: "dcc_rdma_init_queue n [init_good] \<noteq> None"
  using init_good_connects [of n 0 False] by (auto simp: dcc_rdma_init_queue_def)

theorem queue_setup_failure_uses_dead_id_witness:
  "(\<exists>dev qs. dcc_rdma_init_queue 8 [init_good] = Some ((dev, qs), 0) \<and> (\<forall>q \<in> set qs. cm_state q = Cm_live))
   \<and> dcc_rdma_init_queue 8 [init_good, init_good\<lparr>ie_resolve := - 19\<rparr>] = None"
proof -
  let ?es = "[init_good, init_good\<lparr>ie_resolve := - 19\<rparr>]"
  obtain q where q: "init_one_queue 8 init_good 0 False = ((True, q), 0)" using init_good_connects by blast
  have "init_one_queue 8 (init_good\<lparr>ie_resolve := - 19\<rparr>) 1 True = ((True, \<lparr>cmq_id = 1, cm_error = - 110, cm_done = False, cm_state = Cm_destroyed, cq_made = False\<rparr>), - 19)"
    by (simp add: init_one_queue_def init_good_def Let_def)
  then have "\<nexists>dev qs. dcc_rdma_init_queue 8 ?es = Some ((dev, qs), 0)" using q by (simp add: dcc_rdma_init_queue_def)
  then show ?thesis using queue_setup_failure_uses_dead_id [of 8 "[init_good]"] queue_setup_failure_uses_dead_id [of 8 ?es] init_queue_good [of 8] by blast
qed

text \<open>The initialisation reports success only when every queue of every server is connected.\<close>

lemma init_servers_success:
  assumes "init_servers n mm info es ready = Some (qss, 0)" "\<forall>qs \<in> set ready. \<forall>q \<in> set qs. cm_state q = Cm_live"
  shows "length qss = length ready + length es \<and> (\<forall>qs \<in> set qss. \<forall>q \<in> set qs. cm_state q = Cm_live)"
  using assms
proof (induction es arbitrary: ready)
  case (Cons e es)
  note run = Cons.prems(1) [unfolded init_servers.simps]
  have c: "\<not> is_err (se_ctrl e)" "se_ctrl e = Ptr_live" using run by (simp_all split: if_split_asm)
  obtain dev qs ret where q: "dcc_rdma_init_queue n (se_queues e) = Some ((dev, qs), ret)"
    using run c by (cases "dcc_rdma_init_queue n (se_queues e)") (simp, fastforce)
  have "ret = 0 \<and> rdma_mem_register_region (se_mr e) = 0"
    using run c q by (simp split: if_split_asm)
  then have s: "init_servers n mm info es (ready @ [qs]) = Some (qss, 0)"
    using run c q by (simp split: if_split_asm option.split_asm)
  have "\<forall>q \<in> set qs. cm_state q = Cm_live"
    using init_queues_from_spec [of 0 "se_queues e" "replicate (length (se_queues e)) queue_zero" n False dev qs ret] q by (simp add: dcc_rdma_init_queue_def)
  then have "\<forall>qs \<in> set (ready @ [qs]). \<forall>q \<in> set qs. cm_state q = Cm_live" using Cons.prems(2) by auto
  from Cons.IH [OF s this] show ?case by simp
qed simp

text \<open>
  The initialisation of the driver reports success only when every queue of every configured server
  is connected.
\<close>

theorem init_success_means_connected:
  assumes "dcc_rdma_init a_cache a_ctrls mm info es = Some (qss, 0)"
  shows "length qss = length es \<and> (\<forall>qs \<in> set qss. \<forall>q \<in> set qs. cm_state q = Cm_live)"
  using assms init_servers_success [of "num_data_qps drv_rdma_set_default_config" mm info es "[]" qss] by (auto simp: dcc_rdma_init_def split: if_splits)

theorem init_success_means_connected_witness:
  "\<exists>qs. dcc_rdma_init True True mm_idle 64 [\<lparr>se_ctrl = dcc_rdma_alloc_control True True True True 0 0, se_queues = [init_good], se_mr = None, se_buf = (True, 4096, False),
       se_post = 0, se_region = 0, se_send = 0, se_backend = 0\<rparr>] = Some ([qs], 0) \<and> (\<forall>q \<in> set qs. cm_state q = Cm_live)"
proof -
  let ?e = "\<lparr>se_ctrl = dcc_rdma_alloc_control True True True True 0 0, se_queues = [init_good], se_mr = None, se_buf = (True, 4096, False),
       se_post = 0, se_region = 0, se_send = 0, se_backend = 0\<rparr>"
  have n: "num_data_qps put_cfg = 8" by (simp add: drv_rdma_set_default_config_def)
  obtain q where "init_one_queue 8 init_good 0 False = ((True, q), 0)" using init_good_connects by blast
  then have "dcc_rdma_init_queue 8 [init_good] = Some ((True, [q]), 0)" by (simp add: dcc_rdma_init_queue_def)
  then have r: "dcc_rdma_init True True mm_idle 64 [?e] = Some ([[q]], 0)"
    by (simp add: dcc_rdma_init_def n dcc_rdma_alloc_control_def is_err_def rdma_mem_register_region_def dcc_rdma_recv_remotemr_def get_req_for_buf_def
        dcc_rdma_send_localmr_def dcc_rdma_send_msg_def)
  show ?thesis using r init_success_means_connected [OF r] by simp
qed

end
