(* ===== verification/Drv_Bench.thy ===== *)
theory Drv_Bench
  imports Drv_Backend
begin

text \<open>
  The benchmark module of the driver (\<^verbatim>\<open>driver/rdma_test.c\<close>): the pages and keys it prepares and gives back,
  the loops its threads run over the operations of the backend, and the numbers it reports.  The threads
  of a test interleave; a schedule says whose iteration comes next and what it meets.  Timing, printing
  and the debugfs switch are not modelled.
\<close>

section \<open>Size of the test and keys\<close>

definition bench_capacity :: "u32 \<Rightarrow> u64" where
  "bench_capacity input_size_mb = push_bit 20 (scast input_size_mb)"

text \<open>No result is a division by zero.\<close>

definition bench_iters :: "u32 \<Rightarrow> u32 \<Rightarrow> u32 option" where
  "bench_iters input_size_mb num_threads =
     (if num_threads = 0 then None else Some (ucast (bench_capacity input_size_mb div 4096 div scast num_threads)))"

text \<open>The keys count on through all threads.\<close>

fun bench_keys :: "nat \<Rightarrow> nat \<Rightarrow> u64 \<Rightarrow> u64 list list" where
  "bench_keys 0 num_iters key = []"
| "bench_keys (Suc n) num_iters key = map (\<lambda>j. key + of_nat (j + 1)) [0..<num_iters] # bench_keys n num_iters (key + of_nat num_iters)"

section \<open>Memory of the test\<close>

text \<open>A pointer in an array that was zeroed, set, or never written.\<close>

datatype slot = Slot_null | Slot_page | Slot_garbage

record bench_mem =
  put_threads :: bool
  get_threads :: bool
  inv_threads :: bool
  return_pages :: "slot list option"
  vpages :: "slot list option list option"
  keys_arr :: "bool list option"

definition bench_mem_null :: bench_mem where
  "bench_mem_null = \<lparr>put_threads = False, get_threads = False, inv_threads = False, return_pages = None, vpages = None, keys_arr = None\<rparr>"

datatype bench_obj =
    O_put | O_get | O_inv | O_ret_arr | O_ret nat | O_vp_arr | O_vp_row nat | O_vp nat nat | O_keys_arr | O_keys nat

text \<open>
  \<^verbatim>\<open>exit_pages\<close> with the objects it frees, in order.  The arrays themselves are read without a test, so a
  null array has no result, and neither has freeing a pointer that was never written.
\<close>

definition free_slot :: "bench_obj \<Rightarrow> slot \<Rightarrow> bench_obj list option" where
  "free_slot ob s = (case s of Slot_null \<Rightarrow> Some [] | Slot_page \<Rightarrow> Some [ob] | Slot_garbage \<Rightarrow> None)"

definition exit_thread :: "nat \<Rightarrow> bench_mem \<Rightarrow> nat \<Rightarrow> bench_obj list option" where
  "exit_thread num_iters m i =
     (case (return_pages m, vpages m, keys_arr m) of
        (Some r, Some v, Some k) \<Rightarrow>
          (let pages = (case v ! i of None \<Rightarrow> (if num_iters = 0 then Some [] else None)
                        | Some row \<Rightarrow> map_option concat (those (map (\<lambda>j. free_slot (O_vp i j) (row ! j)) [0..<num_iters])))
           in Option.bind (free_slot (O_ret i) (r ! i)) (\<lambda>f1. map_option (\<lambda>f2. f1 @ f2
                @ (if v ! i \<noteq> None then [O_vp_row i] else []) @ (if k ! i then [O_keys i] else [])) pages))
      | _ \<Rightarrow> None)"

definition exit_pages :: "nat \<Rightarrow> nat \<Rightarrow> bench_mem \<Rightarrow> bench_obj list option" where
  "exit_pages num_threads num_iters m =
     map_option (\<lambda>fs. (if put_threads m then [O_put] else []) @ (if get_threads m then [O_get] else []) @ (if inv_threads m then [O_inv] else [])
          @ concat fs @ (if return_pages m \<noteq> None then [O_ret_arr] else []) @ (if vpages m \<noteq> None then [O_vp_arr] else [])
          @ (if keys_arr m \<noteq> None then [O_keys_arr] else []))
       (those (map (exit_thread num_iters m) [0..<num_threads]))"

text \<open>Filling an array until an allocation fails: what the array holds then, and whether all succeeded.\<close>

fun alloc_slots :: "(nat \<Rightarrow> bool) \<Rightarrow> slot \<Rightarrow> nat \<Rightarrow> nat \<Rightarrow> slot list \<times> bool" where
  "alloc_slots okf rest i 0 = ([], True)"
| "alloc_slots okf rest i (Suc n) =
     (if okf i then (case alloc_slots okf rest (i + 1) n of (ss, b) \<Rightarrow> (Slot_page # ss, b)) else (Slot_null # replicate n rest, False))"

text \<open>The rows of pages come from \<^verbatim>\<open>vmalloc\<close> and are not zeroed, the array of rows is.\<close>

fun alloc_rows :: "(bench_obj \<Rightarrow> bool) \<Rightarrow> nat \<Rightarrow> nat \<Rightarrow> nat \<Rightarrow> slot list option list \<times> bool" where
  "alloc_rows okf num_iters i 0 = ([], True)"
| "alloc_rows okf num_iters i (Suc n) =
     (if \<not> okf (O_vp_row i) then (replicate (Suc n) None, False)
      else (case alloc_slots (\<lambda>j. okf (O_vp i j)) Slot_garbage 0 num_iters of
              (row, False) \<Rightarrow> (Some row # replicate n None, False)
            | (row, True) \<Rightarrow> (case alloc_rows okf num_iters (i + 1) n of (rows, b) \<Rightarrow> (Some row # rows, b))))"

text \<open>\<open>okf\<close> says which allocations succeed.  The keys of a thread are written without a test of their allocation.\<close>

definition init_pages :: "(bench_obj \<Rightarrow> bool) \<Rightarrow> nat \<Rightarrow> nat \<Rightarrow> (bench_mem \<times> int) option" where
  "init_pages okf num_threads num_iters =
     (let alloc_err = (\<lambda>m. map_option (\<lambda>_. (m, - 12)) (exit_pages num_threads num_iters m)); m0 = bench_mem_null
      in if \<not> okf O_put then alloc_err m0
         else let m1 = m0\<lparr>put_threads := True\<rparr> in if \<not> okf O_get then alloc_err m1
         else let m2 = m1\<lparr>get_threads := True\<rparr> in if \<not> okf O_inv then alloc_err m2
         else let m3 = m2\<lparr>inv_threads := True\<rparr> in if \<not> okf O_ret_arr then alloc_err m3
         else (case alloc_slots (\<lambda>i. okf (O_ret i)) Slot_null 0 num_threads of (rets, b) \<Rightarrow>
                 let m4 = m3\<lparr>return_pages := Some rets\<rparr> in if \<not> b then alloc_err m4
                 else if \<not> okf O_vp_arr then alloc_err m4
                 else (case alloc_rows okf num_iters 0 num_threads of (rows, b') \<Rightarrow>
                         let m5 = m4\<lparr>vpages := Some rows\<rparr> in if \<not> b' then alloc_err m5
                         else if \<not> okf O_keys_arr then alloc_err m5
                         else if (\<exists>i < num_threads. \<not> okf (O_keys i)) \<and> 0 < num_iters then None
                         else Some (m5\<lparr>keys_arr := Some (map (\<lambda>i. okf (O_keys i)) [0..<num_threads])\<rparr>, 0))))"

section \<open>The tests\<close>

record thread_data =
  td_next :: nat
  td_dummy :: bool
  td_ret :: nat
  td_ret2 :: nat

fun memcmp :: "bytes \<Rightarrow> bytes \<Rightarrow> nat \<Rightarrow> int" where
  "memcmp (a # as) (b # bs) (Suc n) = (if a = b then memcmp as bs n else if a < b then - 1 else 1)"
| "memcmp as bs n = 0"

text \<open>One iteration of each test; the results are what \<^verbatim>\<open>ret\<close> and \<^verbatim>\<open>ret2\<close> of the thread become at the end.\<close>

definition put_key :: "nat \<Rightarrow> nat \<Rightarrow> u64 list list \<Rightarrow> nat \<Rightarrow> thread_data \<Rightarrow> u32" where
  "put_key num_threads num_iters ks tid td =
     (if td_dummy td then ucast (ks ! tid ! td_next td) + of_nat (num_iters * num_threads) else ucast (ks ! tid ! td_next td))"

definition rdpma_put_iter :: "u64 \<Rightarrow> dcc_config_t \<Rightarrow> nat \<Rightarrow> nat \<Rightarrow> u64 list list \<Rightarrow> nat \<Rightarrow> op_env \<Rightarrow> dcc_backend list \<times> thread_data \<Rightarrow>
    ((dcc_backend list \<times> thread_data) \<times> int) option" where
  "rdpma_put_iter golden cfg num_threads num_iters ks tid o' = (\<lambda>(bs, td).
     map_option (\<lambda>(bs', ret). ((bs', td\<lparr>td_next := td_next td + 1, td_ret := (if ret \<noteq> 0 then td_ret td + 1 else td_ret td)\<rparr>), ret))
       (dcc_handle_put_page golden cfg o' 0 (ucast (put_key num_threads num_iters ks tid td)) bs))"

definition rdpma_get_iter :: "u64 \<Rightarrow> dcc_config_t \<Rightarrow> (nat \<Rightarrow> nat \<Rightarrow> bytes) \<Rightarrow> u64 list list \<Rightarrow> nat \<Rightarrow> op_env \<Rightarrow> dcc_backend list \<times> thread_data \<Rightarrow>
    ((dcc_backend list \<times> thread_data) \<times> int) option" where
  "rdpma_get_iter golden cfg page ks tid o' = (\<lambda>(bs, td).
     map_option (\<lambda>(bs', ret). ((bs', if ret = 0
            then td\<lparr>td_next := td_next td + 1, td_ret := (if memcmp (o_page o') (page tid (td_next td)) 0 \<noteq> 0 then td_ret td + 1 else td_ret td)\<rparr>
            else td\<lparr>td_next := td_next td + 1, td_ret2 := td_ret2 td + 1\<rparr>), ret))
       (dcc_handle_get_page golden cfg o' 0 (ucast (ucast (ks ! tid ! td_next td) :: u32)) bs))"

definition rdpma_inv_iter :: "u64 \<Rightarrow> dcc_config_t \<Rightarrow> u64 list list \<Rightarrow> nat \<Rightarrow> op_env \<Rightarrow> dcc_backend list \<times> thread_data \<Rightarrow>
    ((dcc_backend list \<times> thread_data) \<times> int) option" where
  "rdpma_inv_iter golden cfg ks tid o' = (\<lambda>(bs, td).
     map_option (\<lambda>(bs', ret). ((bs', td\<lparr>td_next := td_next td + 1, td_ret := (if ret \<noteq> 0 then td_ret td + 1 else td_ret td)\<rparr>), ret))
       (dcc_handle_invalidate_page golden cfg o' 0 (ucast (ucast (ks ! tid ! td_next td) :: u32)) bs))"

text \<open>
  A test starts every thread and waits for all of them: \<open>sched\<close> lists the iterations in the order they
  happen, \<open>rets\<close> collects what the operations returned.
\<close>

definition start_thread :: "bool \<Rightarrow> thread_data" where
  "start_thread dummy = \<lparr>td_next = 0, td_dummy = dummy, td_ret = 0, td_ret2 = 0\<rparr>"

fun bench_run :: "(nat \<Rightarrow> op_env \<Rightarrow> dcc_backend list \<times> thread_data \<Rightarrow> ((dcc_backend list \<times> thread_data) \<times> int) option) \<Rightarrow> nat \<Rightarrow>
    (nat \<times> op_env) list \<Rightarrow> dcc_backend list \<times> thread_data list \<Rightarrow> int list \<Rightarrow> (dcc_backend list \<times> thread_data list \<times> int list) option" where
  "bench_run iter num_iters [] (bs, tds) rets = Some (bs, tds, rets)"
| "bench_run iter num_iters ((tid, o') # sched) (bs, tds) rets =
     (if tid < length tds \<and> td_next (tds ! tid) < num_iters
      then (case iter tid o' (bs, tds ! tid) of
              None \<Rightarrow> None
            | Some ((bs', td), ret) \<Rightarrow> bench_run iter num_iters sched (bs', tds[tid := td]) (rets @ [ret]))
      else bench_run iter num_iters sched (bs, tds) rets)"

text \<open>
  The results that are added up after the test.  A thread signals its completion before it stores its
  result, so a result may be missing: \<open>stored i\<close> says whether the thread \<open>i\<close> had stored it.
\<close>

definition bench_total :: "(nat \<Rightarrow> bool) \<Rightarrow> thread_data list \<Rightarrow> nat \<times> nat" where
  "bench_total stored tds = (\<Sum>i<length tds. if stored i then td_ret (tds ! i) else 0, \<Sum>i<length tds. if stored i then td_ret2 (tds ! i) else 0)"

definition bench_pass :: "(nat \<Rightarrow> bool) \<Rightarrow> thread_data list \<Rightarrow> bool" where
  "bench_pass stored tds \<longleftrightarrow> bench_total stored tds = (0, 0)"

text \<open>
  What the environment does in one test: the order of the iterations, which threads store their result
  before it is read, and the time that passes.  The report has the verdict, the time per request and the
  throughput; the time is divided by the number of threads and iterations, and 0 of them has no result.
\<close>

record test_env =
  t_sched :: "(nat \<times> op_env) list"
  t_stored :: "nat \<Rightarrow> bool"
  t_elapsed :: u64

record test_report =
  r_pass :: bool
  r_per_req_lat :: u64
  r_throughput :: "u64 option"

definition test_result :: "u64 \<Rightarrow> nat \<Rightarrow> nat \<Rightarrow> u64 \<Rightarrow> bool \<Rightarrow> test_report option" where
  "test_result total_capacity num_threads num_iters elapsed pass =
     (if num_threads = 0 \<or> num_iters = 0 then None
      else let elapsed_ms = (ucast (elapsed div 1000 div 1000) :: u32)
           in Some \<lparr>r_pass = pass, r_per_req_lat = elapsed div of_nat num_threads div of_nat num_iters,
                r_throughput = (if elapsed_ms \<noteq> 0 then Some (1000 * drop_bit 20 total_capacity div scast elapsed_ms) else None)\<rparr>)"

text \<open>A test starts its threads and waits until all of them are done; it has no result while one is not.\<close>

definition wait_all :: "(nat \<Rightarrow> op_env \<Rightarrow> dcc_backend list \<times> thread_data \<Rightarrow> ((dcc_backend list \<times> thread_data) \<times> int) option) \<Rightarrow> nat \<Rightarrow> test_env \<Rightarrow>
    dcc_backend list \<Rightarrow> thread_data list \<Rightarrow> (dcc_backend list \<times> thread_data list \<times> int list) option" where
  "wait_all iter num_iters te bs args =
     (case bench_run iter num_iters (t_sched te) (bs, args) [] of
        None \<Rightarrow> None
      | Some (bs', args', rets) \<Rightarrow> if \<exists>td \<in> set args'. td_next td < num_iters then None else Some (bs', args', rets))"

record bench_cfg =
  bc_golden :: u64
  bc_cfg :: dcc_config_t
  bc_capacity :: u64
  bc_threads :: nat
  bc_iters :: nat

definition bc_keys :: "bench_cfg \<Rightarrow> u64 list list" where
  "bc_keys b = bench_keys (bc_threads b) (bc_iters b) 0"

definition bc_result :: "bench_cfg \<Rightarrow> test_env \<Rightarrow> bool \<Rightarrow> test_report option" where
  "bc_result b te pass = test_result (bc_capacity b) (bc_threads b) (bc_iters b) (t_elapsed te) pass"

text \<open>\<open>args_ok i\<close> says whether the data of thread \<open>i\<close> could be allocated; they are written without a test.\<close>

definition prepare_put_test :: "bench_cfg \<Rightarrow> (nat \<Rightarrow> bool) \<Rightarrow> test_env \<Rightarrow> dcc_backend list \<Rightarrow> (dcc_backend list \<times> thread_data list \<times> test_report) option" where
  "prepare_put_test b args_ok te bs =
     (if \<exists>i < bc_threads b. \<not> args_ok i then None
      else case wait_all (rdpma_put_iter (bc_golden b) (bc_cfg b) (bc_threads b) (bc_iters b) (bc_keys b)) (bc_iters b) te bs
                  (replicate (bc_threads b) (start_thread False)) of
             None \<Rightarrow> None
           | Some (bs', args, _) \<Rightarrow>
               map_option (\<lambda>r. (bs', args, r)) (bc_result b te (fst (bench_total (t_stored te) args) = 0)))"

definition prepare_get_test :: "bench_cfg \<Rightarrow> (nat \<Rightarrow> nat \<Rightarrow> bytes) \<Rightarrow> test_env \<Rightarrow> dcc_backend list \<Rightarrow> thread_data list \<Rightarrow>
    (dcc_backend list \<times> thread_data list \<times> test_report) option" where
  "prepare_get_test b page te bs args =
     (case wait_all (rdpma_get_iter (bc_golden b) (bc_cfg b) page (bc_keys b)) (bc_iters b) te bs
             (map (\<lambda>td. td\<lparr>td_next := 0, td_ret := 0, td_ret2 := 0\<rparr>) args) of
        None \<Rightarrow> None
      | Some (bs', args', _) \<Rightarrow> map_option (\<lambda>r. (bs', args', r)) (bc_result b te (bench_pass (t_stored te) args')))"

text \<open>Half of the threads put pages under keys that were not used before, the others get; the misses of a get are not added up.\<close>

definition prepare_hybrid_test :: "bench_cfg \<Rightarrow> (nat \<Rightarrow> nat \<Rightarrow> bytes) \<Rightarrow> test_env \<Rightarrow> dcc_backend list \<Rightarrow> thread_data list \<Rightarrow>
    (dcc_backend list \<times> thread_data list \<times> test_report) option" where
  "prepare_hybrid_test b page te bs args =
     (case wait_all (\<lambda>tid. if tid < bc_threads b div 2
                then rdpma_put_iter (bc_golden b) (bc_cfg b) (bc_threads b) (bc_iters b) (bc_keys b) tid
                else rdpma_get_iter (bc_golden b) (bc_cfg b) page (bc_keys b) tid) (bc_iters b) te bs
             (map (\<lambda>td. td\<lparr>td_next := 0, td_ret := 0, td_ret2 := 0, td_dummy := True\<rparr>) args) of
        None \<Rightarrow> None
      | Some (bs', args', _) \<Rightarrow> map_option (\<lambda>r. (bs', args', r)) (bc_result b te (fst (bench_total (t_stored te) args') = 0)))"

definition prepare_inv_page_test :: "bench_cfg \<Rightarrow> test_env \<Rightarrow> dcc_backend list \<Rightarrow> thread_data list \<Rightarrow> (dcc_backend list \<times> thread_data list \<times> test_report) option" where
  "prepare_inv_page_test b te bs args =
     (case wait_all (rdpma_inv_iter (bc_golden b) (bc_cfg b) (bc_keys b)) (bc_iters b) te bs (map (\<lambda>td. td\<lparr>td_next := 0, td_ret := 0\<rparr>) args) of
        None \<Rightarrow> None
      | Some (bs', args', _) \<Rightarrow> map_option (\<lambda>r. (bs', args', r)) (bc_result b te (fst (bench_total (t_stored te) args') = 0)))"

text \<open>As the module is configured, \<^verbatim>\<open>main\<close> runs the put test and then the get test.\<close>

definition bench_main :: "bench_cfg \<Rightarrow> bool \<Rightarrow> (nat \<Rightarrow> bool) \<Rightarrow> (nat \<Rightarrow> nat \<Rightarrow> bytes) \<Rightarrow> test_env \<Rightarrow> test_env \<Rightarrow> dcc_backend list \<Rightarrow>
    ((dcc_backend list \<times> test_report \<times> test_report) \<times> int) option" where
  "bench_main b arr_ok args_ok page te1 te2 bs =
     (if \<not> arr_ok \<and> 0 < bc_threads b then None
      else case prepare_put_test b args_ok te1 bs of
             None \<Rightarrow> None
           | Some (bs1, args, r1) \<Rightarrow> (case prepare_get_test b page te2 bs1 args of
                 None \<Rightarrow> None
               | Some (bs2, _, r2) \<Rightarrow> Some ((bs2, r1, r2), 0)))"

text \<open>The module: \<open>run\<close> is what \<^verbatim>\<open>main\<close> does; the memory is given back in every case.\<close>

definition init_rdma_test_module :: "(bench_obj \<Rightarrow> bool) \<Rightarrow> bool \<Rightarrow> nat \<Rightarrow> nat \<Rightarrow> ('r \<times> int) option \<Rightarrow> (int \<times> 'r option \<times> bench_obj list) option" where
  "init_rdma_test_module okf comp_ok num_threads num_iters run =
     (case init_pages okf num_threads num_iters of
        None \<Rightarrow> None
      | Some (m, ret) \<Rightarrow>
          if ret \<noteq> 0 \<or> \<not> comp_ok then map_option (\<lambda>fs. (- 1, None, fs)) (exit_pages num_threads num_iters m)
          else (case run of
                  None \<Rightarrow> None
                | Some (r, ret') \<Rightarrow> map_option (\<lambda>fs. (if ret' \<noteq> 0 then - 1 else 0, Some r, fs)) (exit_pages num_threads num_iters m)))"

section \<open>Properties\<close>

lemma those_map_Some: "(\<And>x. x \<in> set xs \<Longrightarrow> f x = Some (g x)) \<Longrightarrow> those (map f xs) = Some (map g xs)"
  by (induction xs) auto

lemma alloc_slots_result: "alloc_slots okf rest i n = (fst (alloc_slots okf rest i n), \<forall>k < n. okf (i + k))"
proof (induction okf rest i n rule: alloc_slots.induct)
  case (2 okf rest i n)
  show ?case
  proof (cases "okf i")
    case True
    have "(\<forall>k < Suc n. okf (i + k)) = (\<forall>k < n. okf (i + 1 + k))" using True by (auto simp: less_Suc_eq_0_disj)
    then show ?thesis using 2 True by (auto split: prod.splits)
  qed (auto intro: exI [of _ 0])
qed simp

lemma alloc_slots_ok: "\<forall>k < n. okf (i + k) \<Longrightarrow> alloc_slots okf rest i n = (replicate n Slot_page, True)"
proof (induction okf rest i n rule: alloc_slots.induct)
  case (2 okf rest i n)
  then have "okf i" "\<forall>k < n. okf (i + 1 + k)" by (auto dest: spec [of _ 0] spec [of _ "Suc _"])
  then show ?case using 2 by simp
qed simp

lemma alloc_rows_ok:
  "\<forall>k < n. okf (O_vp_row (i + k)) \<and> (\<forall>j < num_iters. okf (O_vp (i + k) j)) \<Longrightarrow>
    alloc_rows okf num_iters i n = (replicate n (Some (replicate num_iters Slot_page)), True)"
proof (induction okf num_iters i n rule: alloc_rows.induct)
  case (2 okf num_iters i n)
  have h: "okf (O_vp_row i)" "\<forall>j < num_iters. okf (O_vp i (0 + j))" using 2(2) by (auto dest: spec [of _ 0])
  have s: "alloc_slots (\<lambda>j. okf (O_vp i j)) Slot_garbage 0 num_iters = (replicate num_iters Slot_page, True)" using h(2) by (intro alloc_slots_ok) simp
  have "\<forall>k < n. okf (O_vp_row (i + 1 + k)) \<and> (\<forall>j < num_iters. okf (O_vp (i + 1 + k) j))"
  proof (intro allI impI)
    fix k assume "k < n"
    then show "okf (O_vp_row (i + 1 + k)) \<and> (\<forall>j < num_iters. okf (O_vp (i + 1 + k) j))" using spec [OF 2(2), of "Suc k"] by simp
  qed
  then have "alloc_rows okf num_iters (i + 1) n = (replicate n (Some (replicate num_iters Slot_page)), True)" using 2(1) h(1) s by simp
  then show ?case using h(1) s by simp
qed simp

lemma alloc_rows_fail:
  "k < n \<Longrightarrow> \<not> okf (O_vp_row (i + k)) \<or> (\<exists>j < num_iters. \<not> okf (O_vp (i + k) j)) \<Longrightarrow> \<not> snd (alloc_rows okf num_iters i n)"
proof (induction n arbitrary: i k)
  case (Suc n)
  let ?row = "alloc_slots (\<lambda>j. okf (O_vp i j)) Slot_garbage 0 num_iters"
  have row: "snd ?row = (\<forall>j < num_iters. okf (O_vp i j))" by (subst alloc_slots_result) simp
  show ?case
  proof (cases "okf (O_vp_row i) \<and> snd ?row")
    case True
    then obtain k' where k': "k = Suc k'" "k' < n" using Suc.prems row by (cases k) auto
    then have "\<not> snd (alloc_rows okf num_iters (i + 1) n)" using Suc.IH [of k' "i + 1"] Suc.prems by simp
    then show ?thesis using True by (cases ?row) (auto split: prod.splits)
  next
    case False
    then show ?thesis by (cases ?row) (auto split: bool.splits)
  qed
qed simp

text \<open>Every object of the test.\<close>

definition bench_objs :: "nat \<Rightarrow> nat \<Rightarrow> bench_obj list" where
  "bench_objs num_threads num_iters = [O_put, O_get, O_inv]
     @ concat (map (\<lambda>i. O_ret i # map (O_vp i) [0..<num_iters] @ [O_vp_row i, O_keys i]) [0..<num_threads]) @ [O_ret_arr, O_vp_arr, O_keys_arr]"

lemma exit_pages_full:
  "exit_pages num_threads num_iters \<lparr>put_threads = True, get_threads = True, inv_threads = True, return_pages = Some (replicate num_threads Slot_page),
     vpages = Some (replicate num_threads (Some (replicate num_iters Slot_page))), keys_arr = Some (map (\<lambda>_. True) [0..<num_threads])\<rparr>
   = Some (bench_objs num_threads num_iters)"
proof -
  let ?m = "\<lparr>put_threads = True, get_threads = True, inv_threads = True, return_pages = Some (replicate num_threads Slot_page),
     vpages = Some (replicate num_threads (Some (replicate num_iters Slot_page))), keys_arr = Some (map (\<lambda>_. True) [0..<num_threads])\<rparr>"
  have "those (map (\<lambda>j. free_slot (O_vp i j) (replicate num_iters Slot_page ! j)) [0..<num_iters]) = Some (map (\<lambda>j. [O_vp i j]) [0..<num_iters])" for i
    by (rule those_map_Some) (simp add: free_slot_def)
  then have "exit_thread num_iters ?m i = Some (O_ret i # map (O_vp i) [0..<num_iters] @ [O_vp_row i, O_keys i])" if "i < num_threads" for i
    using that by (simp add: exit_thread_def free_slot_def concat_map_singleton)
  then have "those (map (exit_thread num_iters ?m) [0..<num_threads]) = Some (map (\<lambda>i. O_ret i # map (O_vp i) [0..<num_iters] @ [O_vp_row i, O_keys i]) [0..<num_threads])"
    by (intro those_map_Some) simp
  then show ?thesis unfolding exit_pages_def by (simp add: bench_objs_def)
qed

lemma bench_objs_distinct: "distinct (bench_objs num_threads num_iters)"
proof -
  have "distinct (concat (map (\<lambda>i. O_ret i # map (O_vp i) [0..<num_iters] @ [O_vp_row i, O_keys i]) [0..<n]))" for n
    by (induction n) (auto simp: distinct_map inj_on_def)
  then show ?thesis by (auto simp: bench_objs_def)
qed

text \<open>With enough memory the module prepares its pages and gives every object back exactly once.\<close>

theorem bench_frees_all:
  assumes "\<forall>ob \<in> set (bench_objs num_threads num_iters). okf ob"
  shows "\<exists>m. init_pages okf num_threads num_iters = Some (m, 0) \<and> exit_pages num_threads num_iters m = Some (bench_objs num_threads num_iters)
    \<and> distinct (bench_objs num_threads num_iters)"
proof -
  have o: "okf O_put" "okf O_get" "okf O_inv" "okf O_ret_arr" "okf O_vp_arr" "okf O_keys_arr" "\<forall>i < num_threads. okf (O_ret i) \<and> okf (O_vp_row i) \<and> okf (O_keys i)"
      "\<forall>i < num_threads. \<forall>j < num_iters. okf (O_vp i j)"
    using assms by (auto simp: bench_objs_def)
  have s: "alloc_slots (\<lambda>i. okf (O_ret i)) Slot_null 0 num_threads = (replicate num_threads Slot_page, True)" using o(7) by (intro alloc_slots_ok) simp
  have r: "alloc_rows okf num_iters 0 num_threads = (replicate num_threads (Some (replicate num_iters Slot_page)), True)" using o(7,8) by (intro alloc_rows_ok) simp
  have k: "map (\<lambda>i. okf (O_keys i)) [0..<num_threads] = map (\<lambda>_. True) [0..<num_threads]" using o(7) by simp
  have "\<not> ((\<exists>i < num_threads. \<not> okf (O_keys i)) \<and> 0 < num_iters)" using o(7) by blast
  then show ?thesis using exit_pages_full bench_objs_distinct unfolding init_pages_def Let_def s r k
    by (intro exI [of _ "\<lparr>put_threads = True, get_threads = True, inv_threads = True, return_pages = Some (replicate num_threads Slot_page),
     vpages = Some (replicate num_threads (Some (replicate num_iters Slot_page))), keys_arr = Some (map (\<lambda>_. True) [0..<num_threads])\<rparr>"])
      (simp add: o(1-6) bench_mem_null_def)
qed

text \<open>
  No failed allocation is survived: the clean-up reads the array of the keys, which is allocated last,
  without a test, and the keys are written without one, so that the module never returns -ENOMEM.
\<close>

lemma exit_pages_no_keys: "0 < num_threads \<Longrightarrow> keys_arr m = None \<Longrightarrow> exit_pages num_threads num_iters m = None"
  by (cases num_threads) (simp_all add: exit_pages_def exit_thread_def upt_conv_Cons split: option.splits del: upt_Suc)

theorem bench_alloc_failure_crashes:
  assumes "ob \<in> set (bench_objs num_threads num_iters)" "\<not> okf ob" "0 < num_threads" "0 < num_iters"
  shows "init_rdma_test_module okf comp_ok num_threads num_iters run = None"
proof -
  have fail: "map_option f (exit_pages num_threads num_iters m) = None" if "keys_arr m = None" for m f
    using exit_pages_no_keys [OF assms(3) that] by simp
  let ?all = "okf O_put \<and> okf O_get \<and> okf O_inv \<and> okf O_ret_arr \<and> (\<forall>k < num_threads. okf (O_ret k)) \<and> okf O_vp_arr \<and> snd (alloc_rows okf num_iters 0 num_threads)
      \<and> okf O_keys_arr \<and> \<not> ((\<exists>i < num_threads. \<not> okf (O_keys i)) \<and> 0 < num_iters)"
  have "\<not> ?all"
  proof
    assume all: ?all
    have "\<forall>k < num_threads. okf (O_vp_row k) \<and> (\<forall>j < num_iters. okf (O_vp k j))" using all alloc_rows_fail [of _ num_threads okf 0 num_iters] by auto
    then have "okf ob" using assms(1,4) all by (auto simp: bench_objs_def)
    then show False using assms(2) by blast
  qed
  then have "init_pages okf num_threads num_iters = None" unfolding init_pages_def Let_def
    by (subst alloc_slots_result) (auto simp: fail bench_mem_null_def assms(4) split: prod.splits)
  then show ?thesis by (simp add: init_rdma_test_module_def)
qed

text \<open>When every result is stored in time, the put test reports the number of puts that did not return 0.\<close>

lemma bench_run_steps:
  assumes "bench_run iter k sched (bs, tds) rets = Some (bs', tds', rets')"
    and "\<And>bs tds rets tid o' bs1 td ret. P tds rets \<Longrightarrow> tid < length tds \<Longrightarrow> td_next (tds ! tid) < k \<Longrightarrow> iter tid o' (bs, tds ! tid) = Some ((bs1, td), ret) \<Longrightarrow> P (tds[tid := td]) (rets @ [ret])"
    and "P tds rets"
  shows "P tds' rets'"
  using assms(1,3)
proof (induction sched arbitrary: bs tds rets)
  case (Cons x sched)
  obtain tid o' where x: "x = (tid, o')" by (cases x)
  show ?case
  proof (cases "tid < length tds \<and> td_next (tds ! tid) < k")
    case True
    then obtain bs1 td ret where s: "iter tid o' (bs, tds ! tid) = Some ((bs1, td), ret)"
        "bench_run iter k sched (bs1, tds[tid := td]) (rets @ [ret]) = Some (bs', tds', rets')"
      using Cons.prems(1) x by (auto split: option.splits)
    show ?thesis by (rule Cons.IH [OF s(2)], rule assms(2) [OF Cons.prems(2) _ _ s(1)]) (use True in simp_all)
  next
    case False
    then show ?thesis using Cons.IH [OF _ Cons.prems(2), of bs] Cons.prems(1) x by (simp split: if_splits)
  qed
qed simp

lemma put_iter_counts:
  "rdpma_put_iter golden cfg nt ni ks tid o' (bs, td) = Some ((bs', td'), ret) \<Longrightarrow> td_ret td' = td_ret td + (if ret \<noteq> 0 then 1 else 0)"
  by (auto simp: rdpma_put_iter_def split: if_splits)

lemma bench_run_counts:
  assumes "bench_run (rdpma_put_iter golden cfg nt ni ks) k sched (bs, tds) [] = Some (bs', tds', rets')" "sum_list (map td_ret tds) = 0"
  shows "sum_list (map td_ret tds') = length (filter (\<lambda>r. r \<noteq> 0) rets')"
proof (rule bench_run_steps [OF assms(1), where P = "\<lambda>tds rets. sum_list (map td_ret tds) = length (filter (\<lambda>r. r \<noteq> 0) rets)"])
  fix bs tds tid o' bs1 td ret and rets :: "int list"
  assume s: "sum_list (map td_ret tds) = length (filter (\<lambda>r. r \<noteq> 0) rets)" "tid < length tds"
    "rdpma_put_iter golden cfg nt ni ks tid o' (bs, tds ! tid) = Some ((bs1, td), ret)"
  have "sum_list (map td_ret (tds[tid := td])) + td_ret (tds ! tid) = sum_list (map td_ret tds) + td_ret td"
    using s(2) by (intro sum_list_update_at) simp
  then show "sum_list (map td_ret (tds[tid := td])) = length (filter (\<lambda>r. r \<noteq> 0) (rets @ [ret]))" using s(1) put_iter_counts [OF s(3)] by (auto split: if_splits)
qed (simp add: assms(2))

theorem bench_put_verdict:
  assumes "bench_run (rdpma_put_iter golden cfg nt ni ks) ni sched (bs, replicate nt (start_thread False)) [] = Some (bs', tds', rets)"
  shows "fst (bench_total (\<lambda>_. True) tds') = length (filter (\<lambda>r. r \<noteq> 0) rets)"
proof -
  have "sum_list (map td_ret (replicate nt (start_thread False))) = 0" by (simp add: start_thread_def sum_list_replicate)
  then have "sum_list (map td_ret tds') = length (filter (\<lambda>r. r \<noteq> 0) rets)" by (rule bench_run_counts [OF assms])
  then show ?thesis by (simp add: bench_total_def sum_list_sum_nth atLeast0LessThan)
qed

text \<open>The get test never finds a wrong page: it compares the pages over a length of 0.\<close>

theorem bench_ignores_data:
  assumes "bench_run (rdpma_get_iter golden cfg page ks) ni sched (bs, tds) rets = Some (bs', tds', rets')" "\<forall>td \<in> set tds. td_ret td = 0"
  shows "\<forall>td \<in> set tds'. td_ret td = 0"
proof (rule bench_run_steps [OF assms(1), where P = "\<lambda>tds rets. \<forall>td \<in> set tds. td_ret td = 0"])
  fix bs tds rets tid o' bs1 td ret
  assume s: "\<forall>td \<in> set tds. td_ret td = 0" "tid < length tds" "rdpma_get_iter golden cfg page ks tid o' (bs, tds ! tid) = Some ((bs1, td), ret)"
  have "td_ret td = td_ret (tds ! tid)" using s(3) by (auto simp: rdpma_get_iter_def)
  then show "\<forall>td \<in> set (tds[tid := td]). td_ret td = 0" using s(1,2) set_update_subset_insert [of tds tid td] by fastforce
qed (rule assms(2))

text \<open>A test may report success although every operation failed, when no thread has stored its result yet.\<close>

lemma bench_may_pass_wrongly: "bench_pass (\<lambda>_. False) tds"
  by (simp add: bench_pass_def bench_total_def)

text \<open>The keys of all threads are the numbers from 1 on, all different.\<close>

lemma bench_keys_nth:
  "i < num_threads \<Longrightarrow> j < num_iters \<Longrightarrow> bench_keys num_threads num_iters key ! i ! j = key + of_nat (i * num_iters + j + 1)"
proof (induction num_threads num_iters key arbitrary: i rule: bench_keys.induct)
  case (2 n num_iters key)
  then show ?case by (cases i) (simp_all add: algebra_simps)
qed simp

text \<open>
  When every result is stored in time, a put test that ends has made one put per thread and iteration, and
  reports success exactly when all of them returned 0.
\<close>

lemma wait_all_counts:
  assumes "wait_all (rdpma_put_iter golden cfg nt ni ks) ni te bs (replicate nt (start_thread False)) = Some (bs', args, rets)"
  shows "length rets = nt * ni \<and> fst (bench_total (\<lambda>_. True) args) = length (filter (\<lambda>r. r \<noteq> 0) rets)"
proof -
  have run: "bench_run (rdpma_put_iter golden cfg nt ni ks) ni (t_sched te) (bs, replicate nt (start_thread False)) [] = Some (bs', args, rets)"
      and d: "\<forall>td \<in> set args. ni \<le> td_next td"
    using assms by (auto simp: wait_all_def not_less split: option.splits if_splits)
  have "sum_list (map td_next args) = length rets \<and> length args = nt \<and> (\<forall>td \<in> set args. td_next td \<le> ni)"
  proof (rule bench_run_steps [OF run, where P = "\<lambda>tds rets. sum_list (map td_next tds) = length rets \<and> length tds = nt \<and> (\<forall>td \<in> set tds. td_next td \<le> ni)"])
    fix bs tds tid o' bs1 td ret and rets :: "int list"
    assume s: "sum_list (map td_next tds) = length rets \<and> length tds = nt \<and> (\<forall>td \<in> set tds. td_next td \<le> ni)" "tid < length tds" "td_next (tds ! tid) < ni"
      "rdpma_put_iter golden cfg nt ni ks tid o' (bs, tds ! tid) = Some ((bs1, td), ret)"
    have n: "td_next td = td_next (tds ! tid) + 1" using s(4) by (auto simp: rdpma_put_iter_def)
    moreover have "sum_list (map td_next (tds[tid := td])) + td_next (tds ! tid) = sum_list (map td_next tds) + td_next td"
      using s(2) by (intro sum_list_update_at) simp
    ultimately show "sum_list (map td_next (tds[tid := td])) = length (rets @ [ret]) \<and> length (tds[tid := td]) = nt \<and> (\<forall>td \<in> set (tds[tid := td]). td_next td \<le> ni)"
      using s(1,3) set_update_subset_insert [of tds tid td] by auto
  qed (simp add: start_thread_def sum_list_replicate)
  moreover from this have "map td_next args = replicate nt ni" using d by (intro nth_equalityI) (auto simp: dual_order.antisym)
  ultimately have "length rets = nt * ni" by (simp add: sum_list_replicate)
  then show ?thesis using bench_put_verdict [OF run] by simp
qed

lemma put_test_passes:
  assumes "prepare_put_test b args_ok te bs = Some (bs', args, r)" "t_stored te = (\<lambda>_. True)"
  shows "\<exists>rets. length rets = bc_threads b * bc_iters b \<and> 0 < length rets \<and> (r_pass r \<longleftrightarrow> (\<forall>ret \<in> set rets. ret = 0))
    \<and> wait_all (rdpma_put_iter (bc_golden b) (bc_cfg b) (bc_threads b) (bc_iters b) (bc_keys b)) (bc_iters b) te bs
        (replicate (bc_threads b) (start_thread False)) = Some (bs', args, rets)"
proof -
  obtain rets where w: "wait_all (rdpma_put_iter (bc_golden b) (bc_cfg b) (bc_threads b) (bc_iters b) (bc_keys b)) (bc_iters b) te bs
        (replicate (bc_threads b) (start_thread False)) = Some (bs', args, rets)"
      "bc_result b te (fst (bench_total (t_stored te) args) = 0) = Some r"
    using assms(1) by (auto simp: prepare_put_test_def split: if_splits option.splits)
  have "0 < bc_threads b" "0 < bc_iters b" "r_pass r = (fst (bench_total (t_stored te) args) = 0)"
    using w(2) by (auto simp: bc_result_def test_result_def Let_def split: if_splits)
  then show ?thesis using w(1) wait_all_counts [OF w(1)] assms(2) by (intro exI [of _ rets]) (auto simp: filter_empty_conv)
qed

text \<open>A test of less than a page per thread divides by zero.\<close>

lemma empty_test_crashes: "bc_iters b = 0 \<Longrightarrow> prepare_put_test b args_ok te bs = None"
  by (auto simp: prepare_put_test_def bc_result_def test_result_def split: option.splits)

end
