(* ===== verification/Drv_Module.thy ===== *)
theory Drv_Module
  imports Drv_Backend Drv_Conn
begin

text \<open>
  Loading and unloading of the driver (\<^verbatim>\<open>driver/backend.c\<close>, \<^verbatim>\<open>driver/rdma.c\<close>, \<^verbatim>\<open>driver/rdma_mem.c\<close>,
  \<^verbatim>\<open>driver/main.c\<close>): which kernel objects every function acquires and gives back, and in which order.  The
  state is the set of live objects; giving back an object that is not live, or following a pointer that was
  never set, has no result.
\<close>

section \<open>Kernel objects\<close>

datatype drv_obj =
    Backends_arr | Backend nat | Ib_client | Req_cache | Ctrls_arr
  | Ctrl nat | Queues_arr nat | Mm nat | Ht nat | Ht_heads nat | Ht_locks nat | Rdev nat | Pd nat
  | Cm_id nat nat | Qp nat nat | Send_cq nat nat | Recv_cq nat nat | Event_cq nat nat
  | Mr nat | Pool_filter nat | Pool_key nat | Pool_pagebuf nat | Pool_keypage nat
  | Meta nat | Bf nat | Bitmap nat | Tmp_bitmap nat | Cbf nat | Byte_bitmap nat | Meta_ht nat | Meta_heads nat | Meta_locks nat
  | Worker nat | Worker_task nat | Af nat | Af_bkts nat | Af_lcks nat

fun release :: "drv_obj list \<Rightarrow> drv_obj set \<Rightarrow> drv_obj set option" where
  "release [] S = Some S"
| "release (ob # obs) S = (if ob \<in> S then release obs (S - {ob}) else None)"

section \<open>What loading acquires\<close>

definition queue_objs :: "drv_rdma_config_t \<Rightarrow> nat \<Rightarrow> nat \<Rightarrow> drv_obj list" where
  "queue_objs cfg i q = [Cm_id i q] @ (if q < num_data_qps cfg then [Send_cq i q, Recv_cq i q] else [Event_cq i q]) @ [Qp i q]"

definition ctrl_objs :: "nat \<Rightarrow> drv_obj list" where
  "ctrl_objs i = [Ctrl i, Queues_arr i, Mm i, Ht i, Ht_heads i, Ht_locks i]"

definition pool_objs :: "bool \<Rightarrow> nat \<Rightarrow> drv_obj list" where
  "pool_objs dma_mem_for_filter i = (if dma_mem_for_filter then [Pool_filter i] else []) @ [Pool_key i, Pool_pagebuf i, Pool_keypage i]"

text \<open>The bitmap of a filter over the memory that the daemon writes is that memory; an ordinary filter has its own.\<close>

definition meta_objs :: "metadata_type_t \<Rightarrow> nat \<Rightarrow> drv_obj list" where
  "meta_objs ty i = Meta i # (case ty of
       COOP_BF \<Rightarrow> [Bf i, Tmp_bitmap i]
     | ORDINARY_BF \<Rightarrow> [Bf i, Bitmap i, Tmp_bitmap i]
     | COUNTING_BF \<Rightarrow> [Cbf i, Byte_bitmap i]
     | HASH_TABLE \<Rightarrow> [Meta_ht i, Meta_heads i, Meta_locks i]
     | FILTER_OFF \<Rightarrow> [])"

definition backend_objs :: "dcc_config_t \<Rightarrow> nat \<Rightarrow> drv_obj list" where
  "backend_objs cfg i = (if metadata_type cfg \<noteq> FILTER_OFF then meta_objs (metadata_type cfg) i else [])
     @ (if metadata_type cfg = COOP_BF then [Worker i, Worker_task i] else []) @ (if af_enable cfg then [Af i, Af_bkts i, Af_lcks i] else [])"

definition server_objs :: "drv_rdma_config_t \<Rightarrow> dcc_config_t \<Rightarrow> nat \<Rightarrow> drv_obj list" where
  "server_objs rc cfg i = ctrl_objs i @ [Rdev i, Pd i] @ concat (map (queue_objs rc i) [0..<num_qps rc]) @ [Mr i]
     @ pool_objs (metadata_type cfg = COOP_BF) i @ backend_objs cfg i"

text \<open>\<^verbatim>\<open>dcc_rdma_init\<close> when everything succeeds.\<close>

definition rdma_init_objs :: "drv_rdma_config_t \<Rightarrow> dcc_config_t \<Rightarrow> drv_obj list" where
  "rdma_init_objs rc cfg = [Ib_client, Req_cache, Ctrls_arr] @ concat (map (server_objs rc cfg) [0..<num_svrs cfg])"

text \<open>
  The module: \<open>okb i\<close> says whether the \<open>i\<close>-th backend can be allocated, \<open>rdma\<close> what \<^verbatim>\<open>dcc_rdma_init\<close> leaves,
  whose result is not looked at.
\<close>

fun alloc_backends :: "(nat \<Rightarrow> bool) \<Rightarrow> nat \<Rightarrow> nat \<Rightarrow> nat" where
  "alloc_backends okb i 0 = i"
| "alloc_backends okb i (Suc n) = (if okb i then alloc_backends okb (i + 1) n else i)"

definition dcc_backend_init_module :: "bool \<Rightarrow> (nat \<Rightarrow> bool) \<Rightarrow> drv_obj list \<Rightarrow> int \<Rightarrow> (drv_obj set \<times> int) option" where
  "dcc_backend_init_module ok_arr okb rdma rdma_ret =
     (if \<not> ok_arr then None
      else let n = alloc_backends okb 0 MAX_NUM_SVRS; S = set (Backends_arr # map Backend [0..<n])
           in if n < MAX_NUM_SVRS then map_option (\<lambda>S'. (S', - 1)) (release (map Backend [0..<n] @ [Backends_arr]) S)
              else Some (S \<union> set rdma, 0))"

section \<open>What unloading gives back\<close>

definition stop_and_free_queue :: "drv_rdma_config_t \<Rightarrow> nat \<Rightarrow> nat \<Rightarrow> drv_obj list" where
  "stop_and_free_queue cfg i q = [Qp i q] @ (if q < num_data_qps cfg then [Send_cq i q, Recv_cq i q] else [Event_cq i q]) @ [Cm_id i q]"

definition hashtable_exit :: "nat \<Rightarrow> drv_obj list" where
  "hashtable_exit i = [Ht_heads i, Ht_locks i, Ht i]"

definition rdma_mem_free_region :: "bool \<Rightarrow> nat \<Rightarrow> drv_obj list" where
  "rdma_mem_free_region dma_mem_for_filter i = (if dma_mem_for_filter then [Pool_filter i] else []) @ [Pool_key i, Pool_pagebuf i, Pool_keypage i]"

definition rdma_mem_exit :: "nat \<Rightarrow> drv_obj list" where
  "rdma_mem_exit i = [Mr i, Mm i]"

definition dcc_rdma_free_control :: "nat \<Rightarrow> drv_obj list" where
  "dcc_rdma_free_control i = rdma_mem_exit i @ [Pd i, Queues_arr i, Rdev i, Ctrl i]"

definition dcc_rdma_exit :: "drv_rdma_config_t \<Rightarrow> bool \<Rightarrow> nat \<Rightarrow> bool \<Rightarrow> drv_obj list" where
  "dcc_rdma_exit cfg dma_mem_for_filter i last_flag =
     concat (map (stop_and_free_queue cfg i) [0..<num_qps cfg]) @ hashtable_exit i @ rdma_mem_free_region dma_mem_for_filter i
     @ dcc_rdma_free_control i @ (if last_flag then [Ctrls_arr, Req_cache, Ib_client] else [])"

definition bf_exit :: "bool \<Rightarrow> nat \<Rightarrow> drv_obj list" where
  "bf_exit is_ordinary i = (if is_ordinary then [Bitmap i] else []) @ (if \<not> is_ordinary then [Tmp_bitmap i] else []) @ [Bf i]"

definition metadata_exit :: "metadata_type_t \<Rightarrow> nat \<Rightarrow> drv_obj list" where
  "metadata_exit ty i = (case ty of
       COOP_BF \<Rightarrow> bf_exit False i
     | ORDINARY_BF \<Rightarrow> bf_exit True i
     | COUNTING_BF \<Rightarrow> [Byte_bitmap i, Cbf i]
     | HASH_TABLE \<Rightarrow> [Meta_heads i, Meta_locks i, Meta_ht i]
     | FILTER_OFF \<Rightarrow> []) @ [Meta i]"

definition af_exit :: "nat \<Rightarrow> drv_obj list" where
  "af_exit i = [Af_bkts i, Af_lcks i, Af i]"

definition exit_server :: "drv_rdma_config_t \<Rightarrow> dcc_config_t \<Rightarrow> nat \<Rightarrow> drv_obj list" where
  "exit_server rc cfg i = dcc_rdma_exit rc (metadata_type cfg = COOP_BF) i (i = num_svrs cfg - 1)
     @ (if metadata_type cfg \<noteq> FILTER_OFF then metadata_exit (metadata_type cfg) i else []) @ (if af_enable cfg then af_exit i else [])"

text \<open>
  \<open>ready\<close> is the number of servers whose backend was started: the pointers of the others were never set, so
  that stopping their worker or leaving their connection follows a null pointer.
\<close>

definition dcc_backend_exit :: "drv_rdma_config_t \<Rightarrow> dcc_config_t \<Rightarrow> nat \<Rightarrow> drv_obj set \<Rightarrow> drv_obj set option" where
  "dcc_backend_exit rc cfg ready S =
     (if ready < num_svrs cfg then None
      else release ((if metadata_type cfg = COOP_BF then map Worker_task [0..<num_svrs cfg] else [])
             @ concat (map (exit_server rc cfg) [0..<num_svrs cfg]) @ map Backend [0..<MAX_NUM_SVRS] @ [Backends_arr]) S)"

section \<open>The cleancache module\<close>

text \<open>The result of the registration is only printed; each file system gets the next number.\<close>

definition dcc_init :: "int \<Rightarrow> int" where
  "dcc_init register_ret = 0"

definition dcc_init_fs :: "u32 \<Rightarrow> u32 \<times> int" where
  "dcc_init_fs pool_id = (pool_id + 1, sint (pool_id + 1))"

definition dcc_init_shared_fs :: int where
  "dcc_init_shared_fs = - 1"

section \<open>Properties\<close>

lemma release_distinct: "distinct xs \<Longrightarrow> set xs \<subseteq> S \<Longrightarrow> release xs S = Some (S - set xs)"
proof (induction xs arbitrary: S)
  case (Cons x xs)
  have "release xs (S - {x}) = Some (S - {x} - set xs)" using Cons by (intro Cons.IH) auto
  then show ?case using Cons.prems by (auto simp: insert_absorb)
qed simp

lemma release_all_but:
  assumes "distinct all" "mset xs + mset left = mset all"
  shows "release xs (set all) = Some (set left)"
proof -
  have d: "distinct (xs @ left)" using assms mset_eq_imp_distinct_iff [of "xs @ left" all] by simp
  have s: "set all = set xs \<union> set left" using arg_cong [OF assms(2), of set_mset] by simp
  then have "release xs (set all) = Some (set all - set xs)" using d by (intro release_distinct) auto
  moreover have "set all - set xs = set left" using s d by auto
  ultimately show ?thesis by simp
qed

text \<open>The server an object belongs to.\<close>

fun srv_of :: "drv_obj \<Rightarrow> nat option" where
  "srv_of (Ctrl i) = Some i" | "srv_of (Queues_arr i) = Some i" | "srv_of (Mm i) = Some i" | "srv_of (Ht i) = Some i" | "srv_of (Ht_heads i) = Some i"
| "srv_of (Ht_locks i) = Some i" | "srv_of (Rdev i) = Some i" | "srv_of (Pd i) = Some i" | "srv_of (Cm_id i q) = Some i" | "srv_of (Qp i q) = Some i"
| "srv_of (Send_cq i q) = Some i" | "srv_of (Recv_cq i q) = Some i" | "srv_of (Event_cq i q) = Some i" | "srv_of (Mr i) = Some i" | "srv_of (Pool_filter i) = Some i"
| "srv_of (Pool_key i) = Some i" | "srv_of (Pool_pagebuf i) = Some i" | "srv_of (Pool_keypage i) = Some i" | "srv_of (Meta i) = Some i" | "srv_of (Bf i) = Some i"
| "srv_of (Bitmap i) = Some i" | "srv_of (Tmp_bitmap i) = Some i" | "srv_of (Cbf i) = Some i" | "srv_of (Byte_bitmap i) = Some i" | "srv_of (Meta_ht i) = Some i"
| "srv_of (Meta_heads i) = Some i" | "srv_of (Meta_locks i) = Some i" | "srv_of (Worker i) = Some i" | "srv_of (Worker_task i) = Some i" | "srv_of (Af i) = Some i"
| "srv_of (Af_bkts i) = Some i" | "srv_of (Af_lcks i) = Some i" | "srv_of _ = None"

fun queue_of :: "drv_obj \<Rightarrow> nat option" where
  "queue_of (Cm_id i q) = Some q" | "queue_of (Qp i q) = Some q" | "queue_of (Send_cq i q) = Some q" | "queue_of (Recv_cq i q) = Some q"
| "queue_of (Event_cq i q) = Some q" | "queue_of _ = None"

lemma distinct_concat_index:
  assumes "\<And>i. distinct (f i)" "\<And>i x. x \<in> set (f i) \<Longrightarrow> g x = Some i"
  shows "distinct (concat (map f [0..<n]))"
proof (induction n)
  case (Suc n)
  have "x \<notin> set (f n)" if "i < n" "x \<in> set (f i)" for i x using assms(2) [of x i] assms(2) [of x n] that by force
  then show ?case using Suc assms(1) by auto
qed simp

lemma queue_objs_of: "x \<in> set (queue_objs rc i q) \<Longrightarrow> queue_of x = Some q \<and> srv_of x = Some i"
  by (auto simp: queue_objs_def split: if_splits)

lemma queues_distinct: "distinct (concat (map (queue_objs rc i) [0..<n]))"
proof (rule distinct_concat_index [where g = queue_of])
  show "distinct (queue_objs rc i q)" for q by (simp add: queue_objs_def)
qed (simp add: queue_objs_of)

lemma server_objs_of: "x \<in> set (server_objs rc cfg i) \<Longrightarrow> srv_of x = Some i"
  by (auto simp: server_objs_def ctrl_objs_def pool_objs_def backend_objs_def meta_objs_def dest: queue_objs_of split: if_splits metadata_type_t.splits)

lemma server_objs_distinct: "distinct (server_objs rc cfg i)"
proof -
  let ?rest = "ctrl_objs i @ [Rdev i, Pd i] @ [Mr i] @ pool_objs (metadata_type cfg = COOP_BF) i @ backend_objs cfg i"
  have "distinct ?rest" by (auto simp: ctrl_objs_def pool_objs_def backend_objs_def meta_objs_def split: metadata_type_t.splits)
  moreover have "queue_of x = None" if "x \<in> set ?rest" for x
    using that by (auto simp: ctrl_objs_def pool_objs_def backend_objs_def meta_objs_def split: if_splits metadata_type_t.splits)
  moreover have "queue_of x \<noteq> None" if "x \<in> set (concat (map (queue_objs rc i) [0..<num_qps rc]))" for x using that queue_objs_of by fastforce
  then have "set (concat (map (queue_objs rc i) [0..<num_qps rc])) \<inter> set ?rest = {}" using calculation(2) by (metis disjoint_iff)
  ultimately have "distinct (concat (map (queue_objs rc i) [0..<num_qps rc]) @ ?rest)" using queues_distinct [of rc i "num_qps rc"] unfolding distinct_append by blast
  moreover have "mset (concat (map (queue_objs rc i) [0..<num_qps rc]) @ ?rest) = mset (server_objs rc cfg i)" by (simp add: server_objs_def)
  ultimately show ?thesis by (rule mset_eq_imp_distinct_iff [THEN iffD1, rotated])
qed

definition load_list :: "drv_rdma_config_t \<Rightarrow> dcc_config_t \<Rightarrow> drv_obj list" where
  "load_list rc cfg = Backends_arr # map Backend [0..<MAX_NUM_SVRS] @ rdma_init_objs rc cfg"

lemma load_list_distinct: "distinct (load_list rc cfg)"
proof -
  have "distinct (concat (map (server_objs rc cfg) [0..<num_svrs cfg]))"
    by (rule distinct_concat_index [where g = srv_of]) (auto simp: server_objs_distinct dest: server_objs_of)
  moreover have "srv_of x \<noteq> None" if "x \<in> set (concat (map (server_objs rc cfg) [0..<num_svrs cfg]))" for x using that server_objs_of by fastforce
  ultimately show ?thesis by (fastforce simp: load_list_def rdma_init_objs_def distinct_map inj_on_def)
qed

text \<open>What one server leaves behind: the structure of the worker, and the second bitmap of an ordinary filter.\<close>

definition leaked :: "dcc_config_t \<Rightarrow> nat \<Rightarrow> drv_obj list" where
  "leaked cfg i = (if metadata_type cfg = COOP_BF then [Worker i] else if metadata_type cfg = ORDINARY_BF then [Tmp_bitmap i] else [])"

definition tail_objs :: "drv_obj list" where
  "tail_objs = [Ctrls_arr, Req_cache, Ib_client]"

lemma queues_released:
  "mset (concat (map (stop_and_free_queue rc i) [0..<n])) = mset (concat (map (queue_objs rc i) [0..<n]))"
  by (induction n) (simp_all add: stop_and_free_queue_def queue_objs_def)

lemma server_released:
  "mset (exit_server rc cfg i) + mset (if metadata_type cfg = COOP_BF then [Worker_task i] else []) + mset (leaked cfg i)
   = mset (server_objs rc cfg i) + mset (if i = num_svrs cfg - 1 then tail_objs else [])"
  by (cases "metadata_type cfg")
    (simp_all add: exit_server_def dcc_rdma_exit_def queues_released hashtable_exit_def rdma_mem_free_region_def dcc_rdma_free_control_def rdma_mem_exit_def
      metadata_exit_def bf_exit_def af_exit_def leaked_def server_objs_def ctrl_objs_def pool_objs_def backend_objs_def meta_objs_def tail_objs_def)

lemma servers_released:
  "0 < num_svrs cfg \<Longrightarrow> n \<le> num_svrs cfg \<Longrightarrow>
   mset (concat (map (exit_server rc cfg) [0..<n])) + mset (if metadata_type cfg = COOP_BF then map Worker_task [0..<n] else []) + mset (concat (map (leaked cfg) [0..<n]))
   = mset (concat (map (server_objs rc cfg) [0..<n])) + mset (if n = num_svrs cfg then tail_objs else [])"
proof (induction n)
  case (Suc n)
  then have "mset (concat (map (exit_server rc cfg) [0..<n])) + mset (if metadata_type cfg = COOP_BF then map Worker_task [0..<n] else []) + mset (concat (map (leaked cfg) [0..<n]))
      = mset (concat (map (server_objs rc cfg) [0..<n]))" by simp
  moreover have "(n = num_svrs cfg - 1) = (Suc n = num_svrs cfg)" using Suc.prems by auto
  ultimately show ?case using server_released [of rc cfg n] by (cases "metadata_type cfg = COOP_BF") (simp_all add: ac_simps)
qed simp



text \<open>A module whose connection failed loads all the same, and crashes when it is unloaded.\<close>

lemma failed_load_crashes_unload:
  "ready < num_svrs cfg \<Longrightarrow> (\<exists>S. dcc_backend_init_module True (\<lambda>_. True) rdma ret = Some (S, 0) \<and> dcc_backend_exit rc cfg ready S = None)"
proof -
  have al: "alloc_backends (\<lambda>_. True) i n = i + n" for i n by (induction n arbitrary: i) simp_all
  assume "ready < num_svrs cfg"
  then show ?thesis by (simp add: dcc_backend_init_module_def al dcc_backend_exit_def)
qed

text \<open>A backend that cannot be allocated undoes the allocations before it.\<close>

lemma failed_backend_alloc_undone:
  assumes "alloc_backends okb 0 MAX_NUM_SVRS < MAX_NUM_SVRS"
  shows "dcc_backend_init_module True okb rdma ret = Some ({}, - 1)"
proof -
  let ?n = "alloc_backends okb 0 MAX_NUM_SVRS"
  have "release (map Backend [0..<?n] @ [Backends_arr]) (set (Backends_arr # map Backend [0..<?n])) = Some (set [])"
    by (rule release_all_but) (auto simp: distinct_map inj_on_def)
  then show ?thesis using assms by (simp add: dcc_backend_init_module_def)
qed

end
