(* ===== verification/Kv_Steps.thy ===== *)
theory Kv_Steps
  imports KV Lpa_Steps
begin

text \<open>
  The store under contention (\<^verbatim>\<open>daemon/kv.cpp\<close>): the pollers, the handlers and the evictor threads of all
  clients call it at the same time, and none of its operations is atomic.  An operation is a walk through
  the index of its shard, step by step as in \<open>Lpa_Steps\<close>, a call of the page pool, and calls of the
  filters of the clients; the steps of any number of threads interleave in any order.  One call of
  the pool or of a filter is one step; the free lists under the pool are taken apart in \<open>Lfstack_Steps\<close>, the
  filters in \<open>Cbf_Steps\<close>.
\<close>

section \<open>Calls and control points\<close>

datatype kv_call =
    K_insert Key_t Value_t nat nat
  | K_remove Key_t nat nat
  | K_get Key_t
  | K_flag Key_t nat nat bool
  | K_evict nat nat

text \<open>Why a page goes back to the pool: eviction by a put, failed put, old page of the key, background eviction.\<close>

datatype free_reason = F_evicted Key_t | F_failed | F_dup | F_bg Key_t

datatype kv_pc =
    Kv_idle
  | Kv_index kv_call nat lpa_pc
  | Kv_freeing kv_call Value_t nat free_reason
  | Kv_filter_out kv_call Key_t nat Value_t
  | Kv_filter_in kv_call
  | Kv_done kv_call Value_t
  | Kv_dead kv_error

definition index_call :: "kv_call \<Rightarrow> lpa_call" where
  "index_call c = (case c of K_insert k v cid qid \<Rightarrow> C_insert k v INVALID | K_remove k cid qid \<Rightarrow> C_delete k | K_get k \<Rightarrow> C_get k
     | K_flag k cid qid fl \<Rightarrow> C_flag k fl | K_evict cid qid \<Rightarrow> C_evict)"

text \<open>The beginning of an operation chooses the shard.\<close>

definition kv_begin :: "kv_call \<Rightarrow> KV \<Rightarrow> KV \<times> kv_pc" where
  "kv_begin c s = (case c of
       K_insert k v cid qid \<Rightarrow> (s, Kv_index c (get_ht_shard_id s k) (start_pc (index_call c)))
     | K_remove k cid qid \<Rightarrow> (s, Kv_index c (get_ht_shard_id s k) (start_pc (index_call c)))
     | K_get k \<Rightarrow> (s, Kv_index c (get_ht_shard_id s k) (start_pc (index_call c)))
     | K_flag k cid qid fl \<Rightarrow> (s, Kv_index c (get_ht_shard_id s k) (start_pc (index_call c)))
     | K_evict cid qid \<Rightarrow> (case next_victim s of (sh, s') \<Rightarrow> (s', Kv_index c sh (start_pc (index_call c)))))"

section \<open>Steps\<close>

text \<open>The index has returned; then the pool; then the filters.\<close>

fun after_index :: "kv_call \<Rightarrow> lpa_ret \<Rightarrow> KV \<Rightarrow> KV \<times> kv_pc" where
  "after_index c (R_throw x) s = (s, Kv_dead (Kv_table x))"
| "after_index (K_insert k v cid qid) (R_insert ret ek ev) s =
     (if ek \<noteq> INVALID \<and> ev \<noteq> NONE then
        (s, Kv_freeing (K_insert k v cid qid) ev (unat (longkey_to_cid ek)) (if ret = 0 then F_evicted ek else F_failed))
      else if ev \<noteq> NONE then (s, if ret \<noteq> 0 then Kv_dead Kv_dup_failed else Kv_freeing (K_insert k v cid qid) ev cid F_dup)
      else (s, if ret = 0 then Kv_filter_in (K_insert k v cid qid) else Kv_done (K_insert k v cid qid) NONE))"
| "after_index (K_remove k cid qid) (R_value v) s =
     (if v \<noteq> NONE then (s, Kv_filter_out (K_remove k cid qid) k cid v)
      else (inc_stat KV_FAILED_INV (get_cpu_id s cid qid) s, Kv_done (K_remove k cid qid) NONE))"
| "after_index (K_get k) (R_value v) s = (s, Kv_done (K_get k) v)"
| "after_index (K_flag k cid qid fl) (R_value v) s =
     (inc_stat (if v \<noteq> NONE then KV_SUCC_GET else KV_FAILED_GET) (get_cpu_id s cid qid) s, Kv_done (K_flag k cid qid fl) v)"
| "after_index (K_evict cid qid) (R_evict k v) s = (s, Kv_freeing (K_evict cid qid) v (unat (longkey_to_cid k)) (F_bg k))"
| "after_index c r s = (s, Kv_dead Kv_assert)"

fun after_free :: "kv_call \<Rightarrow> nat \<Rightarrow> free_reason \<Rightarrow> KV \<Rightarrow> KV \<times> kv_pc" where
  "after_free c ev_cid (F_evicted ek) s = (s, Kv_filter_out c ek ev_cid NONE)"
| "after_free (K_insert k v cid qid) ev_cid F_failed s = (inc_stat KV_FAILED_PUT (get_cpu_id s cid qid) s, Kv_done (K_insert k v cid qid) NONE)"
| "after_free (K_insert k v cid qid) ev_cid F_dup s =
     (inc_stat KV_UPDATED_PUT (get_cpu_id s cid qid) s, Kv_index (K_insert k v cid qid) (get_ht_shard_id s k) (start_pc (C_insert k v INVALID)))"
| "after_free c ev_cid (F_bg k) s = (s, Kv_filter_out c k ev_cid NONE)"
| "after_free c ev_cid r s = (s, Kv_dead Kv_assert)"

fun after_filter_out :: "kv_call \<Rightarrow> nat \<Rightarrow> Value_t \<Rightarrow> KV \<Rightarrow> KV \<times> kv_pc" where
  "after_filter_out (K_insert k v cid qid) ev_cid w s = (inc_stat KV_EVICTED_PUT (get_cpu_id s cid qid) s, Kv_filter_in (K_insert k v cid qid))"
| "after_filter_out (K_remove k cid qid) ev_cid w s = (inc_stat KV_SUCC_INV (get_cpu_id s cid qid) s, Kv_done (K_remove k cid qid) w)"
| "after_filter_out (K_evict cid qid) ev_cid w s = (inc_stat KV_EVICTED_BG (get_cpu_id s ev_cid qid) s, Kv_done (K_evict cid qid) NONE)"
| "after_filter_out c ev_cid w s = (s, Kv_done c w)"

fun after_filter_in :: "kv_call \<Rightarrow> KV \<Rightarrow> KV \<times> kv_pc" where
  "after_filter_in (K_insert k v cid qid) s = (inc_stat KV_SUCC_PUT (get_cpu_id s cid qid) (filter_insert cid k s), Kv_done (K_insert k v cid qid) NONE)"
| "after_filter_in c s = (s, Kv_done c NONE)"

text \<open>What one step takes from its environment: the clock, a random number, a spurious failure, the list chosen by the pool.\<close>

record kv_input =
  in_now :: u32
  in_rand :: nat
  in_weak :: bool
  in_list :: nat

fun kv_step :: "kv_input \<Rightarrow> (nat \<Rightarrow> nat \<Rightarrow> bool) \<Rightarrow> (nat \<Rightarrow> nat \<Rightarrow> bool) \<Rightarrow> kv_pc \<Rightarrow> KV \<Rightarrow> KV \<times> kv_pc" where
  "kv_step e fx fs (Kv_index c sh (Lp_done lc r)) s = after_index c r s"
| "kv_step e fx fs (Kv_index c sh p) s =
     (case lpa_step (in_now e) (in_rand e) (in_weak e) (fx sh) (fs sh) p (hashes s ! sh) of (t, p') \<Rightarrow> (set_table sh t s, Kv_index c sh p'))"
| "kv_step e fx fs (Kv_freeing c v cid r) s =
     (case kv_Free v cid None (in_list e) s of None \<Rightarrow> (s, Kv_dead Kv_assert) | Some s' \<Rightarrow> after_free c cid r s')"
| "kv_step e fx fs (Kv_filter_out c k cid v) s = after_filter_out c cid v (filter_remove cid k s)"
| "kv_step e fx fs (Kv_filter_in c) s = after_filter_in c s"
| "kv_step e fx fs pc s = (s, pc)"

section \<open>Interleaving\<close>

text \<open>A thread seen from a shard: it is idle there while it is elsewhere.\<close>

fun at_shard :: "nat \<Rightarrow> kv_pc \<Rightarrow> lpa_pc" where
  "at_shard sh (Kv_index c sh' p) = (if sh' = sh then p else Lp_idle)"
| "at_shard sh _ = Lp_idle"

definition kv_free_x :: "KV \<Rightarrow> kv_pc list \<Rightarrow> nat \<Rightarrow> nat \<Rightarrow> nat \<Rightarrow> bool" where
  "kv_free_x s pcs j sh = free_x (hashes s ! sh) (map (at_shard sh) pcs) j"

definition kv_free_s :: "KV \<Rightarrow> kv_pc list \<Rightarrow> nat \<Rightarrow> nat \<Rightarrow> nat \<Rightarrow> bool" where
  "kv_free_s s pcs j sh = free_s (hashes s ! sh) (map (at_shard sh) pcs) j"

definition kv_go :: "kv_input \<Rightarrow> nat \<Rightarrow> KV \<Rightarrow> kv_pc list \<Rightarrow> KV \<times> kv_pc" where
  "kv_go e j s pcs = kv_step e (kv_free_x s pcs j) (kv_free_s s pcs j) (pcs ! j) s"

fun kv_rest :: "kv_pc \<Rightarrow> bool" where
  "kv_rest Kv_idle = True"
| "kv_rest (Kv_done c v) = True"
| "kv_rest _ = False"

fun kv_keeps :: "kv_pc \<Rightarrow> bool" where
  "kv_keeps (Kv_index c sh p) = keeps_victim p"
| "kv_keeps _ = False"

text \<open>The keys the handlers pass belong to the client that calls.\<close>

fun kv_call_ok :: "KV \<Rightarrow> kv_call \<Rightarrow> bool" where
  "kv_call_ok s (K_insert k v cid qid) \<longleftrightarrow> unreserved k \<and> key_cid k = cid \<and> cid < num_clients (config s)"
| "kv_call_ok s (K_remove k cid qid) \<longleftrightarrow> unreserved k"
| "kv_call_ok s _ \<longleftrightarrow> True"

text \<open>The page an operation takes over from the caller, and those in the hands of a thread.\<close>

fun kv_given :: "kv_call \<Rightarrow> Value_t multiset" where
  "kv_given (K_insert k v cid qid) = {#v#}"
| "kv_given _ = {#}"

fun kv_held :: "kv_pc \<Rightarrow> Value_t multiset" where
  "kv_held (Kv_index c sh p) = held_pages p"
| "kv_held (Kv_freeing c v cid r) = (if r = F_dup then add_mset v (kv_given c) else {#v#})"
| "kv_held (Kv_filter_out (K_remove k cid qid) k' cid' v) = {#v#}"
| "kv_held (Kv_done (K_remove k cid qid) v) = (if v = NONE then {#} else {#v#})"
| "kv_held _ = {#}"

text \<open>
  \<open>kvs_reach s0 held0 m stale s pcs out\<close>: from the store \<open>s0\<close>, with the pages \<open>held0\<close> in the hands of the callers, the \<open>m\<close>
  threads came to \<open>s\<close> and \<open>pcs\<close>, and the callers now hold the pages \<open>out\<close>: they allocate and release pages, hand them in with a put and take over those of an
  invalidation.  The evictors borrow pages from the lists of a peer.
\<close>

inductive kvs_reach :: "KV \<Rightarrow> Value_t multiset \<Rightarrow> nat \<Rightarrow> bool \<Rightarrow> KV \<Rightarrow> kv_pc list \<Rightarrow> Value_t multiset \<Rightarrow> bool" for s0 held0 m where
  kvs_new: "kvs_reach s0 held0 m False s0 (replicate m Kv_idle) held0"
| kvs_call: "kvs_reach s0 held0 m stale s pcs out \<Longrightarrow> j < m \<Longrightarrow> kv_rest (pcs ! j) \<Longrightarrow> kv_call_ok s c \<Longrightarrow> kv_given c \<subseteq># out \<Longrightarrow>
    kv_begin c s = (s', pc) \<Longrightarrow> kvs_reach s0 held0 m stale s' (pcs[j := pc]) (out - kv_given c + kv_held (pcs ! j))"
| kvs_go: "kvs_reach s0 held0 m stale s pcs out \<Longrightarrow> j < m \<Longrightarrow> kv_go e j s pcs = (s', pc) \<Longrightarrow>
    kvs_reach s0 held0 m (stale \<or> kv_keeps pc) s' (pcs[j := pc]) out"
| kvs_alloc: "kvs_reach s0 held0 m stale s pcs out \<Longrightarrow> valid_queue (kpool s) cid qid \<Longrightarrow> kv_Allocate cid qid r s = (s', a) \<Longrightarrow>
    kvs_reach s0 held0 m stale s' pcs (if a = - 1 then out else add_mset a out)"
| kvs_release: "kvs_reach s0 held0 m stale s pcs out \<Longrightarrow> valid_queue (kpool s) cid qid \<Longrightarrow> v \<in># out \<Longrightarrow> kv_Free v cid qid r s = Some s' \<Longrightarrow>
    kvs_reach s0 held0 m stale s' pcs (out - {#v#})"
| kvs_borrow: "kvs_reach s0 held0 m stale s pcs out \<Longrightarrow> fl < total_fl (kpool s) \<Longrightarrow> AllocateFromPeer fl (kpool s) = Some (p, a) \<Longrightarrow>
    kvs_reach s0 held0 m stale (s\<lparr>kpool := p\<rparr>) pcs out"

section \<open>What the threads rely on\<close>

definition shard_key :: "KV \<Rightarrow> nat \<Rightarrow> Key_t \<Rightarrow> bool" where
  "shard_key s sh k \<longleftrightarrow> get_ht_shard_id s k = sh \<and> key_cid k < num_clients (config s)"

definition shard_ok :: "KV \<Rightarrow> kv_pc list \<Rightarrow> nat \<Rightarrow> bool" where
  "shard_ok s pcs sh \<longleftrightarrow> lpa_wf (hashes s ! sh) \<and> (\<forall>pc \<in> set pcs. lpc_ok (hashes s ! sh) (at_shard sh pc))
     \<and> excl (hashes s ! sh) (map (at_shard sh) pcs) \<and> keys_in (shard_key s sh) (hashes s ! sh)"

fun reason_ok :: "kv_call \<Rightarrow> free_reason \<Rightarrow> bool" where
  "reason_ok (K_insert k v cid qid) (F_bg ek) = False"
| "reason_ok (K_insert k v cid qid) r = True"
| "reason_ok (K_evict cid qid) (F_bg k) = True"
| "reason_ok _ _ = False"

fun kv_pc_ok :: "KV \<Rightarrow> kv_pc \<Rightarrow> bool" where
  "kv_pc_ok s (Kv_index c sh p) \<longleftrightarrow> sh < num_ht_shards (config s) \<and> kv_call_ok s c \<and> call_ok (index_call c) \<and> pc_call p = Some (index_call c)
     \<and> call_key_ok (shard_key s sh) (index_call c) \<and> pc_ret_ok (shard_key s sh) p"
| "kv_pc_ok s (Kv_freeing c v cid r) \<longleftrightarrow> cid < num_clients (config s) \<and> kv_call_ok s c \<and> call_ok (index_call c) \<and> reason_ok c r"
| "kv_pc_ok s (Kv_filter_out (K_insert k w cid qid) k' cid' v) \<longleftrightarrow> kv_call_ok s (K_insert k w cid qid)"
| "kv_pc_ok s (Kv_filter_out (K_remove k cid qid) k' cid' v) \<longleftrightarrow> v \<noteq> NONE"
| "kv_pc_ok s (Kv_filter_out (K_evict cid qid) k' cid' v) \<longleftrightarrow> True"
| "kv_pc_ok s (Kv_filter_out c k' cid' v) \<longleftrightarrow> False"
| "kv_pc_ok s (Kv_filter_in c) \<longleftrightarrow> kv_given c \<noteq> {#}"
| "kv_pc_ok s (Kv_dead x) \<longleftrightarrow> False"
| "kv_pc_ok s _ \<longleftrightarrow> True"

definition kv_pages :: "KV \<Rightarrow> kv_pc list \<Rightarrow> Value_t multiset" where
  "kv_pages s pcs = sum_list (map table_pages (hashes s)) + sum_list (map kv_held pcs)"

definition kvs_inv :: "nat \<Rightarrow> Value_t multiset \<Rightarrow> KV \<Rightarrow> kv_pc list \<Rightarrow> Value_t multiset \<Rightarrow> bool" where
  "kvs_inv N all s pcs out \<longleftrightarrow> 0 < num_ht_shards (config s) \<and> length (hashes s) = num_ht_shards (config s)
     \<and> pool_num_clients (kpool s) = num_clients (config s)
     \<and> (\<forall>sh < num_ht_shards (config s). shard_ok s pcs sh) \<and> (\<forall>pc \<in> set pcs. kv_pc_ok s pc)
     \<and> pool.owns N all (kpool s) (kv_pages s pcs + out) \<and> NONE \<notin># all"


section \<open>Every step keeps the invariant\<close>

lemma shard_key_cong: "config s' = config s \<Longrightarrow> shard_key s' = shard_key s"
  by (simp add: shard_key_def get_ht_shard_id_def fun_eq_iff)

lemma kv_call_ok_cong: "config s' = config s \<Longrightarrow> kv_call_ok s' c = kv_call_ok s c"
  by (cases c) simp_all

lemma kv_pc_ok_cong:
  assumes "config s' = config s"
  shows "kv_pc_ok s' pc = kv_pc_ok s pc"
  using assms kv_call_ok_cong [OF assms] shard_key_cong [OF assms] by (cases "(s', pc)" rule: kv_pc_ok.cases) simp_all

text \<open>A step outside the index: the thread ends in a place where it holds no lock.\<close>

definition quiet :: "KV \<Rightarrow> kv_pc \<Rightarrow> bool" where
  "quiet s pc \<longleftrightarrow> (\<forall>sh < num_ht_shards (config s). holds_x (hashes s ! sh) (at_shard sh pc) = None \<and> holds_s (hashes s ! sh) (at_shard sh pc) = None
     \<and> lpc_ok (hashes s ! sh) (at_shard sh pc))"

lemma quiet_elsewhere: "(\<And>sh. at_shard sh pc = Lp_idle) \<Longrightarrow> quiet s pc"
  by (simp add: quiet_def)

lemma quiet_start: "call_ok c \<Longrightarrow> quiet s (Kv_index k sh (start_pc c))"
  by (simp add: quiet_def start_pc_simps)

lemma shard_ok_quiet:
  assumes "shard_ok s pcs sh" "j < length pcs" "config s' = config s" "hashes s' = hashes s" "sh < num_ht_shards (config s)" "quiet s pc"
  shows "shard_ok s' (pcs[j := pc]) sh"
proof -
  let ?t = "hashes s ! sh"
  have q: "holds_x ?t (at_shard sh pc) = None" "holds_s ?t (at_shard sh pc) = None" "lpc_ok ?t (at_shard sh pc)" using assms(5,6) by (simp_all add: quiet_def)
  have "excl ?t (map (at_shard sh) (pcs[j := pc]))"
    using excl_idle [OF q(1,2), of "map (at_shard sh) pcs" j] assms(1,2) by (simp add: shard_ok_def map_update)
  moreover have "\<forall>p \<in> set (pcs[j := pc]). lpc_ok ?t (at_shard sh p)"
    using assms(1) q(3) set_update_subset_insert [of pcs j pc] by (auto simp: shard_ok_def)
  ultimately show ?thesis using assms(1) by (simp add: shard_ok_def assms(4) shard_key_cong [OF assms(3)])
qed

lemma kvs_inv_quiet:
  assumes I: "kvs_inv N all s pcs out" and j: "j < length pcs" and c: "config s' = config s" "hashes s' = hashes s" "pool_num_clients (kpool s') = pool_num_clients (kpool s)"
    and q: "quiet s pc" "kv_pc_ok s pc" and own: "pool.owns N all (kpool s') X" "X + kv_held (pcs ! j) = kv_pages s pcs + kv_held pc + out'"
  shows "kvs_inv N all s' (pcs[j := pc]) out'"
proof -
  have "sum_list (map kv_held (pcs[j := pc])) + kv_held (pcs ! j) = sum_list (map kv_held pcs) + kv_held pc" by (rule sum_list_update_at [OF j])
  then have "(kv_pages s' (pcs[j := pc]) + out') + kv_held (pcs ! j) = X + kv_held (pcs ! j)"
    unfolding own(2) by (simp add: kv_pages_def c(2) ac_simps)
  then have X: "X = kv_pages s' (pcs[j := pc]) + out'" by simp
  have "\<forall>p \<in> set (pcs[j := pc]). kv_pc_ok s' p"
    using I q(2) set_update_subset_insert [of pcs j pc] by (auto simp: kvs_inv_def kv_pc_ok_cong [OF c(1)])
  moreover have "\<forall>sh < num_ht_shards (config s). shard_ok s' (pcs[j := pc]) sh"
    using I shard_ok_quiet [OF _ j c(1,2) _ q(1)] by (simp add: kvs_inv_def)
  ultimately show ?thesis using I own(1) unfolding X by (simp add: kvs_inv_def c)
qed

text \<open>A step in the index of a shard.\<close>

lemma kv_index_step:
  "\<not> (\<exists>c r. p = Lp_done c r) \<Longrightarrow> kv_step e fx fs (Kv_index c sh p) s =
     (case lpa_step (in_now e) (in_rand e) (in_weak e) (fx sh) (fs sh) p (hashes s ! sh) of (t, p') \<Rightarrow> (set_table sh t s, Kv_index c sh p'))"
  by (cases p) auto

lemma kvs_inv_index:
  assumes I: "kvs_inv N all s pcs out" and j: "j < length pcs" and p: "pcs ! j = Kv_index c sh p"
    and st: "lpa_step now rand weak (kv_free_x s pcs j sh) (kv_free_s s pcs j sh) p (hashes s ! sh) = (t', p')" and k: "\<not> keeps_victim p'"
  shows "kvs_inv N all (set_table sh t' s) (pcs[j := Kv_index c sh p']) out"
proof -
  let ?t = "hashes s ! sh" and ?P = "map (at_shard sh) pcs" and ?s = "set_table sh t' s" and ?pcs = "pcs[j := Kv_index c sh p']"
  have "kv_pc_ok s (pcs ! j)" using I j by (simp add: kvs_inv_def)
  then have ok: "sh < num_ht_shards (config s)" "pc_call p = Some (index_call c)" "call_key_ok (shard_key s sh) (index_call c)" "pc_ret_ok (shard_key s sh) p"
      "kv_call_ok s c" "call_ok (index_call c)" by (simp_all add: p)
  have len: "length (hashes s) = num_ht_shards (config s)" using I by (simp add: kvs_inv_def)
  have S: "shard_ok s pcs sh" using I ok(1) by (simp add: kvs_inv_def)
  have Pj: "?P ! j = p" "j < length ?P" using j p by simp_all
  have "lpc_ok ?t (?P ! j)" using S j by (simp add: shard_ok_def)
  then have lok: "lpc_ok ?t p" by (simp add: Pj)
  have wf: "lpa_wf ?t" and kin: "keys_in (shard_key s sh) ?t" using S by (simp_all add: shard_ok_def)
  have "lpa_invs ?t ?t ?P (sum_list (map held_pages ?P)) {#}" using S by (simp add: lpa_invs_def shard_ok_def)
  from lpa_invs_step [OF this Pj(2) _ k] have L: "lpa_invs ?t t' (?P[j := p']) (sum_list (map held_pages ?P)) {#}"
    using st unfolding kv_free_x_def kv_free_s_def Pj(1) by blast
  have K: "keys_in (shard_key s sh) t'" "pc_call p' = Some (index_call c)" "pc_ret_ok (shard_key s sh) p'"
    using lpa_step_keys [OF wf kin lok ok(2-4), where now = now and rand = rand and weak = weak and fx = "kv_free_x s pcs j sh" and fs = "kv_free_s s pcs j sh"] st by (simp_all add: keys_step_def)
  have g: "table_pages t' + held_pages p' = table_pages ?t + held_pages p"
    using lpa_step_good [OF wf lok, where now = now and rand = rand and weak = weak and fx = "kv_free_x s pcs j sh" and fs = "kv_free_s s pcs j sh"] st by (simp add: good_step_def)
  have tt: "sum_list (map table_pages (hashes ?s)) + table_pages ?t = sum_list (map table_pages (hashes s)) + table_pages t'"
    using sum_list_update_at [of sh "hashes s" table_pages t'] ok(1) len by simp
  have hh: "sum_list (map kv_held ?pcs) + held_pages p = sum_list (map kv_held pcs) + held_pages p'"
    using sum_list_update_at [OF j, of kv_held "Kv_index c sh p'"] p by simp
  have "kv_pages ?s ?pcs + (table_pages ?t + held_pages p) = (sum_list (map table_pages (hashes ?s)) + table_pages ?t) + (sum_list (map kv_held ?pcs) + held_pages p)"
    by (simp add: kv_pages_def ac_simps)
  also have "\<dots> = kv_pages s pcs + (table_pages t' + held_pages p')" unfolding tt hh by (simp add: kv_pages_def ac_simps)
  finally have pages: "kv_pages ?s ?pcs = kv_pages s pcs" unfolding g by simp
  have shards: "shard_ok ?s ?pcs sh'" if sh': "sh' < num_ht_shards (config s)" for sh'
  proof (cases "sh' = sh")
    case True
    have m: "map (at_shard sh) ?pcs = ?P[j := p']" by (simp add: map_update)
    have "\<forall>pc \<in> set (map (at_shard sh) ?pcs). lpc_ok t' pc" unfolding m using L by (simp add: lpa_invs_def)
    then have "\<forall>pc \<in> set ?pcs. lpc_ok t' (at_shard sh pc)" by (simp only: set_map ball_simps)
    then show ?thesis using L K(1) ok(1) len unfolding True shard_ok_def m by (simp add: lpa_invs_def shard_key_cong [of ?s s])
  next
    case False
    have "at_shard sh' (pcs ! j) = Lp_idle" using p False by simp
    then have "(map (at_shard sh') pcs)[j := Lp_idle] = map (at_shard sh') pcs" using j by (metis list_update_id nth_map)
    then have m: "map (at_shard sh') ?pcs = map (at_shard sh') pcs" using False by (simp add: map_update)
    have "\<forall>p \<in> set (map (at_shard sh') pcs). lpc_ok (hashes s ! sh') p" using I sh' by (simp add: kvs_inv_def shard_ok_def)
    then have "\<forall>pc \<in> set ?pcs. lpc_ok (hashes s ! sh') (at_shard sh' pc)" unfolding m [symmetric] by (simp only: set_map ball_simps)
    then show ?thesis using I sh' False len unfolding shard_ok_def m by (simp add: kvs_inv_def shard_ok_def shard_key_cong [of ?s s])
  qed
  have "\<forall>pc \<in> set ?pcs. kv_pc_ok ?s pc"
    using I K(2,3) ok set_update_subset_insert [of pcs j "Kv_index c sh p'"] by (auto simp: kvs_inv_def kv_pc_ok_cong [of ?s s] simp del: kv_pc_ok.simps) auto
  then show ?thesis using I shards pages by (simp add: kvs_inv_def)
qed


text \<open>The steps outside the index.\<close>

definition kv_same :: "KV \<Rightarrow> KV \<Rightarrow> bool" where
  "kv_same s s' \<longleftrightarrow> config s' = config s \<and> hashes s' = hashes s \<and> kpool s' = kpool s"

lemma kv_same_simps [simp]:
  "kv_same s s" "kv_same s (inc_stat x c s') = kv_same s s'" "kv_same s (filter_insert cid k s') = kv_same s s'" "kv_same s (filter_remove cid k s') = kv_same s s'"
  by (simp_all add: kv_same_def)

lemma kvs_inv_same:
  assumes "kvs_inv N all s pcs out" "j < length pcs" "kv_same s s'" "quiet s pc" "kv_pc_ok s pc" "kv_held pc = kv_held (pcs ! j)"
  shows "kvs_inv N all s' (pcs[j := pc]) out"
  using assms by (intro kvs_inv_quiet [where X = "kv_pages s pcs + out"]) (auto simp: kvs_inv_def kv_same_def ac_simps)

text \<open>What holds of a result of the index, of the page pool and of the filters.\<close>

definition good_pc :: "KV \<Rightarrow> Value_t multiset \<Rightarrow> KV \<times> kv_pc \<Rightarrow> bool" where
  "good_pc s h x \<longleftrightarrow> kv_same s (fst x) \<and> quiet s (snd x) \<and> kv_pc_ok s (snd x) \<and> kv_held (snd x) = h"

lemma after_index_good:
  assumes ok: "kv_pc_ok s (Kv_index c sh (Lp_done lc r))" and r: "\<forall>x. r \<noteq> R_throw x"
  shows "good_pc s (held_pages (Lp_done lc r)) (after_index c r s)"
proof -
  have lc: "lc = index_call c" using ok by simp
  then have ro: "ret_ok (shard_key s sh) (index_call c) r" using ok by simp
  note d = good_pc_def lc index_call_def quiet_elsewhere
  show ?thesis
  proof (cases c)
    case (K_insert k v cid qid)
    then obtain ret ek ev where R: "r = R_insert ret ek ev" using ro r by (cases r) (auto simp: index_call_def)
    have c: "unreserved k" "key_cid k = cid" "cid < num_clients (config s)" "v \<noteq> NONE" using ok K_insert by (simp_all add: index_call_def)
    have n: "k \<noteq> INVALID" using c(1) by (auto simp: unreserved_def)
    have e: "if ret \<noteq> 0 then ek = k \<and> ev = v else ev = NONE \<or> ek = INVALID \<or> unreserved ek \<and> shard_key s sh ek"
      using ro K_insert R by (simp add: index_call_def)
    show ?thesis using ok e c n unfolding K_insert R by (auto simp: d shard_key_def)
  next
    case (K_remove k cid qid)
    then show ?thesis using ro r ok by (cases r) (auto simp: d)
  next
    case (K_get k)
    then show ?thesis using ro r by (cases r) (auto simp: d)
  next
    case (K_flag k cid qid fl)
    then show ?thesis using ro r by (cases r) (auto simp: d)
  next
    case (K_evict cid qid)
    then show ?thesis using ro r ok by (cases r) (auto simp: d shard_key_def)
  qed
qed

lemma after_free_good:
  assumes "kv_pc_ok s (Kv_freeing c v cid r)" "0 < num_ht_shards (config s)"
  shows "good_pc s (kv_held (Kv_freeing c v cid r) - {#v#}) (after_free c cid r s)"
proof -
  have sh: "get_ht_shard_id s k < num_ht_shards (config s)" for k using assms(2) by (simp add: get_ht_shard_id_def)
  show ?thesis
  proof (cases r)
    case F_dup
    then obtain k w cid' qid where c: "c = K_insert k w cid' qid" using assms(1) by (cases c) auto
    have w: "unreserved k" "key_cid k < num_clients (config s)" "w \<noteq> NONE" using assms(1) c by (auto simp: index_call_def)
    have "quiet s (Kv_index c (get_ht_shard_id s k) (start_pc (C_insert k w INVALID)))" by (rule quiet_start) (use w in simp)
    then show ?thesis using assms(1) sh w by (simp add: F_dup c good_pc_def index_call_def start_pc_simps(3) shard_key_def) (simp add: start_pc_def)
  qed (use assms(1) in \<open>cases c; auto simp: good_pc_def quiet_elsewhere\<close>)+
qed

lemma after_filter_good:
  assumes "kv_pc_ok s (Kv_filter_out c k cid v)"
  shows "good_pc s (kv_held (Kv_filter_out c k cid v)) (after_filter_out c cid v (filter_remove cid k s))"
  using assms by (cases c) (auto simp: good_pc_def quiet_elsewhere)

lemma after_filter_in_good: "kv_pc_ok s (Kv_filter_in c) \<Longrightarrow> good_pc s {#} (after_filter_in c s)"
  by (cases c) (auto simp: good_pc_def quiet_elsewhere)


lemma kvs_inv_good:
  assumes "kvs_inv N all s pcs out" "j < length pcs" "good_pc s (kv_held (pcs ! j)) x"
  shows "kvs_inv N all (fst x) (pcs[j := snd x]) out"
  using kvs_inv_same [OF assms(1,2)] assms(3) by (simp add: good_pc_def)

lemma valid_queue_clients: "valid_queue p = valid_queue p' \<Longrightarrow> pool_num_clients p = pool_num_clients p'"
proof -
  assume v: "valid_queue p = valid_queue p'"
  have "c < pool_num_clients p \<longleftrightarrow> c < pool_num_clients p'" for c using fun_cong [OF fun_cong [OF v], of c None] by (simp add: valid_queue_def)
  then show ?thesis by (metis linorder_neqE_nat order_less_irrefl)
qed

lemma kvs_inv_go:
  assumes I: "kvs_inv N all s pcs out" and j: "j < length pcs" and st: "kv_go e j s pcs = (s', pc)" and k: "\<not> kv_keeps pc"
  shows "kvs_inv N all s' (pcs[j := pc]) out"
proof -
  have ok: "kv_pc_ok s (pcs ! j)" and n: "0 < num_ht_shards (config s)" using I j by (simp_all add: kvs_inv_def)
  have good: "kvs_inv N all s' (pcs[j := pc]) out" if "good_pc s (kv_held (pcs ! j)) (kv_go e j s pcs)"
    using kvs_inv_good [OF I j that] st by simp
  show ?thesis
  proof (cases "pcs ! j")
    case (Kv_index c sh p)
    show ?thesis
    proof (cases "\<exists>lc r. p = Lp_done lc r")
      case True
      then obtain lc r where p: "p = Lp_done lc r" by blast
      have "shard_ok s pcs sh" using I ok Kv_index by (simp add: kvs_inv_def)
      then have "lpc_ok (hashes s ! sh) (at_shard sh (pcs ! j))" using j nth_mem unfolding shard_ok_def by blast
      then have "\<forall>x. r \<noteq> R_throw x" by (simp add: Kv_index p)
      then have "good_pc s (held_pages (Lp_done lc r)) (after_index c r s)" using after_index_good ok unfolding Kv_index p by blast
      then show ?thesis by (intro good) (simp add: kv_go_def Kv_index p)
    next
      case False
      obtain t' p' where L: "lpa_step (in_now e) (in_rand e) (in_weak e) (kv_free_x s pcs j sh) (kv_free_s s pcs j sh) p (hashes s ! sh) = (t', p')" by fastforce
      have "s' = set_table sh t' s" "pc = Kv_index c sh p'" using st L by (simp_all add: kv_go_def Kv_index kv_index_step [OF False])
      then show ?thesis using kvs_inv_index [OF I j Kv_index L] k by simp
    qed
  next
    case (Kv_freeing c v cid r)
    have own: "pool.owns N all (kpool s) (kv_pages s pcs + out)" and cl: "pool_num_clients (kpool s) = num_clients (config s)" using I by (simp_all add: kvs_inv_def)
    have c: "cid < num_clients (config s)" using ok Kv_freeing by simp
    have "sum_list (map kv_held pcs) = sum_list (map kv_held (pcs[j := Kv_idle])) + kv_held (pcs ! j)" using sum_list_update_at [OF j, of kv_held Kv_idle] by simp
    moreover have "v \<in># kv_held (pcs ! j)" using Kv_freeing by simp
    ultimately have v: "v \<in># kv_pages s pcs + out" by (simp add: kv_pages_def)
    have "valid_queue (kpool s) cid None" using c cl by (simp add: valid_queue_def)
    from pool.release_owns [OF own this v, of "in_list e"] obtain p where p: "pool_Free v cid None (in_list e) (kpool s) = Some p"
      "pool.owns N all p (kv_pages s pcs + out - {#v#})" "valid_queue p = valid_queue (kpool s)" by blast
    have pn: "pool_num_clients p = pool_num_clients (kpool s)" using p(3) by (rule valid_queue_clients)
    let ?s = "s\<lparr>kpool := p\<rparr>"
    have "kv_pc_ok ?s (pcs ! j)" unfolding kv_pc_ok_cong [of ?s s, simplified] by (rule ok)
    then have "good_pc ?s (kv_held (pcs ! j) - {#v#}) (after_free c cid r ?s)" using after_free_good n unfolding Kv_freeing by simp
    moreover have "after_free c cid r ?s = (s', pc)" using st p(1) Kv_freeing by (simp add: kv_go_def kv_Free_def)
    ultimately have g: "kv_same ?s s'" "quiet ?s pc" "kv_pc_ok ?s pc" "kv_held pc = kv_held (pcs ! j) - {#v#}" by (simp_all add: good_pc_def)
    have "kv_held (pcs ! j) = add_mset v (kv_held pc)" unfolding g(4) using Kv_freeing by simp
    then have X: "kv_pages s pcs + out - {#v#} + kv_held (pcs ! j) = kv_pages s pcs + kv_held pc + out" using v by simp
    show ?thesis
    proof (rule kvs_inv_quiet [OF I j _ _ _ _ _ _ X])
      show "kv_pc_ok s pc" using g(3) unfolding kv_pc_ok_cong [of ?s s, simplified] .
    qed (use g(1,2) p(2) pn in \<open>simp_all add: kv_same_def quiet_def\<close>)
  next
    case (Kv_filter_out c k cid v)
    then show ?thesis using after_filter_good [of s c k cid v] ok by (intro good) (simp add: kv_go_def)
  next
    case (Kv_filter_in c)
    then show ?thesis using after_filter_in_good [of s c] ok by (intro good) (simp add: kv_go_def)
  qed (use st I list_update_id [of pcs j] in \<open>auto simp: kv_go_def\<close>)
qed


section \<open>Reachable states\<close>

lemma kvs_inv_call:
  assumes I: "kvs_inv N all s pcs out" and j: "j < length pcs" "kv_rest (pcs ! j)" and c: "kv_call_ok s c" "kv_given c \<subseteq># out" and b: "kv_begin c s = (s', pc)"
  shows "kvs_inv N all s' (pcs[j := pc]) (out - kv_given c + kv_held (pcs ! j))"
proof -
  have own: "pool.owns N all (kpool s) (kv_pages s pcs + out)" "NONE \<notin># all" and n: "0 < num_ht_shards (config s)" using I by (simp_all add: kvs_inv_def)
  have "set_mset out \<subseteq> set_mset all" using own(1) by (auto simp: pool.owns_def)
  then have no: "NONE \<notin># out" using own(2) by blast
  have sh: "get_ht_shard_id s k < num_ht_shards (config s)" for k using n by (simp add: get_ht_shard_id_def)
  have ok: "call_ok (index_call c)" using c no by (cases c) (auto simp: index_call_def)
  obtain sh' where B: "pc = Kv_index c sh' (start_pc (index_call c))" "config s' = config s" "hashes s' = hashes s" "kpool s' = kpool s" "sh' < num_ht_shards (config s)"
      "call_key_ok (shard_key s sh') (index_call c)"
    using b sh n c(1) by (cases c) (auto simp: kv_begin_def next_victim_def index_call_def shard_key_def split: if_splits)
  have pcok: "pc_call (start_pc k) = Some k" "pc_ret_ok P (start_pc k)" for k P by (auto simp: start_pc_def split: lpa_call.splits)
  have h: "kv_held pc = kv_given c" unfolding B(1) by (cases c) (simp_all add: start_pc_simps(3) index_call_def)
  obtain rest where r: "out = kv_given c + rest" using c(2) by (auto simp: mset_subset_eq_exists_conv)
  have X: "kv_pages s pcs + out + kv_held (pcs ! j) = kv_pages s pcs + kv_held pc + (out - kv_given c + kv_held (pcs ! j))"
    unfolding h r by (simp add: ac_simps del: union_mset_add_mset_left union_mset_add_mset_right)
  show ?thesis
    by (rule kvs_inv_quiet [OF I j(1) B(2,3) _ _ _ _ X]) (use B ok pcok c(1) own quiet_start [OF ok] in simp_all)
qed

lemma kvs_inv_pool:
  assumes "kvs_inv N all s pcs out" "pool.owns N all p (kv_pages s pcs + out')" "valid_queue p = valid_queue (kpool s)"
  shows "kvs_inv N all (s\<lparr>kpool := p\<rparr>) pcs out'"
proof -
  let ?s = "s\<lparr>kpool := p\<rparr>"
  have c: "config ?s = config s" by simp
  have "shard_ok ?s pcs sh = shard_ok s pcs sh" for sh by (simp add: shard_ok_def shard_key_cong [OF c])
  moreover have "(\<forall>pc \<in> set pcs. kv_pc_ok ?s pc) \<longleftrightarrow> (\<forall>pc \<in> set pcs. kv_pc_ok s pc)" by (simp only: kv_pc_ok_cong [OF c])
  moreover have "kv_pages ?s pcs = kv_pages s pcs" by (simp add: kv_pages_def)
  ultimately show ?thesis using assms(1,2) valid_queue_clients [OF assms(3)] unfolding kvs_inv_def by simp
qed

lemma kvs_reach_inv:
  assumes "kvs_reach s0 held0 m stale s pcs out" "kvs_inv N all s0 (replicate m Kv_idle) held0"
  shows "length pcs = m \<and> (\<not> stale \<longrightarrow> kvs_inv N all s pcs out)"
  using assms
proof (induction rule: kvs_reach.induct)
  case (kvs_call stale s pcs out j c s' pc)
  then show ?case using kvs_inv_call [of N all s pcs out j c s' pc] by simp
next
  case (kvs_go stale s pcs out j e s' pc)
  then show ?case using kvs_inv_go [of N all s pcs out j e s' pc] by auto
next
  case (kvs_alloc stale s pcs out cid qid r s' a)
  show ?case
  proof (intro conjI impI)
    assume "\<not> stale"
    then have I: "kvs_inv N all s pcs out" using kvs_alloc by blast
    obtain p where p: "pool_Allocate cid qid r (kpool s) = (p, a)" "s' = s\<lparr>kpool := p\<rparr>" using kvs_alloc.hyps by (auto simp: kv_Allocate_def split: prod.splits)
    have own: "pool.owns N all (kpool s) (kv_pages s pcs + out)" using I by (simp add: kvs_inv_def)
    show "kvs_inv N all s' pcs (if a = - 1 then out else add_mset a out)"
      using pool.alloc_owns [OF own kvs_alloc.hyps(2) p(1)] unfolding p(2) by (intro kvs_inv_pool [OF I]) (auto split: if_splits)
  qed (use kvs_alloc in blast)
next
  case (kvs_release stale s pcs out cid qid v r s')
  show ?case
  proof (intro conjI impI)
    assume "\<not> stale"
    then have I: "kvs_inv N all s pcs out" using kvs_release by blast
    obtain p where p: "pool_Free v cid qid r (kpool s) = Some p" "s' = s\<lparr>kpool := p\<rparr>" using kvs_release.hyps by (auto simp: kv_Free_def)
    have own: "pool.owns N all (kpool s) (kv_pages s pcs + out)" using I by (simp add: kvs_inv_def)
    have v: "v \<in># kv_pages s pcs + out" using kvs_release.hyps by simp
    show "kvs_inv N all s' pcs (out - {#v#})"
      using pool.release_owns [OF own kvs_release.hyps(2) v, of r] p(1) kvs_release.hyps(3) unfolding p(2) by (intro kvs_inv_pool [OF I]) auto
  qed (use kvs_release in blast)
next
  case (kvs_borrow stale s pcs out fl p a)
  show ?case
  proof (intro conjI impI)
    assume "\<not> stale"
    then have I: "kvs_inv N all s pcs out" using kvs_borrow by blast
    have own: "pool.owns N all (kpool s) (kv_pages s pcs + out)" using I by (simp add: kvs_inv_def)
    show "kvs_inv N all (s\<lparr>kpool := p\<rparr>) pcs out"
      using pool.borrow_owns [OF own kvs_borrow.hyps(2)] kvs_borrow.hyps(3) by (intro kvs_inv_pool [OF I]) auto
  qed (use kvs_borrow in blast)
qed simp

lemma KV_new_tables: "KV_new c rc nh nb mem st start = Some s \<Longrightarrow> hashes s = replicate (num_ht_shards c) (LinearProbingApprox_new (kv_capacity (mem_pool_size c)))"
  by (auto simp: KV_new_def split: option.splits if_splits)

lemma new_table:
  assumes "16 \<le> cap"
  shows "lpa_wf (LinearProbingApprox_new cap)" "table_pages (LinearProbingApprox_new cap) = {#}" "keys_in P (LinearProbingApprox_new cap)"
proof -
  have "sum_list (replicate n (bkt_pages LPA_Bkt_default)) = {#}" for n by (induction n) (simp_all add: bkt_pages_def LPA_Bkt_default_def)
  then show "table_pages (LinearProbingApprox_new cap) = {#}" by (simp add: table_pages_def LinearProbingApprox_new_def)
  show "lpa_wf (LinearProbingApprox_new cap)" "keys_in P (LinearProbingApprox_new cap)"
    using assms by (simp_all add: lpa_wf_def keys_in_def LinearProbingApprox_new_def LPA_Bkt_default_def)
qed

lemma KV_new_kvs_inv:
  assumes "kv_config_ok c rc nb start" "KV_new c rc nh nb mem st start = Some s0"
  shows "\<exists>n. kvs_inv (mem_pool_size c div 4104) (mset (slots start n)) s0 (replicate m Kv_idle) {#} \<and> distinct (slots start n)"
proof -
  obtain n where n: "kv_inv (mem_pool_size c div 4104) (mset (slots start n)) s0 {#}" "distinct (slots start n)" "config s0 = c" "kv_map s0 = (\<lambda>_. None)"
    using KV_new_spec [OF assms(1), of nh mem st] assms(2) by auto
  let ?cap = "kv_capacity (mem_pool_size c)"
  have cap: "16 \<le> ?cap" and nsh: "0 < num_ht_shards c" using assms(1) by (simp_all add: kv_config_ok_def)
  have h: "hashes s0 = replicate (num_ht_shards c) (LinearProbingApprox_new ?cap)" using KV_new_tables [OF assms(2)] .
  have "sum_list (replicate k ({#} :: Value_t multiset)) = {#}" for k by (induction k) simp_all
  then have pages: "kv_pages s0 (replicate m Kv_idle) = {#}" by (simp add: kv_pages_def h new_table(2) [OF cap])
  have "shard_ok s0 (replicate m Kv_idle) sh" if "sh < num_ht_shards c" for sh
    using that new_table [OF cap] by (simp add: shard_ok_def h excl_def)
  then show ?thesis using n nsh pages by (intro exI [of _ n]) (auto simp: kvs_inv_def h kv_inv_def kv_wf_def)
qed

section \<open>One thread alone\<close>

text \<open>While the other threads are at rest, the steps of one thread in the index are those of \<open>lpa_alone\<close>.\<close>

lemma after_delete_no_evict: "pc_call (after_delete c v) \<noteq> Some C_evict \<longleftrightarrow> c \<noteq> C_evict"
  by (simp add: after_delete_def split: lpa_call.splits)

lemma lpa_step_call:
  assumes "pc_call p = Some c" "c \<noteq> C_evict"
  shows "pc_call (snd (lpa_step now rand weak fx fs p t)) = Some c \<and> \<not> keeps_victim (snd (lpa_step now rand weak fx fs p t))"
  using assms by (cases p) (auto simp: del_step_def ins_step_def get_step_def ins_result_def after_delete_def Let_def split: lpa_call.splits sum.splits)

lemma rest_at_shard: "kv_rest pc \<Longrightarrow> at_shard sh pc = Lp_idle"
  by (cases pc) auto

definition others_rest :: "kv_pc list \<Rightarrow> nat \<Rightarrow> bool" where
  "others_rest pcs j \<longleftrightarrow> (\<forall>k < length pcs. k \<noteq> j \<longrightarrow> (\<forall>sh. at_shard sh (pcs ! k) = Lp_idle))"

lemma others_free:
  assumes "others_rest pcs j"
  shows "kv_free_x s pcs j sh = (\<lambda>_. True)" "kv_free_s s pcs j sh = (\<lambda>_. True)"
  using assms by (auto simp: kv_free_x_def kv_free_s_def free_x_def free_s_def others_rest_def fun_eq_iff)

lemma kvs_alone_step:
  assumes R: "kvs_reach s0 held0 m stale s pcs out" and j: "j < m" "pcs ! j = Kv_index c sh p" "length pcs = m" and o: "others_rest pcs j"
    and p: "pc_call p = Some lc" "lc \<noteq> C_evict" "\<forall>r. p \<noteq> Lp_done lc r"
  shows "kvs_reach s0 held0 m stale (set_table sh (fst (lpa_step now rand False (\<lambda>_. True) (\<lambda>_. True) p (hashes s ! sh))) s)
    (pcs[j := Kv_index c sh (snd (lpa_step now rand False (\<lambda>_. True) (\<lambda>_. True) p (hashes s ! sh)))]) out"
proof -
  have nd: "\<not> (\<exists>c r. p = Lp_done c r)" using p by auto
  obtain t' p' where L: "lpa_step now rand False (\<lambda>_. True) (\<lambda>_. True) p (hashes s ! sh) = (t', p')" by fastforce
  have "kv_go \<lparr>in_now = now, in_rand = rand, in_weak = False, in_list = 0\<rparr> j s pcs = (set_table sh t' s, Kv_index c sh p')"
    by (simp add: kv_go_def j(2) kv_index_step [OF nd] others_free [OF o] L)
  from kvs_go [OF R j(1) this] lpa_step_call [OF p(1,2), of now rand False "\<lambda>_. True" "\<lambda>_. True" "hashes s ! sh"] show ?thesis by (simp add: L)
qed

lemma set_table_twice [simp]: "set_table sh t' (set_table sh t s) = set_table sh t' s"
  by (simp add: set_table_def)

lemma others_rest_update [simp]: "others_rest (pcs[j := pc]) j = others_rest pcs j"
  by (simp add: others_rest_def)

lemma kvs_alone:
  assumes A: "(lpa_alone now)\<^sup>*\<^sup>* (t, p) (t', p')" and R: "kvs_reach s0 held0 m stale s pcs out" and j: "j < m" "pcs ! j = Kv_index c sh p" "length pcs = m"
    and o: "others_rest pcs j" and t: "t = hashes s ! sh" "sh < length (hashes s)" and p: "pc_call p = Some lc" "lc \<noteq> C_evict"
  shows "kvs_reach s0 held0 m stale (set_table sh t' s) (pcs[j := Kv_index c sh p']) out \<and> pc_call p' = Some lc"
  using A
proof (induction rule: rtranclp_induct2)
  case refl
  have "set_table sh t s = s" "pcs[j := Kv_index c sh p] = pcs" using t(1) j(2) list_update_id [of pcs j] by (simp_all add: set_table_def)
  then show ?case using R p by simp
next
  case (step t1 p1 t2 p2)
  then obtain rand where s: "(t2, p2) = lpa_step now rand False (\<lambda>_. True) (\<lambda>_. True) p1 t1" by (auto simp: lpa_alone_def)
  have R1: "kvs_reach s0 held0 m stale (set_table sh t1 s) (pcs[j := Kv_index c sh p1]) out" and c1: "pc_call p1 = Some lc" using step.IH by blast+
  show ?case
  proof (cases "\<exists>r. p1 = Lp_done lc r")
    case True
    then show ?thesis using s R1 c1 by auto
  next
    case False
    have "kvs_reach s0 held0 m stale (set_table sh t2 s) (pcs[j := Kv_index c sh p2]) out"
      using kvs_alone_step [OF R1 j(1) _ _ _ c1 p(2), where now = now and rand = rand] False j t(2) o by (simp add: s [symmetric])
    then show ?thesis using lpa_step_call [OF c1 p(2)] s by (metis snd_conv)
  qed
qed

text \<open>So an invalidation that meets no other operation does what \<open>kv_Remove\<close> says.\<close>

lemma kv_Remove_alone:
  assumes R: "kvs_reach s0 held0 m stale s pcs out" and j: "j < m" "length pcs = m" "kv_rest (pcs ! j)" and o: "others_rest pcs j" and k: "unreserved k"
    and t: "lpa_wf (hashes s ! get_ht_shard_id s k)" "get_ht_shard_id s k < length (hashes s)" and r: "kv_Remove k cid qid s = (s', v)"
  shows "kvs_reach s0 held0 m stale s' (pcs[j := Kv_done (K_remove k cid qid) v]) (out + kv_held (pcs ! j))"
proof -
  let ?sh = "get_ht_shard_id s k" and ?c = "K_remove k cid qid"
  let ?t = "fst (lpa_Delete k (hashes s ! ?sh))" and ?v = "snd (lpa_Delete k (hashes s ! ?sh))"
  have "kvs_reach s0 held0 m stale s (pcs[j := Kv_index ?c ?sh (start_pc (C_delete k))]) (out + kv_held (pcs ! j))"
    using kvs_call [OF R j(1,3), of ?c] k by (simp add: kv_begin_def index_call_def)
  from kvs_alone [OF Delete_alone [OF t(1)] this j(1) _ _ _ refl t(2)] j o
  have 1: "kvs_reach s0 held0 m stale (set_table ?sh ?t s) (pcs[j := Kv_index ?c ?sh (Lp_done (C_delete k) (R_value ?v))]) (out + kv_held (pcs ! j))"
    by (simp add: start_pc_def)
  let ?e = "\<lparr>in_now = 0, in_rand = 0, in_weak = False, in_list = 0\<rparr>"
  have g: "get_cpu_id (set_table sh t s) = get_cpu_id s" "get_cpu_id (filter_remove a b s) = get_cpu_id s" for sh t a b s by (simp_all add: get_cpu_id_def fun_eq_iff)
  show ?thesis
  proof (cases "?v = NONE")
    case True
    then have "kv_go ?e j (set_table ?sh ?t s) (pcs[j := Kv_index ?c ?sh (Lp_done (C_delete k) (R_value ?v))]) = (s', Kv_done ?c v)"
      using r j by (simp add: kv_go_def kv_Remove_def Let_def g split: prod.splits)
    from kvs_go [OF 1 j(1) this] show ?thesis by simp
  next
    case False
    then have "kv_go ?e j (set_table ?sh ?t s) (pcs[j := Kv_index ?c ?sh (Lp_done (C_delete k) (R_value ?v))]) = (set_table ?sh ?t s, Kv_filter_out ?c k cid ?v)"
      using j by (simp add: kv_go_def)
    from kvs_go [OF 1 j(1) this] have 2: "kvs_reach s0 held0 m stale (set_table ?sh ?t s) (pcs[j := Kv_filter_out ?c k cid ?v]) (out + kv_held (pcs ! j))" by simp
    have "kv_go ?e j (set_table ?sh ?t s) (pcs[j := Kv_filter_out ?c k cid ?v]) = (s', Kv_done ?c v)"
      using r j False by (simp add: kv_go_def kv_Remove_def Let_def g split: prod.splits)
    from kvs_go [OF 2 j(1) this] show ?thesis by simp
  qed
qed

lemma kv_Get_alone:
  assumes R: "kvs_reach s0 held0 m stale s pcs out" and j: "j < m" "length pcs = m" "kv_rest (pcs ! j)" and o: "others_rest pcs j"
    and t: "lpa_wf (hashes s ! get_ht_shard_id s k)" "get_ht_shard_id s k < length (hashes s)" and r: "kv_Get e k s = (s', v)"
  shows "kvs_reach s0 held0 m stale s' (pcs[j := Kv_done (K_get k) v]) (out + kv_held (pcs ! j))"
proof -
  let ?sh = "get_ht_shard_id s k" and ?c = "K_get k"
  let ?t = "fst (lpa_Get (e_now e) k (hashes s ! ?sh))" and ?v = "snd (lpa_Get (e_now e) k (hashes s ! ?sh))"
  have "kvs_reach s0 held0 m stale s (pcs[j := Kv_index ?c ?sh (start_pc (C_get k))]) (out + kv_held (pcs ! j))"
    using kvs_call [OF R j(1,3), of ?c] by (simp add: kv_begin_def index_call_def)
  from kvs_alone [OF Get_alone [OF t(1)] this j(1) _ _ _ refl t(2)] j o
  have 1: "kvs_reach s0 held0 m stale (set_table ?sh ?t s) (pcs[j := Kv_index ?c ?sh (Lp_done (C_get k) (R_value ?v))]) (out + kv_held (pcs ! j))"
    by (simp add: start_pc_def)
  have "kv_go \<lparr>in_now = 0, in_rand = 0, in_weak = False, in_list = 0\<rparr> j (set_table ?sh ?t s) (pcs[j := Kv_index ?c ?sh (Lp_done (C_get k) (R_value ?v))]) = (s', Kv_done ?c v)"
    using r j by (simp add: kv_go_def kv_Get_def split: prod.splits)
  from kvs_go [OF 1 j(1) this] show ?thesis by simp
qed

section \<open>Progress\<close>

text \<open>Among threads in the middle of an operation there is always one whose next step is not a wait for a lock.\<close>

lemma kv_step_moves:
  assumes "\<not> kv_rest pc" "\<forall>c sh p. pc \<noteq> Kv_index c sh p" "kv_pc_ok s pc"
  shows "snd (kv_step e fx fs pc s) \<noteq> pc"
proof (cases pc)
  case (Kv_freeing c v cid r)
  show ?thesis
  proof (cases "kv_Free v cid None (in_list e) s")
    case (Some s')
    have "snd (after_free c cid r s') \<noteq> pc" unfolding Kv_freeing by (cases "(c, cid, r, s')" rule: after_free.cases) auto
    then show ?thesis by (simp add: Kv_freeing Some)
  qed (simp add: Kv_freeing)
next
  case (Kv_filter_out c k cid v)
  then show ?thesis by (cases c) auto
next
  case (Kv_filter_in c)
  then show ?thesis by (cases c) auto
qed (use assms in auto)

lemma after_index_moves: "snd (after_index c r s) \<noteq> Kv_index c' sh p"
  by (cases "(c, r, s)" rule: after_index.cases) auto

lemma kv_some_runs:
  assumes I: "kvs_inv N all s pcs out" and j: "j < length pcs" "\<not> kv_rest (pcs ! j)"
  shows "\<exists>k < length pcs. \<not> kv_rest (pcs ! k) \<and> snd (kv_go e k s pcs) \<noteq> pcs ! k"
proof (cases "\<exists>c sh p. pcs ! j = Kv_index c sh p \<and> \<not> lpa_rest p")
  case True
  then obtain c sh p where p: "pcs ! j = Kv_index c sh p" "\<not> lpa_rest p" by blast
  let ?P = "map (at_shard sh) pcs"
  have "kv_pc_ok s (pcs ! j)" using I j(1) by (simp add: kvs_inv_def)
  then have "shard_ok s pcs sh" using I p(1) by (simp add: kvs_inv_def)
  then have ok: "lpa_wf (hashes s ! sh)" "\<forall>pc \<in> set ?P. lpc_ok (hashes s ! sh) pc" by (simp_all add: shard_ok_def)
  have "j < length ?P" "\<not> lpa_rest (?P ! j)" using j(1) p by simp_all
  from lpa_some_runs [OF ok this, of "in_now e" "in_rand e" "in_weak e"] obtain k where k: "k < length pcs" "\<not> lpa_rest (at_shard sh (pcs ! k))"
    "snd (lpa_step (in_now e) (in_rand e) (in_weak e) (kv_free_x s pcs k sh) (kv_free_s s pcs k sh) (at_shard sh (pcs ! k)) (hashes s ! sh)) \<noteq> at_shard sh (pcs ! k)"
    by (auto simp: kv_free_x_def kv_free_s_def)
  then obtain c' q where q: "pcs ! k = Kv_index c' sh q" by (cases "pcs ! k") (auto split: if_splits)
  then have "\<not> (\<exists>c r. q = Lp_done c r)" using k(2) by auto
  from kv_index_step [OF this, of e "kv_free_x s pcs k" "kv_free_s s pcs k" c' sh s] have "snd (kv_go e k s pcs) \<noteq> pcs ! k"
    using k(3) by (simp add: kv_go_def q split: prod.splits)
  then show ?thesis using k(1) q by (intro exI [of _ k]) simp
next
  case False
  have ok: "kv_pc_ok s (pcs ! j)" using I j(1) by (simp add: kvs_inv_def)
  have "snd (kv_go e j s pcs) \<noteq> pcs ! j"
  proof (cases "pcs ! j")
    case (Kv_index c sh p)
    then have "lpa_rest p" "p \<noteq> Lp_idle" using False ok by auto
    then obtain lc r where "p = Lp_done lc r" by (cases p) auto
    then show ?thesis using after_index_moves [of c r s] by (simp add: kv_go_def Kv_index)
  qed (use kv_step_moves [OF j(2) _ ok] in \<open>simp_all add: kv_go_def\<close>)
  then show ?thesis using j by blast
qed

section \<open>Properties of the contended store\<close>

text \<open>
  C7. The store keeps its pages under contention: from a new store on, however the steps of the operations of
  any number of threads interleave, the free pages, the pages in the tables of all shards, those
  in the hands of the threads and those of the callers are together exactly the slots of the memory
  region, each once, and no thread has met an exception or a failing assert, as long as no eviction starts over with a victim it has noted.
\<close>

theorem kv_steps_conserve_pages:
  assumes "kv_config_ok c rc nb start" "KV_new c rc nh nb mem st start = Some s0" "kvs_reach s0 {#} m False s pcs out"
  shows "\<exists>n. pool_free (kpool s) + sum_list (map table_pages (hashes s)) + sum_list (map kv_held pcs) + out = mset (slots start n)
    \<and> distinct (slots start n) \<and> (\<forall>x. Kv_dead x \<notin> set pcs)"
proof -
  obtain n where n: "kvs_inv (mem_pool_size c div 4104) (mset (slots start n)) s0 (replicate m Kv_idle) {#}" "distinct (slots start n)"
    using KV_new_kvs_inv [OF assms(1,2)] by blast
  have "kvs_inv (mem_pool_size c div 4104) (mset (slots start n)) s pcs out" using kvs_reach_inv [OF assms(3) n(1)] by simp
  then show ?thesis using n(2) by (intro exI [of _ n]) (auto simp: kvs_inv_def pool.owns_def kv_pages_def ac_simps)
qed


lemma kv_small_shard: "get_ht_shard_id kv_small k < 4" "hashes kv_small = replicate 4 (LinearProbingApprox_new 40)"
proof -
  have "num_ht_shards (config kv_small) = 4" using kv_small_new by (simp add: kv_small_config_def)
  then show "get_ht_shard_id kv_small k < 4" by (simp add: get_ht_shard_id_def)
  show "hashes kv_small = replicate 4 (LinearProbingApprox_new 40)"
    using KV_new_tables [OF conjunct1 [OF kv_small_new]] by (simp add: kv_small_config_def kv_capacity_def Let_def)
qed

text \<open>A page is allocated, one thread has done an invalidation and the other stands in front of the first lock of a lookup.\<close>

theorem kv_steps_conserve_pages_witness:
  "\<exists>s out v. kvs_reach kv_small {#} 2 False s [Kv_done (K_remove 77 0 0) v, Kv_index (K_get 77) (get_ht_shard_id kv_small 77) (Lp_get_lock (C_get 77) 0)] out
     \<and> (\<exists>n. pool_free (kpool s) + sum_list (map table_pages (hashes s)) + kv_held (Kv_done (K_remove 77 0 0) v) + out = mset (slots 65536 n))"
proof -
  obtain s1 a where a: "kv_Allocate 0 (Some 0) 0 kv_small = (s1, a)" by fastforce
  have s1: "hashes s1 = hashes kv_small" "config s1 = config kv_small" using a by (auto simp: kv_Allocate_def split: prod.splits)
  have sh: "get_ht_shard_id s1 77 = get_ht_shard_id kv_small 77" by (simp add: shard_config [OF s1(2)])
  let ?out = "if a = - 1 then {#} else {#a#}"
  have 0: "kvs_reach kv_small {#} 2 False kv_small [Kv_idle, Kv_idle] {#}" using kvs_new [of kv_small "{#}" 2] by (simp add: numeral_2_eq_2)
  have "valid_queue (kpool kv_small) 0 (Some 0)"
    using kv_small_new by (auto simp: valid_queue_def kv_inv_def kv_wf_def pool.owns_def pool_inv_def kv_small_config_def small_config_def dcc_rdma_set_default_config_def)
  from kvs_alloc [OF 0 this a] have 1: "kvs_reach kv_small {#} 2 False s1 [Kv_idle, Kv_idle] ?out" .
  obtain s2 v where r: "kv_Remove 77 0 0 s1 = (s2, v)" by fastforce
  have t: "lpa_wf (hashes s1 ! get_ht_shard_id s1 77)" "get_ht_shard_id s1 77 < length (hashes s1)"
    using kv_small_shard(1) [of 77] new_table(1) [of 40] unfolding sh s1(1) kv_small_shard(2) by simp_all
  have o: "others_rest [Kv_idle, Kv_idle] 0" by (auto simp: others_rest_def less_Suc_eq)
  from kv_Remove_alone [OF 1 _ _ _ o key77(1) t r]
  have 2: "kvs_reach kv_small {#} 2 False s2 [Kv_done (K_remove 77 0 0) v, Kv_idle] ?out" by simp
  have "config s2 = config s1" using r by (auto simp: kv_Remove_def Let_def split: prod.splits if_splits)
  then have "get_ht_shard_id s2 77 = get_ht_shard_id kv_small 77" using s1(2) by (simp add: shard_config [of s2 kv_small])
  then have 3: "kvs_reach kv_small {#} 2 False s2 [Kv_done (K_remove 77 0 0) v, Kv_index (K_get 77) (get_ht_shard_id kv_small 77) (Lp_get_lock (C_get 77) 0)] ?out"
    using kvs_call [OF 2, of 1 "K_get 77"] by (simp add: kv_begin_def index_call_def start_pc_def)
  have "\<exists>n. pool_free (kpool s2) + sum_list (map table_pages (hashes s2)) + kv_held (Kv_done (K_remove 77 0 0) v) + ?out = mset (slots 65536 n)"
    using kv_steps_conserve_pages [OF kv_small_config_ok conjunct1 [OF kv_small_new] 3] by auto
  then show ?thesis using 3 by blast
qed

section \<open>The filter behind the index\<close>

lemma fresh_insert:
  assumes "16 \<le> cap" "unreserved k" "v \<noteq> NONE"
  shows "\<exists>t. (lpa_alone now)\<^sup>*\<^sup>* (LinearProbingApprox_new cap, start_pc (C_insert k v INVALID)) (t, Lp_done (C_insert k v INVALID) (R_insert 0 INVALID NONE))
    \<and> lpa_wf t \<and> lpa_ok t \<and> lpa_map t = [k \<mapsto> v]"
proof -
  let ?t = "LinearProbingApprox_new cap" and ?c = "C_insert k v INVALID"
  let ?s = "slot_of ?t k 0"
  let ?t1 = "SetBucket now ?s k v ?t"
  have wf: "lpa_wf ?t" using new_table(1) [OF assms(1)] .
  have cap: "capacity ?t = cap" by (simp add: LinearProbingApprox_new_def)
  have s: "?s < cap" using slot_range(1) [OF wf, of k 0] by (simp add: cap)
  have n: "k \<noteq> INVALID" using assms(2) by (auto simp: unreserved_def)
  have b: "bkt_key (buckets ?t ! ?s) = INVALID" using s by (simp add: LinearProbingApprox_new_def LPA_Bkt_default_def)
  have d: "lpa_Delete k ?t = (?t, NONE)" using Delete_loop_slot [of 0 ?t k] b n assms(1) cap by (simp add: lpa_Delete_def)
  have "(GetHashedKey ?t k) mod cap = ?s" by (simp add: slot_of_def cap)
  then have i: "lpa_Insert now (\<lambda>_. True) k v INVALID ?t = Inr (?t1, 0, INVALID, NONE)"
    using b n assms(1) cap by (simp add: lpa_Insert_def d) (subst Insert_loop.simps, simp add: Let_def)
  have inv: "lpa_inv ?t" "lpa_map ?t = Map.empty" using LinearProbingApprox_new_inv [of cap] assms(1) by auto
  obtain t' ret ek ev where "lpa_Insert now (\<lambda>_. True) k v INVALID ?t = Inr (t', ret, ek, ev)" "lpa_inv t'" "capacity t' = capacity ?t"
    "insert_spec (lpa_map ?t) k v INVALID (lpa_map t') ret ek ev"
    using lpa_Insert_spec [OF inv(1) assms(2,3), of now "\<lambda>_. True" INVALID] assms(1) cap by auto
  then have T: "lpa_ok ?t1" "lpa_map ?t1 = [k \<mapsto> v]" using i inv(2) assms(1,3) cap by (auto simp: lpa_ok_def insert_spec_def)
  have "lpa_wf ?t1" unfolding SetBucket_put by (rule lpa_wf_put [OF wf]) (use s assms(3) cap in simp_all)
  moreover have "(lpa_alone now)\<^sup>*\<^sup>* (?t, start_pc ?c) (?t1, Lp_done ?c (R_insert 0 INVALID NONE))"
  proof -
    have 4: "(lpa_alone now)\<^sup>*\<^sup>* (?t, Lp_ins ?c 0 scan_init) (?t1, Lp_done ?c (R_insert 0 INVALID NONE))"
      by (rule alone_one [where rand = 0, OF refl]) (use b n in \<open>simp add: ins_step_def Let_def\<close>)
    have 3: "(lpa_alone now)\<^sup>*\<^sup>* (?t, Lp_ins_lock ?c 0 scan_init) (?t1, Lp_done ?c (R_insert 0 INVALID NONE))"
      by (rule alone_one [where rand = 0, OF _ 4]) (use cap assms(1) in simp)
    have 2: "(lpa_alone now)\<^sup>*\<^sup>* (?t, Lp_del ?c 0) (?t1, Lp_done ?c (R_insert 0 INVALID NONE))"
      by (rule alone_one [where rand = 0, OF _ 3]) (use b n in \<open>simp add: del_step_def Let_def after_delete_def\<close>)
    show ?thesis by (rule alone_one [where rand = 0, OF _ 2]) (use cap assms(1) in \<open>simp add: start_pc_def\<close>)
  qed
  ultimately show ?thesis using T by blast
qed

text \<open>
  A put enters its key into the filter of the client only after the page is in the index, without a lock
  around both.  An invalidation in between finds the page, finds nothing in the filter to remove, and
  succeeds; then the put counts the key.  No page is stored under the key any more, but the filter
  reports it, and as there is nothing left to invalidate or evict no operation removes it again.
\<close>

theorem invalidation_between_index_and_filter:
  "\<exists>s. kvs_reach kv_small {#8192#} 2 False s [Kv_done (K_insert 77 8192 0 0) NONE, Kv_done (K_remove 77 0 0) 8192] {#}
     \<and> lpa_map (hashes s ! get_ht_shard_id s 77) 77 = None \<and> MightContain 77 (cbfs s ! 0)"
proof -
  let ?c = "K_insert 77 8192 0 0" and ?d = "K_remove 77 0 0" and ?sh = "get_ht_shard_id kv_small 77"
  let ?e = "\<lparr>in_now = 0, in_rand = 0, in_weak = False, in_list = 0\<rparr>"
  have n: "(8192 :: Value_t) \<noteq> NONE" by (simp add: NONE_def)
  have sh: "?sh < length (hashes kv_small)" "hashes kv_small ! ?sh = LinearProbingApprox_new 40"
    using kv_small_shard(1) [of 77] unfolding kv_small_shard(2) by simp_all
  obtain t where t: "(lpa_alone 0)\<^sup>*\<^sup>* (LinearProbingApprox_new 40, start_pc (C_insert 77 8192 INVALID)) (t, Lp_done (C_insert 77 8192 INVALID) (R_insert 0 INVALID NONE))"
    "lpa_wf t" "lpa_ok t" "lpa_map t = [77 \<mapsto> 8192]" using fresh_insert [of 40 77 8192 0] key77(1) n by auto
  let ?s1 = "set_table ?sh t kv_small"
  have g: "get_ht_shard_id ?s1 = get_ht_shard_id kv_small" "hashes ?s1 ! ?sh = t" using sh by (simp_all add: shard_config [of ?s1 kv_small])
  have o: "others_rest [pc, Kv_idle] 0" "others_rest [Kv_filter_in ?c, pc] 1" for pc by (auto simp: others_rest_def less_Suc_eq)
  have 0: "kvs_reach kv_small {#8192#} 2 False kv_small [Kv_idle, Kv_idle] {#8192#}" using kvs_new [of kv_small "{#8192#}" 2] by (simp add: numeral_2_eq_2)
  have 1: "kvs_reach kv_small {#8192#} 2 False kv_small [Kv_index ?c ?sh (start_pc (C_insert 77 8192 INVALID)), Kv_idle] {#}"
    using kvs_call [OF 0, of 0 ?c] key77 kv_small_filter(3) by (simp add: kv_begin_def index_call_def)
  have 2: "kvs_reach kv_small {#8192#} 2 False ?s1 [Kv_index ?c ?sh (Lp_done (C_insert 77 8192 INVALID) (R_insert 0 INVALID NONE)), Kv_idle] {#}"
    using kvs_alone [OF t(1) 1 _ _ _ o(1) sh(2) [symmetric] sh(1)] by (simp add: start_pc_def)
  have "kv_go ?e 0 ?s1 [Kv_index ?c ?sh (Lp_done (C_insert 77 8192 INVALID) (R_insert 0 INVALID NONE)), Kv_idle] = (?s1, Kv_filter_in ?c)" by (simp add: kv_go_def)
  from kvs_go [OF 2 _ this] have 3: "kvs_reach kv_small {#8192#} 2 False ?s1 [Kv_filter_in ?c, Kv_idle] {#}" by simp
  note D = lpa_delete_and_lookup_refine_map [OF t(3) key77(1)]
  obtain t2 where d: "lpa_Delete 77 t = (t2, 8192)" using D t(4) by (cases "lpa_Delete 77 t") (simp add: value_or_none_def)
  have nf: "filter_remove 0 77 s = s" if "cbfs s = cbfs kv_small" "config s = config kv_small" for s
  proof -
    have "\<not> MightContain 77 (cbfs kv_small ! 0)" unfolding kv_small_filter(1) by (simp add: MightContain_def CountingBloomFilter_new_def upt_rec computeHash_def)
    then have "fst (cbf_Remove 77 (cbfs kv_small ! 0)) = cbfs kv_small ! 0" by (simp add: cbf_Remove_fold)
    then show ?thesis using that by (simp add: filter_remove_def)
  qed
  let ?s2 = "inc_stat KV_SUCC_INV (get_cpu_id ?s1 0 0) (set_table ?sh t2 ?s1)"
  have r: "kv_Remove 77 0 0 ?s1 = (?s2, 8192)" using d n nf g by (simp add: kv_Remove_def Let_def)
  have 4: "kvs_reach kv_small {#8192#} 2 False ?s2 [Kv_filter_in ?c, Kv_done ?d 8192] {#}"
    using kv_Remove_alone [OF 3 _ _ _ o(2) key77(1) _ _ r] t(2) g sh(1) by simp
  let ?s3 = "inc_stat KV_SUCC_PUT (get_cpu_id ?s2 0 0) (filter_insert 0 77 ?s2)"
  have "kv_go ?e 0 ?s2 [Kv_filter_in ?c, Kv_done ?d 8192] = (?s3, Kv_done ?c NONE)" by (simp add: kv_go_def)
  from kvs_go [OF 4 _ this] have 5: "kvs_reach kv_small {#8192#} 2 False ?s3 [Kv_done ?c NONE, Kv_done ?d 8192] {#}" by simp
  have "get_ht_shard_id ?s3 = get_ht_shard_id kv_small" by (rule shard_config) simp
  then have m: "lpa_map (hashes ?s3 ! get_ht_shard_id ?s3 77) 77 = None" using D t(4) sh(1) d by simp
  have "cbf_rep (cbfs kv_small ! 0) {#}" using CountingBloomFilter_new_rep [of 17 3] unfolding kv_small_filter(1) by simp
  moreover have "cbf_room (cbfs kv_small ! 0) {#} 77" using hits_small [of "{#}"] by (simp add: cbf_room_def kv_small_filter(1) CountingBloomFilter_new_def)
  ultimately have "MightContain 77 (cbf_Insert 77 (cbfs kv_small ! 0))" by (rule cbf.mem_after_add)
  moreover have "0 < length (cbfs kv_small)" using KV_new_cbfs [OF conjunct1 [OF kv_small_new]] kv_small_filter(2,3) kv_small_new by simp
  ultimately have "MightContain 77 (cbfs ?s3 ! 0)" using kv_small_filter(2) by (simp add: filter_insert_def inc_stat_def set_table_def)
  then show ?thesis using 5 m by blast
qed

end
