(* ===== verification/Cbf_Steps.thy ===== *)
theory Cbf_Steps
  imports Counting_Bloom
begin

text \<open>
  The counting filter of a client under contention (\<^verbatim>\<open>daemon/counting_bloom_filter.hpp\<close>).  The pollers and the
  evictors count keys in and out while the thread that sends the filter turns the counters into bits;
  nothing is locked, and an increment or decrement of a counter is a load and a store.  The steps of
  the threads interleave in any order.
\<close>

section \<open>Calls, control points and steps\<close>

datatype cbf_call = CB_Insert Key_t | CB_Remove Key_t | CB_Convert

datatype cbf_pc =
    Cb_idle
  | Cb_check Key_t nat
  | Cb_load cbf_call nat
  | Cb_store cbf_call nat u8
  | Cb_reset nat
  | Cb_scan nat
  | Cb_done cbf_call bool

definition cbf_start :: "cbf_call \<Rightarrow> cbf_pc" where
  "cbf_start c = (case c of CB_Insert k \<Rightarrow> Cb_load c 0 | CB_Remove k \<Rightarrow> Cb_check k 0 | CB_Convert \<Rightarrow> Cb_reset 0)"

fun counted_key :: "cbf_call \<Rightarrow> Key_t" where
  "counted_key (CB_Insert k) = k"
| "counted_key (CB_Remove k) = k"
| "counted_key CB_Convert = 0"

definition new_count :: "cbf_call \<Rightarrow> u8 \<Rightarrow> u8" where
  "new_count c b = (case c of CB_Insert k \<Rightarrow> cbf_inc b | _ \<Rightarrow> b - 1)"

fun cbf_step :: "cbf_pc \<Rightarrow> CountingBloomFilter \<Rightarrow> CountingBloomFilter \<times> cbf_pc" where
  "cbf_step (Cb_check k i) f =
     (if i < num_hash f then (f, if cbf_byte_bitarr f ! computeHash f k i = 0 then Cb_done (CB_Remove k) False else Cb_check k (i + 1))
      else (f, Cb_load (CB_Remove k) 0))"
| "cbf_step (Cb_load c i) f =
     (f, if i < num_hash f then Cb_store c i (cbf_byte_bitarr f ! computeHash f (counted_key c) i) else Cb_done c True)"
| "cbf_step (Cb_store c i b) f =
     (f\<lparr>cbf_byte_bitarr := (cbf_byte_bitarr f)[computeHash f (counted_key c) i := new_count c b]\<rparr>, Cb_load c (i + 1))"
| "cbf_step (Cb_reset i) f =
     (if i < num_longs f then (f\<lparr>bf_long_bitarr := (bf_long_bitarr f)[i := 0]\<rparr>, Cb_reset (i + 1)) else (f, Cb_scan 0))"
| "cbf_step (Cb_scan i) f =
     (if i < num_bits f
      then (if cbf_byte_bitarr f ! i > 0 then f\<lparr>bf_long_bitarr := set_bit_at i (bf_long_bitarr f)\<rparr> else f, Cb_scan (i + 1))
      else (f, Cb_done CB_Convert True))"
| "cbf_step pc f = (f, pc)"

fun cbf_rest :: "cbf_pc \<Rightarrow> bool" where
  "cbf_rest Cb_idle = True"
| "cbf_rest (Cb_done c b) = True"
| "cbf_rest _ = False"

fun converting :: "cbf_pc \<Rightarrow> bool" where
  "converting (Cb_reset i) = True"
| "converting (Cb_scan i) = True"
| "converting _ = False"

definition writing :: "cbf_pc \<Rightarrow> bool" where
  "writing pc \<longleftrightarrow> \<not> cbf_rest pc \<and> \<not> converting pc"

text \<open>The key that a step counts in: an insertion counts once it has ended.\<close>

fun counted_in :: "cbf_pc \<Rightarrow> cbf_pc \<Rightarrow> Key_t multiset" where
  "counted_in (Cb_load (CB_Insert k) i) (Cb_done c b) = {#k#}"
| "counted_in _ _ = {#}"

text \<open>
  \<open>cbs_reach serial f0 m f pcs M W\<close>: from the empty filter \<open>f0\<close> the \<open>m\<close> threads came to \<open>f\<close> and \<open>pcs\<close>.  \<open>M\<close> are the keys that
  have been counted in and not yet been taken out, \<open>W\<close> those of them that have been there since the last
  conversion began.  Only keys that are counted are removed, and only one thread converts; with \<open>serial\<close>
  only one thread at a time counts.
\<close>

inductive cbs_reach :: "bool \<Rightarrow> CountingBloomFilter \<Rightarrow> nat \<Rightarrow> CountingBloomFilter \<Rightarrow> cbf_pc list \<Rightarrow> Key_t multiset \<Rightarrow> Key_t set \<Rightarrow> bool"
  for serial f0 m where
  cbs_new: "cbs_reach serial f0 m f0 (replicate m Cb_idle) {#} {}"
| cbs_insert: "cbs_reach serial f0 m f pcs M W \<Longrightarrow> j < m \<Longrightarrow> cbf_rest (pcs ! j) \<Longrightarrow> (serial \<Longrightarrow> list_all (\<lambda>pc. \<not> writing pc) pcs) \<Longrightarrow>
    cbf_room f M k \<Longrightarrow> cbs_reach serial f0 m f (pcs[j := cbf_start (CB_Insert k)]) M W"
| cbs_remove: "cbs_reach serial f0 m f pcs M W \<Longrightarrow> j < m \<Longrightarrow> cbf_rest (pcs ! j) \<Longrightarrow> (serial \<Longrightarrow> list_all (\<lambda>pc. \<not> writing pc) pcs) \<Longrightarrow>
    k \<in># M \<Longrightarrow> cbs_reach serial f0 m f (pcs[j := cbf_start (CB_Remove k)]) (M - {#k#}) (W \<inter> set_mset (M - {#k#}))"
| cbs_convert: "cbs_reach serial f0 m f pcs M W \<Longrightarrow> j < m \<Longrightarrow> cbf_rest (pcs ! j) \<Longrightarrow> list_all (\<lambda>pc. \<not> converting pc) pcs \<Longrightarrow>
    cbs_reach serial f0 m f (pcs[j := cbf_start CB_Convert]) M (set_mset M)"
| cbs_go: "cbs_reach serial f0 m f pcs M W \<Longrightarrow> j < m \<Longrightarrow> cbf_step (pcs ! j) f = (f', pc) \<Longrightarrow>
    cbs_reach serial f0 m f' (pcs[j := pc]) (M + counted_in (pcs ! j) pc) W"

section \<open>Invariant with one writer\<close>

text \<open>What the counters are ahead of the keys: the part of an insertion that is done, or of a removal that is not.\<close>

fun ahead :: "CountingBloomFilter \<Rightarrow> cbf_pc \<Rightarrow> nat \<Rightarrow> nat" where
  "ahead f (Cb_check k i) x = key_hits f k x"
| "ahead f (Cb_load (CB_Insert k) i) x = count_list (take i (cbf_indices f k)) x"
| "ahead f (Cb_store (CB_Insert k) i b) x = count_list (take i (cbf_indices f k)) x"
| "ahead f (Cb_load (CB_Remove k) i) x = count_list (drop i (cbf_indices f k)) x"
| "ahead f (Cb_store (CB_Remove k) i b) x = count_list (drop i (cbf_indices f k)) x"
| "ahead f _ x = 0"

fun cb_ok :: "CountingBloomFilter \<Rightarrow> Key_t multiset \<Rightarrow> Key_t set \<Rightarrow> cbf_pc \<Rightarrow> bool" where
  "cb_ok f M W (Cb_load c i) \<longleftrightarrow> c \<noteq> CB_Convert \<and> i \<le> num_hash f \<and> (\<forall>k. c = CB_Insert k \<longrightarrow> cbf_room f M k)"
| "cb_ok f M W (Cb_store c i b) \<longleftrightarrow> c \<noteq> CB_Convert \<and> i < num_hash f \<and> b = cbf_byte_bitarr f ! computeHash f (counted_key c) i
     \<and> (\<forall>k. c = CB_Insert k \<longrightarrow> cbf_room f M k)"
| "cb_ok f M W (Cb_scan i) \<longleftrightarrow> (\<forall>k \<in> W. \<forall>x \<in> set (cbf_indices f k). x < i \<longrightarrow> test_bit_at x (bf_long_bitarr f))"
| "cb_ok f M W (Cb_done (CB_Remove k) b) \<longleftrightarrow> b"
| "cb_ok f M W _ \<longleftrightarrow> True"

definition alone_in :: "('a \<Rightarrow> bool) \<Rightarrow> 'a list \<Rightarrow> bool" where
  "alone_in P xs \<longleftrightarrow> (\<forall>i < length xs. \<forall>j < length xs. P (xs ! i) \<longrightarrow> P (xs ! j) \<longrightarrow> i = j)"

definition cbs_inv :: "CountingBloomFilter \<Rightarrow> cbf_pc list \<Rightarrow> Key_t multiset \<Rightarrow> Key_t set \<Rightarrow> bool" where
  "cbs_inv f pcs M W \<longleftrightarrow> cbf_shape f \<and> alone_in writing pcs \<and> alone_in converting pcs
     \<and> (\<forall>x < num_bits f. unat (cbf_byte_bitarr f ! x) = hits f M x + sum_list (map (\<lambda>pc. ahead f pc x) pcs))
     \<and> (\<forall>pc \<in> set pcs. cb_ok f M W pc) \<and> W \<subseteq> set_mset M
     \<and> (list_all (\<lambda>pc. \<not> converting pc) pcs \<longrightarrow> (\<forall>k \<in> W. BFMightContain k f))"


text \<open>The shape of the filter does not change.\<close>

definition same_params :: "CountingBloomFilter \<Rightarrow> CountingBloomFilter \<Rightarrow> bool" where
  "same_params f f' \<longleftrightarrow> num_hash f' = num_hash f \<and> num_bits f' = num_bits f \<and> num_longs f' = num_longs f
     \<and> length (cbf_byte_bitarr f') = length (cbf_byte_bitarr f) \<and> length (bf_long_bitarr f') = length (bf_long_bitarr f)"

lemma same_params_index:
  assumes "same_params f f'"
  shows "computeHash f' = computeHash f" "cbf_indices f' = cbf_indices f" "hits f' = hits f" "key_hits f' = key_hits f" "ahead f' pc x = ahead f pc x" "cbf_room f' = cbf_room f"
    "cbf_shape f' = cbf_shape f"
proof -
  show c: "computeHash f' = computeHash f" using assms by (simp add: same_params_def computeHash_def fun_eq_iff)
  show i: "cbf_indices f' = cbf_indices f" using assms c by (simp add: same_params_def cbf_indices_def fun_eq_iff)
  show k: "key_hits f' = key_hits f" by (simp add: key_hits_def i fun_eq_iff)
  show h: "hits f' = hits f" by (simp add: hits_def k fun_eq_iff)
  show "ahead f' pc x = ahead f pc x" by (cases "(f', pc, x)" rule: ahead.cases) (simp_all add: i k)
  show "cbf_room f' = cbf_room f" using assms by (simp add: cbf_room_def h same_params_def fun_eq_iff)
  show "cbf_shape f' = cbf_shape f" using assms by (simp add: cbf_shape_def same_params_def)
qed

lemma step_same_params: "cbf_step pc f = (f', pc') \<Longrightarrow> same_params f f'"
  by (cases "(pc, f)" rule: cbf_step.cases) (auto simp: same_params_def split: if_splits)

text \<open>With one writer the counters are ahead by what this thread has done.\<close>

lemma ahead_not_writing: "\<not> writing pc \<Longrightarrow> ahead f pc x = 0"
  by (cases "(f, pc, x)" rule: ahead.cases) (simp_all add: writing_def)

lemma sum_list_zero: "\<forall>x \<in> set xs. g x = (0::nat) \<Longrightarrow> sum_list (map g xs) = 0"
  by (induction xs) simp_all

lemma sum_list_single:
  assumes "j < length xs" "\<And>i. i < length xs \<Longrightarrow> i \<noteq> j \<Longrightarrow> g (xs ! i) = (0::nat)" "g z = 0"
  shows "sum_list (map g xs) = g (xs ! j)"
proof -
  have "\<forall>x \<in> set (xs[j := z]). g x = 0" using assms unfolding all_set_conv_all_nth by (simp add: nth_list_update)
  then have "sum_list (map g (xs[j := z])) = 0" by (rule sum_list_zero)
  then show ?thesis using sum_list_update_at [OF assms(1), of g z] assms(3) by linarith
qed

lemma ahead_alone:
  assumes "alone_in writing pcs" "j < length pcs" "writing (pcs ! j)"
  shows "sum_list (map (\<lambda>pc. ahead f pc x) pcs) = ahead f (pcs ! j) x"
  by (rule sum_list_single [where z = Cb_idle]) (use assms in \<open>auto simp: alone_in_def intro!: ahead_not_writing\<close>)

lemma ahead_none: "list_all (\<lambda>pc. \<not> writing pc) pcs \<Longrightarrow> sum_list (map (\<lambda>pc. ahead f pc x) pcs) = 0"
  by (rule sum_list_zero) (auto simp: list_all_iff intro!: ahead_not_writing)

lemma alone_update: "alone_in P xs \<Longrightarrow> (P y \<Longrightarrow> P (xs ! j)) \<Longrightarrow> j < length xs \<Longrightarrow> alone_in P (xs[j := y])"
  unfolding alone_in_def by (metis length_list_update nth_list_update_eq nth_list_update_neq)

lemma alone_first: "list_all (\<lambda>x. \<not> P x) xs \<Longrightarrow> alone_in P (xs[j := y])"
  unfolding alone_in_def list_all_length by (metis length_list_update nth_list_update_eq nth_list_update_neq)

text \<open>One thread moves on.\<close>

lemma cbs_inv_update:
  assumes I: "cbs_inv f pcs M W" and j: "j < length pcs" and f: "same_params f f'"
    and al: "alone_in writing (pcs[j := pc])" "alone_in converting (pcs[j := pc])"
    and n: "\<And>x. x < num_bits f \<Longrightarrow> unat (cbf_byte_bitarr f' ! x) + ahead f (pcs ! j) x + hits f M x = unat (cbf_byte_bitarr f ! x) + ahead f pc x + hits f M' x"
    and o: "\<And>i. i < length pcs \<Longrightarrow> i \<noteq> j \<Longrightarrow> cb_ok f M W (pcs ! i) \<Longrightarrow> cb_ok f' M' W' (pcs ! i)" and p: "cb_ok f' M' W' pc"
    and W: "W' \<subseteq> set_mset M'" "list_all (\<lambda>pc. \<not> converting pc) (pcs[j := pc]) \<Longrightarrow> \<forall>k \<in> W'. BFMightContain k f'"
  shows "cbs_inv f' (pcs[j := pc]) M' W'"
proof -
  have "unat (cbf_byte_bitarr f' ! x) = hits f' M' x + sum_list (map (\<lambda>pc. ahead f' pc x) (pcs[j := pc]))" if x: "x < num_bits f'" for x
  proof -
    have "x < num_bits f" using x f by (simp add: same_params_def)
    then have "unat (cbf_byte_bitarr f ! x) = hits f M x + sum_list (map (\<lambda>pc. ahead f pc x) pcs)" using I by (simp add: cbs_inv_def)
    moreover have "sum_list (map (\<lambda>pc. ahead f pc x) (pcs[j := pc])) + ahead f (pcs ! j) x = sum_list (map (\<lambda>pc. ahead f pc x) pcs) + ahead f pc x"
      by (rule sum_list_update_at [OF j])
    ultimately show ?thesis using n [OF \<open>x < num_bits f\<close>] by (simp add: same_params_index [OF f])
  qed
  moreover have "cb_ok f' M' W' (pcs[j := pc] ! i)" if i: "i < length pcs" for i
  proof (cases "i = j")
    case False
    have "cb_ok f M W (pcs ! i)" using I i by (simp add: cbs_inv_def)
    then show ?thesis using o [OF i False] False by simp
  qed (use p j in simp)
  then have "\<forall>q \<in> set (pcs[j := pc]). cb_ok f' M' W' q" unfolding all_set_conv_all_nth by simp
  ultimately show ?thesis using I al W same_params_index(7) [OF f] by (simp add: cbs_inv_def)
qed

lemma count_take_Suc: "i < length xs \<Longrightarrow> count_list (take (Suc i) xs) x = count_list (take i xs) x + (if xs ! i = x then 1 else 0)"
  by (simp add: take_Suc_conv_app_nth)

lemma count_drop: "i < length xs \<Longrightarrow> count_list (drop i xs) x = (if xs ! i = x then 1 else 0) + count_list (drop (Suc i) xs) x"
  by (subst Cons_nth_drop_Suc [symmetric]) auto

lemma take_le_count: "count_list (take i xs) x + count_list (drop i xs) x = count_list xs x"
  by (metis append_take_drop_id count_list_append)

lemma indices_at: "i < num_hash f \<Longrightarrow> cbf_indices f k ! i = computeHash f k i" "length (cbf_indices f k) = num_hash f"
  by (simp_all add: cbf_indices_def)

lemma cb_ok_quiet: "\<not> writing pc \<Longrightarrow> cb_ok f M W pc = cb_ok f M' W pc"
  by (cases "(f, M, W, pc)" rule: cb_ok.cases) (auto simp: writing_def)

lemma cbs_store:
  assumes I: "cbs_inv f pcs M W" and j: "j < length pcs" "pcs ! j = Cb_store c i b"
  shows "cbs_inv (f\<lparr>cbf_byte_bitarr := (cbf_byte_bitarr f)[computeHash f (counted_key c) i := new_count c b]\<rparr>) (pcs[j := Cb_load c (i + 1)]) M W"
proof -
  let ?y = "computeHash f (counted_key c) i"
  let ?f = "f\<lparr>cbf_byte_bitarr := (cbf_byte_bitarr f)[?y := new_count c b]\<rparr>"
  have sh: "cbf_shape f" and al: "alone_in writing pcs" "alone_in converting pcs" and ok: "cb_ok f M W (Cb_store c i b)"
    using I j by (auto simp: cbs_inv_def dest: bspec [OF _ nth_mem])
  have i: "i < num_hash f" "c \<noteq> CB_Convert" and b: "b = cbf_byte_bitarr f ! ?y" and room: "\<And>k. c = CB_Insert k \<Longrightarrow> cbf_room f M k" using ok by auto
  have y: "?y < num_bits f" "?y < length (cbf_byte_bitarr f)" using sh computeHash_less [OF sh] by (simp_all add: cbf_shape_def)
  have w: "writing (pcs ! j)" by (simp add: j(2) writing_def)
  have cnt: "unat (cbf_byte_bitarr f ! x) = hits f M x + ahead f (pcs ! j) x" if "x < num_bits f" for x
    using I that ahead_alone [OF al(1) j(1) w] by (simp add: cbs_inv_def)
  have f: "same_params f ?f" by (simp add: same_params_def)
  show ?thesis
  proof (rule cbs_inv_update [OF I j(1) f])
    show "alone_in writing (pcs[j := Cb_load c (i + 1)])" by (rule alone_update [OF al(1) _ j(1)]) (rule w)
    show "alone_in converting (pcs[j := Cb_load c (i + 1)])" by (rule alone_update [OF al(2) _ j(1)]) simp
    show "unat (cbf_byte_bitarr ?f ! x) + ahead f (pcs ! j) x + hits f M x = unat (cbf_byte_bitarr f ! x) + ahead f (Cb_load c (i + 1)) x + hits f M x" if x: "x < num_bits f" for x
    proof (cases c)
      case (CB_Insert k)
      have len: "i < length (cbf_indices f k)" and at: "cbf_indices f k ! i = ?y" using i indices_at(1) [of i f k] indices_at(2) [of f k] CB_Insert by simp_all
      have "hits f (add_mset k M) ?y \<le> 255" using room [OF CB_Insert] y(1) by (simp add: cbf_room_def)
      then have r: "hits f M ?y + count_list (cbf_indices f k) ?y \<le> 255" by (simp add: hits_def key_hits_def)
      have "unat b = hits f M ?y + count_list (take i (cbf_indices f k)) ?y" using cnt [OF y(1)] by (simp add: b j(2) CB_Insert)
      moreover have "count_list (take i (cbf_indices f k)) ?y < count_list (cbf_indices f k) ?y"
        using take_le_count [of i "cbf_indices f k" ?y] count_drop [OF len, of ?y] at by simp
      ultimately have "unat (new_count c b) = unat b + 1" using r cbf_inc_unat by (simp add: new_count_def CB_Insert)
      then show ?thesis using y(2) count_take_Suc [OF len, of x] at b by (cases "x = ?y") (simp_all add: j(2) CB_Insert)
    next
      case (CB_Remove k)
      have len: "i < length (cbf_indices f k)" and at: "cbf_indices f k ! i = ?y" using i indices_at(1) [of i f k] indices_at(2) [of f k] CB_Remove by simp_all
      have "unat b = hits f M ?y + count_list (drop i (cbf_indices f k)) ?y" using cnt [OF y(1)] by (simp add: b j(2) CB_Remove)
      then have "0 < unat b" using count_drop [OF len, of ?y] at by simp
      then have "unat (new_count c b) + 1 = unat b" using dec_unat by (simp add: new_count_def CB_Remove)
      then show ?thesis using y(2) count_drop [OF len, of x] at b by (cases "x = ?y") (simp_all add: j(2) CB_Remove)
    qed (use i in simp)
    show "cb_ok ?f M W (pcs ! l)" if "l < length pcs" "l \<noteq> j" "cb_ok f M W (pcs ! l)" for l
    proof -
      have "\<not> writing (pcs ! l)" using al(1) that w j(1) by (auto simp: alone_in_def)
      then show ?thesis using that(3) by (cases "(f, M, W, pcs ! l)" rule: cb_ok.cases) (auto simp: writing_def same_params_index(2) [OF f])
    qed
    show "cb_ok ?f M W (Cb_load c (i + 1))" unfolding cb_ok.simps same_params_index(6) [OF f] using i room by simp
    show "W \<subseteq> set_mset M" using I by (simp add: cbs_inv_def)
    assume nc: "list_all (\<lambda>pc. \<not> converting pc) (pcs[j := Cb_load c (i + 1)])"
    have "\<not> converting (pcs ! l)" if "l < length pcs" for l using nc that j unfolding list_all_length by (cases "l = j") (auto dest!: spec [of _ l])
    then have "\<forall>k \<in> W. BFMightContain k f" using I by (simp add: cbs_inv_def list_all_length)
    then show "\<forall>k \<in> W. BFMightContain k ?f" by (simp add: BFMightContain_all same_params_index(2) [OF f])
  qed
qed


lemma cb_ok_bits:
  "same_params f f' \<Longrightarrow> cbf_byte_bitarr f' = cbf_byte_bitarr f \<Longrightarrow> \<not> converting pc \<Longrightarrow> cb_ok f' M W pc = cb_ok f M W pc"
  using same_params_index(1,2,6) [of f f'] by (cases "(f, M, W, pc)" rule: cb_ok.cases) (simp_all add: same_params_def)

lemma ahead_converting: "converting pc \<Longrightarrow> ahead f pc x = 0"
  by (cases pc) simp_all

lemma watched_count:
  assumes "cbs_inv f pcs M W" "k \<in> W" "x \<in> set (cbf_indices f k)"
  shows "x < num_bits f" "0 < cbf_byte_bitarr f ! x"
proof -
  show x: "x < num_bits f" using assms cbf_indices_bounded [of f k] by (auto simp: cbs_inv_def)
  have "k \<in># M" using assms(1,2) by (auto simp: cbs_inv_def)
  then have "0 < hits f M x" using hits_member [of k M f x] key_hits_pos [of f k x] assms(3) by simp
  then have "0 < unat (cbf_byte_bitarr f ! x)" using assms(1) x by (simp add: cbs_inv_def)
  then show "0 < cbf_byte_bitarr f ! x" by (simp add: unat_gt_0 word_gt_0)
qed

text \<open>A step of the conversion: the counters stay, the bits change.\<close>

lemma cbs_convert_step:
  assumes I: "cbs_inv f pcs M W" and j: "j < length pcs" "converting (pcs ! j)" and st: "cbf_step (pcs ! j) f = (f', pc)"
  shows "cbs_inv f' (pcs[j := pc]) M W"
proof -
  have f: "same_params f f'" by (rule step_same_params [OF st])
  have sh: "cbf_shape f" and al: "alone_in writing pcs" "alone_in converting pcs" using I by (simp_all add: cbs_inv_def)
  have ok: "cb_ok f M W (pcs ! j)" using I j by (simp add: cbs_inv_def)
  have bytes: "cbf_byte_bitarr f' = cbf_byte_bitarr f" and nw: "\<not> writing pc" and ah: "ahead f pc x = 0" for x
    using st j(2) by (cases "pcs ! j"; auto simp: writing_def split: if_splits)+
  show ?thesis
  proof (rule cbs_inv_update [OF I j(1) f])
    show "alone_in writing (pcs[j := pc])" by (rule alone_update [OF al(1) _ j(1)]) (use nw in simp)
    show "alone_in converting (pcs[j := pc])" by (rule alone_update [OF al(2) _ j(1)]) (rule j(2))
    show "cb_ok f' M W (pcs ! i)" if "i < length pcs" "i \<noteq> j" "cb_ok f M W (pcs ! i)" for i
    proof -
      have "\<not> converting (pcs ! i)" using al(2) that j by (auto simp: alone_in_def)
      then show ?thesis using cb_ok_bits [OF f bytes] that(3) by simp
    qed
    show "cb_ok f' M W pc"
    proof (cases "pcs ! j")
      case (Cb_scan i)
      show ?thesis
      proof (cases "i < num_bits f")
        case True
        then have s: "f' = (if cbf_byte_bitarr f ! i > 0 then f\<lparr>bf_long_bitarr := set_bit_at i (bf_long_bitarr f)\<rparr> else f)" "pc = Cb_scan (i + 1)"
          using st by (simp_all add: Cb_scan)
        have "i div 64 < length (bf_long_bitarr f)" using long_index [OF True] sh by (simp add: cbf_shape_def)
        note set = test_set_bit_at [OF this]
        have "test_bit_at x (bf_long_bitarr f')" if "k \<in> W" "x \<in> set (cbf_indices f k)" "x < i + 1" for k x
          using watched_count [OF I that(1,2)] ok that Cb_scan s(1) set by (cases "x = i") auto
        then show ?thesis by (simp add: s(2) same_params_index(2) [OF f])
      qed (use st Cb_scan in auto)
    next
      case (Cb_done c b)
      then show ?thesis using j(2) by simp
    qed (use st j(2) in \<open>auto split: if_splits\<close>)
    show "W \<subseteq> set_mset M" using I by (simp add: cbs_inv_def)
    assume "list_all (\<lambda>pc. \<not> converting pc) (pcs[j := pc])"
    then have "\<not> converting pc" using j(1) by (auto simp: list_all_length dest: spec [of _ j])
    then obtain i where i: "pcs ! j = Cb_scan i" "\<not> i < num_bits f" "f' = f" using st j(2) by (cases "pcs ! j") (auto split: if_splits)
    have "test_bit_at x (bf_long_bitarr f)" if "k \<in> W" "x \<in> set (cbf_indices f k)" for k x
      using watched_count(1) [OF I that] ok i that by auto
    then show "\<forall>k \<in> W. BFMightContain k f'" by (simp add: i(3) BFMightContain_all)
  qed (use bytes ah ahead_converting [OF j(2)] in simp)
qed

text \<open>The other steps of a writer change no counter.\<close>

lemma cbs_write_step:
  assumes I: "cbs_inv f pcs M W" and j: "j < length pcs" "writing (pcs ! j)" and st: "cbf_step (pcs ! j) f = (f, pc)" and ns: "\<forall>c i b. pcs ! j \<noteq> Cb_store c i b"
  shows "cbs_inv f (pcs[j := pc]) (M + counted_in (pcs ! j) pc) W"
proof -
  have al: "alone_in writing pcs" "alone_in converting pcs" using I by (simp_all add: cbs_inv_def)
  have ok: "cb_ok f M W (pcs ! j)" using I j by (simp add: cbs_inv_def)
  have cnt: "unat (cbf_byte_bitarr f ! x) = hits f M x + ahead f (pcs ! j) x" if "x < num_bits f" for x
    using I that ahead_alone [OF al(1) j] by (simp add: cbs_inv_def)
  have checked: "cbf_byte_bitarr f ! computeHash f k i \<noteq> 0" if "pcs ! j = Cb_check k i" "i < num_hash f" for k i
  proof -
    have x: "computeHash f k i < num_bits f" using I by (simp add: cbs_inv_def)
    have "0 < key_hits f k (computeHash f k i)" using key_hits_pos [of f k] that(2) by (auto simp: cbf_indices_def)
    then have "0 < unat (cbf_byte_bitarr f ! computeHash f k i)" using cnt [OF x] that(1) by simp
    then show ?thesis by (auto simp: unat_gt_0)
  qed
  have idx: "length (cbf_indices f k) = num_hash f" for k by (simp add: cbf_indices_def)
  have nconv: "\<not> converting (pcs ! j)" "\<not> converting pc" using j(2) st by (cases "pcs ! j"; auto simp: writing_def split: if_splits)+
  show ?thesis
  proof (rule cbs_inv_update [OF I j(1)])
    show "same_params f f" by (simp add: same_params_def)
    show "alone_in writing (pcs[j := pc])" by (rule alone_update [OF al(1) _ j(1)]) (rule j(2))
    show "alone_in converting (pcs[j := pc])" by (rule alone_update [OF al(2) _ j(1)]) (use nconv in simp)
    show "unat (cbf_byte_bitarr f ! x) + ahead f (pcs ! j) x + hits f M x = unat (cbf_byte_bitarr f ! x) + ahead f pc x + hits f (M + counted_in (pcs ! j) pc) x" for x
    proof (cases "pcs ! j")
      case (Cb_check k i)
      then show ?thesis using st checked [OF Cb_check] by (auto simp: key_hits_def split: if_splits)
    next
      case (Cb_load c i)
      then show ?thesis using st ok idx by (cases c) (auto simp: hits_def key_hits_def split: if_splits)
    next
      case (Cb_done c b)
      then show ?thesis using j(2) by (simp add: writing_def)
    qed (use st j(2) ns in \<open>simp_all add: writing_def\<close>)
    show "cb_ok f (M + counted_in (pcs ! j) pc) W (pcs ! i)" if "i < length pcs" "i \<noteq> j" "cb_ok f M W (pcs ! i)" for i
    proof -
      have "\<not> writing (pcs ! i)" using al(1) that j by (auto simp: alone_in_def)
      then show ?thesis using that(3) cb_ok_quiet by blast
    qed
    show "cb_ok f (M + counted_in (pcs ! j) pc) W pc"
    proof (cases "pcs ! j")
      case (Cb_check k i)
      then show ?thesis using st checked [OF Cb_check] by (auto split: if_splits)
    next
      case (Cb_load c i)
      then show ?thesis using st ok by (cases c) (auto split: if_splits)
    next
      case (Cb_done c b)
      then show ?thesis using j(2) by (simp add: writing_def)
    qed (use st j(2) ns in \<open>simp_all add: writing_def\<close>)
    show "W \<subseteq> set_mset (M + counted_in (pcs ! j) pc)" using I by (auto simp: cbs_inv_def)
    assume nc: "list_all (\<lambda>pc. \<not> converting pc) (pcs[j := pc])"
    have "\<not> converting (pcs ! l)" if "l < length pcs" for l using nc that nconv unfolding list_all_length by (cases "l = j") (auto dest!: spec [of _ l])
    then show "\<forall>k \<in> W. BFMightContain k f" using I by (simp add: cbs_inv_def list_all_length)
  qed
qed

lemma cbs_inv_go:
  assumes I: "cbs_inv f pcs M W" and j: "j < length pcs" and st: "cbf_step (pcs ! j) f = (f', pc)"
  shows "cbs_inv f' (pcs[j := pc]) (M + counted_in (pcs ! j) pc) W"
proof (cases "converting (pcs ! j)")
  case True
  then have "counted_in (pcs ! j) pc = {#}" by (cases "pcs ! j") auto
  then show ?thesis using cbs_convert_step [OF I j True st] by simp
next
  case False
  show ?thesis
  proof (cases "pcs ! j")
    case (Cb_store c i b)
    then show ?thesis using cbs_store [OF I j Cb_store] st by auto
  next
    case (Cb_check k i)
    then have "f' = f" using st by (simp split: if_splits)
    then show ?thesis using cbs_write_step [OF I j] st Cb_check by (simp add: writing_def)
  next
    case (Cb_load c i)
    then have "f' = f" using st by simp
    then show ?thesis using cbs_write_step [OF I j] st Cb_load by (simp add: writing_def)
  next
    case (Cb_done c b)
    have "f' = f" "pc = Cb_done c b" using st unfolding Cb_done by simp_all
    then show ?thesis using I list_update_id [of pcs j] Cb_done by simp
  qed (use st I list_update_id [of pcs j] False in auto)
qed


text \<open>The calls.\<close>

lemma cb_ok_rest: "cbf_rest pc \<Longrightarrow> cb_ok f M W pc = cb_ok f M' W' pc"
  by (cases "(f, M, W, pc)" rule: cb_ok.cases) simp_all

lemma cb_ok_watch: "W' \<subseteq> W \<Longrightarrow> \<not> writing pc \<Longrightarrow> cb_ok f M W pc \<Longrightarrow> cb_ok f M' W' pc"
  by (cases "(f, M, W, pc)" rule: cb_ok.cases) (auto simp: writing_def)

lemma start_facts:
  "writing (cbf_start c) \<longleftrightarrow> c \<noteq> CB_Convert" "converting (cbf_start c) \<longleftrightarrow> c = CB_Convert"
  "ahead f (cbf_start (CB_Insert k)) x = 0" "ahead f (cbf_start (CB_Remove k)) x = key_hits f k x" "ahead f (cbf_start CB_Convert) x = 0"
  by (cases c; simp add: cbf_start_def writing_def)+

lemma same_params_refl: "same_params f f"
  by (simp add: same_params_def)

lemma rest_ahead: "cbf_rest pc \<Longrightarrow> ahead f pc x = 0" "cbf_rest pc \<Longrightarrow> \<not> writing pc \<and> \<not> converting pc"
  by (cases pc; simp add: writing_def)+

lemma not_converting_back:
  assumes "list_all (\<lambda>pc. \<not> converting pc) (pcs[j := pc])" "j < length pcs" "\<not> converting (pcs ! j)"
  shows "list_all (\<lambda>pc. \<not> converting pc) pcs"
  unfolding list_all_length
proof (intro allI impI)
  fix l assume "l < length pcs"
  then show "\<not> converting (pcs ! l)" using assms unfolding list_all_length by (cases "l = j") (auto dest!: spec [of _ l])
qed

lemma cbs_inv_write:
  assumes I: "cbs_inv f pcs M W" and j: "j < length pcs" "cbf_rest (pcs ! j)" and nw: "list_all (\<lambda>pc. \<not> writing pc) pcs"
    and c: "c = CB_Insert k \<and> cbf_room f M k \<and> M' = M \<and> W' = W \<or> c = CB_Remove k \<and> k \<in># M \<and> M' = M - {#k#} \<and> W' = W \<inter> set_mset M'"
  shows "cbs_inv f (pcs[j := cbf_start c]) M' W'"
proof (rule cbs_inv_update [OF I j(1) same_params_refl])
  note r = rest_ahead [OF j(2)]
  show "alone_in writing (pcs[j := cbf_start c])" by (rule alone_first [OF nw])
  show "alone_in converting (pcs[j := cbf_start c])" by (rule alone_update [OF _ _ j(1)]) (use I c in \<open>auto simp: cbs_inv_def start_facts\<close>)
  show "unat (cbf_byte_bitarr f ! x) + ahead f (pcs ! j) x + hits f M x = unat (cbf_byte_bitarr f ! x) + ahead f (cbf_start c) x + hits f M' x" for x
    using c r(1) hits_member [of k M f x] by (auto simp: start_facts)
  show "cb_ok f M' W' (pcs ! i)" if "i < length pcs" "cb_ok f M W (pcs ! i)" for i
    by (rule cb_ok_watch [OF _ _ that(2)]) (use c nw that(1) in \<open>auto simp: list_all_length\<close>)
  show "cb_ok f M' W' (cbf_start c)" using c by (auto simp: cbf_start_def)
  show "W' \<subseteq> set_mset M'" using c I by (auto simp: cbs_inv_def)
  assume "list_all (\<lambda>pc. \<not> converting pc) (pcs[j := cbf_start c])"
  then have "list_all (\<lambda>pc. \<not> converting pc) pcs" by (rule not_converting_back) (use j(1) r(2) in simp_all)
  then have "\<forall>k \<in> W. BFMightContain k f" using I by (simp add: cbs_inv_def)
  moreover have "W' \<subseteq> W" using c by blast
  ultimately show "\<forall>k \<in> W'. BFMightContain k f" by blast
qed

lemma cbs_inv_convert:
  assumes I: "cbs_inv f pcs M W" and j: "j < length pcs" "cbf_rest (pcs ! j)" and nc: "list_all (\<lambda>pc. \<not> converting pc) pcs"
  shows "cbs_inv f (pcs[j := cbf_start CB_Convert]) M (set_mset M)"
proof (rule cbs_inv_update [OF I j(1) same_params_refl])
  note r = rest_ahead [OF j(2)]
  show "alone_in converting (pcs[j := cbf_start CB_Convert])" by (rule alone_first [OF nc])
  show "alone_in writing (pcs[j := cbf_start CB_Convert])" by (rule alone_update [OF _ _ j(1)]) (use I in \<open>auto simp: cbs_inv_def start_facts\<close>)
  show "unat (cbf_byte_bitarr f ! x) + ahead f (pcs ! j) x + hits f M x = unat (cbf_byte_bitarr f ! x) + ahead f (cbf_start CB_Convert) x + hits f M x" for x
    using r(1) by (simp add: start_facts)
  show "cb_ok f M (set_mset M) (pcs ! i)" if "i < length pcs" "cb_ok f M W (pcs ! i)" for i
  proof -
    have "\<not> converting (pcs ! i)" using nc that(1) by (simp add: list_all_length)
    then show ?thesis using that(2) by (cases "(f, M, W, pcs ! i)" rule: cb_ok.cases) simp_all
  qed
  show "cb_ok f M (set_mset M) (cbf_start CB_Convert)" by (simp add: cbf_start_def)
  show "list_all (\<lambda>pc. \<not> converting pc) (pcs[j := cbf_start CB_Convert]) \<Longrightarrow> \<forall>k \<in> set_mset M. BFMightContain k f"
    using j(1) by (auto simp: list_all_length start_facts dest: spec [of _ j])
qed simp

lemma cbs_reach_inv:
  assumes "cbs_reach True f0 m f pcs M W" "cbf_rep f0 {#}"
  shows "length pcs = m \<and> cbs_inv f pcs M W"
  using assms
proof (induction rule: cbs_reach.induct)
  case cbs_new
  have "sum_list (map (\<lambda>pc. ahead f0 pc x) (replicate m Cb_idle)) = 0" for x by (rule sum_list_zero) simp
  then show ?case using cbs_new by (simp add: cbs_inv_def cbf_rep_def alone_in_def writing_def)
next
  case (cbs_insert f pcs M W j k)
  then show ?case using cbs_inv_write [of f pcs M W j "CB_Insert k"] by simp
next
  case (cbs_remove f pcs M W j k)
  then show ?case using cbs_inv_write [of f pcs M W j "CB_Remove k" k "M - {#k#}" "W \<inter> set_mset (M - {#k#})"] by simp
next
  case (cbs_convert f pcs M W j)
  then show ?case using cbs_inv_convert [of f pcs M W j] by simp
next
  case (cbs_go f pcs M W j f' pc)
  then show ?case using cbs_inv_go [of f pcs M W j f' pc] by simp
qed

lemma room_one:
  assumes "num_hash f = 1" "size M < 255"
  shows "cbf_room f M k"
proof -
  have "key_hits f k x \<le> 1" for k x using assms(1) by (simp add: key_hits_def cbf_indices_def)
  then have "hits f M' x \<le> size M'" for M' x
    by (induction M') (auto simp: hits_def intro: order_trans [OF add_mono, of _ 1])
  from this [of "add_mset k M"] have "hits f (add_mset k M) x \<le> 255" for x using assms(2) by (metis Suc_leI le_trans size_add_mset)
  then show ?thesis by (simp add: cbf_room_def)
qed

section \<open>One thread alone\<close>

text \<open>The steps of a thread that meets no other give \<open>cbf_Insert\<close> and \<open>cbf_Remove\<close>.\<close>

definition cbf_alone :: "CountingBloomFilter \<times> cbf_pc \<Rightarrow> CountingBloomFilter \<times> cbf_pc \<Rightarrow> bool" where
  "cbf_alone x y \<longleftrightarrow> y = cbf_step (snd x) (fst x)"

lemma cbf_alone_one: "cbf_step pc f = y \<Longrightarrow> cbf_alone\<^sup>*\<^sup>* y z \<Longrightarrow> cbf_alone\<^sup>*\<^sup>* (f, pc) z"
  by (rule converse_rtranclp_into_rtranclp) (auto simp: cbf_alone_def)

lemma count_alone:
  "i \<le> num_hash f \<Longrightarrow> cbf_alone\<^sup>*\<^sup>* (f, Cb_load c i)
     (f\<lparr>cbf_byte_bitarr := fold (\<lambda>i arr. let idx = computeHash f (counted_key c) i in arr[idx := new_count c (arr ! idx)]) [i..<num_hash f] (cbf_byte_bitarr f)\<rparr>,
      Cb_done c True)"
proof (induction "num_hash f - i" arbitrary: f i)
  case 0
  then show ?case by (intro cbf_alone_one [OF refl]) simp
next
  case (Suc n)
  let ?y = "computeHash f (counted_key c) i"
  let ?f = "f\<lparr>cbf_byte_bitarr := (cbf_byte_bitarr f)[?y := new_count c (cbf_byte_bitarr f ! ?y)]\<rparr>"
  have i: "i < num_hash f" using Suc.hyps(2) by simp
  have h: "computeHash ?f = computeHash f" by (simp add: computeHash_def fun_eq_iff)
  have "n = num_hash ?f - (i + 1)" "i + 1 \<le> num_hash ?f" using Suc.hyps(2) by simp_all
  from Suc.hyps(1) [OF this] have 2: "cbf_alone\<^sup>*\<^sup>* (?f, Cb_load c (i + 1))
     (f\<lparr>cbf_byte_bitarr := fold (\<lambda>i arr. let idx = computeHash f (counted_key c) i in arr[idx := new_count c (arr ! idx)]) [i..<num_hash f] (cbf_byte_bitarr f)\<rparr>, Cb_done c True)"
    using i by (simp add: h upt_conv_Cons Let_def)
  have 1: "cbf_alone\<^sup>*\<^sup>* (f, Cb_store c i (cbf_byte_bitarr f ! ?y))
     (f\<lparr>cbf_byte_bitarr := fold (\<lambda>i arr. let idx = computeHash f (counted_key c) i in arr[idx := new_count c (arr ! idx)]) [i..<num_hash f] (cbf_byte_bitarr f)\<rparr>, Cb_done c True)"
    by (rule cbf_alone_one [OF _ 2]) simp
  show ?case by (rule cbf_alone_one [OF _ 1]) (use i in simp)
qed

lemma check_alone:
  "i \<le> num_hash f \<Longrightarrow> cbf_alone\<^sup>*\<^sup>* (f, Cb_check k i)
     (f, if MightContain_loop f k [i..<num_hash f] then Cb_load (CB_Remove k) 0 else Cb_done (CB_Remove k) False)"
proof (induction "num_hash f - i" arbitrary: i)
  case 0
  then show ?case by (intro cbf_alone_one [OF refl]) simp
next
  case (Suc n)
  have i: "i < num_hash f" "i + 1 \<le> num_hash f" using Suc.hyps(2) by simp_all
  show ?case
  proof (cases "cbf_byte_bitarr f ! computeHash f k i = 0")
    case True
    then show ?thesis using i by (intro cbf_alone_one [OF refl]) (simp add: upt_conv_Cons)
  next
    case False
    have "n = num_hash f - (i + 1)" using Suc.hyps(2) by simp
    have l: "MightContain_loop f k [i + 1..<num_hash f] = MightContain_loop f k [i..<num_hash f]" using False i by (simp add: upt_conv_Cons)
    have "cbf_step (Cb_check k i) f = (f, Cb_check k (i + 1))" using False i by simp
    from cbf_alone_one [OF this Suc.hyps(1) [OF \<open>n = num_hash f - (i + 1)\<close> i(2)]] show ?thesis unfolding l .
  qed
qed

text \<open>
  A thread that counts a key in or out while no other touches the filter does exactly what the sequential
  operations do.
\<close>

theorem cbf_steps_alone:
  "cbf_alone\<^sup>*\<^sup>* (f, cbf_start (CB_Insert k)) (cbf_Insert k f, Cb_done (CB_Insert k) True)
   \<and> cbf_alone\<^sup>*\<^sup>* (f, cbf_start (CB_Remove k)) (fst (cbf_Remove k f), Cb_done (CB_Remove k) (snd (cbf_Remove k f)))"
proof
  show "cbf_alone\<^sup>*\<^sup>* (f, cbf_start (CB_Insert k)) (cbf_Insert k f, Cb_done (CB_Insert k) True)"
    using count_alone [of 0 f "CB_Insert k"] by (simp add: cbf_start_def cbf_Insert_def new_count_def)
  have m: "MightContain_loop f k [0..<num_hash f] = MightContain k f" by (simp add: MightContain_def)
  have c: "cbf_alone\<^sup>*\<^sup>* (f, Cb_check k 0) (f, if MightContain k f then Cb_load (CB_Remove k) 0 else Cb_done (CB_Remove k) False)"
    using check_alone [of 0 f k] by (simp add: m)
  show "cbf_alone\<^sup>*\<^sup>* (f, cbf_start (CB_Remove k)) (fst (cbf_Remove k f), Cb_done (CB_Remove k) (snd (cbf_Remove k f)))"
  proof (cases "MightContain k f")
    case True
    have "cbf_alone\<^sup>*\<^sup>* (f, Cb_load (CB_Remove k) 0) (fst (cbf_Remove k f), Cb_done (CB_Remove k) True)"
      using count_alone [of 0 f "CB_Remove k"] True
      by (simp add: cbf_Remove_fold new_count_def fold_map_at [where g = "\<lambda>x. x - 1"] cbf_indices_def)
    then show ?thesis using c True by (simp add: cbf_start_def cbf_Remove_fold)
  qed (use c in \<open>simp add: cbf_start_def cbf_Remove_fold\<close>)
qed

section \<open>Properties of the contended filter\<close>

text \<open>
  C33. The conversion of the counters into the bits that are sent to the client may run at any time while one
  thread counts keys in and out: when it ends, every key that was counted when it began and has not
  been taken out since is in the bit array; and while nothing is being counted the counters
  represent exactly the counted keys.
\<close>

theorem conversion_keeps_stored_keys:
  assumes "cbs_reach True f0 m f pcs M W" "cbf_rep f0 {#}" "list_all (\<lambda>pc. \<not> converting pc) pcs"
  shows "(\<forall>k \<in> W. BFMightContain k f) \<and> (list_all (\<lambda>pc. \<not> writing pc) pcs \<longrightarrow> cbf_rep f M)"
  using cbs_reach_inv [OF assms(1,2)] assms(3) ahead_none [of pcs f] by (auto simp: cbs_inv_def cbf_rep_def)

text \<open>
  Without that restriction counts are lost: two threads that count two keys with a common index load
  the same counter and store the same value.  When the first key is taken out, the counter is zero and the filter denies the
  second key, although it was counted and never taken out.
\<close>

theorem concurrent_counts_are_lost:
  assumes "cbf_rep f0 {#}" "num_hash f0 = 1" "computeHash f0 a 0 = computeHash f0 b 0"
  shows "\<exists>f. cbs_reach False f0 2 f [Cb_done (CB_Remove a) True, Cb_done (CB_Insert b) True] {#b#} {} \<and> \<not> MightContain b f"
proof -
  let ?y = "computeHash f0 a 0" and ?ia = "CB_Insert a" and ?ib = "CB_Insert b"
  let ?f = "\<lambda>v. f0\<lparr>cbf_byte_bitarr := (cbf_byte_bitarr f0)[?y := v]\<rparr>"
  have sh: "cbf_shape f0" using assms(1) by (simp add: cbf_rep_def)
  have y: "?y < num_bits f0" "?y < length (cbf_byte_bitarr f0)" using sh computeHash_less [OF sh] by (simp_all add: cbf_shape_def)
  have z: "cbf_byte_bitarr f0 ! ?y = 0" using assms(1) y(1) by (simp add: cbf_rep_def hits_def unat_eq_0)
  have h: "computeHash (?f v) = computeHash f0" "num_hash (?f v) = 1" "cbf_byte_bitarr (?f v) ! ?y = v" for v
    using y(2) assms(2) by (simp_all add: computeHash_def fun_eq_iff)
  have room: "cbf_room f0 {#} k" for k by (rule room_one [OF assms(2)]) simp
  have one: "cbf_inc 0 = 1" by (simp add: cbf_inc_def)
  have 0: "cbs_reach False f0 2 f0 [Cb_idle, Cb_idle] {#} {}" using cbs_new [of False f0 2] by (simp add: numeral_2_eq_2)
  have 1: "cbs_reach False f0 2 f0 [Cb_load ?ia 0, Cb_idle] {#} {}" using cbs_insert [OF 0, of 0 a] room by (simp add: cbf_start_def)
  have 2: "cbs_reach False f0 2 f0 [Cb_load ?ia 0, Cb_load ?ib 0] {#} {}" using cbs_insert [OF 1, of 1 b] room by (simp add: cbf_start_def)
  have 3: "cbs_reach False f0 2 f0 [Cb_store ?ia 0 0, Cb_load ?ib 0] {#} {}" using cbs_go [OF 2, of 0 f0 "Cb_store ?ia 0 0"] assms(2) z by simp
  have 4: "cbs_reach False f0 2 f0 [Cb_store ?ia 0 0, Cb_store ?ib 0 0] {#} {}" using cbs_go [OF 3, of 1 f0 "Cb_store ?ib 0 0"] assms(2,3) z by simp
  have 5: "cbs_reach False f0 2 (?f 1) [Cb_load ?ia 1, Cb_store ?ib 0 0] {#} {}" using cbs_go [OF 4, of 0 "?f 1" "Cb_load ?ia 1"] one by (simp add: new_count_def)
  have 6: "cbs_reach False f0 2 (?f 1) [Cb_load ?ia 1, Cb_load ?ib 1] {#} {}"
    using cbs_go [OF 5, of 1 "?f 1" "Cb_load ?ib 1"] one assms(3) h(1) [of 1] by (simp add: new_count_def)
  have 7: "cbs_reach False f0 2 (?f 1) [Cb_done ?ia True, Cb_load ?ib 1] {#a#} {}" using cbs_go [OF 6, of 0 "?f 1" "Cb_done ?ia True"] assms(2) by simp
  have 8: "cbs_reach False f0 2 (?f 1) [Cb_done ?ia True, Cb_done ?ib True] {#a, b#} {}" using cbs_go [OF 7, of 1 "?f 1" "Cb_done ?ib True"] assms(2) by (simp add: add_mset_commute)
  have 9: "cbs_reach False f0 2 (?f 1) [Cb_check a 0, Cb_done ?ib True] {#b#} {}" using cbs_remove [OF 8, of 0 a] by (simp add: cbf_start_def)
  have 10: "cbs_reach False f0 2 (?f 1) [Cb_check a 1, Cb_done ?ib True] {#b#} {}"
    using cbs_go [OF 9, of 0 "?f 1" "Cb_check a 1"] h(1) [of 1] assms(2) y(2) by simp
  have 11: "cbs_reach False f0 2 (?f 1) [Cb_load (CB_Remove a) 0, Cb_done ?ib True] {#b#} {}"
    using cbs_go [OF 10, of 0 "?f 1" "Cb_load (CB_Remove a) 0"] assms(2) by simp
  have 12: "cbs_reach False f0 2 (?f 1) [Cb_store (CB_Remove a) 0 1, Cb_done ?ib True] {#b#} {}"
    using cbs_go [OF 11, of 0 "?f 1" "Cb_store (CB_Remove a) 0 1"] h(1) [of 1] assms(2) y(2) by simp
  have 13: "cbs_reach False f0 2 (?f 0) [Cb_load (CB_Remove a) 1, Cb_done ?ib True] {#b#} {}"
    using cbs_go [OF 12, of 0 "?f 0" "Cb_load (CB_Remove a) 1"] h(1) [of 1] by (simp add: new_count_def)
  have 14: "cbs_reach False f0 2 (?f 0) [Cb_done (CB_Remove a) True, Cb_done ?ib True] {#b#} {}"
    using cbs_go [OF 13, of 0 "?f 0" "Cb_done (CB_Remove a) True"] assms(2) by simp
  have "\<not> MightContain b (?f 0)" using h [of 0] assms(2,3) y(2) by (simp add: MightContain_def)
  then show ?thesis using 14 by blast
qed

text \<open>A filter of one counter, where all keys collide.\<close>

theorem concurrent_counts_are_lost_witness:
  "\<exists>f. cbs_reach False (CountingBloomFilter_new 1 1) 2 f [Cb_done (CB_Remove 77) True, Cb_done (CB_Insert 78) True] {#78#} {} \<and> \<not> MightContain 78 f"
  by (rule concurrent_counts_are_lost) (simp_all add: CountingBloomFilter_new_rep, simp_all add: CountingBloomFilter_new_def computeHash_def)

text \<open>A filter of one counter: one key is counted, then the filter is converted while a second key is being counted.\<close>

lemma conversion_run:
  "\<exists>f. cbs_reach True (CountingBloomFilter_new 1 1) 2 f [Cb_store (CB_Insert 78) 0 1, Cb_done CB_Convert True] {#77#} {77}"
proof -
  define f0 where "f0 = CountingBloomFilter_new 1 1"
  let ?f1 = "f0\<lparr>cbf_byte_bitarr := [1]\<rparr>"
  let ?f2 = "?f1\<lparr>bf_long_bitarr := set_bit_at 0 [0]\<rparr>"
  have f0: "num_hash f0 = 1" "num_bits f0 = 1" "num_longs f0 = 1" "cbf_byte_bitarr f0 = [0]" "bf_long_bitarr f0 = [0]"
    by (simp_all add: f0_def CountingBloomFilter_new_def BITS_TO_LONGS_def)
  have h: "computeHash f0 k i = 0" "computeHash ?f1 k i = 0" for k i by (simp_all add: computeHash_def f0)
  have room: "cbf_room f0 {#} 77" "cbf_room ?f1 {#77#} 78"
    by (simp_all add: room_one f0 del: One_nat_def)
  have one: "cbf_inc 0 = 1" by (simp add: cbf_inc_def)
  have 0: "cbs_reach True f0 2 f0 [Cb_idle, Cb_idle] {#} {}" using cbs_new [of True f0 2] by (simp add: numeral_2_eq_2)
  have 1: "cbs_reach True f0 2 f0 [Cb_load (CB_Insert 77) 0, Cb_idle] {#} {}" using cbs_insert [OF 0, of 0 77] room by (simp add: cbf_start_def writing_def)
  have 2: "cbs_reach True f0 2 f0 [Cb_store (CB_Insert 77) 0 0, Cb_idle] {#} {}" using cbs_go [OF 1, of 0 f0 "Cb_store (CB_Insert 77) 0 0"] by (simp add: f0 h)
  have 3: "cbs_reach True f0 2 ?f1 [Cb_load (CB_Insert 77) 1, Cb_idle] {#} {}" using cbs_go [OF 2, of 0 ?f1 "Cb_load (CB_Insert 77) 1"] one by (simp add: f0 h new_count_def)
  have 4: "cbs_reach True f0 2 ?f1 [Cb_done (CB_Insert 77) True, Cb_idle] {#77#} {}" using cbs_go [OF 3, of 0 ?f1 "Cb_done (CB_Insert 77) True"] by (simp add: f0)
  have 5: "cbs_reach True f0 2 ?f1 [Cb_done (CB_Insert 77) True, Cb_reset 0] {#77#} {77}" using cbs_convert [OF 4, of 1] by (simp add: cbf_start_def)
  have 6: "cbs_reach True f0 2 ?f1 [Cb_done (CB_Insert 77) True, Cb_reset 1] {#77#} {77}" using cbs_go [OF 5, of 1 ?f1 "Cb_reset 1"] by (simp add: f0)
  have 7: "cbs_reach True f0 2 ?f1 [Cb_done (CB_Insert 77) True, Cb_scan 0] {#77#} {77}" using cbs_go [OF 6, of 1 ?f1 "Cb_scan 0"] by (simp add: f0)
  have 8: "cbs_reach True f0 2 ?f1 [Cb_load (CB_Insert 78) 0, Cb_scan 0] {#77#} {77}" using cbs_insert [OF 7, of 0 78] room by (simp add: cbf_start_def writing_def)
  have 9: "cbs_reach True f0 2 ?f1 [Cb_store (CB_Insert 78) 0 1, Cb_scan 0] {#77#} {77}" using cbs_go [OF 8, of 0 ?f1 "Cb_store (CB_Insert 78) 0 1"] by (simp add: f0 h)
  have 10: "cbs_reach True f0 2 ?f2 [Cb_store (CB_Insert 78) 0 1, Cb_scan 1] {#77#} {77}" using cbs_go [OF 9, of 1 ?f2 "Cb_scan 1"] by (simp add: f0)
  have "cbs_reach True f0 2 ?f2 [Cb_store (CB_Insert 78) 0 1, Cb_done CB_Convert True] {#77#} {77}" using cbs_go [OF 10, of 1 ?f2 "Cb_done CB_Convert True"] by (simp add: f0)
  then show ?thesis unfolding f0_def by blast
qed

theorem conversion_keeps_stored_keys_witness:
  "\<exists>f. cbs_reach True (CountingBloomFilter_new 1 1) 2 f [Cb_store (CB_Insert 78) 0 1, Cb_done CB_Convert True] {#77#} {77} \<and> BFMightContain 77 f"
proof -
  obtain f where r: "cbs_reach True (CountingBloomFilter_new 1 1) 2 f [Cb_store (CB_Insert 78) 0 1, Cb_done CB_Convert True] {#77#} {77}" using conversion_run by blast
  have "cbf_rep (CountingBloomFilter_new 1 1) {#}" by (rule CountingBloomFilter_new_rep) simp
  from conversion_keeps_stored_keys [OF r this] have "BFMightContain 77 f" by simp
  then show ?thesis using r by blast
qed

end
