(* ===== verification/Timing.thy ===== *)
theory Timing
  imports KV Drv_Backend
begin

text \<open>
  Clocks, break-down of latencies and statistics: \<^verbatim>\<open>daemon/breakdown.hpp\<close>, \<^verbatim>\<open>daemon/util/fast_mono_clock.hpp\<close>,
  \<^verbatim>\<open>daemon/stats.cpp\<close>, \<^verbatim>\<open>driver/breakdown.h\<close>, \<^verbatim>\<open>driver/debugfs.c\<close>, \<^verbatim>\<open>driver/stats.c\<close> and \<^verbatim>\<open>driver/util/timer.h\<close>.  The clocks
  of the kernel are arguments.  The macros and functions are those of a build with the measurements switched on
  (\<^verbatim>\<open>DCC_BREAKDOWN\<close>, \<^verbatim>\<open>DCC_TIME_CHECK\<close>, \<^verbatim>\<open>RDMA_TIME_CHECK\<close>, \<^verbatim>\<open>COUNT_CHECK\<close>, \<^verbatim>\<open>DCC_COUNT_CHECK\<close>, \<^verbatim>\<open>CONFIG_DEBUG_FS\<close>); switched off they do nothing.
\<close>

section \<open>Time stamps\<close>

text \<open>The fields of the structure of the C library are signed 64-bit integers.\<close>

record timespec =
  tv_sec :: u64
  tv_nsec :: u64

definition ts_ns :: "timespec \<Rightarrow> int" where
  "ts_ns t = sint (tv_sec t) * 1000000000 + sint (tv_nsec t)"

text \<open>What \<^verbatim>\<open>dcc_end_ts\<close> adds to the time of its section: in the daemon, where the factor is unsigned, and in the driver, where all is signed.\<close>

definition elapsed_ns :: "timespec \<Rightarrow> timespec \<Rightarrow> u64" where
  "elapsed_ns start stop = (tv_sec stop - tv_sec start) * 1000000000 + (tv_nsec stop - tv_nsec start)"

definition drv_elapsed_ns :: "timespec \<Rightarrow> timespec \<Rightarrow> u64" where
  "drv_elapsed_ns start stop = of_int ((sint (tv_sec stop) - sint (tv_sec start)) * 1000000000 + (sint (tv_nsec stop) - sint (tv_nsec start)))"

datatype daemon_br = D_BR_PUTS | D_BR_GETS | D_BR_INVS

datatype drv_br = BR_PUTS | BR_GETS | BR_INVS | BR_COMM_PUTS | BR_COMM_GETS | BR_COMM_INVS

definition dcc_breakdown :: "daemon_br \<Rightarrow> u64" where
  "dcc_breakdown = (\<lambda>_. 0)"

definition drv_breakdown :: "drv_br \<Rightarrow> u64" where
  "drv_breakdown = (\<lambda>_. 0)"

definition dcc_end_ts :: "daemon_br \<Rightarrow> timespec \<Rightarrow> timespec \<Rightarrow> (daemon_br \<Rightarrow> u64) \<Rightarrow> (daemon_br \<Rightarrow> u64)" where
  "dcc_end_ts name start stop br = br(name := br name + elapsed_ns start stop)"

definition drv_end_ts :: "drv_br \<Rightarrow> timespec \<Rightarrow> timespec \<Rightarrow> (drv_br \<Rightarrow> u64) \<Rightarrow> (drv_br \<Rightarrow> u64)" where
  "drv_end_ts name start stop br = br(name := br name + drv_elapsed_ns start stop)"

text \<open>The readings of the clock while the daemon handles a request; a get has two sections.\<close>

datatype daemon_times = DT_put timespec timespec | DT_get timespec timespec timespec timespec | DT_inv timespec timespec

fun daemon_ts :: "daemon_times \<Rightarrow> (daemon_br \<Rightarrow> u64) \<Rightarrow> (daemon_br \<Rightarrow> u64)" where
  "daemon_ts (DT_put a b) br = dcc_end_ts D_BR_PUTS a b br"
| "daemon_ts (DT_get a b c d) br = dcc_end_ts D_BR_GETS c d (dcc_end_ts D_BR_GETS a b br)"
| "daemon_ts (DT_inv a b) br = dcc_end_ts D_BR_INVS a b br"

text \<open>
  One cleancache operation of the driver: the readings around the handler and, inside it, around the
  message with the result of the call that sends it.  That is the result of the handler, or \<open>dt_early\<close> when it
  returns without a message.
\<close>

datatype drv_op = Op_put | Op_get | Op_inv

record drv_times =
  dt_op :: drv_op
  dt_begin :: timespec
  dt_comm :: "(timespec \<times> timespec \<times> int) option"
  dt_early :: int
  dt_stop :: timespec

definition dt_ret :: "drv_times \<Rightarrow> int" where
  "dt_ret d = (case dt_comm d of None \<Rightarrow> dt_early d | Some (a, b, ret2) \<Rightarrow> ret2)"

definition comm_ts :: "drv_times \<Rightarrow> (drv_br \<Rightarrow> u64) \<Rightarrow> (drv_br \<Rightarrow> u64)" where
  "comm_ts d br = (case dt_comm d of
       None \<Rightarrow> br
     | Some (a, b, ret2) \<Rightarrow> (case dt_op d of
           Op_put \<Rightarrow> if ret2 = 0 then drv_end_ts BR_COMM_PUTS a b br else br
         | Op_get \<Rightarrow> if ret2 = 0 then drv_end_ts BR_COMM_GETS a b br else br
         | Op_inv \<Rightarrow> drv_end_ts BR_COMM_INVS a b br))"

definition drv_ts :: "drv_times \<Rightarrow> (drv_br \<Rightarrow> u64) \<Rightarrow> (drv_br \<Rightarrow> u64)" where
  "drv_ts d br = (let br1 = comm_ts d br in case dt_op d of
       Op_put \<Rightarrow> if dt_ret d = 0 then drv_end_ts BR_PUTS (dt_begin d) (dt_stop d) br1 else br1
     | Op_get \<Rightarrow> if dt_ret d = 0 then drv_end_ts BR_GETS (dt_begin d) (dt_stop d) br1 else br1
     | Op_inv \<Rightarrow> drv_end_ts BR_INVS (dt_begin d) (dt_stop d) br1)"

section \<open>The steady clock of the daemon\<close>

datatype clockid_t = CLOCK_MONOTONIC_COARSE | CLOCK_MONOTONIC

type_synonym clock_gettime = "clockid_t \<Rightarrow> int \<times> timespec"

definition test_coarse_clock :: "clock_gettime \<Rightarrow> clockid_t" where
  "test_coarse_clock k = (if fst (k CLOCK_MONOTONIC_COARSE) = 0 then CLOCK_MONOTONIC_COARSE else CLOCK_MONOTONIC)"

text \<open>The local static variable is set by the first call.\<close>

definition clock_id :: "clock_gettime \<Rightarrow> clockid_t option \<Rightarrow> clockid_t \<times> clockid_t option" where
  "clock_id k the_clock = (case the_clock of Some c \<Rightarrow> (c, Some c) | None \<Rightarrow> (test_coarse_clock k, Some (test_coarse_clock k)))"

definition fmc_convert :: "timespec \<Rightarrow> u64" where
  "fmc_convert t = tv_sec t * 1000000000 + tv_nsec t"

text \<open>Reading the clock: \<open>test\<close> is the kernel at the time of the test, \<open>k\<close> at the time of the reading.  A failing assert gives no result.\<close>

definition fmc_now :: "clock_gettime \<Rightarrow> clock_gettime \<Rightarrow> clockid_t option \<Rightarrow> (u64 \<times> clockid_t option) option" where
  "fmc_now test k the_clock = (case clock_id test the_clock of
     (c, st) \<Rightarrow> if fst (k c) = 0 then Some (fmc_convert (snd (k c)), st) else None)"

definition get_resolution :: "clock_gettime \<Rightarrow> clock_gettime \<Rightarrow> clockid_t option \<Rightarrow> (u64 \<times> clockid_t option) option" where
  "get_resolution test getres the_clock = (case clock_id test the_clock of
     (c, st) \<Rightarrow> if fst (getres c) = 0 then Some (fmc_convert (snd (getres c)), st) else None)"

fun fmc_readings :: "(clock_gettime \<times> clock_gettime) list \<Rightarrow> clockid_t option \<Rightarrow> u64 list option" where
  "fmc_readings [] st = Some []"
| "fmc_readings ((test, k) # ks) st = (case fmc_now test k st of
     None \<Rightarrow> None | Some (x, st') \<Rightarrow> map_option (\<lambda>xs. x # xs) (fmc_readings ks st'))"

section \<open>Timers of the driver\<close>

datatype timer_name_t =
    dcc_put_page_t | dcc_get_page_t | dcc_inv_page_t
  | rdma_put_t | rdma_put_alloc_t | rdma_put_cache_t | rdma_put_index_t | rdma_put_comm_t
  | rdma_get_t | rdma_get_alloc_t | rdma_get_cache_t | rdma_get_index_t | rdma_get_index2_t | rdma_get_comm_t
  | rdma_inv_page_t | rdma_inv_page_index_t | rdma_inv_page_comm_t

record timers =
  start_ts :: "timer_name_t \<Rightarrow> u64"
  elapsed_ts :: "timer_name_t \<Rightarrow> u64"

definition timers_new :: timers where
  "timers_new = \<lparr>start_ts = (\<lambda>_. 0), elapsed_ts = (\<lambda>_. 0)\<rparr>"

definition DCC_SST :: "u64 \<Rightarrow> timer_name_t \<Rightarrow> timers \<Rightarrow> timers" where
  "DCC_SST ktime num t = t\<lparr>start_ts := (start_ts t)(num := ktime)\<rparr>"

definition DCC_EST :: "u64 \<Rightarrow> timer_name_t \<Rightarrow> timers \<Rightarrow> timers" where
  "DCC_EST ktime num t = t\<lparr>elapsed_ts := (elapsed_ts t)(num := elapsed_ts t num + (ktime - start_ts t num))\<rparr>"

definition RDMA_SST :: "u64 \<Rightarrow> timer_name_t \<Rightarrow> timers \<Rightarrow> timers" where
  "RDMA_SST ktime num t = t\<lparr>start_ts := (start_ts t)(num := ktime)\<rparr>"

definition RDMA_EST :: "u64 \<Rightarrow> timer_name_t \<Rightarrow> timers \<Rightarrow> timers" where
  "RDMA_EST ktime num t = t\<lparr>elapsed_ts := (elapsed_ts t)(num := elapsed_ts t num + (ktime - start_ts t num))\<rparr>"

definition get_elapsed :: "timer_name_t \<Rightarrow> timers \<Rightarrow> u64" where
  "get_elapsed num t = elapsed_ts t num"

definition get_elapsed_us :: "timer_name_t \<Rightarrow> timers \<Rightarrow> u64" where
  "get_elapsed_us num t = elapsed_ts t num div 1000"

definition COUNT :: "u64 \<Rightarrow> u64" where
  "COUNT cnt = cnt + 1"

section \<open>Counters of the daemon\<close>

datatype stats_type = RDMA_STATS | KV_STATS

datatype rdma_stats_t = SVR_PUT | SVR_GET | SVR_INV | RDMA_EVENT_COMP | RDMA_SLEEP_WAIT_COMP | RDMA_POLL_COMP

definition NUM_RDMA_STATS :: nat where "NUM_RDMA_STATS = 6"

definition NUM_KV_STATS :: nat where "NUM_KV_STATS = 9"

definition get_num_stats :: "int \<Rightarrow> int" where
  "get_num_stats type = (if type = 0 then int NUM_RDMA_STATS else if type = 1 then int NUM_KV_STATS else - 1)"

text \<open>
  The arrays of the constructor keep what was in memory; an unknown type asks for an array of negative
  size, which throws.  The index of a counter is not checked: outside the array there is no result.
\<close>

type_synonym stats_cnts = "u64 list list"

definition Stats_new :: "int \<Rightarrow> nat \<Rightarrow> (nat \<Rightarrow> nat \<Rightarrow> u64) \<Rightarrow> stats_cnts option" where
  "Stats_new type num_cpus mem = (let num_stats = get_num_stats type in
     if num_stats < 0 then None else Some (map (\<lambda>j. map (mem j) [0..<num_cpus]) [0..<nat num_stats]))"

definition cnts_Inc :: "nat \<Rightarrow> nat \<Rightarrow> stats_cnts \<Rightarrow> stats_cnts option" where
  "cnts_Inc st cpu cnts = (if st < length cnts \<and> cpu < length (cnts ! st)
     then Some (cnts[st := (cnts ! st)[cpu := cnts ! st ! cpu + 1]]) else None)"

definition cnts_Sum :: "nat \<Rightarrow> nat \<Rightarrow> stats_cnts \<Rightarrow> u64" where
  "cnts_Sum num_cpus st cnts = fold (\<lambda>i sum. sum + cnts ! st ! i) [0..<num_cpus] 0"

fun cnts_run :: "(nat \<times> nat) list \<Rightarrow> stats_cnts \<Rightarrow> stats_cnts option" where
  "cnts_run [] cnts = Some cnts"
| "cnts_run ((st, cpu) # incs) cnts = (case cnts_Inc st cpu cnts of None \<Rightarrow> None | Some c \<Rightarrow> cnts_run incs c)"

section \<open>Files of the driver\<close>

definition dcc_stats_names :: "string list" where
  "dcc_stats_names = [''blocked_puts'', ''rejected_puts'', ''clean_puts'', ''redirtied_puts'', ''access_filtered_puts'',
     ''false_positive_gets'', ''crc_error_gets'', ''valid_invalidates'']"

definition dcc_breakdown_names :: "string list" where
  "dcc_breakdown_names = [''br_puts'', ''br_gets'', ''br_invs'', ''br_comm_puts'', ''br_comm_gets'', ''br_comm_invs'']"

text \<open>The enumerators in order; their numbers index the arrays of counters.\<close>

definition dcc_stats_enum :: "dcc_stats_type list" where
  "dcc_stats_enum = [BLOCKED_PUTS, REJECTED_PUTS, CLEAN_PUTS, REDIRTIED_PUTS, ACCESS_FILTERED_PUTS, FALSE_POSITIVE_GETS, CRC_ERROR_GETS, VALID_INVALIDATES]"

definition drv_br_enum :: "drv_br list" where
  "drv_br_enum = [BR_PUTS, BR_GETS, BR_INVS, BR_COMM_PUTS, BR_COMM_GETS, BR_COMM_INVS]"

datatype dbg_cell = Dbg_stat dcc_stats_type | Dbg_br drv_br

definition dcc_debugfs_init :: "(string \<times> dbg_cell) list" where
  "dcc_debugfs_init =
     fold (\<lambda>i fs. fs @ [(dcc_breakdown_names ! i, Dbg_br (drv_br_enum ! i))]) [0..<length drv_br_enum]
       (fold (\<lambda>i fs. fs @ [(dcc_stats_names ! i, Dbg_stat (dcc_stats_enum ! i))]) [0..<length dcc_stats_enum] [])"

fun read_cell :: "dcc_stats_t \<Rightarrow> (drv_br \<Rightarrow> u64) \<Rightarrow> dbg_cell \<Rightarrow> u64" where
  "read_cell st br (Dbg_stat n) = st n"
| "read_cell st br (Dbg_br n) = br n"

definition dcc_debugfs_exit :: "(string \<times> dbg_cell) list \<Rightarrow> (string \<times> dbg_cell) list" where
  "dcc_debugfs_exit fs = []"


section \<open>Lemmas on elapsed times\<close>

text \<open>The products and differences wrap, but their sum is the difference of the times.\<close>

lemma elapsed_of_int:
  "elapsed_ns start stop = of_int (ts_ns stop - ts_ns start)" "drv_elapsed_ns start stop = of_int (ts_ns stop - ts_ns start)"
  by (simp_all add: elapsed_ns_def drv_elapsed_ns_def ts_ns_def algebra_simps)

lemma unat_of_int: "0 \<le> x \<Longrightarrow> x < 2 ^ 64 \<Longrightarrow> int (unat (of_int x :: u64)) = x"
  by (simp add: unat_eq_nat_uint uint_word_of_int)

text \<open>The time that an operation adds to a section.\<close>

definition spent :: "drv_br \<Rightarrow> drv_times \<Rightarrow> int" where
  "spent name d = (let whole = (if dt_op d = Op_inv \<or> dt_ret d = 0 then ts_ns (dt_stop d) - ts_ns (dt_begin d) else 0);
       comm = (case dt_comm d of None \<Rightarrow> 0 | Some (a, b, ret2) \<Rightarrow> if dt_op d = Op_inv \<or> ret2 = 0 then ts_ns b - ts_ns a else 0)
     in case (name, dt_op d) of
          (BR_PUTS, Op_put) \<Rightarrow> whole | (BR_GETS, Op_get) \<Rightarrow> whole | (BR_INVS, Op_inv) \<Rightarrow> whole
        | (BR_COMM_PUTS, Op_put) \<Rightarrow> comm | (BR_COMM_GETS, Op_get) \<Rightarrow> comm | (BR_COMM_INVS, Op_inv) \<Rightarrow> comm
        | _ \<Rightarrow> 0)"

lemma drv_ts_spent: "drv_ts d br name = br name + of_int (spent name d)"
  by (cases "dt_op d"; cases name; cases "dt_comm d")
    (auto simp: drv_ts_def comm_ts_def spent_def Let_def drv_end_ts_def elapsed_of_int split: prod.splits)

lemma drv_ts_run: "fold drv_ts ds br name = br name + of_int (sum_list (map (spent name) ds))"
  by (induction ds arbitrary: br) (simp_all add: drv_ts_spent)

text \<open>The readings of a steady clock, in the order of the code.\<close>

definition steady :: "drv_times \<Rightarrow> bool" where
  "steady d \<longleftrightarrow> (case dt_comm d of
       None \<Rightarrow> ts_ns (dt_begin d) \<le> ts_ns (dt_stop d)
     | Some (a, b, ret2) \<Rightarrow> ts_ns (dt_begin d) \<le> ts_ns a \<and> ts_ns a \<le> ts_ns b \<and> ts_ns b \<le> ts_ns (dt_stop d))"

fun whole_of :: "drv_br \<Rightarrow> drv_br" where
  "whole_of BR_COMM_PUTS = BR_PUTS"
| "whole_of BR_COMM_GETS = BR_GETS"
| "whole_of BR_COMM_INVS = BR_INVS"
| "whole_of n = n"

lemma spent_part: "steady d \<Longrightarrow> 0 \<le> spent name d \<and> spent name d \<le> spent (whole_of name) d"
  by (cases name; cases "dt_op d") (auto simp: spent_def steady_def dt_ret_def Let_def split: option.splits)

lemma spent_sums: "\<forall>d \<in> set ds. steady d \<Longrightarrow> 0 \<le> sum_list (map (spent name) ds) \<and> sum_list (map (spent name) ds) \<le> sum_list (map (spent (whole_of name)) ds)"
  using spent_part by (induction ds) (fastforce intro: add_mono)+

section \<open>Properties\<close>

text \<open>
  The break-down of the driver is exact: whatever the order of the operations, the counter of a section is the
  sum of the lengths of its occurrences in nanoseconds, although seconds and nanoseconds are subtracted
  separately, as long as the sum fits 64 bits; and the time spent on messages is never more than the
  time of the operations they belong to.
\<close>

theorem breakdown_exact:
  assumes "\<forall>d \<in> set ds. steady d" "sum_list (map (spent (whole_of name)) ds) < 2 ^ 64"
  shows "int (unat (fold drv_ts ds drv_breakdown name)) = sum_list (map (spent name) ds)
    \<and> unat (fold drv_ts ds drv_breakdown name) \<le> unat (fold drv_ts ds drv_breakdown (whole_of name))"
proof -
  have n: "0 \<le> sum_list (map (spent name) ds)" "sum_list (map (spent name) ds) \<le> sum_list (map (spent (whole_of name)) ds)" using spent_sums [OF assms(1)] by blast+
  have 1: "int (unat (fold drv_ts ds drv_breakdown name)) = sum_list (map (spent name) ds)" unfolding drv_ts_run drv_breakdown_def add_0_left by (rule unat_of_int) (use n assms(2) in linarith)+
  have 2: "int (unat (fold drv_ts ds drv_breakdown (whole_of name))) = sum_list (map (spent (whole_of name)) ds)" unfolding drv_ts_run drv_breakdown_def add_0_left by (rule unat_of_int) (use n assms(2) in linarith)+
  have "int (unat (fold drv_ts ds drv_breakdown name)) \<le> int (unat (fold drv_ts ds drv_breakdown (whole_of name)))" unfolding 1 2 by (rule n(2))
  then show ?thesis using 1 by linarith
qed

text \<open>A put from 1.999999990 s to 2.000000030 s, 20 ns of it for the message.\<close>

definition put_time :: drv_times where
  "put_time = \<lparr>dt_op = Op_put, dt_begin = \<lparr>tv_sec = 1, tv_nsec = 999999990\<rparr>,
     dt_comm = Some (\<lparr>tv_sec = 1, tv_nsec = 999999995\<rparr>, \<lparr>tv_sec = 2, tv_nsec = 15\<rparr>, 0), dt_early = 0, dt_stop = \<lparr>tv_sec = 2, tv_nsec = 30\<rparr>\<rparr>"

theorem breakdown_exact_witness:
  "unat (fold drv_ts [put_time] drv_breakdown BR_COMM_PUTS) = 20 \<and> unat (fold drv_ts [put_time] drv_breakdown BR_COMM_PUTS) \<le> unat (fold drv_ts [put_time] drv_breakdown BR_PUTS)"
proof -
  have s: "\<forall>d \<in> set [put_time]. steady d" by (simp add: steady_def put_time_def ts_ns_def)
  have v: "sum_list (map (spent BR_COMM_PUTS) [put_time]) = 20" "sum_list (map (spent (whole_of BR_COMM_PUTS)) [put_time]) = 40"
    by (simp_all add: spent_def put_time_def ts_ns_def dt_ret_def Let_def)
  have "sum_list (map (spent (whole_of BR_COMM_PUTS)) [put_time]) < 2 ^ 64" unfolding v by simp
  from breakdown_exact [OF s this] have h: "int (unat (fold drv_ts [put_time] drv_breakdown BR_COMM_PUTS)) = 20"
    "unat (fold drv_ts [put_time] drv_breakdown BR_COMM_PUTS) \<le> unat (fold drv_ts [put_time] drv_breakdown BR_PUTS)" unfolding v whole_of.simps by blast+
  then show ?thesis by linarith
qed

text \<open>The result of a put is indeed that of its message.\<close>

lemma put_send_result: "put_send cfg o' key 0 b = Some (b', ret) \<Longrightarrow> \<exists>c. dcc_rdma_send_page put_cfg (o_test o') (o_page o') key (be_ctrl b) = Some (c, ret)"
  by (auto simp: put_send_def Let_def split: option.splits if_splits)

text \<open>The daemon counts both sections of a get.\<close>

lemma daemon_get_time:
  "daemon_ts (DT_get a b c d) br D_BR_GETS = br D_BR_GETS + of_int ((ts_ns b - ts_ns a) + (ts_ns d - ts_ns c))"
  by (simp add: dcc_end_ts_def elapsed_of_int)

definition clocks_ok :: "(nat \<Rightarrow> clock_gettime) \<Rightarrow> bool" where
  "clocks_ok k \<longleftrightarrow> (\<forall>i c. 0 \<le> ts_ns (snd (k i c)) \<and> ts_ns (snd (k i c)) < 2 ^ 63)
     \<and> (\<forall>i j c. i \<le> j \<longrightarrow> ts_ns (snd (k i c)) \<le> ts_ns (snd (k j c))) \<and> (\<forall>i. fst (k i CLOCK_MONOTONIC) = 0)
     \<and> (\<forall>i j. fst (k i CLOCK_MONOTONIC_COARSE) = fst (k j CLOCK_MONOTONIC_COARSE))"

lemma fmc_convert_int: "fmc_convert t = of_int (ts_ns t)"
  by (simp add: fmc_convert_def ts_ns_def)

lemma fmc_fixed:
  assumes "\<forall>(test, k) \<in> set ks. fst (k c) = 0"
  shows "fmc_readings ks (Some c) = Some (map (\<lambda>(test, k). fmc_convert (snd (k c))) ks)"
  using assms by (induction ks) (auto simp: fmc_now_def clock_id_def)

text \<open>
  The steady clock of the daemon never runs backwards: the clock it uses is chosen once, so that the readings
  never come from clocks of different resolution, and they do not decrease when the kernel keeps each of
  its clocks from running backwards and its times below \<open>2 ^ 63\<close> nanoseconds.
\<close>

theorem steady_clock:
  assumes "clocks_ok k"
  shows "\<exists>xs. fmc_readings (map (\<lambda>i. (k i, k i)) [0..<n]) None = Some xs \<and> length xs = n \<and> sorted (map unat xs)"
proof (cases n)
  case (Suc m)
  let ?c = "test_coarse_clock (k 0)" and ?ks = "\<lambda>a. map (\<lambda>i. (k i, k i)) [a..<n]"
  have ok: "fst (k i ?c) = 0" for i using assms unfolding clocks_ok_def test_coarse_clock_def by metis
  have "fmc_readings (?ks 1) (Some ?c) = Some (map (\<lambda>(test, k). fmc_convert (snd (k ?c))) (?ks 1))"
    by (rule fmc_fixed) (use ok in auto)
  moreover have "?ks 0 = (k 0, k 0) # ?ks 1" using Suc by (simp add: upt_conv_Cons del: upt_Suc)
  ultimately have r: "fmc_readings (?ks 0) None = Some (map (\<lambda>i. fmc_convert (snd (k i ?c))) [0..<n])"
    using ok [of 0] Suc by (simp add: fmc_now_def clock_id_def comp_def upt_conv_Cons del: upt_Suc)
  have u: "int (unat (fmc_convert (snd (k i ?c)))) = ts_ns (snd (k i ?c))" for i
  proof -
    have "0 \<le> ts_ns (snd (k i ?c))" "ts_ns (snd (k i ?c)) < 2 ^ 63" using assms unfolding clocks_ok_def by blast+
    then show ?thesis unfolding fmc_convert_int by (intro unat_of_int) simp_all
  qed
  have "unat (fmc_convert (snd (k i ?c))) \<le> unat (fmc_convert (snd (k j ?c)))" if "i \<le> j" for i j
    using assms that u [of i] u [of j] unfolding clocks_ok_def by (metis of_nat_le_iff)
  then have "sorted (map (\<lambda>i. unat (fmc_convert (snd (k i ?c)))) [0..<n])" by (simp add: sorted_iff_nth_mono)
  then show ?thesis using r by (simp add: comp_def)
qed simp

text \<open>The coarse clock stands still at 5 s, the other advances by a second per reading.\<close>

theorem steady_clock_witness:
  "\<exists>xs. fmc_readings (map (\<lambda>i. (\<lambda>c. (0, \<lparr>tv_sec = 5, tv_nsec = 0\<rparr>), \<lambda>c. (0, \<lparr>tv_sec = 5, tv_nsec = 0\<rparr>))) [0..<3]) None = Some xs
     \<and> length xs = 3 \<and> sorted (map unat xs)"
proof -
  have "clocks_ok (\<lambda>i c. (0, \<lparr>tv_sec = 5, tv_nsec = 0\<rparr>))" by (simp add: clocks_ok_def ts_ns_def)
  from steady_clock [OF this, of 3] show ?thesis .
qed

text \<open>
  The timers of the driver have one start per name for all processors: when two operations of one kind
  overlap, the second start replaces the first, and the time from the first start to the second is lost.
\<close>

lemma timer_start_shared:
  "get_elapsed n (DCC_EST d n (DCC_EST c n (DCC_SST b n (DCC_SST a n t)))) = get_elapsed n t + (c - b) + (d - b)"
  by (simp add: get_elapsed_def DCC_EST_def DCC_SST_def)

lemma timer_sections:
  "get_elapsed n (fold (\<lambda>(a, b) t. DCC_EST b n (DCC_SST a n t)) ts t) = get_elapsed n t + sum_list (map (\<lambda>(a, b). b - a) ts)"
  by (induction ts arbitrary: t) (auto simp: get_elapsed_def DCC_EST_def DCC_SST_def)

text \<open>The sum of a counter over the processors is the number of increments, on top of what was in memory.\<close>

lemma fold_sum: "fold (\<lambda>i sum. sum + g i) xs (a :: u64) = a + sum_list (map g xs)"
  by (induction xs arbitrary: a) (simp_all add: ac_simps)

lemma sum_list_upt_nth: "length xs = n \<Longrightarrow> sum_list (map ((!) xs) [0..<n]) = sum_list (xs :: u64 list)"
  by (metis map_nth)

lemma cnts_Sum_list: "length (cnts ! st) = n \<Longrightarrow> cnts_Sum n st cnts = sum_list (cnts ! st)"
  unfolding cnts_Sum_def using fold_sum [of "\<lambda>i. cnts ! st ! i"] sum_list_upt_nth [of "cnts ! st"] by simp

lemma sum_list_inc: "c < length xs \<Longrightarrow> sum_list (xs[c := xs ! c + 1]) = sum_list xs + (1 :: u64)"
  using sum_list_update_at [of c xs id "xs ! c + 1"] by (simp add: algebra_simps)

theorem stats_count:
  assumes "\<forall>row \<in> set cnts. length row = n" "\<forall>(st, cpu) \<in> set incs. st < length cnts \<and> cpu < n" "st < length cnts"
  shows "\<exists>c. cnts_run incs cnts = Some c \<and> cnts_Sum n st c = cnts_Sum n st cnts + of_nat (length (filter (\<lambda>(s, _). s = st) incs))"
  using assms
proof (induction incs arbitrary: cnts)
  case (Cons a incs)
  obtain s cpu where a: "a = (s, cpu)" by fastforce
  have s: "s < length cnts" "cpu < n" and row: "length (cnts ! s) = n" using Cons.prems a by auto
  let ?c = "cnts[s := (cnts ! s)[cpu := cnts ! s ! cpu + 1]]"
  have i: "cnts_Inc s cpu cnts = Some ?c" using s row by (simp add: cnts_Inc_def)
  have rows: "\<forall>row \<in> set ?c. length row = n" using Cons.prems(1) row by (auto dest: set_update_subset_insert [THEN subsetD])
  obtain c where c: "cnts_run incs ?c = Some c" "cnts_Sum n st c = cnts_Sum n st ?c + of_nat (length (filter (\<lambda>(s, _). s = st) incs))"
    using Cons.IH [OF rows] Cons.prems(2,3) by auto
  have "cnts_Sum n st ?c = cnts_Sum n st cnts + (if s = st then 1 else 0)"
    using Cons.prems(1,3) row s sum_list_inc [of cpu "cnts ! s"] by (auto simp: cnts_Sum_list)
  then show ?case using c i a by (auto simp: algebra_simps)
qed simp

theorem stats_count_witness:
  "\<exists>c. cnts_run [(1, 0), (1, 1), (0, 1)] [[5, 6], [7, 8]] = Some c \<and> cnts_Sum 2 1 c = 17"
proof -
  have s: "cnts_Sum 2 1 [[5, 6], [7, 8]] = 15" by (simp add: cnts_Sum_def upt_rec)
  have "\<forall>row \<in> set [[5, 6], [7, 8 :: u64]]. length row = 2" "\<forall>(st, cpu) \<in> set [(1, 0), (1, 1), (0, 1)]. st < length [[5, 6], [7, 8 :: u64]] \<and> cpu < (2 :: nat)"
    "1 < length [[5, 6], [7, 8 :: u64]]" by simp_all
  from stats_count [OF this] show ?thesis unfolding s by simp
qed

text \<open>
  A poller per queue pair numbers its counter by client and queue, which is more than there are processors: the
  first request of the third client on a machine of 16 processors writes behind the array.
\<close>

lemma stats_overrun:
  assumes "poller_type (config s) = PER_QP_POLLER" "num_data_qps (rdma_config s) = 8"
  shows "cnts_Inc 0 (get_cpu_id s 2 0) (the (Stats_new 1 16 mem)) = None"
  using assms by (simp add: cnts_Inc_def get_cpu_id_def Stats_new_def get_num_stats_def NUM_KV_STATS_def upt_rec)

text \<open>
  The directory of the driver has one file per counter under a name of its own, and reading the file of a
  name gives the counter of that name.
\<close>

theorem debugfs_complete:
  "distinct (map fst dcc_debugfs_init) \<and> length dcc_stats_names = length dcc_stats_enum \<and> length dcc_breakdown_names = length drv_br_enum
   \<and> set (map snd dcc_debugfs_init) = range Dbg_stat \<union> range Dbg_br
   \<and> map_option (read_cell (dcc_stats_inc REDIRTIED_PUTS st) br) (map_of dcc_debugfs_init ''redirtied_puts'') = Some (st REDIRTIED_PUTS + 1)
   \<and> map_option (read_cell st (drv_end_ts BR_COMM_GETS a b br)) (map_of dcc_debugfs_init ''br_comm_gets'') = Some (br BR_COMM_GETS + drv_elapsed_ns a b)"
proof -
  have u: "[0..<8] = [0, 1, 2, 3, 4, 5, 6, 7]" "[0..<6] = [0, 1, 2, 3, 4, 5]" by (simp_all add: upt_rec)
  have fs: "dcc_debugfs_init = zip dcc_stats_names (map Dbg_stat dcc_stats_enum) @ zip dcc_breakdown_names (map Dbg_br drv_br_enum)"
    by (simp add: dcc_debugfs_init_def dcc_stats_enum_def drv_br_enum_def dcc_stats_names_def dcc_breakdown_names_def u)
  have ss: "range Dbg_stat = set (map Dbg_stat dcc_stats_enum)"
  proof -
    have "n \<in> set dcc_stats_enum" for n by (cases n) (simp_all add: dcc_stats_enum_def)
    then show ?thesis by auto
  qed
  have sb: "range Dbg_br = set (map Dbg_br drv_br_enum)"
  proof -
    have "n \<in> set drv_br_enum" for n by (cases n) (simp_all add: drv_br_enum_def)
    then show ?thesis by auto
  qed
  show ?thesis unfolding ss sb fs
    by (simp add: dcc_stats_names_def dcc_breakdown_names_def dcc_stats_enum_def drv_br_enum_def dcc_stats_inc_def drv_end_ts_def) auto
qed

end
