(* ===== verification/Float_Round.thy ===== *)
theory Float_Round
  imports Complex_Main "HOL-Library.Log_Nat"
begin

text \<open>
  Binary floating point as the daemon uses it for percentages: numbers are rationals, and every operation is
  the exact one followed by rounding to \<open>p\<close> significant bits, to nearest and to even in a tie, as IEEE 754
  prescribes; \<open>p\<close> is 24 for \<^verbatim>\<open>float\<close> and 53 for \<^verbatim>\<open>double\<close>.  The exponent is not bounded: the numbers of the
  daemon are zero or lie between \<open>2 ^ - 200\<close> and \<open>2 ^ 200\<close>.
\<close>

section \<open>Rounding\<close>

definition round_even :: "rat \<Rightarrow> int" where
  "round_even x = (let n = \<lfloor>x\<rfloor>; d = x - of_int n in if d < 1 / 2 \<or> d = 1 / 2 \<and> even n then n else n + 1)"

text \<open>The exponent of the largest power of two that is not above a positive number.\<close>

definition binade :: "rat \<Rightarrow> int" where
  "binade x = (case quotient_of x of (a, b) \<Rightarrow> let k = bitlen a - bitlen b in if 2 powi k \<le> x then k else k - 1)"

definition fl :: "nat \<Rightarrow> rat \<Rightarrow> rat" where
  "fl p x = (if x = 0 then 0 else let s = 2 powi (binade \<bar>x\<bar> - int p + 1) in of_int (round_even (x / s)) * s)"

lemma fl_0 [simp]: "fl p 0 = 0"
  by (simp add: fl_def)

lemma round_even_near: "\<bar>of_int (round_even x) - x\<bar> \<le> 1 / 2"
proof -
  have "of_int \<lfloor>x\<rfloor> \<le> x" "x < of_int \<lfloor>x\<rfloor> + 1" by linarith+
  then show ?thesis by (auto simp: round_even_def Let_def abs_le_iff)
qed

lemma round_even_int: "round_even (of_int n) = n"
  by (simp add: round_even_def)

lemma bitlen_powi:
  assumes "0 < a"
  shows "(2 :: rat) powi (bitlen a - 1) \<le> of_int a" "of_int a < (2 :: rat) powi (bitlen a)"
proof -
  have b: "0 < bitlen a" using assms by (simp add: bitlen_alt_def)
  have "of_int (2 ^ nat (bitlen a - 1)) \<le> (of_int a :: rat)" "of_int a < (of_int (2 ^ nat (bitlen a)) :: rat)"
    using bitlen_bounds [OF assms] by (simp_all only: of_int_le_iff of_int_less_iff)
  then show "(2 :: rat) powi (bitlen a - 1) \<le> of_int a" "of_int a < (2 :: rat) powi (bitlen a)"
    using b by (simp_all add: power_int_def)
qed

lemma binade_bounds:
  assumes "0 < x"
  shows "2 powi (binade x) \<le> x" "x < 2 powi (binade x + 1)"
proof -
  obtain a b where q: "quotient_of x = (a, b)" by fastforce
  have x: "x = of_int a / of_int b" and b: "0 < b" using quotient_of_div [OF q] quotient_of_denom_pos [OF q] by simp_all
  then have a: "0 < a" using assms by (simp add: zero_less_divide_iff)
  define k where "k = bitlen a - bitlen b"
  have "x < 2 powi bitlen a / of_int b" unfolding x using bitlen_powi(2) [OF a] b by (simp add: divide_strict_right_mono)
  also have "\<dots> \<le> 2 powi bitlen a / 2 powi (bitlen b - 1)" using bitlen_powi(1) [OF b] b by (intro divide_left_mono) simp_all
  also have "\<dots> = 2 powi (k + 1)" unfolding k_def by (simp add: power_int_diff [symmetric] algebra_simps)
  finally have u: "x < 2 powi (k + 1)" .
  have "2 powi (k - 1) = (2 powi (bitlen a - 1) :: rat) / 2 powi bitlen b" unfolding k_def by (simp add: power_int_diff [symmetric] algebra_simps)
  also have "\<dots> \<le> of_int a / 2 powi bitlen b" using bitlen_powi(1) [OF a] by (simp add: divide_right_mono)
  also have "\<dots> \<le> of_int a / of_int b" using bitlen_powi(2) [OF b] a b by (intro divide_left_mono) simp_all
  finally have l: "2 powi (k - 1) \<le> x" unfolding x .
  show "2 powi (binade x) \<le> x" "x < 2 powi (binade x + 1)"
    using u l by (auto simp: binade_def q Let_def k_def [symmetric])
qed

text \<open>Rounding errs by at most half a unit in the last place, and not at all on integers that fit.\<close>

lemma fl_near:
  assumes "0 \<le> x"
  shows "\<bar>fl p x - x\<bar> \<le> x / 2 ^ p"
proof (cases "x = 0")
  case False
  then have x: "0 < x" using assms by simp
  define s :: rat where "s = 2 powi (binade x - int p + 1)"
  have s: "0 < s" by (simp add: s_def)
  have e: "fl p x = of_int (round_even (x / s)) * s" using x by (simp add: fl_def s_def Let_def)
  have "fl p x - x = (of_int (round_even (x / s)) - x / s) * s" unfolding e using s by (simp add: left_diff_distrib)
  then have "\<bar>fl p x - x\<bar> = \<bar>of_int (round_even (x / s)) - x / s\<bar> * s" using s by (simp only: abs_mult abs_of_pos)
  also have "\<dots> \<le> 1 / 2 * s" using round_even_near [of "x / s"] s by (intro mult_right_mono) simp_all
  also have "\<dots> = 2 powi (binade x) / 2 ^ p" unfolding s_def by (simp add: power_int_add power_int_diff)
  also have "\<dots> \<le> x / 2 ^ p" using binade_bounds(1) [OF x] by (simp add: divide_right_mono)
  finally show ?thesis .
qed (simp add: fl_def)

lemma fl_bounds:
  assumes "0 \<le> x" "1 \<le> p"
  shows "x * (1 - 1 / 2 ^ p) \<le> fl p x" "fl p x \<le> x * (1 + 1 / 2 ^ p)" "0 \<le> fl p x" "fl p x = 0 \<longleftrightarrow> x = 0"
proof -
  have "- (x / 2 ^ p) \<le> fl p x - x" "fl p x - x \<le> x / 2 ^ p" using fl_near [OF assms(1), of p] by (simp_all add: abs_le_iff)
  then show l: "x * (1 - 1 / 2 ^ p) \<le> fl p x" and "fl p x \<le> x * (1 + 1 / 2 ^ p)" by (simp_all add: algebra_simps)
  have "(2 :: rat) ^ 1 \<le> 2 ^ p" using assms(2) by (intro power_increasing) simp_all
  then have u: "1 / 2 ^ p \<le> (1 / 2 :: rat)" by (simp add: field_simps)
  then have h: "x * (1 / 2) \<le> x * (1 - 1 / 2 ^ p)" using assms(1) by (intro mult_left_mono) simp_all
  have "0 \<le> x * (1 / 2)" using assms(1) by simp
  then show "0 \<le> fl p x" using order_trans [OF h l] by (rule order_trans)
  have z: "x = 0" if f: "fl p x = 0"
  proof -
    have "x * (1 / 2) \<le> 0" using order_trans [OF h l] unfolding f .
    then show ?thesis using assms(1) by linarith
  qed
  show "fl p x = 0 \<longleftrightarrow> x = 0"
  proof
    show "fl p x = 0 \<Longrightarrow> x = 0" by (rule z)
    show "x = 0 \<Longrightarrow> fl p x = 0" by simp
  qed
qed

lemma fl_nat:
  assumes "n < 2 ^ p"
  shows "fl p (of_nat n) = of_nat n"
proof (cases "n = 0")
  case False
  let ?x = "of_nat n :: rat"
  have x: "0 < ?x" using False by simp
  obtain e where e: "e = binade ?x - int p + 1" by blast
  have "(2 :: rat) powi (binade ?x) \<le> of_nat n" using binade_bounds(1) [OF x] .
  also have "\<dots> < of_nat (2 ^ p)" using assms by (simp only: of_nat_less_iff)
  also have "\<dots> = (2 :: rat) powi int p" by simp
  finally have "(2 :: rat) powi (binade ?x) < 2 powi int p" .
  then have "binade ?x < int p" using power_int_increasing [of "int p" "binade ?x" "2 :: rat"] by linarith
  then have "e \<le> 0" unfolding e by simp
  then obtain k where k: "e = - int k" by (metis nonpos_int_cases)
  have d: "?x / 2 powi e = of_int (int n * 2 ^ k)" by (simp add: k power_int_minus divide_inverse)
  have "fl p ?x = of_int (round_even (?x / 2 powi e)) * 2 powi e" using False by (simp add: fl_def Let_def e)
  also have "\<dots> = ?x / 2 powi e * 2 powi e" unfolding d round_even_int by (rule refl)
  also have "\<dots> = ?x" by simp
  finally show ?thesis .
qed (simp add: fl_def)

end
