(* ===== verification/Cpu_Util.thy ===== *)
theory Cpu_Util
  imports Cpu_Profile Float_Round
begin

text \<open>
  The percentages that the daemon computes from two readings of the kernel's counters: the load of the
  machine (\<^verbatim>\<open>daemon/cpu-stats/CPUMonitor.hpp\<close>, \<^verbatim>\<open>daemon/cpu-stats/main.cpp\<close>) in single precision, on which
  the handlers decide what they tell the client, and the load of its own process
  (\<^verbatim>\<open>daemon/cpu_stats.hpp\<close>) in double precision, as a running mean.
\<close>

section \<open>CPUMonitor\<close>

definition exact :: "u64 \<Rightarrow> rat" where
  "exact w = of_nat (unat w)"

definition to_float :: "u64 \<Rightarrow> rat" where
  "to_float w = fl 24 (exact w)"

text \<open>No time at all gives a quotient that is not a number, and its conversion to an integer is undefined.\<close>

definition cpu_percentage :: "u64 \<Rightarrow> u64 \<Rightarrow> int option" where
  "cpu_percentage active idle =
     (let ACTIVE_TIME = to_float active; IDLE_TIME = to_float idle; TOTAL_TIME = fl 24 (ACTIVE_TIME + IDLE_TIME)
      in if TOTAL_TIME = 0 then None else Some \<lfloor>fl 24 (fl 24 (100 * ACTIVE_TIME) / TOTAL_TIME)\<rfloor>)"

definition CPUMonitor_new :: int where
  "CPUMonitor_new = 0"

text \<open>The rounds of the monitor, each with the snapshot before and after it; the value is what \<^verbatim>\<open>usage_\<close> holds.\<close>

fun MonitorCPUUsage :: "(CPUData list \<times> CPUData list) list \<Rightarrow> int \<Rightarrow> int option" where
  "MonitorCPUUsage [] usage = Some usage"
| "MonitorCPUUsage ((previousSnap, curSnap) # snaps) usage =
     (case usage_terms previousSnap curSnap of None \<Rightarrow> None
      | Some (active, idle) \<Rightarrow> (case cpu_percentage active idle of None \<Rightarrow> None | Some u \<Rightarrow> MonitorCPUUsage snaps u))"

definition GetCPUUsage :: "int \<Rightarrow> int" where
  "GetCPUUsage usage = usage"

text \<open>The stand-alone program prints the same number.\<close>

definition monitor_cpu_usage :: "CPUData list \<Rightarrow> CPUData list \<Rightarrow> string option" where
  "monitor_cpu_usage previousSnap curSnap = (case usage_terms previousSnap curSnap of None \<Rightarrow> None
     | Some (active, idle) \<Rightarrow> map_option (\<lambda>u. ''total cpu usage: '' @ show_int u @ '' %'' @ [CHR 0x0A]) (cpu_percentage active idle))"

section \<open>CPUStats\<close>

definition to_double :: "u64 \<Rightarrow> rat" where
  "to_double w = fl 53 (exact w)"

record CPUStats =
  pid_stat_path :: string
  res0 :: cpu_stat
  res1 :: cpu_stat
  util :: rat
  interval :: int
  cumm_cnt :: u64

text \<open>The two readings are not set by the constructor.\<close>

definition CPUStats_new :: "nat \<Rightarrow> int \<Rightarrow> cpu_stat \<Rightarrow> cpu_stat \<Rightarrow> CPUStats" where
  "CPUStats_new pid i r0 r1 = \<lparr>pid_stat_path = ''/proc/'' @ show_nat pid @ ''/stat'', res0 = r0, res1 = r1, util = 0, interval = i, cumm_cnt = 0\<rparr>"

text \<open>The files are arguments; that a reading failed is only printed.\<close>

definition Start :: "string option \<times> string option \<Rightarrow> CPUStats \<Rightarrow> CPUStats option" where
  "Start f c = (case Profile (fst f) (snd f) (res0 c) of None \<Rightarrow> None | Some (r, ret) \<Rightarrow> Some (c\<lparr>res0 := r\<rparr>))"

definition End :: "string option \<times> string option \<Rightarrow> CPUStats \<Rightarrow> CPUStats option" where
  "End f c = (case Profile (fst f) (snd f) (res1 c) of None \<Rightarrow> None | Some (r, ret) \<Rightarrow> Some (c\<lparr>res1 := r\<rparr>))"

text \<open>A count of 0 divides by zero.\<close>

definition calc_avg_filter :: "rat \<Rightarrow> rat \<Rightarrow> u64 \<Rightarrow> rat option" where
  "calc_avg_filter avg new_val cnt = (if cnt = 0 then None
     else Some (fl 53 (fl 53 (fl 53 (avg * to_double (cnt - 1)) / to_double cnt) + fl 53 (new_val / to_double cnt))))"

definition usage_share :: "u64 \<Rightarrow> u64 \<Rightarrow> rat" where
  "usage_share ticks total_time_diff = fl 53 (100 * fl 53 (to_double ticks / to_double total_time_diff))"

definition CalcUtil :: "CPUStats \<Rightarrow> CPUStats option" where
  "CalcUtil c = (case CalcUtil_terms (res0 c) (res1 c) of
       None \<Rightarrow> Some c
     | Some (u, s, total_time_diff) \<Rightarrow>
         (case calc_avg_filter (util c) (fl 53 (usage_share u total_time_diff + usage_share s total_time_diff)) (cumm_cnt c) of
            None \<Rightarrow> None | Some a \<Rightarrow> Some (c\<lparr>util := a\<rparr>)))"

definition Monitor_step :: "(string option \<times> string option) \<times> (string option \<times> string option) \<Rightarrow> CPUStats \<Rightarrow> CPUStats option" where
  "Monitor_step f c = Option.bind (Start (fst f) c) (\<lambda>c. Option.bind (End (snd f) c)
     (\<lambda>c. CalcUtil (if cumm_cnt c \<noteq> - 1 then c\<lparr>cumm_cnt := cumm_cnt c + 1\<rparr> else c)))"

fun Monitor :: "((string option \<times> string option) \<times> (string option \<times> string option)) list \<Rightarrow> CPUStats \<Rightarrow> CPUStats option" where
  "Monitor [] c = Some c"
| "Monitor (f # fs) c = Option.bind (Monitor_step f c) (Monitor fs)"

definition GetUtil :: "CPUStats \<Rightarrow> rat" where
  "GetUtil c = util c"

section \<open>The load of the machine is a percentage\<close>

lemma exact_word: "0 \<le> exact w" "exact w = 0 \<longleftrightarrow> w = 0"
proof -
  show "0 \<le> exact w" unfolding exact_def by (rule of_nat_0_le_iff)
  have "exact w = 0 \<longleftrightarrow> unat w = 0" unfolding exact_def by (rule of_nat_eq_0_iff)
  then show "exact w = 0 \<longleftrightarrow> w = 0" by (simp add: unat_eq_0)
qed

lemma to_float_bounds:
  "exact w * (1 - 1 / 2 ^ 24) \<le> to_float w" "to_float w \<le> exact w * (1 + 1 / 2 ^ 24)" "0 \<le> to_float w" "to_float w = 0 \<longleftrightarrow> w = 0"
  unfolding to_float_def using fl_bounds [OF exact_word(1) [of w], of 24] exact_word(2) by simp_all

lemma cpu_percentage_none: "cpu_percentage a i = None \<longleftrightarrow> a = 0 \<and> i = 0"
proof -
  have "0 \<le> to_float a + to_float i" using to_float_bounds(3) [of a] to_float_bounds(3) [of i] by simp
  then have "fl 24 (to_float a + to_float i) = 0 \<longleftrightarrow> to_float a + to_float i = 0" by (intro fl_bounds(4)) simp_all
  also have "\<dots> \<longleftrightarrow> a = 0 \<and> i = 0" using to_float_bounds(3,4) [of a] to_float_bounds(3,4) [of i] by (simp add: add_nonneg_eq_0_iff)
  finally show ?thesis by (simp add: cpu_percentage_def Let_def)
qed

text \<open>The six roundings together err by less than a thousandth of a percent.\<close>

lemma cpu_percentage_near:
  assumes "a \<noteq> 0 \<or> i \<noteq> 0"
  defines "q \<equiv> 100 * exact a / (exact a + exact i) :: rat"
  shows "\<exists>r. cpu_percentage a i = Some \<lfloor>r\<rfloor> \<and> 0 \<le> r \<and> q - 1 / 1000 \<le> r \<and> r \<le> q + 1 / 1000 \<and> q \<le> 100"
proof -
  define x y :: rat where "x = exact a" and "y = exact i"
  define lo hi :: rat where "lo = 1 - 1 / 2 ^ 24" and "hi = 1 + 1 / 2 ^ 24"
  have c: "0 < lo" "0 < hi" "hi * hi * hi / (lo * lo) \<le> 1 + 1 / 100000" "1 - 1 / 100000 \<le> lo * lo * lo / (hi * hi)" by (simp_all add: lo_def hi_def)
  have xy: "0 \<le> x" "0 \<le> y" "0 < x + y"
    using assms(1) exact_word(1) [of a] exact_word(1) [of i] exact_word(2) [of a] exact_word(2) [of i] by (auto simp: x_def y_def order_less_le add_nonneg_eq_0_iff)
  define A I where "A = to_float a" and "I = to_float i"
  have A: "x * lo \<le> A" "A \<le> x * hi" "0 \<le> A" and I: "y * lo \<le> I" "I \<le> y * hi" "0 \<le> I"
    using to_float_bounds [of a] to_float_bounds [of i] by (simp_all add: A_def I_def x_def y_def lo_def hi_def)
  have S: "(x + y) * lo \<le> A + I" "A + I \<le> (x + y) * hi" "0 \<le> A + I" using A I by (simp_all add: algebra_simps)
  define T where "T = fl 24 (A + I)"
  have T1: "(A + I) * lo \<le> T" "T \<le> (A + I) * hi" using fl_bounds(1,2) [OF S(3), of 24] by (simp_all add: T_def lo_def hi_def)
  have T: "(x + y) * lo * lo \<le> T" "T \<le> (x + y) * hi * hi"
    using mult_right_mono [OF S(1), of lo] mult_right_mono [OF S(2), of hi] T1 c(1,2) by linarith+
  define H where "H = fl 24 (100 * A)"
  have H1: "100 * A * lo \<le> H" "H \<le> 100 * A * hi" "0 \<le> H" using fl_bounds(1-3) [of "100 * A" 24] A(3) by (simp_all add: H_def lo_def hi_def)
  have H: "100 * (x * lo) * lo \<le> H" "H \<le> 100 * (x * hi) * hi"
    using mult_right_mono [OF A(1), of lo] mult_right_mono [OF A(2), of hi] H1(1,2) c(1,2) by linarith+
  have T0: "0 < (x + y) * lo * lo" using xy c by simp
  define Q where "Q = H / T"
  have Q0: "0 \<le> Q" using H1(3) T(1) T0 by (simp add: Q_def)
  have "Q \<le> 100 * (x * hi) * hi / ((x + y) * lo * lo)" unfolding Q_def by (rule frac_le [OF _ H(2) T0 T(1)]) (use xy(1) c in simp)
  moreover have "100 * (x * lo) * lo / ((x + y) * hi * hi) \<le> Q" unfolding Q_def
    by (rule frac_le [OF H1(3) H(1) _ T(2)]) (use T0 T(1) in linarith)
  moreover have "100 * (x * hi) * hi / ((x + y) * lo * lo) = q * (hi * hi / (lo * lo))" "100 * (x * lo) * lo / ((x + y) * hi * hi) = q * (lo * lo / (hi * hi))"
    by (simp_all add: q_def x_def y_def)
  ultimately have Q: "q * (lo * lo / (hi * hi)) \<le> Q" "Q \<le> q * (hi * hi / (lo * lo))" by simp_all
  define r where "r = fl 24 Q"
  have r: "Q * lo \<le> r" "r \<le> Q * hi" "0 \<le> r" using fl_bounds(1-3) [OF Q0, of 24] by (simp_all add: r_def lo_def hi_def)
  have q: "0 \<le> q" "q \<le> 100" using xy by (simp_all add: q_def x_def y_def divide_le_eq)
  have "r \<le> q * (hi * hi * hi / (lo * lo))" using order_trans [OF r(2) mult_right_mono [OF Q(2), of hi]] c(2) by (simp add: ac_simps)
  also have "\<dots> \<le> q * (1 + 1 / 100000)" by (rule mult_left_mono [OF c(3) q(1)])
  also have "\<dots> \<le> q + 1 / 1000" using q(2) by simp
  finally have u: "r \<le> q + 1 / 1000" .
  have "q - 1 / 1000 \<le> q * (1 - 1 / 100000)" using q(2) by simp
  also have "\<dots> \<le> q * (lo * lo * lo / (hi * hi))" by (rule mult_left_mono [OF c(4) q(1)])
  also have "\<dots> \<le> r" using order_trans [OF mult_right_mono [OF Q(1), of lo] r(1)] c(1) by (simp add: ac_simps)
  finally have l: "q - 1 / 1000 \<le> r" .
  have "cpu_percentage a i = Some \<lfloor>r\<rfloor>" using T0 T(1) unfolding cpu_percentage_def Let_def A_def [symmetric] I_def [symmetric] T_def [symmetric] H_def [symmetric] Q_def [symmetric] r_def [symmetric] by auto
  then show ?thesis using r(3) u l q(2) by blast
qed


section \<open>The load of the process is a mean\<close>

lemma to_double_count: "n < 2 ^ 53 \<Longrightarrow> to_double (of_nat n) = of_nat n"
proof -
  assume n: "n < 2 ^ 53"
  then have "unat (of_nat n :: u64) = n" by (simp add: unat_of_nat take_bit_nat_eq_self)
  then show ?thesis using fl_nat [OF n] by (simp add: to_double_def exact_def del: of_nat_unat)
qed

lemma count_not_0: "Suc k < 2 ^ 53 \<Longrightarrow> of_nat (Suc k) \<noteq> (0 :: u64)"
proof
  assume "Suc k < 2 ^ 53" "of_nat (Suc k) = (0 :: u64)"
  then have "unat (of_nat (Suc k) :: u64) = 0" by simp
  then show False using \<open>Suc k < 2 ^ 53\<close> by (simp add: unat_of_nat take_bit_nat_eq_self del: of_nat_Suc)
qed

text \<open>One round keeps the mean of \<open>k\<close> samples up to three more roundings.\<close>

definition near_mean :: "rat \<Rightarrow> nat \<Rightarrow> rat \<Rightarrow> bool" where
  "near_mean S k avg \<longleftrightarrow> 0 \<le> avg \<and> S * (1 - 1 / 2 ^ 53) ^ (3 * k) \<le> avg * of_nat k \<and> avg * of_nat k \<le> S * (1 + 1 / 2 ^ 53) ^ (3 * k)"

lemma calc_avg_filter_near:
  assumes "near_mean S k avg" "0 \<le> S" "0 \<le> x" "Suc k < 2 ^ 53"
  shows "\<exists>a. calc_avg_filter avg x (of_nat (Suc k)) = Some a \<and> near_mean (S + x) (Suc k) a"
proof -
  define lo hi n m :: rat where "lo = 1 - 1 / 2 ^ 53" and "hi = 1 + 1 / 2 ^ 53" and "n = of_nat (Suc k)" and "m = of_nat k"
  have c: "0 \<le> lo" "lo \<le> 1" "1 \<le> hi" and n: "0 < n" and m: "0 \<le> m" by (simp_all add: lo_def hi_def n_def m_def)
  have A: "0 \<le> avg" "S * lo ^ (3 * k) \<le> avg * m" "avg * m \<le> S * hi ^ (3 * k)" using assms(1) by (simp_all add: near_mean_def lo_def hi_def m_def)
  have b: "y * lo \<le> fl 53 y \<and> fl 53 y \<le> y * hi \<and> 0 \<le> fl 53 y" if "0 \<le> y" for y
    using fl_bounds(1-3) [OF that, of 53] by (simp add: lo_def hi_def)
  define P Q R a where "P = fl 53 (avg * m)" and "Q = fl 53 (P / n)" and "R = fl 53 (x / n)" and "a = fl 53 (Q + R)"
  have P: "avg * m * lo \<le> P" "P \<le> avg * m * hi" "0 \<le> P" using b [of "avg * m"] A(1) m by (simp_all add: P_def)
  have Q: "P / n * lo \<le> Q" "Q \<le> P / n * hi" "0 \<le> Q" using b [of "P / n"] P(3) n by (simp_all add: Q_def)
  have R: "x / n * lo \<le> R" "R \<le> x / n * hi" "0 \<le> R" using b [of "x / n"] assms(3) n by (simp_all add: R_def)
  have a: "(Q + R) * lo \<le> a" "a \<le> (Q + R) * hi" "0 \<le> a" using b [of "Q + R"] Q(3) R(3) by (simp_all add: a_def)
  note N = count_not_0 [OF assms(4)]
  have D: "to_double (of_nat (Suc k)) = n" "to_double (of_nat (Suc k) - 1) = m"
    using to_double_count [of "Suc k"] to_double_count [of k] assms(4) by (simp_all add: n_def m_def)
  have f: "calc_avg_filter avg x (of_nat (Suc k)) = Some a"
    unfolding calc_avg_filter_def D a_def Q_def P_def R_def using N by (simp del: of_nat_Suc)
  have up: "a * n \<le> (S + x) * hi ^ (3 * Suc k)"
  proof -
    have "Q * n \<le> P * hi" "R * n \<le> x * hi" using mult_right_mono [OF Q(2), of n] mult_right_mono [OF R(2), of n] n by simp_all
    moreover have "P * hi \<le> avg * m * hi * hi" using mult_right_mono [OF P(2), of hi] c by simp
    moreover have "avg * m * hi * hi \<le> S * hi ^ (3 * k) * hi * hi" using A(3) c by (intro mult_right_mono) simp_all
    moreover have "x * hi \<le> x * hi ^ (3 * k) * hi * hi"
    proof -
      have "1 \<le> hi ^ (3 * k + 1)" using c(3) by (rule one_le_power)
      then have "x * hi * 1 \<le> x * hi * hi ^ (3 * k + 1)" using assms(3) c by (intro mult_left_mono) simp_all
      then show ?thesis by (simp add: ac_simps)
    qed
    ultimately have "(Q + R) * n \<le> (S + x) * hi ^ (3 * k) * hi * hi" by (simp add: algebra_simps)
    then have "(Q + R) * n * hi \<le> (S + x) * hi ^ (3 * k) * hi * hi * hi" using c by (intro mult_right_mono) simp_all
    moreover have "a * n \<le> (Q + R) * hi * n" using a(2) n by (intro mult_right_mono) simp_all
    moreover have "hi ^ (3 * Suc k) = hi ^ (3 * k) * hi * hi * hi" by (simp add: eval_nat_numeral power_add ac_simps)
    ultimately show ?thesis by (simp add: ac_simps)
  qed
  have down: "(S + x) * lo ^ (3 * Suc k) \<le> a * n"
  proof -
    have "P * lo \<le> Q * n" "x * lo \<le> R * n" using mult_right_mono [OF Q(1), of n] mult_right_mono [OF R(1), of n] n by simp_all
    moreover have "avg * m * lo * lo \<le> P * lo" using mult_right_mono [OF P(1), of lo] c by simp
    moreover have "S * lo ^ (3 * k) * lo * lo \<le> avg * m * lo * lo" using A(2) c by (intro mult_right_mono) simp_all
    moreover have "x * lo ^ (3 * k) * lo * lo \<le> x * lo"
    proof -
      have "lo ^ (3 * k + 1) \<le> 1" using c by (intro power_le_one) simp_all
      then have "x * lo * lo ^ (3 * k + 1) \<le> x * lo * 1" using assms(3) c by (intro mult_left_mono) simp_all
      then show ?thesis by (simp add: ac_simps)
    qed
    ultimately have "(S + x) * lo ^ (3 * k) * lo * lo \<le> (Q + R) * n" by (simp add: algebra_simps)
    then have "(S + x) * lo ^ (3 * k) * lo * lo * lo \<le> (Q + R) * n * lo" using c by (intro mult_right_mono) simp_all
    moreover have "(Q + R) * lo * n \<le> a * n" using a(1) n by (intro mult_right_mono) simp_all
    moreover have "lo ^ (3 * Suc k) = lo ^ (3 * k) * lo * lo * lo" by (simp add: eval_nat_numeral power_add ac_simps)
    ultimately show ?thesis by (simp add: ac_simps)
  qed
  have "near_mean (S + x) (Suc k) a" using up down a(3) unfolding near_mean_def lo_def hi_def n_def by blast
  then show ?thesis using f by blast
qed

text \<open>Both files can be read; the reading then does not depend on the one before.\<close>

definition readable :: "string option \<times> string option \<Rightarrow> bool" where
  "readable f \<longleftrightarrow> fst f \<noteq> None \<and> snd f \<noteq> None"

definition reading :: "string option \<times> string option \<Rightarrow> cpu_stat" where
  "reading f = (case Profile (fst f) (snd f) cpu_stat_zero of None \<Rightarrow> cpu_stat_zero | Some (r, ret) \<Rightarrow> r)"

text \<open>What a round adds to the mean; a round in which no time has passed adds nothing.\<close>

definition sample :: "(string option \<times> string option) \<times> (string option \<times> string option) \<Rightarrow> rat option" where
  "sample f = (case CalcUtil_terms (reading (fst f)) (reading (snd f)) of None \<Rightarrow> None
     | Some (u, s, t) \<Rightarrow> Some (fl 53 (usage_share u t + usage_share s t)))"

lemma Profile_readable: "readable f \<Longrightarrow> \<exists>ret. Profile (fst f) (snd f) r = Some (reading f, ret)"
  by (auto simp: readable_def reading_def Profile_def Let_def)

lemma usage_share_nonneg: "0 \<le> usage_share u t"
proof -
  have d: "0 \<le> to_double w" for w unfolding to_double_def by (rule fl_bounds(3) [OF exact_word(1)]) simp
  have "0 \<le> fl 53 (to_double u / to_double t)" by (rule fl_bounds(3)) (simp_all add: d)
  then show ?thesis unfolding usage_share_def by (intro fl_bounds(3)) simp_all
qed

lemma sample_nonneg: "sample f = Some x \<Longrightarrow> 0 \<le> x"
  unfolding sample_def by (auto split: option.splits intro!: fl_bounds(3) add_nonneg_nonneg usage_share_nonneg)

lemma Monitor_step_sample:
  assumes "readable (fst f)" "readable (snd f)" "sample f = Some x" "near_mean S k (util c)" "0 \<le> S" "cumm_cnt c = of_nat k" "Suc k < 2 ^ 53"
  shows "\<exists>c'. Monitor_step f c = Some c' \<and> near_mean (S + x) (Suc k) (util c') \<and> cumm_cnt c' = of_nat (Suc k)"
proof -
  obtain u s t where t: "CalcUtil_terms (reading (fst f)) (reading (snd f)) = Some (u, s, t)" "x = fl 53 (usage_share u t + usage_share s t)"
    using assms(3) by (auto simp: sample_def split: option.splits)
  obtain a where a: "calc_avg_filter (util c) x (of_nat (Suc k)) = Some a" "near_mean (S + x) (Suc k) a"
    using calc_avg_filter_near [OF assms(4,5) sample_nonneg [OF assms(3)] assms(7)] by blast
  have "(of_nat k :: u64) \<noteq> - 1"
  proof
    assume "(of_nat k :: u64) = - 1"
    then have "of_nat (Suc k) = (0 :: u64)" by simp
    then show False using count_not_0 [OF assms(7)] by simp
  qed
  moreover obtain r1 r2 where "Profile (fst (fst f)) (snd (fst f)) (res0 c) = Some (reading (fst f), r1)" "\<And>r. Profile (fst (snd f)) (snd (snd f)) r = Some (reading (snd f), r2 r)"
    using Profile_readable [OF assms(1), of "res0 c"] Profile_readable [OF assms(2)] by metis
  ultimately have "Monitor_step f c = Some (c\<lparr>res0 := reading (fst f), res1 := reading (snd f), cumm_cnt := of_nat (Suc k), util := a\<rparr>)"
    using a(1) t assms(6) by (simp add: Monitor_step_def Start_def End_def CalcUtil_def add.commute)
  then show ?thesis using a(2) by simp
qed

lemma Monitor_near:
  assumes "\<forall>f \<in> set fs. readable (fst f) \<and> readable (snd f) \<and> sample f \<noteq> None" "near_mean S k (util c)" "0 \<le> S" "cumm_cnt c = of_nat k" "k + length fs < 2 ^ 53"
  shows "\<exists>c'. Monitor fs c = Some c' \<and> near_mean (S + sum_list (map (the \<circ> sample) fs)) (k + length fs) (util c')"
  using assms
proof (induction fs arbitrary: c S k)
  case (Cons f fs)
  obtain x where x: "sample f = Some x" using Cons.prems(1) by auto
  have "readable (fst f)" "readable (snd f)" "Suc k < 2 ^ 53" using Cons.prems(1,5) by auto
  from Monitor_step_sample [OF this(1,2) x Cons.prems(2-4) this(3)] obtain c1 where
    c1: "Monitor_step f c = Some c1" "near_mean (S + x) (Suc k) (util c1)" "cumm_cnt c1 = of_nat (Suc k)" by blast
  have fs: "\<forall>f \<in> set fs. readable (fst f) \<and> readable (snd f) \<and> sample f \<noteq> None" "Suc k + length fs < 2 ^ 53" using Cons.prems(1,5) by auto
  have "0 \<le> S + x" using Cons.prems(3) sample_nonneg [OF x] by simp
  from Cons.IH [OF fs(1) c1(2) this c1(3) fs(2)] obtain c' where
    c': "Monitor fs c1 = Some c'" "near_mean (S + x + sum_list (map (the \<circ> sample) fs)) (Suc k + length fs) (util c')" by blast
  have e: "S + x + sum_list (map (the \<circ> sample) fs) = S + sum_list (map (the \<circ> sample) (f # fs))" "Suc k + length fs = k + length (f # fs)" using x by simp_all
  have "Monitor (f # fs) c = Some c'" using c' c1(1) by simp
  then show ?case using c'(2) unfolding e by blast
qed simp

section \<open>Properties\<close>

text \<open>
  C37. The load of the machine is a percentage, as the comment of \<^verbatim>\<open>CPUMonitor\<close> promises: after any rounds in each of which
  some time has passed, the monitor holds a number from 0 to 100, and it is the share of the active time in the
  last round, cut off to an integer, up to a thousandth for the six roundings to single precision, also when
  a counter of the kernel has run backwards and its difference has wrapped.
\<close>

theorem cpu_usage_is_percentage:
  assumes "\<forall>(p, q) \<in> set (snaps @ [(prev, cur)]). \<exists>a i. usage_terms p q = Some (a, i) \<and> (a \<noteq> 0 \<or> i \<noteq> 0)" "usage_terms prev cur = Some (active, idle)"
  shows "\<exists>u r. MonitorCPUUsage (snaps @ [(prev, cur)]) CPUMonitor_new = Some u \<and> 0 \<le> GetCPUUsage u \<and> GetCPUUsage u \<le> 100 \<and> GetCPUUsage u = \<lfloor>r\<rfloor>
    \<and> \<bar>r - 100 * exact active / (exact active + exact idle)\<bar> \<le> 1 / 1000"
proof -
  have "active \<noteq> 0 \<or> idle \<noteq> 0" using assms by auto
  from cpu_percentage_near [OF this] obtain r where r: "cpu_percentage active idle = Some \<lfloor>r\<rfloor>" "0 \<le> r"
    "100 * exact active / (exact active + exact idle) - 1 / 1000 \<le> r" "r \<le> 100 * exact active / (exact active + exact idle) + 1 / 1000"
    "100 * exact active / (exact active + exact idle) \<le> 100" by blast
  have "MonitorCPUUsage (snaps @ [(prev, cur)]) w = Some \<lfloor>r\<rfloor>" for w using assms(1)
  proof (induction snaps arbitrary: w)
    case Nil
    then show ?case using r(1) assms(2) by simp
  next
    case (Cons s snaps)
    obtain p q where s: "s = (p, q)" by fastforce
    obtain a i where t: "usage_terms p q = Some (a, i)" "a \<noteq> 0 \<or> i \<noteq> 0" using Cons.prems s by auto
    then obtain v where "cpu_percentage a i = Some v" using cpu_percentage_none [of a i] by auto
    then show ?case using Cons.IH [of v] Cons.prems s t(1) by simp
  qed
  moreover have "0 \<le> \<lfloor>r\<rfloor>" "\<lfloor>r\<rfloor> \<le> 100" using r(2,4,5) by (simp_all add: floor_le_iff)
  moreover have "\<bar>r - 100 * exact active / (exact active + exact idle)\<bar> \<le> 1 / 1000" using r(3,4) by linarith
  ultimately show ?thesis unfolding GetCPUUsage_def by blast
qed

text \<open>Between two snapshots 30 ticks in user mode, 10 in the system and 60 idle.\<close>

theorem cpu_usage_is_percentage_witness:
  "\<exists>u r. MonitorCPUUsage [([\<lparr>mLabel = ''cpu'', mTimes = [5, 0, 5, 100, 0, 0, 0, 0, 0, 0]\<rparr>], [\<lparr>mLabel = ''cpu'', mTimes = [35, 0, 15, 160, 0, 0, 0, 0, 0, 0]\<rparr>])] CPUMonitor_new = Some u
    \<and> 39 \<le> GetCPUUsage u \<and> GetCPUUsage u \<le> 40 \<and> \<bar>r - 40\<bar> \<le> (1 / 1000 :: rat)"
proof -
  let ?p = "[\<lparr>mLabel = ''cpu'', mTimes = [5, 0, 5, 100, 0, 0, 0, 0, 0, 0]\<rparr>]" and ?q = "[\<lparr>mLabel = ''cpu'', mTimes = [35, 0, 15, 160, 0, 0, 0, 0, 0, 0]\<rparr>]"
  have t: "usage_terms ?p ?q = Some (40, 60)" by code_simp
  have e: "100 * exact 40 / (exact 40 + exact 60) = 40" by (simp add: exact_def)
  have h: "\<forall>(p, q) \<in> set ([] @ [(?p, ?q)]). \<exists>a i. usage_terms p q = Some (a, i) \<and> (a \<noteq> 0 \<or> i \<noteq> 0)" using t by simp
  obtain u r where u: "MonitorCPUUsage ([] @ [(?p, ?q)]) CPUMonitor_new = Some u" "GetCPUUsage u = \<lfloor>r\<rfloor>" "\<bar>r - (40 :: rat)\<bar> \<le> 1 / 1000"
    using cpu_usage_is_percentage [OF h t] unfolding e by blast
  have "39 \<le> r" "r < 41" using u(3) by linarith+
  then have "39 \<le> \<lfloor>r\<rfloor>" "\<lfloor>r\<rfloor> \<le> 40" by (simp_all add: le_floor_iff floor_le_iff)
  then show ?thesis using u unfolding append_Nil by (intro exI [of _ u] exI [of _ r]) simp
qed

text \<open>
  The load of the process is the mean of its rounds: after \<open>n\<close> rounds whose files could be read and in each of which time
  has passed, the value the running mean holds differs from the mean of the \<open>n\<close> shares by at
  most three roundings to double precision per round.
\<close>

theorem utilisation_is_mean:
  assumes "\<forall>f \<in> set fs. readable (fst f) \<and> readable (snd f) \<and> sample f \<noteq> None" "fs \<noteq> []" "length fs < 2 ^ 53"
  defines "mean \<equiv> sum_list (map (the \<circ> sample) fs) / of_nat (length fs)"
  shows "\<exists>c. Monitor fs (CPUStats_new pid i r0 r1) = Some c
    \<and> mean * (1 - 1 / 2 ^ 53) ^ (3 * length fs) \<le> GetUtil c \<and> GetUtil c \<le> mean * (1 + 1 / 2 ^ 53) ^ (3 * length fs)"
proof -
  have n: "0 < (of_nat (length fs) :: rat)" using assms(2) by simp
  obtain c where c: "Monitor fs (CPUStats_new pid i r0 r1) = Some c" "near_mean (0 + sum_list (map (the \<circ> sample) fs)) (0 + length fs) (util c)"
    using Monitor_near [OF assms(1), of 0 0 "CPUStats_new pid i r0 r1"] assms(3) by (auto simp: near_mean_def CPUStats_new_def)
  have m: "sum_list (map (the \<circ> sample) fs) = mean * of_nat (length fs)" using assms(2) by (simp add: mean_def)
  have "mean * (1 - 1 / 2 ^ 53) ^ (3 * length fs) * of_nat (length fs) \<le> GetUtil c * of_nat (length fs)"
    "GetUtil c * of_nat (length fs) \<le> mean * (1 + 1 / 2 ^ 53) ^ (3 * length fs) * of_nat (length fs)"
    using c(2) unfolding m near_mean_def GetUtil_def by (simp_all only: add_0_left ac_simps)
  then have "mean * (1 - 1 / 2 ^ 53) ^ (3 * length fs) \<le> GetUtil c" "GetUtil c \<le> mean * (1 + 1 / 2 ^ 53) ^ (3 * length fs)"
    using n by (simp_all only: mult_le_cancel_right_pos)
  then show ?thesis using c(1) by blast
qed

text \<open>One round of two ticks of the process in 100 ticks of the machine.\<close>

definition proc_files :: "int \<Rightarrow> int \<Rightarrow> string option \<times> string option" where
  "proc_files u t = (Some (pid_line 7 ''a'' (CHR ''S'') (replicate 10 1 @ [u, u, 0, 0] @ replicate 7 0)), Some (''cpu'' @ show_ints (replicate 9 0 @ [t]) @ CHR 0x0A # []))"

lemma proc_reading:
  assumes "0 \<le> u" "u < 2 ^ 64" "0 \<le> t" "t < 2 ^ 64"
  shows "reading (proc_files u t) = \<lparr>utime_ticks = of_int u, cutime_ticks = 0, stime_ticks = of_int u, cstime_ticks = 0, cpu_total_time = of_int t\<rparr>"
  unfolding reading_def proc_files_def fst_conv snd_conv using assms by (subst Profile_reads_back) (auto simp: is_space_def sum_list_replicate)

abbreviation proc_before :: "string option \<times> string option" where "proc_before \<equiv> proc_files 10 200"

abbreviation proc_after :: "string option \<times> string option" where "proc_after \<equiv> proc_files 11 300"

lemma proc_terms: "CalcUtil_terms (reading proc_before) (reading proc_after) = Some (1, 1, 100)"
  by (simp add: proc_reading CalcUtil_terms_def)

theorem utilisation_is_mean_witness:
  "\<exists>c m. sample (proc_before, proc_after) = Some m \<and> Monitor [(proc_before, proc_after)] (CPUStats_new 7 1 cpu_stat_zero cpu_stat_zero) = Some c
    \<and> m * (1 - 1 / 2 ^ 53) ^ 3 \<le> GetUtil c \<and> GetUtil c \<le> m * (1 + 1 / 2 ^ 53) ^ 3"
proof -
  let ?f = "(proc_before, proc_after)"
  have s: "sample ?f = Some (fl 53 (usage_share 1 100 + usage_share 1 100))" by (simp add: sample_def proc_terms)
  have r: "\<forall>f \<in> set [?f]. readable (fst f) \<and> readable (snd f) \<and> sample f \<noteq> None" using s by (simp add: readable_def proc_files_def)
  have m: "sum_list (map (the \<circ> sample) [?f]) / of_nat (length [?f]) = fl 53 (usage_share 1 100 + usage_share 1 100)" "3 * length [?f] = 3" by (simp_all add: s)
  have "[?f] \<noteq> []" "length [?f] < 2 ^ 53" by simp_all
  from utilisation_is_mean [OF r this, of 7 1 cpu_stat_zero cpu_stat_zero] show ?thesis unfolding m using s by blast
qed

text \<open>
  A round in which no time has passed returns before the mean is updated, but is counted: when it comes first,
  the next share enters with half its weight.
\<close>

lemma idle_round_counts:
  assumes "readable (fst f)" "readable (snd f)" "sample f = None" "readable (fst g)" "readable (snd g)" "sample g = Some x"
  shows "\<exists>c. Monitor [f, g] (CPUStats_new pid i r0 r1) = Some c \<and> GetUtil c = fl 53 (fl 53 (x / 2))"
proof -
  let ?c = "CPUStats_new pid i r0 r1"
  obtain u1 u2 u3 u4 where u: "\<And>r. Profile (fst (fst f)) (snd (fst f)) r = Some (reading (fst f), u1 r)" "\<And>r. Profile (fst (snd f)) (snd (snd f)) r = Some (reading (snd f), u2 r)"
    "\<And>r. Profile (fst (fst g)) (snd (fst g)) r = Some (reading (fst g), u3 r)" "\<And>r. Profile (fst (snd g)) (snd (snd g)) r = Some (reading (snd g), u4 r)"
    using Profile_readable [OF assms(1)] Profile_readable [OF assms(2)] Profile_readable [OF assms(4)] Profile_readable [OF assms(5)] by metis
  have f: "CalcUtil_terms (reading (fst f)) (reading (snd f)) = None" using assms(3) by (auto simp: sample_def split: option.splits)
  obtain a s t where g: "CalcUtil_terms (reading (fst g)) (reading (snd g)) = Some (a, s, t)" "x = fl 53 (usage_share a t + usage_share s t)"
    using assms(6) by (auto simp: sample_def split: option.splits)
  have d: "to_double 2 = 2" using to_double_count [of 2] by simp
  have 1: "Monitor_step f ?c = Some (?c\<lparr>res0 := reading (fst f), res1 := reading (snd f), cumm_cnt := 1\<rparr>)"
    using f u by (simp add: Monitor_step_def Start_def End_def CalcUtil_def CPUStats_new_def)
  have 2: "Monitor_step g (?c\<lparr>res0 := reading (fst f), res1 := reading (snd f), cumm_cnt := 1\<rparr>)
      = Some (?c\<lparr>res0 := reading (fst g), res1 := reading (snd g), cumm_cnt := 2, util := fl 53 (fl 53 (x / 2))\<rparr>)"
    using g u by (simp add: Monitor_step_def Start_def End_def CalcUtil_def CPUStats_new_def calc_avg_filter_def d)
  show ?thesis using 1 2 by (simp add: GetUtil_def)
qed

end
