(* ===== verification/Ht_Steps.thy ===== *)
theory Ht_Steps
  imports Drv_Filters
begin

text \<open>
  The hash table of the driver under contention (\<^verbatim>\<open>driver/hashtable.c\<close>): the cleancache operations of all
  processors use it at the same time.  A range of 16 buckets has a reader-writer lock.  A thread takes the lock, walks
  the list of a bucket node by node, and gives the lock up with its last step there; an insertion does so
  twice, once to remove the old node and once to add the new one.  The steps of any number of threads
  interleave in any order.
\<close>

section \<open>Calls, control points and steps\<close>

datatype ht_call = HT_insert u64 u64 | HT_get u64 | HT_remove u64

fun ht_call_key :: "ht_call \<Rightarrow> u64" where
  "ht_call_key (HT_insert k v) = k"
| "ht_call_key (HT_get k) = k"
| "ht_call_key (HT_remove k) = k"

datatype ht_pc =
    H_idle
  | H_rem_lock ht_call
  | H_rem ht_call nat
  | H_add_lock ht_call u64
  | H_add ht_call u64
  | H_get_lock ht_call
  | H_get ht_call nat
  | H_done ht_call "u64 option"

definition ht_start :: "ht_call \<Rightarrow> ht_pc" where
  "ht_start c = (case c of HT_insert k v \<Rightarrow> H_rem_lock c | HT_get k \<Rightarrow> H_get_lock c | HT_remove k \<Rightarrow> H_rem_lock c)"

definition lock_idx :: "hashtable_t \<Rightarrow> u64 \<Rightarrow> nat" where
  "lock_idx t key = get_bkt_id t key div ht_lock_size t"

text \<open>The lock that a thread holds for writing, or for reading.\<close>

fun holds_write :: "hashtable_t \<Rightarrow> ht_pc \<Rightarrow> nat option" where
  "holds_write t (H_rem c i) = Some (lock_idx t (ht_call_key c))"
| "holds_write t (H_add c v) = Some (lock_idx t (ht_call_key c))"
| "holds_write t _ = None"

fun holds_read :: "hashtable_t \<Rightarrow> ht_pc \<Rightarrow> nat option" where
  "holds_read t (H_get c i) = Some (lock_idx t (ht_call_key c))"
| "holds_read t _ = None"

text \<open>What follows the removal of a node with the given value.\<close>

definition after_remove :: "ht_call \<Rightarrow> u64 \<Rightarrow> ht_pc" where
  "after_remove c value = (case c of HT_insert k v \<Rightarrow> H_add_lock c value | _ \<Rightarrow> H_done c (Some value))"

definition set_bkt :: "hashtable_t \<Rightarrow> u64 \<Rightarrow> ht_node_t list \<Rightarrow> hashtable_t" where
  "set_bkt t key b = t\<lparr>hlistheads := (hlistheads t)[get_bkt_id t key := b]\<rparr>"

abbreviation bkt_of :: "hashtable_t \<Rightarrow> u64 \<Rightarrow> ht_node_t list" where
  "bkt_of t key \<equiv> hlistheads t ! get_bkt_id t key"

text \<open>One step; \<open>fw l\<close> says that no other thread holds the lock \<open>l\<close>, \<open>fr l\<close> that none holds it for writing.\<close>

fun ht_step :: "(nat \<Rightarrow> bool) \<Rightarrow> (nat \<Rightarrow> bool) \<Rightarrow> ht_pc \<Rightarrow> hashtable_t \<Rightarrow> hashtable_t \<times> ht_pc" where
  "ht_step fw fr (H_rem_lock c) t = (t, if fw (lock_idx t (ht_call_key c)) then H_rem c 0 else H_rem_lock c)"
| "ht_step fw fr (H_rem c i) t =
     (let key = ht_call_key c; b = bkt_of t key
      in if i < length b then
           (if ht_key (b ! i) = key then (set_bkt t key (take i b @ drop (i + 1) b), after_remove c (ht_value (b ! i))) else (t, H_rem c (i + 1)))
         else (t, after_remove c (- 1)))"
| "ht_step fw fr (H_add_lock c tmp) t = (t, if fw (lock_idx t (ht_call_key c)) then H_add c tmp else H_add_lock c tmp)"
| "ht_step fw fr (H_add c tmp) t =
     (case c of HT_insert k v \<Rightarrow> (set_bkt t k (allocate_node k v # bkt_of t k), H_done c None) | _ \<Rightarrow> (t, H_add c tmp))"
| "ht_step fw fr (H_get_lock c) t = (t, if fr (lock_idx t (ht_call_key c)) then H_get c 0 else H_get_lock c)"
| "ht_step fw fr (H_get c i) t =
     (let key = ht_call_key c; b = bkt_of t key
      in (t, if i < length b then (if ht_key (b ! i) = key then H_done c (Some (ht_value (b ! i))) else H_get c (i + 1)) else H_done c (Some (- 1))))"
| "ht_step fw fr pc t = (t, pc)"

section \<open>Interleaving\<close>

definition free_w :: "hashtable_t \<Rightarrow> ht_pc list \<Rightarrow> nat \<Rightarrow> nat \<Rightarrow> bool" where
  "free_w t pcs j l \<longleftrightarrow> (\<forall>k < length pcs. k \<noteq> j \<longrightarrow> holds_write t (pcs ! k) \<noteq> Some l \<and> holds_read t (pcs ! k) \<noteq> Some l)"

definition free_r :: "hashtable_t \<Rightarrow> ht_pc list \<Rightarrow> nat \<Rightarrow> nat \<Rightarrow> bool" where
  "free_r t pcs j l \<longleftrightarrow> (\<forall>k < length pcs. k \<noteq> j \<longrightarrow> holds_write t (pcs ! k) \<noteq> Some l)"

fun ht_rest :: "ht_pc \<Rightarrow> bool" where
  "ht_rest H_idle = True"
| "ht_rest (H_done c r) = True"
| "ht_rest _ = False"

text \<open>The key that a thread is inserting.\<close>

fun inserting :: "ht_pc \<Rightarrow> u64 option" where
  "inserting (H_rem_lock (HT_insert k v)) = Some k"
| "inserting (H_rem (HT_insert k v) i) = Some k"
| "inserting (H_add_lock (HT_insert k v) tmp) = Some k"
| "inserting (H_add (HT_insert k v) tmp) = Some k"
| "inserting _ = None"

text \<open>The critical sections with their results, in the order in which they end.\<close>

datatype ht_section = S_rem u64 u64 | S_add u64 u64 | S_get u64 u64

fun section_of :: "ht_pc \<Rightarrow> ht_pc \<Rightarrow> ht_section list" where
  "section_of (H_rem c i) (H_done c' (Some v)) = [S_rem (ht_call_key c) v]"
| "section_of (H_rem c i) (H_add_lock c' v) = [S_rem (ht_call_key c) v]"
| "section_of (H_add (HT_insert k v) tmp) (H_done c r) = [S_add k v]"
| "section_of (H_get c i) (H_done c' (Some v)) = [S_get (ht_call_key c) v]"
| "section_of _ _ = []"

text \<open>
  \<open>ht_reach own t0 m t pcs hist\<close>: from the table \<open>t0\<close> the \<open>m\<close> threads came to \<open>t\<close> and \<open>pcs\<close> through the sections \<open>hist\<close>.  With \<open>own\<close> no
  two threads insert one key at the same time, as the page locks of the kernel ensure.
\<close>

inductive ht_reach :: "bool \<Rightarrow> hashtable_t \<Rightarrow> nat \<Rightarrow> hashtable_t \<Rightarrow> ht_pc list \<Rightarrow> ht_section list \<Rightarrow> bool" for own t0 m where
  ht_new: "ht_reach own t0 m t0 (replicate m H_idle) []"
| ht_call: "ht_reach own t0 m t pcs hist \<Longrightarrow> j < m \<Longrightarrow> ht_rest (pcs ! j) \<Longrightarrow>
    (own \<Longrightarrow> \<forall>k v. c = HT_insert k v \<longrightarrow> (\<forall>pc \<in> set pcs. inserting pc \<noteq> Some k)) \<Longrightarrow> ht_reach own t0 m t (pcs[j := ht_start c]) hist"
| ht_go: "ht_reach own t0 m t pcs hist \<Longrightarrow> j < m \<Longrightarrow> ht_step (free_w t pcs j) (free_r t pcs j) (pcs ! j) t = (t', pc) \<Longrightarrow>
    ht_reach own t0 m t' (pcs[j := pc]) (hist @ section_of (pcs ! j) pc)"

text \<open>The sections on a map: what they do to it, if their results are those of the map.\<close>

definition map_value :: "(u64 \<rightharpoonup> u64) \<Rightarrow> u64 \<Rightarrow> u64" where
  "map_value m k = (case m k of None \<Rightarrow> - 1 | Some v \<Rightarrow> v)"

fun section_spec :: "ht_section \<Rightarrow> (u64 \<rightharpoonup> u64) \<Rightarrow> (u64 \<rightharpoonup> u64) option" where
  "section_spec (S_rem k r) m = (if r = map_value m k then Some (m(k := None)) else None)"
| "section_spec (S_add k v) m = Some (m(k \<mapsto> v))"
| "section_spec (S_get k r) m = (if r = map_value m k then Some m else None)"

fun sections_spec :: "ht_section list \<Rightarrow> (u64 \<rightharpoonup> u64) \<Rightarrow> (u64 \<rightharpoonup> u64) option" where
  "sections_spec [] m = Some m"
| "sections_spec (s # ss) m = Option.bind (section_spec s m) (sections_spec ss)"

lemma sections_spec_append: "sections_spec (xs @ ys) m = Option.bind (sections_spec xs m) (sections_spec ys)"
  by (induction xs arbitrary: m) (auto split: bind_splits)

section \<open>Invariant\<close>

definition absent :: "hashtable_t \<Rightarrow> u64 \<Rightarrow> bool" where
  "absent t k \<longleftrightarrow> k \<notin> ht_key ` set (bkt_of t k)"

text \<open>The nodes a walk has passed do not have its key; between the sections of an insertion its key is absent.\<close>

fun hpc_ok :: "hashtable_t \<Rightarrow> ht_pc \<Rightarrow> bool" where
  "hpc_ok t (H_rem c i) \<longleftrightarrow> i \<le> length (bkt_of t (ht_call_key c)) \<and> ht_call_key c \<notin> ht_key ` set (take i (bkt_of t (ht_call_key c))) \<and> (\<forall>k. c \<noteq> HT_get k)"
| "hpc_ok t (H_get c i) \<longleftrightarrow> i \<le> length (bkt_of t (ht_call_key c)) \<and> ht_call_key c \<notin> ht_key ` set (take i (bkt_of t (ht_call_key c)))"
| "hpc_ok t (H_rem_lock c) \<longleftrightarrow> (\<forall>k. c \<noteq> HT_get k)"
| "hpc_ok t (H_add_lock c tmp) \<longleftrightarrow> (\<exists>k v. c = HT_insert k v) \<and> absent t (ht_call_key c)"
| "hpc_ok t (H_add c tmp) \<longleftrightarrow> (\<exists>k v. c = HT_insert k v) \<and> absent t (ht_call_key c)"
| "hpc_ok t _ \<longleftrightarrow> True"

definition ht_excl :: "hashtable_t \<Rightarrow> ht_pc list \<Rightarrow> bool" where
  "ht_excl t pcs \<longleftrightarrow> (\<forall>j < length pcs. \<forall>l. holds_write t (pcs ! j) = Some l \<longrightarrow> free_w t pcs j l)"

definition own_keys :: "ht_pc list \<Rightarrow> bool" where
  "own_keys pcs \<longleftrightarrow> (\<forall>i < length pcs. \<forall>j < length pcs. i \<noteq> j \<longrightarrow> inserting (pcs ! i) \<noteq> None \<longrightarrow> inserting (pcs ! i) \<noteq> inserting (pcs ! j))"

definition hts_inv :: "hashtable_t \<Rightarrow> ht_pc list \<Rightarrow> ht_section list \<Rightarrow> (u64 \<rightharpoonup> u64) \<Rightarrow> bool" where
  "hts_inv t pcs hist m0 \<longleftrightarrow> ht_inv t \<and> (\<forall>pc \<in> set pcs. hpc_ok t pc) \<and> ht_excl t pcs \<and> own_keys pcs \<and> sections_spec hist m0 = Some (ht_map t)"

lemma set_bkt_simps [simp]:
  "get_bkt_id (set_bkt t k b) = get_bkt_id t" "lock_idx (set_bkt t k b) = lock_idx t"
  "holds_write (set_bkt t k b) pc = holds_write t pc" "holds_read (set_bkt t k b) pc = holds_read t pc"
proof -
  show 1: "lock_idx (set_bkt t k b) = lock_idx t" by (simp add: set_bkt_def lock_idx_def fun_eq_iff)
  show "get_bkt_id (set_bkt t k b) = get_bkt_id t" by (simp add: set_bkt_def)
  show "holds_write (set_bkt t k b) pc = holds_write t pc" "holds_read (set_bkt t k b) pc = holds_read t pc" using 1 by (cases pc; simp)+
qed

lemma bkt_of_set: "ht_inv t \<Longrightarrow> bkt_of (set_bkt t k b) k' = (if get_bkt_id t k' = get_bkt_id t k then b else bkt_of t k')"
  using bkt_less [of t k] by (simp add: set_bkt_def)

lemma bkt_del_at:
  assumes "i < length b" "ht_key (b ! i) = k" "k \<notin> ht_key ` set (take i b)"
  shows "bkt_del k b = (take i b @ drop (i + 1) b, ht_value (b ! i))"
  using assms
proof (induction b arbitrary: i)
  case (Cons n b)
  then show ?case by (cases i) auto
qed simp

lemma bkt_del_none: "k \<notin> ht_key ` set b \<Longrightarrow> bkt_del k b = (b, - 1)"
  by (induction b) auto

lemma bkt_find_at: "i < length b \<Longrightarrow> ht_key (b ! i) = k \<Longrightarrow> k \<notin> ht_key ` set (take i b) \<Longrightarrow> bkt_find k b = ht_value (b ! i)"
proof (induction b arbitrary: i)
  case (Cons n b)
  then show ?case by (cases i) auto
qed simp

lemma bkt_find_none: "k \<notin> ht_key ` set b \<Longrightarrow> bkt_find k b = - 1"
  by (induction b) auto

lemma map_value_get: "ht_inv t \<Longrightarrow> map_value (ht_map t) k = bkt_find k (bkt_of t k)"
  using drv_ht.get_law [of t k] by (simp add: map_value_def hashtable_get_def)

text \<open>A walk that has ended has done what the sequential operation does.\<close>

lemma removed:
  assumes "ht_inv t" "bkt_del k (bkt_of t k) = (b, v)"
  shows "ht_inv (set_bkt t k b)" "section_spec (S_rem k v) (ht_map t) = Some (ht_map (set_bkt t k b))" "absent (set_bkt t k b) k"
    "ht_key ` set b \<subseteq> ht_key ` set (bkt_of t k)"
proof -
  have r: "hashtable_remove t k = (set_bkt t k b, v)" using assms(2) by (simp add: hashtable_remove_def set_bkt_def Let_def)
  note R = hashtable_remove_spec [OF assms(1), of k]
  show "ht_inv (set_bkt t k b)" using R(1) r by simp
  show "section_spec (S_rem k v) (ht_map t) = Some (ht_map (set_bkt t k b))" using R(2,3) r drv_ht.get_law [OF assms(1), of k] by (simp add: map_value_def)
  show "absent (set_bkt t k b) k" using R(4) r by (simp add: absent_def)
  show "ht_key ` set b \<subseteq> ht_key ` set (bkt_of t k)" using bkt_del_keys [of k "bkt_of t k"] assms(2) by auto
qed

lemma added:
  assumes "ht_inv t" "absent t k"
  shows "ht_inv (set_bkt t k (allocate_node k v # bkt_of t k))" "ht_map (set_bkt t k (allocate_node k v # bkt_of t k)) = (ht_map t)(k \<mapsto> v)"
proof -
  let ?b = "allocate_node k v # bkt_of t k"
  have d: "distinct (map ht_key ?b)" using ht_bkt_distinct [OF assms(1), of k] assms(2) by (simp add: allocate_node_def absent_def)
  have b: "bkt_map ?b k' = (if k' = k then Some v else bkt_map (bkt_of t k) k')" for k' by (simp add: bkt_map_def allocate_node_def)
  show "ht_inv (set_bkt t k ?b)" "ht_map (set_bkt t k ?b) = (ht_map t)(k \<mapsto> v)" using ht_set_bkt [OF assms(1) d, of k] b by (simp_all add: set_bkt_def)
qed

section \<open>Every step keeps the invariant\<close>

text \<open>What a step may do to the table: it writes one bucket whose lock it holds, and adds at most the key it inserts.\<close>

definition writes_own :: "hashtable_t \<Rightarrow> ht_pc \<Rightarrow> hashtable_t \<Rightarrow> bool" where
  "writes_own t pc t' \<longleftrightarrow> t' = t \<or> (\<exists>k b. t' = set_bkt t k b \<and> holds_write t pc = Some (lock_idx t k)
     \<and> ht_key ` set b \<subseteq> ht_key ` set (bkt_of t k) \<union> {x. inserting pc = Some x})"

lemma take_Suc_keys: "i < length b \<Longrightarrow> ht_key (b ! i) \<noteq> k \<Longrightarrow> k \<notin> ht_key ` set (take i b) \<Longrightarrow> k \<notin> ht_key ` set (take (i + 1) b)"
  by (auto simp: take_Suc_conv_app_nth)

lemma ht_step_own:
  assumes "ht_step fw fr pc t = (t', pc')" "ht_inv t" "hpc_ok t pc"
  shows "ht_inv t' \<and> sections_spec (section_of pc pc') (ht_map t) = Some (ht_map t') \<and> hpc_ok t' pc' \<and> writes_own t pc t'"
proof (cases pc)
  case (H_rem c i)
  let ?k = "ht_call_key c" let ?b = "bkt_of t ?k"
  have ok: "i \<le> length ?b" "?k \<notin> ht_key ` set (take i ?b)" "\<And>k. c \<noteq> HT_get k" using assms(3) by (simp_all add: H_rem)
  show ?thesis
  proof (cases "i < length ?b \<and> ht_key (?b ! i) \<noteq> ?k")
    case True
    then have "t' = t" "pc' = H_rem c (i + 1)" using assms(1) by (auto simp: H_rem Let_def)
    then show ?thesis using True ok take_Suc_keys [of i ?b ?k] assms(2) by (simp add: H_rem writes_own_def)
  next
    case False
    obtain b v where d: "bkt_del ?k ?b = (b, v)" by fastforce
    have st: "t' = (if i < length ?b then set_bkt t ?k b else t) \<and> pc' = after_remove c v"
      using assms(1) False d ok bkt_del_at [of i ?b ?k] bkt_del_none [of ?k ?b] by (auto simp: H_rem Let_def)
    have "set_bkt t ?k ?b = t" by (simp add: set_bkt_def)
    then have t': "t' = set_bkt t ?k b" using st d ok False bkt_del_none [of ?k ?b] by (auto split: if_splits)
    note R = removed [OF assms(2) d, folded t']
    have sec: "section_of pc pc' = [S_rem ?k v]" using st ok(3) by (cases c) (auto simp: H_rem after_remove_def)
    have "hpc_ok t' pc'" using st R(3) by (cases c) (simp_all add: after_remove_def)
    moreover have "writes_own t pc t'" unfolding writes_own_def using R(4) t' by (intro disjI2 exI [of _ ?k] exI [of _ b]) (auto simp: H_rem)
    ultimately show ?thesis using R(1,2) sec by simp
  qed
next
  case (H_add c tmp)
  obtain k v where c: "c = HT_insert k v" "absent t k" using assms(3) by (auto simp: H_add)
  then have st: "t' = set_bkt t k (allocate_node k v # bkt_of t k)" "pc' = H_done c None" using assms(1) by (simp_all add: H_add)
  note A = added [OF assms(2) c(2), of v, folded st(1)]
  have "writes_own t pc t'" unfolding writes_own_def st(1)
    by (intro disjI2 exI [of _ k] exI [of _ "allocate_node k v # bkt_of t k"]) (auto simp: H_add c allocate_node_def)
  then show ?thesis using A st c(1) by (simp add: H_add)
next
  case (H_get c i)
  let ?k = "ht_call_key c" let ?b = "bkt_of t ?k"
  have ok: "i \<le> length ?b" "?k \<notin> ht_key ` set (take i ?b)" using assms(3) by (simp_all add: H_get)
  have t': "t' = t" using assms(1) by (simp add: H_get Let_def)
  show ?thesis
  proof (cases "i < length ?b \<and> ht_key (?b ! i) \<noteq> ?k")
    case True
    then have "pc' = H_get c (i + 1)" using assms(1) by (auto simp: H_get Let_def)
    then show ?thesis using True ok take_Suc_keys [of i ?b ?k] assms(2) t' by (simp add: H_get writes_own_def)
  next
    case False
    then have "pc' = H_done c (Some (bkt_find ?k ?b))"
      using assms(1) ok bkt_find_at [of i ?b ?k] bkt_find_none [of ?k ?b] by (auto simp: H_get Let_def)
    then show ?thesis using t' assms(2) map_value_get [OF assms(2), of ?k] by (simp add: H_get writes_own_def)
  qed
qed (use assms in \<open>auto simp: writes_own_def split: if_splits\<close>)

lemma ht_step_locks:
  assumes "ht_step fw fr pc t = (t', pc')"
  shows "holds_write t' pc' = Some l \<Longrightarrow> holds_write t pc = Some l \<or> fw l" "holds_read t' pc' = Some l \<Longrightarrow> holds_read t pc = Some l \<or> fr l"
    "inserting pc' = inserting pc \<or> inserting pc' = None"
proof -
  have A: "(holds_write t' pc' = Some l \<longrightarrow> holds_write t pc = Some l \<or> fw l) \<and> (holds_read t' pc' = Some l \<longrightarrow> holds_read t pc = Some l \<or> fr l)
    \<and> (inserting pc' = inserting pc \<or> inserting pc' = None)"
  proof (cases pc)
    case (H_rem_lock c) then show ?thesis using assms by (cases c) (auto split: if_splits)
  next
    case (H_rem c i) then show ?thesis using assms by (cases c) (auto simp: Let_def after_remove_def split: if_splits)
  next
    case (H_add_lock c i) then show ?thesis using assms by (cases c) (auto split: if_splits)
  next
    case (H_add c i) then show ?thesis using assms by (cases c) auto
  next
    case (H_get_lock c) then show ?thesis using assms by (auto split: if_splits)
  next
    case (H_get c i) then show ?thesis using assms by (auto simp: Let_def split: if_splits)
  qed (use assms in auto)
  show "holds_write t' pc' = Some l \<Longrightarrow> holds_write t pc = Some l \<or> fw l" using A by simp
  show "holds_read t' pc' = Some l \<Longrightarrow> holds_read t pc = Some l \<or> fr l" using A by simp
  show "inserting pc' = inserting pc \<or> inserting pc' = None" using A by (elim conjE)
qed

text \<open>Another thread does not notice.\<close>

lemma hpc_ok_other:
  assumes "writes_own t pc t'" "ht_inv t" "hpc_ok t q" "inserting q \<noteq> None \<longrightarrow> inserting pc \<noteq> inserting q"
    and "\<And>l. holds_write t pc = Some l \<Longrightarrow> holds_write t q \<noteq> Some l \<and> holds_read t q \<noteq> Some l"
  shows "hpc_ok t' q"
proof (cases "t' = t")
  case False
  then obtain k b where w: "t' = set_bkt t k b" "holds_write t pc = Some (lock_idx t k)" "ht_key ` set b \<subseteq> ht_key ` set (bkt_of t k) \<union> {x. inserting pc = Some x}"
    using assms(1) by (auto simp: writes_own_def)
  have other: "bkt_of t' (ht_call_key c) = bkt_of t (ht_call_key c)" if "holds_write t q = Some (lock_idx t (ht_call_key c)) \<or> holds_read t q = Some (lock_idx t (ht_call_key c))" for c
  proof -
    have "lock_idx t (ht_call_key c) \<noteq> lock_idx t k" using assms(5) [OF w(2)] that by auto
    then have "get_bkt_id t (ht_call_key c) \<noteq> get_bkt_id t k" by (auto simp: lock_idx_def)
    then show ?thesis unfolding w(1) bkt_of_set [OF assms(2)] by simp
  qed
  have gone: "absent t' k'" if "absent t k'" "inserting q = Some k'" for k'
    using that assms(4) w(3) unfolding absent_def w(1) bkt_of_set [OF assms(2)] by auto
  show ?thesis
  proof (cases q)
    case (H_rem c i) then show ?thesis using assms(3) other [of c] by simp
  next
    case (H_get c i) then show ?thesis using assms(3) other [of c] by simp
  next
    case (H_add_lock c i) then show ?thesis using assms(3) gone [of "ht_call_key c"] by auto
  next
    case (H_add c i) then show ?thesis using assms(3) gone [of "ht_call_key c"] by auto
  qed (use assms(3) in auto)
qed (use assms in simp)

lemma holds_same: "writes_own t pc t' \<Longrightarrow> holds_write t' q = holds_write t q \<and> holds_read t' q = holds_read t q"
  by (auto simp: writes_own_def)

lemma ht_excl_set:
  assumes "ht_excl t pcs" "j < length pcs" "\<And>l. holds_write t pc = Some l \<Longrightarrow> free_w t pcs j l" "\<And>l. holds_read t pc = Some l \<Longrightarrow> free_r t pcs j l"
  shows "ht_excl t (pcs[j := pc])"
proof -
  have "free_w t (pcs[j := pc]) k l" if k: "k < length pcs" "holds_write t (pcs[j := pc] ! k) = Some l" for k l
  proof (cases "k = j")
    case True
    then have "free_w t pcs j l" using assms(2,3) k(2) by simp
    then show ?thesis using True by (simp add: free_w_def)
  next
    case False
    then have h: "holds_write t (pcs ! k) = Some l" using k(2) by simp
    then have f: "free_w t pcs k l" using assms(1) k(1) by (simp add: ht_excl_def)
    have "holds_write t pc \<noteq> Some l" "holds_read t pc \<noteq> Some l" using assms(3,4) [of l] h k(1) False by (auto simp: free_w_def free_r_def)
    then show ?thesis using f assms(2) by (auto simp: free_w_def nth_list_update)
  qed
  then show ?thesis by (simp add: ht_excl_def)
qed

lemma own_keys_set:
  assumes "own_keys pcs" "j < length pcs" "inserting pc \<noteq> None \<longrightarrow> (\<forall>k < length pcs. k \<noteq> j \<longrightarrow> inserting (pcs ! k) \<noteq> inserting pc)"
  shows "own_keys (pcs[j := pc])"
  using assms unfolding own_keys_def by (simp add: nth_list_update) metis

lemma hts_inv_go:
  assumes I: "hts_inv t pcs hist m0" and j: "j < length pcs" and st: "ht_step (free_w t pcs j) (free_r t pcs j) (pcs ! j) t = (t', pc)"
  shows "hts_inv t' (pcs[j := pc]) (hist @ section_of (pcs ! j) pc) m0"
proof -
  have i: "ht_inv t" "\<And>k. k < length pcs \<Longrightarrow> hpc_ok t (pcs ! k)" "ht_excl t pcs" "own_keys pcs" "sections_spec hist m0 = Some (ht_map t)" using I by (auto simp: hts_inv_def)
  note O = ht_step_own [OF st i(1) i(2) [OF j]] and L = ht_step_locks [OF st]
  have w: "writes_own t (pcs ! j) t'" using O by blast
  have x: "holds_write t (pcs ! j) = Some l \<Longrightarrow> free_w t pcs j l" for l using i(3) j by (auto simp: ht_excl_def)
  have other: "hpc_ok t' (pcs ! k)" if k: "k < length pcs" "k \<noteq> j" for k
  proof (rule hpc_ok_other [OF w i(1) i(2) [OF k(1)]])
    show "inserting (pcs ! k) \<noteq> None \<longrightarrow> inserting (pcs ! j) \<noteq> inserting (pcs ! k)" using i(4) k j unfolding own_keys_def by metis
    show "holds_write t (pcs ! k) \<noteq> Some l \<and> holds_read t (pcs ! k) \<noteq> Some l" if "holds_write t (pcs ! j) = Some l" for l
      using x [OF that] k by (auto simp: free_w_def)
  qed
  have "\<forall>q \<in> set (pcs[j := pc]). hpc_ok t' q" using other O j by (auto simp: in_set_conv_nth nth_list_update)
  moreover have "ht_excl t (pcs[j := pc])"
  proof (rule ht_excl_set [OF i(3) j])
    show "free_w t pcs j l" if "holds_write t pc = Some l" for l using L(1) [of l] that x holds_same [OF w] by auto
    show "free_r t pcs j l" if h: "holds_read t pc = Some l" for l
    proof -
      have "holds_read t (pcs ! j) = Some l \<or> free_r t pcs j l" using L(2) [of l] h holds_same [OF w] by auto
      moreover have "free_r t pcs j l" if r: "holds_read t (pcs ! j) = Some l"
      proof -
        have "holds_write t (pcs ! k) \<noteq> Some l" if k: "k < length pcs" "k \<noteq> j" for k using i(3) k j r unfolding ht_excl_def free_w_def by metis
        then show ?thesis by (simp add: free_r_def)
      qed
      ultimately show ?thesis by blast
    qed
  qed
  then have "ht_excl t' (pcs[j := pc])" using holds_same [OF w] by (simp add: ht_excl_def free_w_def)
  moreover have "own_keys (pcs[j := pc])" 
  proof (rule own_keys_set [OF i(4) j])
    show "inserting pc \<noteq> None \<longrightarrow> (\<forall>k < length pcs. k \<noteq> j \<longrightarrow> inserting (pcs ! k) \<noteq> inserting pc)" using L(3) i(4) j unfolding own_keys_def by metis
  qed
  ultimately show ?thesis using O i(5) by (simp add: hts_inv_def sections_spec_append)
qed

lemma hts_inv_call:
  assumes I: "hts_inv t pcs hist m0" and j: "j < length pcs" and c: "\<forall>k v. c = HT_insert k v \<longrightarrow> (\<forall>pc \<in> set pcs. inserting pc \<noteq> Some k)"
  shows "hts_inv t (pcs[j := ht_start c]) hist m0"
proof -
  have s: "hpc_ok t (ht_start c)" "holds_write t (ht_start c) = None" "holds_read t (ht_start c) = None"
    "inserting (ht_start c) = (case c of HT_insert k v \<Rightarrow> Some k | _ \<Rightarrow> None)" by (cases c; simp add: ht_start_def)+
  have "ht_excl t (pcs[j := ht_start c])" using I j s by (intro ht_excl_set) (simp_all add: hts_inv_def)
  moreover have "own_keys (pcs[j := ht_start c])" using I j c s(4) by (intro own_keys_set) (auto simp: hts_inv_def split: ht_call.splits)
  moreover have "\<forall>q \<in> set (pcs[j := ht_start c]). hpc_ok t q" using I s(1) by (auto simp: hts_inv_def dest!: set_update_subset_insert [THEN subsetD])
  ultimately show ?thesis using I by (simp add: hts_inv_def)
qed

lemma ht_reach_inv:
  assumes "ht_reach True t0 m t pcs hist" "ht_inv t0"
  shows "length pcs = m \<and> hts_inv t pcs hist (ht_map t0)"
  using assms
proof (induction rule: ht_reach.induct)
  case ht_new
  then show ?case by (auto simp: hts_inv_def ht_excl_def own_keys_def)
next
  case (ht_call t pcs hist j c)
  then show ?case using hts_inv_call [of t pcs hist "ht_map t0" j c] by simp
next
  case (ht_go t pcs hist j t' pc)
  then show ?case using hts_inv_go [OF _ _ ht_go.hyps(3)] by simp
qed

section \<open>No deadlock\<close>

lemma ht_holder_moves:
  assumes "hpc_ok t pc" "holds_write t pc \<noteq> None \<or> holds_read t pc \<noteq> None"
  shows "\<not> ht_rest pc \<and> snd (ht_step fw fr pc t) \<noteq> pc"
proof (cases pc)
  case (H_rem c i) then show ?thesis by (cases c) (auto simp: Let_def after_remove_def)
next
  case (H_add c i) then show ?thesis using assms(1) by auto
next
  case (H_get c i) then show ?thesis by (auto simp: Let_def)
qed (use assms in auto)

text \<open>As long as a call is under way, some thread can take a step.\<close>

lemma ht_some_runs:
  assumes "hts_inv t pcs hist m0" "j < length pcs" "\<not> ht_rest (pcs ! j)"
  shows "\<exists>k < length pcs. \<not> ht_rest (pcs ! k) \<and> snd (ht_step (free_w t pcs k) (free_r t pcs k) (pcs ! k) t) \<noteq> pcs ! k"
proof (cases "\<exists>k < length pcs. holds_write t (pcs ! k) \<noteq> None \<or> holds_read t (pcs ! k) \<noteq> None")
  case True
  then obtain k where k: "k < length pcs" "holds_write t (pcs ! k) \<noteq> None \<or> holds_read t (pcs ! k) \<noteq> None" by blast
  have "hpc_ok t (pcs ! k)" using assms(1) k(1) by (simp add: hts_inv_def)
  from ht_holder_moves [OF this k(2)] show ?thesis using k(1) by blast
next
  case False
  then have f: "free_w t pcs j l" "free_r t pcs j l" for l by (simp_all add: free_w_def free_r_def)
  have "snd (ht_step (free_w t pcs j) (free_r t pcs j) (pcs ! j) t) \<noteq> pcs ! j" using assms(2,3) False f by (cases "pcs ! j") auto
  then show ?thesis using assms(2,3) by blast
qed

section \<open>Schedules\<close>

text \<open>A schedule of calls and steps; an entry that is not allowed changes nothing.\<close>

fun ht_sched :: "bool \<Rightarrow> (nat \<times> ht_call option) list \<Rightarrow> hashtable_t \<times> ht_pc list \<times> ht_section list \<Rightarrow> hashtable_t \<times> ht_pc list \<times> ht_section list" where
  "ht_sched own [] s = s"
| "ht_sched own ((j, Some c) # acts) (t, pcs, h) =
     (if ht_rest (pcs ! j) \<and> (own \<longrightarrow> (\<forall>pc \<in> set pcs. inserting pc = None)) then ht_sched own acts (t, pcs[j := ht_start c], h) else ht_sched own acts (t, pcs, h))"
| "ht_sched own ((j, None) # acts) (t, pcs, h) =
     (case ht_step (free_w t pcs j) (free_r t pcs j) (pcs ! j) t of (t', pc) \<Rightarrow> ht_sched own acts (t', pcs[j := pc], h @ section_of (pcs ! j) pc))"

lemma ht_sched_reach:
  "ht_reach own t0 m t pcs h \<Longrightarrow> \<forall>(j, a) \<in> set acts. j < m \<Longrightarrow> ht_sched own acts (t, pcs, h) = (t', pcs', h') \<Longrightarrow> ht_reach own t0 m t' pcs' h'"
proof (induction own acts "(t, pcs, h)" arbitrary: t pcs h rule: ht_sched.induct)
  case (2 own j c acts t pcs h)
  show ?case
  proof (cases "ht_rest (pcs ! j) \<and> (own \<longrightarrow> (\<forall>pc \<in> set pcs. inserting pc = None))")
    case True
    then have "ht_reach own t0 m t (pcs[j := ht_start c]) h" using 2(4) by (intro ht_call [OF 2(3)]) (use 2(4) in auto)
    then show ?thesis using 2(1) [OF True] 2(4,5) True by simp
  next
    case False
    then show ?thesis using 2(2) [OF False 2(3)] 2(4,5) by (simp split: if_splits)
  qed
next
  case (3 own j acts t pcs h)
  obtain t1 pc where s: "ht_step (free_w t pcs j) (free_r t pcs j) (pcs ! j) t = (t1, pc)" by fastforce
  have "ht_reach own t0 m t1 (pcs[j := pc]) (h @ section_of (pcs ! j) pc)" by (rule ht_go [OF 3(2) _ s]) (use 3(3) in auto)
  then show ?case using 3(1) [OF s [symmetric]] 3(3,4) s by simp
qed simp

lemma set_bkt_set: "set_bkt (set_bkt t k b) k b' = set_bkt t k b'"
  by (simp add: set_bkt_def)

text \<open>The table of the driver with one list of nodes.\<close>

definition ht_with :: "u64 \<Rightarrow> ht_node_t list \<Rightarrow> hashtable_t" where
  "ht_with k b = set_bkt (the (hashtable_init 128 True True True)) k b"

lemma ht_init_128: "hashtable_init 128 True True True = Some (the (hashtable_init 128 True True True))"
  by (simp add: hashtable_init_def Let_def)

lemma ht_with:
  "bkt_of (ht_with k b) k = b" "set_bkt (ht_with k b) k b' = ht_with k b'" "hashtable_init 128 True True True = Some (ht_with k [])"
  "free_w (ht_with k b) [pc, q] 0 l \<longleftrightarrow> holds_write (ht_with k b) q \<noteq> Some l \<and> holds_read (ht_with k b) q \<noteq> Some l"
  "free_w (ht_with k b) [q, pc] (Suc 0) l \<longleftrightarrow> holds_write (ht_with k b) q \<noteq> Some l \<and> holds_read (ht_with k b) q \<noteq> Some l"
  "free_r (ht_with k b) [pc, q] 0 l \<longleftrightarrow> holds_write (ht_with k b) q \<noteq> Some l" "free_r (ht_with k b) [q, pc] (Suc 0) l \<longleftrightarrow> holds_write (ht_with k b) q \<noteq> Some l"
proof -
  let ?t = "the (hashtable_init 128 True True True)"
  have i: "ht_inv ?t" by (rule hashtable_init_spec(1) [OF _ ht_init_128]) simp
  show "bkt_of (ht_with k b) k = b" "set_bkt (ht_with k b) k b' = ht_with k b'" using bkt_of_set [OF i, of k b k] by (simp_all add: ht_with_def set_bkt_set)
  have "bkt_of ?t k = []" using bkt_less [OF i, of k] by (simp add: hashtable_init_def Let_def)
  then have "set_bkt ?t k [] = ?t" using list_update_id [of "hlistheads ?t" "get_bkt_id ?t k"] by (simp add: set_bkt_def)
  then show "hashtable_init 128 True True True = Some (ht_with k [])" using ht_init_128 by (simp add: ht_with_def)
qed (auto simp: free_w_def free_r_def less_Suc_eq)

section \<open>Properties of the contended table\<close>

text \<open>
  C17. The hash table of the driver is a map also under contention, section by section: however the steps of the
  threads interleave, as long as no two threads insert one key at the same time, every removal, addition
  and lookup returns what a map returns and leaves what it leaves, in the order in which the sections end, and
  while a call is under way some thread can step.  An insertion is two sections, between which its key is absent.
\<close>

theorem ht_steps_refine_map:
  assumes "2 \<le> n" "hashtable_init n True True True = Some t0" "ht_reach True t0 m t pcs hist"
  shows "ht_inv t \<and> sections_spec hist Map.empty = Some (ht_map t) \<and> ((\<exists>j < m. \<not> ht_rest (pcs ! j)) \<longrightarrow>
    (\<exists>k < m. \<not> ht_rest (pcs ! k) \<and> snd (ht_step (free_w t pcs k) (free_r t pcs k) (pcs ! k) t) \<noteq> pcs ! k))"
proof -
  have I: "length pcs = m" "hts_inv t pcs hist Map.empty" using ht_reach_inv [OF assms(3)] hashtable_init_spec [OF assms(1,2)] by simp_all
  then have "ht_inv t" "sections_spec hist Map.empty = Some (ht_map t)" by (simp_all add: hts_inv_def)
  then show ?thesis using ht_some_runs [OF I(2)] I(1) by blast
qed

text \<open>One thread inserts a key, then the other looks it up.\<close>

theorem ht_steps_refine_map_witness:
  "\<exists>t. ht_reach True (ht_with 7 []) 2 t [H_done (HT_insert 7 1) None, H_done (HT_get 7) (Some 1)] [S_rem 7 (- 1), S_add 7 1, S_get 7 1] \<and> ht_map t = [7 \<mapsto> 1]"
proof -
  let ?acts = "(0, Some (HT_insert 7 1)) # replicate 4 (0, None) @ (1, Some (HT_get 7)) # replicate 2 (1, None)"
  have 0: "ht_reach True (ht_with 7 []) 2 (ht_with 7 []) [H_idle, H_idle] []" using ht_new [of True "ht_with 7 []" 2] by (simp add: numeral_2_eq_2)
  have s: "ht_sched True ?acts (ht_with 7 [], [H_idle, H_idle], [])
      = (ht_with 7 [allocate_node 7 1], [H_done (HT_insert 7 1) None, H_done (HT_get 7) (Some 1)], [S_rem 7 (- 1), S_add 7 1, S_get 7 1])"
    by (simp add: eval_nat_numeral ht_start_def ht_with Let_def after_remove_def allocate_node_def)
  have r: "ht_reach True (ht_with 7 []) 2 (ht_with 7 [allocate_node 7 1]) [H_done (HT_insert 7 1) None, H_done (HT_get 7) (Some 1)] [S_rem 7 (- 1), S_add 7 1, S_get 7 1]"
    by (rule ht_sched_reach [OF 0 _ s]) auto
  have "sections_spec [S_rem 7 (- 1), S_add 7 1, S_get 7 1] Map.empty = Some (ht_map (ht_with 7 [allocate_node 7 1]))"
    using ht_steps_refine_map [OF _ ht_with(3) r] by simp
  then have "ht_map (ht_with 7 [allocate_node 7 1]) = [7 \<mapsto> 1]" by (simp add: map_value_def)
  then show ?thesis using r by blast
qed

text \<open>
  Two threads that insert one key at the same time both find no old node and both add one: the removal of the
  key then takes the newer node away, and a lookup returns the value of the older one.
\<close>

theorem concurrent_ht_inserts_duplicate:
  "\<exists>t. ht_reach False (ht_with 7 []) 2 t [H_done (HT_get 7) (Some 1), H_done (HT_remove 7) (Some 2)]
     [S_rem 7 (- 1), S_rem 7 (- 1), S_add 7 1, S_add 7 2, S_rem 7 2, S_get 7 1]"
proof -
  let ?acts = "(0, Some (HT_insert 7 1)) # (1, Some (HT_insert 7 2)) # replicate 2 (0, None) @ replicate 2 (1, None) @ replicate 2 (0, None) @ replicate 2 (1, None)
     @ (1, Some (HT_remove 7)) # replicate 2 (1, None) @ (0, Some (HT_get 7)) # replicate 2 (0, None)"
  have 0: "ht_reach False (ht_with 7 []) 2 (ht_with 7 []) [H_idle, H_idle] []" using ht_new [of False "ht_with 7 []" 2] by (simp add: numeral_2_eq_2)
  have s: "ht_sched False ?acts (ht_with 7 [], [H_idle, H_idle], [])
      = (ht_with 7 [allocate_node 7 1], [H_done (HT_get 7) (Some 1), H_done (HT_remove 7) (Some 2)], [S_rem 7 (- 1), S_rem 7 (- 1), S_add 7 1, S_add 7 2, S_rem 7 2, S_get 7 1])"
    by (simp add: eval_nat_numeral ht_start_def ht_with Let_def after_remove_def allocate_node_def)
  have "ht_reach False (ht_with 7 []) 2 (ht_with 7 [allocate_node 7 1]) [H_done (HT_get 7) (Some 1), H_done (HT_remove 7) (Some 2)]
      [S_rem 7 (- 1), S_rem 7 (- 1), S_add 7 1, S_add 7 2, S_rem 7 2, S_get 7 1]"
    by (rule ht_sched_reach [OF 0 _ s]) auto
  then show ?thesis by blast
qed

end
