(* ===== verification/Spec2Isabelle.thy ===== *)
theory Spec2Isabelle
  imports Hash_Driver Crc Longkey Rdma_Proto KV Rdma_Requests Rdma_Conn Lfstack_Steps Lpa_Steps Worker_Thread Cpu_Profile Logger Data_Mem
    Drv_Backend Drv_Conn Drv_Bench Drv_Module Kv_Steps Cbf_Steps Timing Cpu_Util Ht_Steps
begin

text \<open>
  \<^bold>\<open>Verification of cleancache-rdma.\<close>

  The program keeps clean pages that the Linux page cache drops in the memory of a remote machine.  A kernel
  driver (\<^verbatim>\<open>src/driver\<close>) registers cleancache operations: a dropped page is put, a missing page is got, a page
  that changes is invalidated.  A daemon (\<^verbatim>\<open>src/daemon\<close>) stores the pages of several clients.  The two talk over
  RDMA queue pairs: a put is a send of a key and a page that lands in a page the daemon has posted; a get is a
  write with immediate data of a key and an address, answered by a write of the page; an invalidation is a write
  with immediate data of a key.  The daemon keeps a counting Bloom filter per client and sends it as a bit array
  on request, so that the driver can answer a miss without a message.

  \<^bold>\<open>How the development is organised.\<close>  Every theory models the named files, definitions first, in the order of
  the code and with its names; a name that both sides use has the prefix \<open>drv_\<close> on the side of the driver.
  Structures are records, enumerations datatypes, machine integers words of their width.  A raise or an error
  code is a value (\<open>Inl\<close>, or the number the code returns); \<open>None\<close> stands for behaviour the code does not
  define: a null or dangling pointer, an index outside an array, a division by zero.  What is not code of the
  repository is an argument: the random number generator, the clock, the results of allocations, of the verbs
  library and of the kernel, and the contents of memory that a device writes.  Their documented behaviour is
  a named hypothesis (\<open>verbs_ok\<close> for instance), and every theorem with a hypothesis has a witness in which
  it holds for concrete arguments.

  \<^bold>\<open>Shared parts.\<close>
  \<^item> \<open>Prelude\<close>: integer types, little-endian memory, lemmas on words and sums, and the locale \<open>codec\<close> of
    encodings that decode to what was encoded.
  \<^item> \<open>Text_IO\<close>: decimal printing and padding, as streams and \<^verbatim>\<open>printf\<close> do it.
  \<^item> \<open>Hash_Daemon\<close>, \<open>Hash_Driver\<close>: the eight hash functions of \<^verbatim>\<open>util/hash-funcs\<close> and the table of \<^verbatim>\<open>util/hash.h\<close>,
    both copies.  The portable 128-bit product of komihash is the product; the copies of the hash functions that
    the two filters use agree, so that the bits the daemon sets are those the driver tests.
  \<^item> \<open>Crc\<close>: \<^verbatim>\<open>util/crc8\<close>, \<^verbatim>\<open>util/crc16\<close>.  The tables are the remainders of bitwise polynomial division, so that
    the table loops compute it; a changed sampled byte changes the checksum.
  \<^item> \<open>Longkey\<close>: keys of \<^verbatim>\<open>daemon/Ihash.hpp\<close>, \<^verbatim>\<open>daemon/util/pair.h\<close> and \<^verbatim>\<open>driver/backend.h\<close>: packing is injective,
    reads back and avoids the reserved keys; an interpretation of \<open>codec\<close>.
  \<^item> \<open>Rdma_Proto\<close>: configuration, message types, immediate data and cells of the metadata region
    (\<^verbatim>\<open>daemon/rdma.hpp\<close>, \<^verbatim>\<open>daemon/rdma.cpp\<close>, \<^verbatim>\<open>driver/rdma.h\<close>, \<^verbatim>\<open>driver/rdma.c\<close>): what one side packs the other unpacks,
    both compute the same cells, and cells of different requests are disjoint.

  \<^bold>\<open>Daemon.\<close>
  \<^item> \<open>Lfstack\<close>: \<^verbatim>\<open>util/lfstack\<close> and \<^verbatim>\<open>freelist.hpp\<close>, operations one after the other.  The chains of nodes
    partition the buffer; the locales \<open>bounded_stack\<close> and \<open>free_list\<close> are the contracts, interpreted on the code.
  \<^item> \<open>Lfstack_Steps\<close>: the same code with one step per memory access and any number of threads, compare-and-swap with
    spurious failure included.  While fewer than \<open>2 ^ 64\<close> changes of a head were made, so that the tag of a head
    has not wrapped, histories are linearizable and no node is lost or in two places.
  \<^item> \<open>Linear_Probing\<close>: the index of \<^verbatim>\<open>hash-table/linear_probing_approx\<close>: lookup, deletion, insertion with the
    choice of a victim, background eviction.  The locale \<open>page_index\<close> is the map the rest relies on.  The retry
    loop of the eviction has a list of random draws as its fuel; it is shown to return once a draw past the third
    meets a window that can be evicted from.
  \<^item> \<open>Lpa_Steps\<close>: the same index with one step per bucket, the locks of the bucket ranges and any number of threads.
    Pages are conserved and no call throws under every interleaving, unless an eviction starts over with a victim
    it keeps, for which a schedule that throws is given.  One thread alone deletes and looks up as in \<open>Linear_Probing\<close>; two
    insertions of one key may leave it in two buckets.  Some thread can always step.
  \<^item> \<open>Counting_Bloom\<close>: \<^verbatim>\<open>counting_bloom_filter.hpp\<close> with the search for prime sizes; the locales \<open>approx_filter\<close> and
    \<open>deletable_filter\<close>, which the filters of the driver interpret too.
  \<^item> \<open>Cbf_Steps\<close>: the same filter with one step per load and store of a counter.  With one thread that counts, the
    conversion into bits may run at any time and loses no key; with two, counts are lost.
  \<^item> \<open>Percpu_Pool\<close>: \<^verbatim>\<open>percpu_pool\<close>: free lists per processor and client, thresholds, borrowing; locale \<open>page_pool\<close>.
  \<^item> \<open>KV\<close>: \<^verbatim>\<open>kv.cpp\<close>: index, pool and filters together.  From a new store on pages are conserved, a put, get
    and invalidation act on a map from keys to pages, and the filters report all stored keys.  The retry of a put
    returns within two rounds, and a pass of the evictor is bounded by its threshold.
  \<^item> \<open>Kv_Steps\<close>: the store under any number of threads: each operation walks through the index of its shard as in \<open>Lpa_Steps\<close>,
    then calls the pool and the filters.  Pages are conserved and some thread can always step; an invalidation between
    the index and the filter of a put leaves a key in the filter.
  \<^item> \<open>Rdma_Daemon\<close>, \<open>Rdma_Requests\<close>: handlers and pollers of \<^verbatim>\<open>rdma.cpp\<close>; what one completion does to the store,
    to the posted receive requests and to the replies, and fairness of the global poller.
  \<^item> \<open>Rdma_Conn\<close>: events of the connection manager, set-up of queues, receive requests, memory regions
    (\<^verbatim>\<open>rdma.cpp\<close>, \<^verbatim>\<open>rdma_mem.cpp\<close>, \<^verbatim>\<open>main.cpp\<close>); the start of the daemon returns when its clients connect, and its end
    returns when they disconnect.
  \<^item> \<open>Worker_Thread\<close>: the thread pool of \<^verbatim>\<open>worker_thread.hpp\<close> with callers and workers interleaved: a shutdown runs
    every job but one whose caller had passed the test of the stop flag.
  \<^item> \<open>Data_Mem\<close>, \<open>Logger\<close>: memory blocks of \<^verbatim>\<open>data_mem.hpp\<close>, lines of \<^verbatim>\<open>logger.cpp\<close> and the memory they are written to.
  \<^item> \<open>Cpu_Stats\<close>, \<open>Cpu_Profile\<close>: the files of the kernel as \<^verbatim>\<open>cpu-stats\<close> and \<^verbatim>\<open>cpu_stats.hpp\<close> read them, with streams and
    with \<^verbatim>\<open>fscanf\<close>, up to the differences between two readings; what the kernel prints is read back.
  \<^item> \<open>Float_Round\<close>, \<open>Cpu_Util\<close>: rounding to the precision of \<^verbatim>\<open>float\<close> and \<^verbatim>\<open>double\<close>, and the percentages computed with it: the load
    of the machine is from 0 to 100 and within a thousandth of the true share, the load of the process is a mean.

  \<^bold>\<open>Driver.\<close>
  \<^item> \<open>Drv_Filters\<close>: Bloom and counting Bloom filter, hash table, access filter, fixed stack and the dispatch over
    them (\<^verbatim>\<open>filter\<close>, \<^verbatim>\<open>hashtable.c\<close>, \<^verbatim>\<open>access_filter.h\<close>, \<^verbatim>\<open>util/fixed_stack.h\<close>, \<^verbatim>\<open>metadata.h\<close>), with interpretations of the
    filter contracts and of \<open>exact_map\<close>.
  \<^item> \<open>Ht_Steps\<close>: the hash table with its reader-writer locks, one step per node: every critical section acts on a map, and some
    thread can always step, as long as no two threads insert one key at the same time.
  \<^item> \<open>Drv_Rdma\<close>: the data path of \<^verbatim>\<open>rdma.c\<close>: the ring of 512 put slots, batches of 32, gets and invalidations.
    Operations interleave with the work handlers in the reachable states \<open>put_reach\<close>.
  \<^item> \<open>Drv_Backend\<close>: \<^verbatim>\<open>backend.c\<close>, \<^verbatim>\<open>main.c\<close>, \<^verbatim>\<open>worker.c\<close>: the handlers behind the cleancache operations, and the update
    of the Bloom filter as steps of puts, worker and event handler.
  \<^item> \<open>Drv_Conn\<close>: connection set-up of \<^verbatim>\<open>rdma.c\<close> and \<^verbatim>\<open>rdma_mem.c\<close> with its error paths.
  \<^item> \<open>Drv_Module\<close>: kernel objects that loading acquires and unloading gives back.
  \<^item> \<open>Drv_Bench\<close>: the benchmark module \<^verbatim>\<open>rdma_test.c\<close>: its memory, its tests over the backend and their verdict.

  \<^bold>\<open>Both sides.\<close>
  \<^item> \<open>Timing\<close>: break-down of latencies, timers, the steady clock, counters per processor and the debugfs entries
    (\<^verbatim>\<open>breakdown\<close>, \<^verbatim>\<open>stats\<close>, \<^verbatim>\<open>timer\<close>, \<^verbatim>\<open>fast_mono_clock.hpp\<close>, \<^verbatim>\<open>debugfs.c\<close>): the sums they keep are exact, the clock does not
    run backwards, and every counter has one file.

  \<^bold>\<open>This theory\<close> joins the two sides: a get, a put and a filter update, from the call in the driver through the
  handler of the daemon back to what the driver then holds.

  \<^bold>\<open>Bounds.\<close>  Theorems about counters of the code that wrap have the bound as a hypothesis (fewer than \<open>2 ^ 31\<close>
  puts per connection, fewer than \<open>2 ^ 64\<close> changes of a head, at most 255 keys per counter of a filter), and where the
  program does not keep the bound itself, what happens beyond it is a theorem of its own.

  \<^bold>\<open>Not modelled.\<close>  The size of a filter in \<^verbatim>\<open>calc_filter_param\<close>, which takes logarithms in floating
  point: it is an argument.  What is only printed: the
  utilisation of index and filters and the tables of \<^verbatim>\<open>ShowStats\<close>.  Interleaving where it is not named above: in the contended store one
  call of the pool or of a filter is one step, and the filters of the driver are atomic, whereas the lock-free
  stack, the index, the hash table of the driver, the store, the counting filter, the put ring, the filter update and the thread pool are modelled step by step.
  The code under \<^verbatim>\<open>#if 0\<close>.
\<close>

section \<open>Driver and daemon together\<close>

text \<open>The 64-bit words that the daemon loads from \<open>a\<close> on after the device has written \<open>msg\<close> there.\<close>

definition mem_holds :: "handler_env \<Rightarrow> u64 \<Rightarrow> bytes \<Rightarrow> bool" where
  "mem_holds e a msg \<longleftrightarrow> (\<forall>i. 8 * i + 8 \<le> length msg \<longrightarrow> h_mem e (a + of_nat (8 * i)) = le_load 8 (drop (8 * i) msg))"

lemma le_load_append: "n \<le> length xs \<Longrightarrow> le_load n (xs @ ys) = le_load n xs"
  by (induction n xs rule: le_load.induct) simp_all

lemma mem_holds_word:
  "mem_holds e a (xs @ le_bytes k @ ys) \<Longrightarrow> length xs = 8 * i \<Longrightarrow> h_mem e (a + of_nat (8 * i)) = k"
  by (auto simp: mem_holds_def le_load_append dest!: spec [of _ i])

lemma get_meta_region:
  "KEY_META_REGION dcc_rdma_set_default_config base qid mid (msg_num MSG_READ) = base + GET_METADATA_OFFSET put_cfg qid mid' (msg_num MSG_READ)"
  by (simp add: KEY_META_REGION_def GET_METADATA_OFFSET_def metadata_default ac_simps)

lemma drv_CRC8_eq: "drv_CRC8 = CRC8"
  by (simp add: fun_eq_iff drv_CRC8_def CRC8_def drv_tables_eq)

text \<open>What a get of the driver returns for the reply of the daemon.\<close>

lemma get_reply_result:
  assumes "mid < 2 ^ 12"
  shows "write_msg_result (h_crc_check e) crc0 (get_reply_imm e mid x) pg =
    (case x of None \<Rightarrow> 1 | Some v \<Rightarrow> if CRC8 (h_crc_check e) (h_page e v) = CRC8 (h_crc_check e) pg then 0 else - 4)"
proof -
  note u = get_reply_unmask [OF assms, of e x]
  have "get_reply_imm e mid x \<noteq> 0"
  proof
    assume "get_reply_imm e mid x = 0"
    then have "fst (snd (drv_bit_unmask (ntohl (get_reply_imm e mid x)))) = 0" by (simp add: ntohl_def bswap32_def drv_bit_unmask_def)
    then show False unfolding u by (cases x) simp_all
  qed
  moreover have "ucast (ucast w :: u32) = w" for w :: u8 by (rule bit_word_eqI) (simp add: bit_simps)
  ultimately show ?thesis using u by (cases x) (simp_all add: write_msg_result_def drv_poll_recv_cq_def drv_CRC8_eq)
qed

text \<open>
  C1. A get works end to end: when the daemon handles the request that the driver wrote, it replies to
  the address the driver mapped, and the driver's get returns 0 exactly when a page is stored under the
  key and what arrived has the checksum of that page, 1 when no page is stored, and -4 otherwise.
\<close>

theorem get_end_to_end:
  assumes "daemon_inv N all s held" "queue_ok s cid qid" "verbs_ok e" "rdma_config (dkv s) = dcc_rdma_set_default_config"
    and "meta_addr (mms s cid) = svr_baseaddr mm" "unreserved key" "key_cid key = cid"
    and "dcc_rdma_write_msg put_cfg mm cpu key (True, dma, False) (h_crc_check e) crc0 reply pg = Inr ((qid, wr, msg), ret)"
    and "deliver cid qid IBV_WC_RECV_RDMA_WITH_IMM (d_imm wr) s = Some (wc, s1)" "wc_wr_id wc = 0" "mem_holds e (d_remote_addr wr) msg"
  shows "\<exists>s' rwr. dispatch e cid qid wc s1 = Some (Inr s') \<and> sends s' = sends s @ [(cid, qid, rwr)] \<and> swr_raddr rwr = dma
    \<and> map sge_addr (swr_sges rwr) = (case kv_map (dkv s) key of None \<Rightarrow> [] | Some v \<Rightarrow> [v])
    \<and> (reply = swr_imm rwr \<longrightarrow> ret = (case kv_map (dkv s) key of None \<Rightarrow> 1
         | Some v \<Rightarrow> if CRC8 (h_crc_check e) (h_page e v) = CRC8 (h_crc_check e) pg then 0 else - 4))"
proof -
  have w: "d_imm wr = request_imm 0 MSG_READ TX_READ_BEGIN" "msg = le_bytes key @ le_bytes dma"
      "d_remote_addr wr = KEY_META_REGION (rdma_config (dkv s)) (meta_addr (mms s cid)) qid (unat (0 :: u32)) (msg_num MSG_READ)"
      "ret = write_msg_result (h_crc_check e) crc0 reply pg"
    using assms(8) get_meta_region [of "svr_baseaddr mm" qid 0 0]
    by (auto simp: dcc_rdma_write_msg_def get_req_for_page_def write_msg_wr_def request_imm_def assms(4,5) Let_def simp del: msg_num.simps tx_num.simps)
  have m: "h_mem e (d_remote_addr wr) = key" "h_mem e (d_remote_addr wr + 8) = dma"
    using mem_holds_word [of e "d_remote_addr wr" "[]" key "le_bytes dma" 0] mem_holds_word [of e "d_remote_addr wr" "le_bytes key" dma "[]" 1] assms(11) w(2) by simp_all
  have k: "key = get_key e cid qid 0 s" using m(1) w(3) by (simp add: get_key_def)
  have a: "h_mem e (ADDR_META_REGION (rdma_config (dkv s)) (meta_addr (mms s cid)) qid (unat (0 :: u32))) = dma"
    using m(2) w(3) by (simp add: ADDR_META_REGION_def)
  have d: "deliver cid qid IBV_WC_RECV_RDMA_WITH_IMM (request_imm 0 MSG_READ TX_READ_BEGIN) s = Some (wc, s1)" using assms(9) w(1) by simp
  have z: "(0 :: u32) < 2 ^ 12" by simp
  show ?thesis using get_completion [OF assms(1-3) z d k assms(6,7)] a w(4) get_reply_result [OF z, of e crc0] by auto
qed

text \<open>The memory of the small daemon holds the number 77 in every word.\<close>

lemma mem_holds_77: "mem_holds req_env a (concat (replicate n (le_bytes 77)))"
proof -
  have "le_load 8 (drop (8 * i) (concat (replicate n (le_bytes 77)))) = 77" if "8 * i + 8 \<le> 8 * n" for i
    using that
  proof (induction n arbitrary: i)
    case (Suc n) then show ?case by (cases i) (simp_all add: le_load_append)
  qed simp
  then show ?thesis by (simp add: mem_holds_def req_env_ok(3) length_concat sum_list_replicate mult.commute)
qed

text \<open>The small daemon with page 8192 stored under key 77 and an empty receive request on queue \<open>qid\<close>.\<close>

lemma small_daemon_stored:
  assumes "qid < 9"
  obtains k where "kv_map k = [77 \<mapsto> 8192]" "rdma_config k = dcc_rdma_set_default_config" "kv_filters k ((\<lambda>_. {#})(0 := {#77#}))"
    "daemon_inv 34 (add_mset 8192 (add_mset 8193 (mset (slots 65536 32)))) (daemon_recv k qid 0) {#8193#}"
    "queue_ok (daemon_recv k qid 0) 0 qid" "dkv (daemon_recv k qid 0) = k" "sends (daemon_recv k qid 0) = []" "meta_addr (mms (daemon_recv k qid 0) 0) = 4096"
    "cbf_on (config k)" "num_hash (cbfs k ! 0) = 3" "num_bits (cbfs k ! 0) = 17"
proof -
  obtain k where k: "kv_Insert [env0, env0] 77 8192 0 0 kv_small = Some (Inr k)" "kv_map k = [77 \<mapsto> 8192]" "config k = config kv_small"
      "kv_inv 34 (add_mset 8192 (add_mset 8193 (mset (slots 65536 32)))) k {#8193#}" "kv_filters k ((\<lambda>_. {#})(0 := {#77#}))"
      "num_hash (cbfs k ! 0) = 3 \<and> num_bits (cbfs k ! 0) = 17"
    using kv_small_put by blast
  have "cbf_on (config k)" using k(3) kv_small_filter(2) by simp
  moreover have q: "num_qps (rdma_config k) = 9" "num_clients (config k) = 1" "rdma_config k = dcc_rdma_set_default_config"
    using kv_Insert_rdma [OF k(1)] kv_small_qps kv_small_new k(3) by simp_all
  ultimately show ?thesis using that [OF k(2) q(3) k(5)] daemon_recv_inv [OF k(4), of 0 qid] q(1,2) k(6) assms by (auto simp: daemon_recv_def post_recv_def daemon_on_def Let_def)
qed

theorem get_end_to_end_witness:
  "\<exists>k wr msg reply wc s1 s' rwr. kv_map k = [77 \<mapsto> 8192]
     \<and> dcc_rdma_write_msg put_cfg (mm_idle\<lparr>svr_baseaddr := 4096\<rparr>) 0 77 (True, 77, False) False 0 reply [] = Inr ((2, wr, msg), 0)
     \<and> deliver 0 2 IBV_WC_RECV_RDMA_WITH_IMM (d_imm wr) (daemon_recv k 2 0) = Some (wc, s1)
     \<and> dispatch req_env 0 2 wc s1 = Some (Inr s') \<and> sends s' = [(0, 2, rwr)] \<and> swr_raddr rwr = 77 \<and> swr_imm rwr = reply"
proof -
  let ?mm = "mm_idle\<lparr>svr_baseaddr := 4096\<rparr>" and ?msg = "le_bytes 77 @ le_bytes 77"
  obtain k where k: "kv_map k = [77 \<mapsto> 8192]" "rdma_config k = dcc_rdma_set_default_config" "daemon_inv 34 (add_mset 8192 (add_mset 8193 (mset (slots 65536 32)))) (daemon_recv k 2 0) {#8193#}"
    "queue_ok (daemon_recv k 2 0) 0 2" "dkv (daemon_recv k 2 0) = k" "sends (daemon_recv k 2 0) = []" "meta_addr (mms (daemon_recv k 2 0) 0) = 4096"
    using small_daemon_stored [of 2] by auto
  define wr where "wr = fst (write_msg_wr put_cfg ?mm 2 77 77)"
  have w: "dcc_rdma_write_msg put_cfg ?mm 0 77 (True, 77, False) (h_crc_check req_env) 0 reply [] = Inr ((2, wr, ?msg), write_msg_result False 0 reply [])" for reply
    by (simp add: dcc_rdma_write_msg_def get_req_for_page_def get_queue_def wr_def write_msg_wr_def req_env_def Let_def flip: numeral_2_eq_2)
  obtain s1 where d: "deliver 0 2 IBV_WC_RECV_RDMA_WITH_IMM (d_imm wr) (daemon_recv k 2 0) = Some (\<lparr>wc_op = IBV_WC_RECV_RDMA_WITH_IMM, wc_wr_id = 0, wc_imm = d_imm wr\<rparr>, s1)"
    using daemon_recv_deliver by blast
  have h: "mem_holds req_env (d_remote_addr wr) ?msg" using mem_holds_77 [of _ 2] by (simp add: numeral_2_eq_2)
  have c: "rdma_config (dkv (daemon_recv k 2 0)) = dcc_rdma_set_default_config" "meta_addr (mms (daemon_recv k 2 0) 0) = svr_baseaddr ?mm" using k by simp_all
  note G = get_end_to_end [OF k(3,4) req_env_ok(1) c key77(1,2) w d _ h]
  obtain s' rwr where s': "dispatch req_env 0 2 \<lparr>wc_op = IBV_WC_RECV_RDMA_WITH_IMM, wc_wr_id = 0, wc_imm = d_imm wr\<rparr> s1 = Some (Inr s')" "sends s' = [(0, 2, rwr)]" "swr_raddr rwr = 77"
    using G [of 0] k(6) by auto
  have "write_msg_result False 0 (swr_imm rwr) [] = 0" using G [of "swr_imm rwr"] s' k(1,5,6) by (auto simp: CRC8_def req_env_def)
  then have "dcc_rdma_write_msg put_cfg ?mm 0 77 (True, 77, False) False 0 (swr_imm rwr) [] = Inr ((2, wr, ?msg), 0)" using w [of "swr_imm rwr"] by (simp add: req_env_def)
  then show ?thesis using k(1) d s' by blast
qed

lemma put_reach_pages: "put_reach mm c plog outs \<Longrightarrow> \<forall>x \<in> set plog. length (fst x) = 4096"
  by (induction rule: put_reach.induct) auto

text \<open>
  C2. A put works end to end: every message of a batch is one accepted page with its key, its immediate
  data is the number of its slot, and when it has arrived in a page posted on queue 0 the daemon stores
  that page under the key the driver was given, or leaves the store as it is; no page is lost.
\<close>

theorem put_end_to_end:
  assumes "put_reach mm c plog outs" "m \<in> set (works c)" "send_page_work_handler put_cfg mm imm m c = (c', sent, r)" "(wr, msg) \<in> set sent"
    and "\<forall>(pg, key) \<in> set plog. unreserved key \<and> key_cid key = cid"
    and "daemon_inv N all s held" "queue_ok s cid 0" "rdma_config (dkv s) = dcc_rdma_set_default_config" "verbs_ok e" "h_kv e = e1 # e2 # es"
    and "deliver cid 0 IBV_WC_RECV (d_imm wr) s = Some (wc, s1)" "wc_wr_id wc \<noteq> 0" "mem_holds e (wc_wr_id wc) msg"
  shows "\<exists>i pg key s'. i < length plog \<and> plog ! i = (pg, key) \<and> take 4096 msg = pg
    \<and> bit_unmask (ntohl (d_imm wr)) = (of_nat (i mod 512), msg_num MSG_WRITE, tx_num TX_WRITE_BEGIN, 0, 0)
    \<and> dispatch e cid 0 wc s1 = Some (Inr s') \<and> daemon_inv N all s' held
    \<and> (kv_map (dkv s') = kv_map (dkv s) \<or> put_spec (kv_map (dkv s)) key (wc_wr_id wc) (kv_map (dkv s')))"
proof -
  obtain bs ds where I: "sent_inv c plog outs bs ds" using put_reach_inv [OF assms(1)] by blast
  then obtain b where b: "b \<in> set bs" "m = 32 * int (b mod 16) + 31" and pi: "put_inv c plog bs" using assms(2) by (auto simp: sent_inv_def put_inv_def)
  note W = work_step [OF pi b assms(3)]
  have l: "length sent = 32" using arg_cong [OF W(2), of length] by (simp add: batch_msgs_def)
  obtain j where j: "j < 32" "sent ! j = (wr, msg)" using assms(4) l by (auto simp: in_set_conv_nth)
  let ?i = "32 * b + j"
  have i: "?i < length plog" using pi b(1) j(1) by (auto simp: put_inv_def pending_ok_def dest!: bspec)
  obtain pg key where x: "plog ! ?i = (pg, key)" by fastforce
  have msg: "msg = pg @ le_bytes key" using arg_cong [OF W(2), of "\<lambda>xs. xs ! j"] j l x by (simp add: batch_msgs_def keypage_msg_def)
  have mem: "(pg, key) \<in> set plog" using i x by (metis nth_mem)
  then have pg: "length pg = 4096" using put_reach_pages [OF assms(1)] by force
  have imm: "d_imm wr = request_imm (of_nat (?i mod 512)) MSG_WRITE TX_WRITE_BEGIN"
    using arg_cong [OF W(3), of "\<lambda>xs. xs ! j"] j l by (simp add: request_imm_def del: of_nat_mod msg_num.simps tx_num.simps)
  have "(of_nat (?i mod 512) :: u32) < 2 ^ 12"
    using mod_less_divisor [of 512 ?i] by (simp add: word_less_nat_alt unat_of_nat take_bit_nat_eq_self del: of_nat_mod)
  note u = request_imm_unmask [OF this, of MSG_WRITE TX_WRITE_BEGIN, folded imm]
  have k: "key = h_mem e (wc_wr_id wc + 4096)" using mem_holds_word [of e "wc_wr_id wc" pg key "[]" 512] assms(13) msg pg by simp
  have q: "0 < num_data_qps (rdma_config (dkv s))" using assms(8) by (simp add: metadata_default)
  have "unreserved key" "key_cid key = cid" using assms(5) mem by auto
  from put_completion [OF assms(6,7) q assms(9-12) k this] i x msg pg u show ?thesis by (intro exI [of _ ?i]) auto
qed

theorem put_end_to_end_witness:
  "\<exists>c plog m c' sent r wr msg wc s1 pg s'. put_reach mm_idle c plog [] \<and> m \<in> set (works c) \<and> send_page_work_handler put_cfg mm_idle 0 m c = (c', sent, r) \<and> (wr, msg) \<in> set sent
     \<and> deliver 0 0 IBV_WC_RECV (d_imm wr) (daemon_recv kv_small 0 8192) = Some (wc, s1) \<and> dispatch req_env 0 0 wc s1 = Some (Inr s')
     \<and> (pg, 77) \<in> set plog \<and> take 4096 msg = pg"
proof -
  define pg where "pg = concat (replicate 512 (le_bytes 77))"
  let ?plog = "replicate 32 (pg, 77 :: u64)"
  have pg: "length pg = 4096" "pg @ le_bytes 77 = concat (replicate 513 (le_bytes 77))"
    using concat_append [of "replicate 512 (le_bytes 77)" "[le_bytes 77]"] replicate_append_same [of 512 "le_bytes 77"]
    by (simp_all add: pg_def length_concat sum_list_replicate flip: replicate_Suc)
  obtain c where c: "put_reach mm_idle c ?plog []" "works c = [31]" using put_run [OF ctrl_idle_reach, of ?plog mm_idle] pg(1) by (auto simp: ctrl_idle_def)
  obtain c' sent r where h: "send_page_work_handler put_cfg mm_idle 0 31 c = (c', sent, r)" by (cases "send_page_work_handler put_cfg mm_idle 0 31 c")
  obtain bs ds where I: "sent_inv c ?plog [] bs ds" using put_reach_inv [OF c(1)] by blast
  then obtain b where b: "b \<in> set bs" "31 = 32 * int (b mod 16) + 31" and pi: "put_inv c ?plog bs" using c(2) by (auto simp: sent_inv_def put_inv_def)
  have b0: "b < 1" using pi b(1) by (auto simp: put_inv_def pending_ok_def)
  have m: "map snd sent = batch_msgs ?plog 0" using work_step(2) [OF pi b h] b0 by simp
  have "length sent = 32" using arg_cong [OF m, of length] by (simp add: batch_msgs_def)
  then have in0: "sent ! 0 \<in> set sent" by (intro nth_mem) simp
  obtain wr msg where wm: "sent ! 0 = (wr, msg)" by fastforce
  have "msg = pg @ le_bytes 77" using arg_cong [OF m, of "\<lambda>xs. xs ! 0"] wm \<open>length sent = 32\<close> by (simp add: batch_msgs_def keypage_msg_def)
  then have mem: "mem_holds req_env 8192 msg" using mem_holds_77 pg(2) by simp
  have s: "daemon_inv 34 (add_mset 8192 (mset (slots 65536 32))) (daemon_recv kv_small 0 8192) {#}" "queue_ok (daemon_recv kv_small 0 8192) 0 0"
      "dkv (daemon_recv kv_small 0 8192) = kv_small"
    using daemon_small [of 8192 0] kv_small_qps by auto
  obtain s1 where d: "deliver 0 0 IBV_WC_RECV (d_imm wr) (daemon_recv kv_small 0 8192) = Some (\<lparr>wc_op = IBV_WC_RECV, wc_wr_id = 8192, wc_imm = d_imm wr\<rparr>, s1)"
    using daemon_recv_deliver by blast
  have l: "\<forall>(p, key) \<in> set ?plog. unreserved key \<and> key_cid key = 0" using key77 by simp
  obtain i p key s' where e: "i < 32" "?plog ! i = (p, key)" "take 4096 msg = p" "dispatch req_env 0 0 \<lparr>wc_op = IBV_WC_RECV, wc_wr_id = 8192, wc_imm = d_imm wr\<rparr> s1 = Some (Inr s')"
    using put_end_to_end [OF c(1) _ h in0 [unfolded wm] l s(1,2) _ req_env_ok(1,2) d] mem c(2) s(3) kv_small_new by auto
  then show ?thesis using c h in0 wm d
    by (intro exI [of _ c] exI [of _ ?plog] exI [of _ 31] exI [of _ c'] exI [of _ sent] exI [of _ r] exI [of _ wr] exI [of _ msg] exI conjI) auto
qed

text \<open>The driver reads the bit array of the daemon as the daemon does.\<close>

lemma bits_cover_daemon:
  assumes "bf_num_hash f = num_hash g" "bf_num_bits f = num_bits g"
  shows "bits_cover f (le_bytes k) (bf_long_bitarr g) \<longleftrightarrow> BFMightContain k g"
proof -
  have "bf_indices f (le_bytes k) = cbf_indices g k"
    using assms by (simp add: bf_indices_def cbf_indices_def compute_hash_def computeHash_def drv_hash_funcs_eq drv_seed_eq)
  then show ?thesis by (simp add: bits_cover_def BFMightContain_all)
qed

text \<open>
  C3. The filter update works end to end: while the request of the only server is outstanding, the daemon
  answers it with its bit array, and after that array has been written into the filter of the driver and
  the event handler has run, the driver finds every key the daemon stores for it and every key it must
  find because it was put in the meantime.
\<close>

theorem filter_update_end_to_end:
  assumes "daemon_inv N all s held" "kv_filters (dkv s) Ms" "cbf_on (config (dkv s))" "queue_ok s cid qid" "qid = num_data_qps (rdma_config (dkv s))"
    and "verbs_ok e" "deliver cid qid IBV_WC_RECV FILTER_UPDATE_BEGIN s = Some (wc, s1)"
    and "upd_reach 1 u pend must" "requests u 0 > 0"
    and "bf_num_hash (filters u 0) = num_hash (cbfs (dkv s) ! cid)" "bf_num_bits (filters u 0) = num_bits (cbfs (dkv s) ! cid)"
  shows "\<exists>s' wr P u'. dispatch e cid qid wc s1 = Some (Inr s') \<and> sends s' = sends s @ [(cid, qid, wr)] \<and> pend 0 = [P]
    \<and> u' = filter_event_handler 0 [(True, IB_WC_RECV_RDMA_WITH_IMM, swr_imm wr)]
          (u\<lparr>filters := (filters u)(0 := (filters u 0)\<lparr>bitmap := bf_long_bitarr (cbfs (dkv s') ! cid)\<rparr>)\<rparr>)
    \<and> \<not> check_merging (filters u' 0)
    \<and> (\<forall>k v. kv_map (dkv s) k = Some v \<and> key_cid k = cid \<longrightarrow> bf_might_contain (le_bytes k) (filters u' 0))
    \<and> (\<forall>k \<in> P. bf_might_contain (le_bytes k) (filters u' 0))"
proof -
  let ?f = "filters u 0" and ?g = "fst (ToOrdinaryBF (cbfs (dkv s) ! cid))"
  obtain s' wr where d: "dispatch e cid qid wc s1 = Some (Inr s')" "sends s' = sends s @ [(cid, qid, wr)]" "swr_imm wr = FILTER_UPDATE_END"
      "cbfs (dkv s') ! cid = ?g" "cbf_shape (cbfs (dkv s) ! cid)"
      "\<And>k v. kv_map (dkv s) k = Some v \<and> key_cid k = cid \<longrightarrow> BFMightContain k (cbfs (dkv s') ! cid)"
    using filter_request [OF assms(1-7)] by blast
  have U: "bf_shape ?f" "upd_phase u pend" using upd_single [OF assms(8) refl] by auto
  then obtain P where P: "pend 0 = [P]" "\<forall>k \<in> P. bits_cover ?f (le_bytes k) (tmp_bitmap ?f)" using assms(9) by (auto simp: upd_phase_def)
  let ?h = "?f\<lparr>bitmap := bf_long_bitarr ?g\<rparr>"
  have "length (bf_long_bitarr ?g) = BITS_TO_LONGS (bf_num_bits ?f)" using d(5) assms(11) by (simp add: cbf_shape_def)
  then have h: "bf_shape ?h" by (rule bf_shape_bitmap [OF U(1)])
  note B = bf_unblocking_spec [OF h]
  have s: "bits_cover ?h (le_bytes k) (bitmap ?h)" if "kv_map (dkv s) k = Some v \<and> key_cid k = cid" for k v
    using bits_cover_daemon [of ?h ?g k] d(6) [of k v] d(4) that assms(10,11) by simp
  have "\<forall>k \<in> P. bits_cover ?h (le_bytes k) (tmp_bitmap ?h)" using P(2) by simp
  then have "\<forall>k v. kv_map (dkv s) k = Some v \<and> key_cid k = cid \<longrightarrow> bf_might_contain (le_bytes k) (bf_unblocking ?h)"
      "\<forall>k \<in> P. bf_might_contain (le_bytes k) (bf_unblocking ?h)" "\<not> check_merging (bf_unblocking ?h)"
    using B(2,3) s by auto
  then show ?thesis using d(1-4) P(1)
    by (intro exI [of _ s'] exI [of _ wr] exI [of _ P]) (simp add: filter_process_imm_def dcc_backend_update_filter_def)
qed

theorem filter_update_end_to_end_witness:
  "\<exists>k wc s1 s' wr u'. kv_map k 77 = Some 8192 \<and> deliver 0 8 IBV_WC_RECV FILTER_UPDATE_BEGIN (daemon_recv k 8 0) = Some (wc, s1)
     \<and> dispatch req_env 0 8 wc s1 = Some (Inr s') \<and> sends s' = [(0, 8, wr)]
     \<and> u' = filter_event_handler 0 [(True, IB_WC_RECV_RDMA_WITH_IMM, swr_imm wr)] ((do_update_filter_begin 0 (upd_init 3 17))
          \<lparr>filters := (filters (do_update_filter_begin 0 (upd_init 3 17)))(0 := (filters (do_update_filter_begin 0 (upd_init 3 17)) 0)\<lparr>bitmap := bf_long_bitarr (cbfs (dkv s') ! 0)\<rparr>)\<rparr>)
     \<and> bf_might_contain (le_bytes 77) (filters u' 0)"
proof -
  let ?u = "do_update_filter_begin 0 (upd_init 3 17)"
  have r0: "upd_reach 1 (upd_init 3 17) (\<lambda>_. []) (\<lambda>_. {})" by (rule upd_init_reach) simp
  have "pcs (upd_init 3 17) 0 = Sleeping" by (simp add: upd_init_def)
  from upd_begin [OF r0 zero_less_one this] obtain pend where u: "upd_reach 1 ?u pend (\<lambda>_. {})" by auto
  have f: "requests ?u 0 > 0" "bf_num_hash (filters ?u 0) = 3" "bf_num_bits (filters ?u 0) = 17"
    by (simp_all add: do_update_filter_begin_def upd_init_def bf_init_def bf_blocking_def Let_def)
  obtain k where k: "kv_map k = [77 \<mapsto> 8192]" "rdma_config k = dcc_rdma_set_default_config" "kv_filters k ((\<lambda>_. {#})(0 := {#77#}))"
    "daemon_inv 34 (add_mset 8192 (add_mset 8193 (mset (slots 65536 32)))) (daemon_recv k 8 0) {#8193#}"
    "queue_ok (daemon_recv k 8 0) 0 8" "dkv (daemon_recv k 8 0) = k" "sends (daemon_recv k 8 0) = []" "cbf_on (config k)"
    "num_hash (cbfs k ! 0) = 3" "num_bits (cbfs k ! 0) = 17"
    using small_daemon_stored [of 8] by auto
  obtain s1 where d: "deliver 0 8 IBV_WC_RECV FILTER_UPDATE_BEGIN (daemon_recv k 8 0) = Some (\<lparr>wc_op = IBV_WC_RECV, wc_wr_id = 0, wc_imm = FILTER_UPDATE_BEGIN\<rparr>, s1)"
    using daemon_recv_deliver by blast
  have q: "8 = num_data_qps (rdma_config (dkv (daemon_recv k 8 0)))" "kv_filters (dkv (daemon_recv k 8 0)) ((\<lambda>_. {#})(0 := {#77#}))" "cbf_on (config (dkv (daemon_recv k 8 0)))"
      "bf_num_hash (filters ?u 0) = num_hash (cbfs (dkv (daemon_recv k 8 0)) ! 0)" "bf_num_bits (filters ?u 0) = num_bits (cbfs (dkv (daemon_recv k 8 0)) ! 0)"
    using k f by (simp_all add: metadata_default)
  show ?thesis using filter_update_end_to_end [OF k(4) q(2,3) k(5) q(1) req_env_ok(1) d u f(1) q(4,5)] k(1,6,7) d key77(2) by (intro exI [of _ k]) fastforce
qed

end
